(* ===== verification/Prelude.thy ===== *)
theory Prelude
  imports Main "HOL-Library.Word" "HOL-Library.Monad_Syntax"
begin

text \<open>
  The vocabulary every other theory shares.

  \<^item> The fixed-width integer types of the code are words (\<open>u8\<close> for \<open>uint8_t\<close>, and so on);
    a signed type is a word of the same width that is read with \<open>sint\<close>.
  \<^item> \<open>size_t\<close> is a natural number; where the code adds or subtracts sizes and the result can
    leave the range, the model uses \<open>szadd\<close> and \<open>szsub\<close>, which wrap at \<open>2 ^ 64\<close> (an LP64
    target; the width is the constant \<open>size_bits\<close>).
  \<^item> Memory that an operation reads or writes is a list, one entry per array element. A read or
    write outside of it is undefined behaviour in C++; \<open>aread\<close>, \<open>awrite\<close> and \<open>acopy\<close>
    return \<open>None\<close> there, so "the operation returns \<open>Some\<close>" is memory safety.
\<close>

unbundle bit_operations_syntax

type_synonym u8 = "8 word"
type_synonym u16 = "16 word"
type_synonym u32 = "32 word"
type_synonym u64 = "64 word"
type_synonym i8 = "8 word"
type_synonym i16 = "16 word"
type_synonym i32 = "32 word"
type_synonym i64 = "64 word"
type_synonym size_t = nat

text \<open>Facts that unfold the accesses of a memory, used by \<open>simp add: mem_simps\<close>.\<close>

named_theorems mem_simps
named_theorems word_value_simps

subsection \<open>Sizes\<close>

definition size_bits :: nat where
  "size_bits = 64"

definition szadd :: "size_t \<Rightarrow> size_t \<Rightarrow> size_t" where
  "szadd a b = (a + b) mod 2 ^ size_bits"

definition szsub :: "size_t \<Rightarrow> size_t \<Rightarrow> size_t" where
  "szsub a b = (a + (2 ^ size_bits - b mod 2 ^ size_bits)) mod 2 ^ size_bits"

lemma szadd_exact: "a + b < 2 ^ size_bits \<Longrightarrow> szadd a b = a + b"
  by (simp add: szadd_def)

lemma szsub_exact: "b \<le> a \<Longrightarrow> a < 2 ^ size_bits \<Longrightarrow> szsub a b = a - b"
proof -
  assume "b \<le> a" and a: "a < 2 ^ size_bits"
  then have "szsub a b = ((a - b) + 2 ^ size_bits) mod 2 ^ size_bits"
    by (simp add: szsub_def)
  with a show ?thesis by (simp only: mod_add_self2) (simp add: less_imp_diff_less)
qed

subsection \<open>Reading and writing a memory\<close>

definition aread :: "'a list \<Rightarrow> nat \<Rightarrow> 'a option" where
  "aread m i = (if i < length m then Some (m ! i) else None)"

definition awrite :: "'a list \<Rightarrow> nat \<Rightarrow> 'a \<Rightarrow> 'a list option" where
  "awrite m i v = (if i < length m then Some (m[i := v]) else None)"

text \<open>\<open>memcpy\<close> and \<open>memmove\<close>: the source is read completely before the first write.\<close>

definition acopy :: "'a list \<Rightarrow> nat \<Rightarrow> 'a list \<Rightarrow> 'a list option" where
  "acopy m i vs = (if i + length vs \<le> length m
     then Some (take i m @ vs @ drop (i + length vs) m) else None)"

lemma aread_Some [mem_simps]: "i < length m \<Longrightarrow> aread m i = Some (m ! i)"
  by (simp add: aread_def)

lemma awrite_Some [mem_simps]: "i < length m \<Longrightarrow> awrite m i v = Some (m[i := v])"
  by (simp add: awrite_def)

lemma acopy_Some [mem_simps]:
  "i + length vs \<le> length m \<Longrightarrow> acopy m i vs = Some (take i m @ vs @ drop (i + length vs) m)"
  by (simp add: acopy_def)

lemma aread_eq_Some: "aread m i = Some v \<longleftrightarrow> i < length m \<and> v = m ! i"
  by (auto simp: aread_def)

lemma awrite_eq_Some: "awrite m i v = Some m' \<longleftrightarrow> i < length m \<and> m' = m[i := v]"
  by (auto simp: awrite_def)

lemma acopy_eq_Some: "acopy m i vs = Some m' \<longleftrightarrow>
    i + length vs \<le> length m \<and> m' = take i m @ vs @ drop (i + length vs) m"
  by (auto simp: acopy_def)

lemma acopy_Nil [simp]: "i \<le> length m \<Longrightarrow> acopy m i [] = Some m"
  by (simp add: acopy_def)

lemma length_acopy: "acopy m i vs = Some m' \<Longrightarrow> length m' = length m"
  by (auto simp: acopy_eq_Some)

lemma nth_acopy:
  "acopy m i vs = Some m' \<Longrightarrow> k < length m \<Longrightarrow>
     m' ! k = (if i \<le> k \<and> k < i + length vs then vs ! (k - i) else m ! k)"
  by (auto simp: acopy_eq_Some nth_append)

lemma acopy_view: "acopy m i vs = Some m' \<Longrightarrow> take (length vs) (drop i m') = vs"
  by (auto simp: acopy_eq_Some)

lemma acopy_snoc:
  assumes "i + length vs < length m"
  shows "awrite (take i m @ vs @ drop (i + length vs) m) (i + length vs) v =
    acopy m i (vs @ [v])"
  using assms by (simp add: awrite_def acopy_def list_update_append Cons_nth_drop_Suc [symmetric])

lemma acopy_Cons: "acopy m p (b # bs) = awrite m p b \<bind> (\<lambda>m. if bs = [] then Some m else acopy m (Suc p) bs)"
  by (auto simp: awrite_def acopy_def upd_conv_take_nth_drop ac_simps)

lemma awrite_bind_acopy:
  "awrite m p b = Some m1 \<Longrightarrow> acopy m1 (Suc p) bs = Some m2 \<Longrightarrow> acopy m p (b # bs) = Some m2"
  by (auto simp: acopy_Cons acopy_eq_Some)

subsection \<open>Lists\<close>

lemma replicate_2: "replicate 2 x = [x, x]"
  by (simp add: numeral_2_eq_2)

lemma take_Suc_drop_nth: "i < length xs \<Longrightarrow> take (Suc n) (drop i xs) = xs ! i # take n (drop (Suc i) xs)"
  by (simp add: Cons_nth_drop_Suc [symmetric])

lemma take_drop_update_other:
  "j < i \<or> i + n \<le> j \<Longrightarrow> take n (drop i (xs[j := v])) = take n (drop i xs)"
  by (auto simp: list_eq_iff_nth_eq nth_list_update)

lemma take_drop_cong:
  assumes "length m' = length m" and "\<And>i. p \<le> i \<Longrightarrow> i < p + n \<Longrightarrow> i < length m \<Longrightarrow> m' ! i = m ! i"
  shows "take n (drop p m') = take n (drop p m)"
  using assms by (intro nth_equalityI) auto

lemma take_drop_append:
  "take n (drop p m) = xs \<Longrightarrow> take k (drop (p + n) m) = ys \<Longrightarrow> take (n + k) (drop p m) = xs @ ys"
  by (auto simp: take_add add.commute [of p n])

lemma find_map: "find P (map f xs) = map_option f (find (P \<circ> f) xs)"
  by (induction xs) auto

lemma drop_last_take: "n \<le> length xs \<Longrightarrow> drop (length xs - n) xs = rev (take n (rev xs))"
  by (simp add: take_rev)

end
