(* ===== verification/Slices.thy ===== *)
theory Slices
  imports Prelude
begin

text \<open>
  \<open>outpost::Slice\<close> (modules/base/src/outpost/base/slice.h): a view into a contiguous block of
  memory, kept as a pointer and a number of elements.

  The memory is a list; a pointer is the index of an element, or \<open>None\<close> for \<open>nullptr\<close>.
  \<open>slice_view m s\<close> is the sequence of elements a slice shows. The functions keep the names of
  the class's members; \<open>copyFrom\<close> is modelled on a memory of bytes, because it copies bytes
  whatever the element type is.
\<close>

record slice =
  mData :: "nat option"
  mNumberOfElements :: size_t

definition slice_wf :: "'a list \<Rightarrow> slice \<Rightarrow> bool" where
  "slice_wf m s \<longleftrightarrow> length m < 2 ^ size_bits \<and>
     (case mData s of None \<Rightarrow> mNumberOfElements s = 0
                    | Some b \<Rightarrow> b + mNumberOfElements s \<le> length m)"

definition slice_view :: "'a list \<Rightarrow> slice \<Rightarrow> 'a list" where
  "slice_view m s = (case mData s of None \<Rightarrow> [] | Some b \<Rightarrow> take (mNumberOfElements s) (drop b m))"

definition ptr_add :: "nat option \<Rightarrow> size_t \<Rightarrow> nat option" where
  "ptr_add p k = map_option (\<lambda>b. b + k) p"

definition slice_empty :: slice where
  "slice_empty = \<lparr>mData = None, mNumberOfElements = 0\<rparr>"

definition slice_unsafe :: "nat option \<Rightarrow> size_t \<Rightarrow> slice" where
  "slice_unsafe array n = \<lparr>mData = array, mNumberOfElements = n\<rparr>"

definition getNumberOfElements :: "slice \<Rightarrow> size_t" where
  "getNumberOfElements s = mNumberOfElements s"

text \<open>\<open>operator[]\<close>, as a read and as a write: no bounds check of its own.\<close>

definition slice_get :: "'a list \<Rightarrow> slice \<Rightarrow> size_t \<Rightarrow> 'a option" where
  "slice_get m s i = do { b \<leftarrow> mData s; aread m (b + i) }"

definition slice_set :: "'a list \<Rightarrow> slice \<Rightarrow> size_t \<Rightarrow> 'a \<Rightarrow> 'a list option" where
  "slice_set m s i v = do { b \<leftarrow> mData s; awrite m (b + i) v }"

fun slice_fill_loop :: "'a list \<Rightarrow> slice \<Rightarrow> 'a \<Rightarrow> size_t \<Rightarrow> nat \<Rightarrow> 'a list option" where
  "slice_fill_loop m s v i 0 = Some m"
| "slice_fill_loop m s v i (Suc k) = do { m' \<leftarrow> slice_set m s i v; slice_fill_loop m' s v (Suc i) k }"

definition slice_fill :: "'a list \<Rightarrow> slice \<Rightarrow> 'a \<Rightarrow> 'a list option" where
  "slice_fill m s v = slice_fill_loop m s v 0 (mNumberOfElements s)"

definition slice_first :: "slice \<Rightarrow> size_t \<Rightarrow> slice" where
  "slice_first s firstElements =
     (if firstElements > mNumberOfElements s
      then \<lparr>mData = mData s, mNumberOfElements = mNumberOfElements s\<rparr>
      else \<lparr>mData = mData s, mNumberOfElements = firstElements\<rparr>)"

definition slice_skipFirst :: "slice \<Rightarrow> size_t \<Rightarrow> slice" where
  "slice_skipFirst s n =
     (if n \<ge> mNumberOfElements s
      then \<lparr>mData = mData s, mNumberOfElements = 0\<rparr>
      else \<lparr>mData = ptr_add (mData s) n, mNumberOfElements = mNumberOfElements s - n\<rparr>)"

definition slice_last :: "slice \<Rightarrow> size_t \<Rightarrow> slice" where
  "slice_last s lastElements =
     (if lastElements > mNumberOfElements s
      then \<lparr>mData = mData s, mNumberOfElements = mNumberOfElements s\<rparr>
      else \<lparr>mData = ptr_add (mData s) (mNumberOfElements s - lastElements),
            mNumberOfElements = lastElements\<rparr>)"

definition slice_skipLast :: "slice \<Rightarrow> size_t \<Rightarrow> slice" where
  "slice_skipLast s n =
     (if n \<ge> mNumberOfElements s
      then \<lparr>mData = mData s, mNumberOfElements = 0\<rparr>
      else \<lparr>mData = mData s, mNumberOfElements = mNumberOfElements s - n\<rparr>)"

definition slice_subSlice :: "slice \<Rightarrow> size_t \<Rightarrow> size_t \<Rightarrow> slice" where
  "slice_subSlice s offset len = slice_last (slice_first s (szadd offset len)) len"

definition slice_subRange :: "slice \<Rightarrow> size_t \<Rightarrow> size_t \<Rightarrow> slice" where
  "slice_subRange s firstIndex lastIndex =
     slice_subSlice s firstIndex (szsub lastIndex firstIndex)"

text \<open>
  \<open>copyFrom\<close> on a memory of bytes, for an element type of \<open>es\<close> bytes (so element \<open>i\<close> of
  the slice starts at byte \<open>(b + i) * es\<close>). \<open>src\<close> is \<open>None\<close> for \<open>nullptr\<close>, otherwise the
  address of the source bytes. The result is the memory and the returned \<open>bool\<close>.
\<close>

definition slice_copyFrom_raw ::
    "u8 list \<Rightarrow> nat \<Rightarrow> slice \<Rightarrow> nat option \<Rightarrow> size_t \<Rightarrow> (u8 list \<times> bool) option" where
  "slice_copyFrom_raw m es s src len =
     (if len = 0 then Some (m, True)
      else case src of
        None \<Rightarrow> Some (m, False)
      | Some a \<Rightarrow>
          if len \<le> getNumberOfElements s
          then do {
            b \<leftarrow> mData s;
            m' \<leftarrow> (if a + len \<le> length m then acopy m (b * es) (take len (drop a m)) else None);
            Some (m', True) }
          else Some (m, False))"

definition slice_copyFrom ::
    "u8 list \<Rightarrow> nat \<Rightarrow> slice \<Rightarrow> slice \<Rightarrow> (u8 list \<times> bool) option" where
  "slice_copyFrom m es s source =
     slice_copyFrom_raw m es s (map_option (\<lambda>a. a * es) (mData source)) (getNumberOfElements source)"

subsection \<open>What the views show\<close>

lemma slice_view_length: "slice_wf m s \<Longrightarrow> length (slice_view m s) = mNumberOfElements s"
  by (auto simp: slice_view_def slice_wf_def split: option.splits)

lemma slice_view_first: "slice_view m (slice_first s n) = take n (slice_view m s)"
  by (auto simp: slice_view_def slice_first_def min_def split: option.splits)

lemma slice_view_skipFirst:
  "slice_wf m s \<Longrightarrow> slice_view m (slice_skipFirst s n) = drop n (slice_view m s)"
  by (auto simp: slice_view_def slice_wf_def slice_skipFirst_def ptr_add_def drop_take add.commute
      split: option.splits)

lemma slice_view_skipLast:
  "slice_wf m s \<Longrightarrow> slice_view m (slice_skipLast s n) =
     take (mNumberOfElements s - n) (slice_view m s)"
  by (auto simp: slice_view_def slice_wf_def slice_skipLast_def split: option.splits)

lemma slice_view_last:
  "slice_wf m s \<Longrightarrow> slice_view m (slice_last s n) =
     drop (mNumberOfElements s - n) (slice_view m s)"
  by (auto simp: slice_view_def slice_wf_def slice_last_def ptr_add_def drop_take add.commute
      split: option.splits)

lemmas slice_ops_defs = slice_first_def slice_skipFirst_def slice_last_def slice_skipLast_def

lemma slice_ops_wf:
  assumes "slice_wf m s"
  shows "slice_wf m (slice_first s n)" and "slice_wf m (slice_skipFirst s n)"
    and "slice_wf m (slice_last s n)" and "slice_wf m (slice_skipLast s n)"
  using assms by (auto simp: slice_wf_def slice_ops_defs ptr_add_def split: option.splits)

lemma slice_first_num: "mNumberOfElements (slice_first s n) = min n (mNumberOfElements s)"
  by (simp add: slice_first_def)

lemma slice_get_view:
  "slice_wf m s \<Longrightarrow> i < mNumberOfElements s \<Longrightarrow> slice_get m s i = Some (slice_view m s ! i)"
  by (auto simp: slice_get_def slice_view_def slice_wf_def aread_def split: option.splits)

lemma slice_fill_loop_Some:
  assumes "mData s = Some b" and "b + i + k \<le> length m"
  shows "slice_fill_loop m s v i k =
    Some (take (b + i) m @ replicate k v @ drop (b + i + k) m)"
  using assms
proof (induction k arbitrary: m i)
  case 0
  then show ?case by simp
next
  case (Suc k)
  have "m = take (b + i) m @ m ! (b + i) # drop (Suc (b + i)) m"
    using Suc.prems by (simp add: id_take_nth_drop)
  then have upd: "m[b + i := v] = take (b + i) m @ v # drop (Suc (b + i)) m"
    using Suc.prems by (simp add: upd_conv_take_nth_drop)
  have "slice_fill_loop m s v i (Suc k) = slice_fill_loop (m[b + i := v]) s v (Suc i) k"
    using Suc.prems by (simp add: slice_set_def awrite_def)
  also have "\<dots> = Some (take (b + Suc i) (m[b + i := v]) @ replicate k v @
      drop (b + Suc i + k) (m[b + i := v]))"
    using Suc.prems by (intro Suc.IH) auto
  also have "\<dots> = Some (take (b + i) m @ replicate (Suc k) v @ drop (b + i + Suc k) m)"
    using Suc.prems by (simp add: upd add.commute add.left_commute)
  finally show ?case .
qed

text \<open>
  Note. The four cutting operations of a slice show exactly the prefix or suffix of the elements
  their names promise, for every count, also one larger than the slice.
\<close>

theorem slice_cuts_show:
  assumes "slice_wf m s"
  shows "slice_view m (slice_first s n) = take n (slice_view m s) \<and>
    slice_view m (slice_skipFirst s n) = drop n (slice_view m s) \<and>
    slice_view m (slice_last s n) = drop (length (slice_view m s) - n) (slice_view m s) \<and>
    slice_view m (slice_skipLast s n) = take (length (slice_view m s) - n) (slice_view m s)"
  using assms
  by (simp add: slice_view_first slice_view_skipFirst slice_view_last slice_view_skipLast
      slice_view_length)

lemma slice_cuts_show_witness:
  "slice_view [1, 2, 3, 4 :: nat] (slice_skipFirst \<lparr>mData = Some 1, mNumberOfElements = 3\<rparr> 2) = [4]"
  using slice_cuts_show [of "[1, 2, 3, 4 :: nat]" "\<lparr>mData = Some 1, mNumberOfElements = 3\<rparr>" 2]
  by (simp add: slice_wf_def size_bits_def slice_view_def)

lemma slice_fill_view:
  assumes "slice_wf m s" and "mData s = Some b"
  shows "slice_fill m s v =
    Some (take b m @ replicate (mNumberOfElements s) v @ drop (b + mNumberOfElements s) m)"
  using assms slice_fill_loop_Some [of s b 0 "mNumberOfElements s" m v]
  by (simp add: slice_fill_def slice_wf_def)

lemma slice_subSlice_view:
  assumes "slice_wf m s" and "offset + len < 2 ^ size_bits"
  shows "slice_view m (slice_subSlice s offset len) =
    (let n = min (offset + len) (mNumberOfElements s)
     in drop (n - len) (take (offset + len) (slice_view m s)))"
  using assms slice_ops_wf(1) [OF assms(1), of "offset + len"]
  by (simp add: slice_subSlice_def szadd_exact slice_view_last slice_view_first slice_first_num)

text \<open>
  Note. A sub-slice or sub-range that lies inside the slice shows exactly the elements between its
  two indices.
\<close>

theorem slice_subRange_shows:
  assumes "slice_wf m s" and "i \<le> j" and "j \<le> mNumberOfElements s"
  shows "slice_view m (slice_subRange s i j) = take (j - i) (drop i (slice_view m s)) \<and>
    slice_view m (slice_subSlice s i (j - i)) = take (j - i) (drop i (slice_view m s))"
proof -
  have "mNumberOfElements s \<le> length m"
    using assms(1) by (auto simp: slice_wf_def split: option.splits)
  with assms have j: "j < 2 ^ size_bits" by (auto simp: slice_wf_def)
  then have "slice_subRange s i j = slice_subSlice s i (j - i)"
    using assms(2) by (simp add: slice_subRange_def szsub_exact)
  moreover have "slice_view m (slice_subSlice s i (j - i)) = take (j - i) (drop i (slice_view m s))"
    using slice_subSlice_view [OF assms(1), of i "j - i"] assms j
    by (simp add: Let_def min_def take_drop)
  ultimately show ?thesis by simp
qed

lemma slice_subRange_shows_witness:
  "slice_view [1, 2, 3, 4, 5 :: nat] (slice_subRange \<lparr>mData = Some 1, mNumberOfElements = 4\<rparr> 1 3) = [3, 4]"
  using slice_subRange_shows [of "[1, 2, 3, 4, 5 :: nat]" "\<lparr>mData = Some 1, mNumberOfElements = 4\<rparr>" 1 3]
  by (simp add: slice_wf_def size_bits_def slice_view_def)

text \<open>
  A request that runs past the end is neither refused nor cut at the end: the view is moved
  towards the start of the slice, so it begins before \<open>offset\<close>.
\<close>

lemma slice_subSlice_past_end:
  assumes "slice_wf m s" and "offset + len < 2 ^ size_bits" and "mNumberOfElements s < offset + len"
  shows "slice_view m (slice_subSlice s offset len) =
    drop (mNumberOfElements s - len) (slice_view m s)"
  using slice_subSlice_view [OF assms(1,2)] assms slice_view_length [OF assms(1)]
  by (simp add: Let_def min_def)

lemma slice_copyFrom_raw_bytes:
  assumes "mData s = Some b" and "0 < len" and "len \<le> mNumberOfElements s" and "a + len \<le> length m"
    and "b * es + len \<le> length m"
  obtains m' where "slice_copyFrom_raw m es s (Some a) len = Some (m', True)"
    and "take len (drop (b * es) m') = take len (drop a m)" and "length m' = length m"
    and "\<And>k. k < length m \<Longrightarrow> k < b * es \<or> b * es + len \<le> k \<Longrightarrow> m' ! k = m ! k"
proof -
  let ?vs = "take len (drop a m)"
  have len_vs: "length ?vs = len" using assms(4) by simp
  obtain m' where m': "acopy m (b * es) ?vs = Some m'"
    using assms(5) len_vs by (simp add: acopy_def)
  have "slice_copyFrom_raw m es s (Some a) len = Some (m', True)"
    using assms m' by (simp add: slice_copyFrom_raw_def getNumberOfElements_def)
  moreover have "take len (drop (b * es) m') = ?vs"
    using acopy_view [OF m'] len_vs by simp
  moreover have "\<And>k. k < length m \<Longrightarrow> k < b * es \<or> b * es + len \<le> k \<Longrightarrow> m' ! k = m ! k"
    using nth_acopy [OF m'] len_vs by auto
  ultimately show ?thesis using that length_acopy [OF m'] by blast
qed

text \<open>
  Note. Copying between slices of bytes is exact: the target's first elements become the source's,
  every other byte of the memory keeps its value, and the call reports success.
\<close>

theorem slice_copyFrom_bytes_exact:
  assumes "slice_wf m s" and "slice_wf m src" and "mNumberOfElements src \<le> mNumberOfElements s"
    and "mData s = Some b" and "mData src = Some a"
  shows "\<exists>m'. slice_copyFrom m 1 s src = Some (m', True) \<and> length m' = length m \<and>
    take (mNumberOfElements src) (slice_view m' s) = slice_view m src \<and>
    (\<forall>k. k < length m \<and> (k < b \<or> b + mNumberOfElements src \<le> k) \<longrightarrow> m' ! k = m ! k)"
proof (cases "mNumberOfElements src = 0")
  case True
  then show ?thesis
    using assms by (simp add: slice_copyFrom_def slice_copyFrom_raw_def getNumberOfElements_def
        slice_view_def)
next
  case False
  let ?n = "mNumberOfElements src"
  have "a + ?n \<le> length m" and "b + ?n \<le> length m"
    using assms by (simp_all add: slice_wf_def)
  then obtain m' where m': "slice_copyFrom_raw m 1 s (Some a) ?n = Some (m', True)"
    and eq: "take ?n (drop b m') = take ?n (drop a m)" and "length m' = length m"
    and "\<And>k. k < length m \<Longrightarrow> k < b \<or> b + ?n \<le> k \<Longrightarrow> m' ! k = m ! k"
    using slice_copyFrom_raw_bytes [of s b ?n a m 1] assms False by (metis mult.right_neutral neq0_conv)
  moreover have "take ?n (slice_view m' s) = slice_view m src"
    using assms eq by (simp add: slice_view_def min_def)
  ultimately show ?thesis
    using assms(5) by (auto simp: slice_copyFrom_def getNumberOfElements_def)
qed

lemma slice_copyFrom_bytes_exact_witness:
  "\<exists>m'. slice_copyFrom [1, 2, 3, 4, 5] 1 \<lparr>mData = Some 0, mNumberOfElements = 3\<rparr>
      \<lparr>mData = Some 3, mNumberOfElements = 2\<rparr> = Some (m', True) \<and> m' ! 2 = 3"
proof -
  let ?s = "\<lparr>mData = Some 0, mNumberOfElements = 3\<rparr>"
  let ?t = "\<lparr>mData = Some 3, mNumberOfElements = 2\<rparr>"
  have wf: "slice_wf [1, 2, 3, 4, 5 :: u8] ?s" "slice_wf [1, 2, 3, 4, 5 :: u8] ?t"
    by (simp_all add: slice_wf_def size_bits_def)
  obtain m' where m': "slice_copyFrom [1, 2, 3, 4, 5] 1 ?s ?t = Some (m', True)"
    and fr: "\<forall>k. k < length [1, 2, 3, 4, 5 :: u8] \<and> (k < 0 \<or> 0 + mNumberOfElements ?t \<le> k) \<longrightarrow>
      m' ! k = [1, 2, 3, 4, 5] ! k"
    using slice_copyFrom_bytes_exact [OF wf, of 0 3] by auto
  from fr [rule_format, of 2] have "m' ! 2 = 3" by simp
  with m' show ?thesis by blast
qed

text \<open>
  Note. For an element type of two bytes the slice-to-slice copy reports success although only half
  of the source's bytes arrived: the number of elements is passed on as the number of bytes.
\<close>

theorem slice_copyFrom_wide_elements_partial:
  "slice_copyFrom [0, 0, 0, 0, 1, 2, 3, 4] 2 \<lparr>mData = Some 0, mNumberOfElements = 2\<rparr>
     \<lparr>mData = Some 2, mNumberOfElements = 2\<rparr> = Some ([1, 2, 0, 0, 1, 2, 3, 4], True)"
  by (simp add: slice_copyFrom_def slice_copyFrom_raw_def getNumberOfElements_def acopy_def
      eval_nat_numeral)

end
