(* ===== verification/Interfaces.thy ===== *)
theory Interfaces
  imports Prelude
begin

text \<open>
  The contracts the components of the library offer to each other, as locales.

  \<^item> \<open>bounded_fifo\<close>: a first-in first-out buffer with a fixed capacity. It is offered by the
    ring buffers of \<open>utils/container\<close>. A client can only see answers; the lemma
    \<open>run_refines\<close> says that no sequence of calls can tell a provider from a bounded list.
  \<^item> \<open>bounded_deque\<close> extends it by the operations at the other end.
  \<^item> \<open>node_sequence\<close>: a list of externally owned nodes, offered by the two linked lists;
    \<open>calls_refine\<close> says that a legal sequence of calls gives the answers of a sequence of nodes,
    whichever of the lists runs it.
  \<^item> \<open>simulation\<close>: a step relation of the code and one of a specification, for components that
    several threads use at once; \<open>steps_simulated\<close> lifts the simulation of one step to runs.
\<close>

subsection \<open>Bounded queues\<close>

datatype 'a fifo_call = Push 'a | Pop

datatype 'a fifo_answer = Pushed bool | Popped "'a option"

fun spec_step :: "nat \<Rightarrow> 'a list \<Rightarrow> 'a fifo_call \<Rightarrow> 'a list \<times> 'a fifo_answer" where
  "spec_step cap xs (Push x) =
     (if length xs < cap then (xs @ [x], Pushed True) else (xs, Pushed False))"
| "spec_step cap xs Pop =
     (case xs of [] \<Rightarrow> ([], Popped None) | y # ys \<Rightarrow> (ys, Popped (Some y)))"

fun spec_run :: "nat \<Rightarrow> 'a list \<Rightarrow> 'a fifo_call list \<Rightarrow> 'a list \<times> 'a fifo_answer list" where
  "spec_run cap xs [] = (xs, [])"
| "spec_run cap xs (c # cs) =
     (let (xs', r) = spec_step cap xs c; (xs'', rs) = spec_run cap xs' cs in (xs'', r # rs))"

text \<open>
  A client of a provider: it asks for the front element before it removes it, and it does not
  remove anything from an empty buffer. \<open>None\<close> is undefined behaviour.
\<close>

fun fifo_step ::
    "('a \<Rightarrow> 's \<Rightarrow> ('s \<times> bool) option) \<Rightarrow> ('s \<Rightarrow> 'a option) \<Rightarrow> ('s \<Rightarrow> 's option) \<Rightarrow> ('s \<Rightarrow> bool) \<Rightarrow>
     's \<Rightarrow> 'a fifo_call \<Rightarrow> ('s \<times> 'a fifo_answer) option" where
  "fifo_step push front pop nil s (Push x) = map_option (\<lambda>(s', b). (s', Pushed b)) (push x s)"
| "fifo_step push front pop nil s Pop =
     (if nil s then Some (s, Popped None)
      else do { y \<leftarrow> front s; s' \<leftarrow> pop s; Some (s', Popped (Some y)) })"

fun fifo_run ::
    "('a \<Rightarrow> 's \<Rightarrow> ('s \<times> bool) option) \<Rightarrow> ('s \<Rightarrow> 'a option) \<Rightarrow> ('s \<Rightarrow> 's option) \<Rightarrow> ('s \<Rightarrow> bool) \<Rightarrow>
     's \<Rightarrow> 'a fifo_call list \<Rightarrow> ('s \<times> 'a fifo_answer list) option" where
  "fifo_run push front pop nil s [] = Some (s, [])"
| "fifo_run push front pop nil s (c # cs) = do {
     (s', r) \<leftarrow> fifo_step push front pop nil s c;
     (s'', rs) \<leftarrow> fifo_run push front pop nil s' cs;
     Some (s'', r # rs) }"

definition calls_ok :: "('a \<Rightarrow> bool) \<Rightarrow> 'a fifo_call list \<Rightarrow> bool" where
  "calls_ok ok cs = list_all (\<lambda>c. case c of Push x \<Rightarrow> ok x | Pop \<Rightarrow> True) cs"

locale bounded_fifo =
  fixes items :: "'s \<Rightarrow> 'a list"
    and inv :: "'s \<Rightarrow> bool"
    and capacity :: "'s \<Rightarrow> nat"
    and ok :: "'a \<Rightarrow> bool"
    and push :: "'a \<Rightarrow> 's \<Rightarrow> ('s \<times> bool) option"
    and front :: "'s \<Rightarrow> 'a option"
    and pop :: "'s \<Rightarrow> 's option"
    and nil :: "'s \<Rightarrow> bool"
  assumes push_room: "inv s \<Longrightarrow> ok x \<Longrightarrow> length (items s) < capacity s \<Longrightarrow>
      \<exists>s'. push x s = Some (s', True) \<and> inv s' \<and> items s' = items s @ [x] \<and> capacity s' = capacity s"
    and push_full: "inv s \<Longrightarrow> ok x \<Longrightarrow> length (items s) = capacity s \<Longrightarrow> push x s = Some (s, False)"
    and front_hd: "inv s \<Longrightarrow> items s = y # ys \<Longrightarrow> front s = Some y"
    and pop_tl: "inv s \<Longrightarrow> items s = y # ys \<Longrightarrow>
      \<exists>s'. pop s = Some s' \<and> inv s' \<and> items s' = ys \<and> capacity s' = capacity s"
    and nil_iff: "inv s \<Longrightarrow> nil s \<longleftrightarrow> items s = []"
    and within_capacity: "inv s \<Longrightarrow> length (items s) \<le> capacity s"
begin

lemma step_refines:
  assumes "inv s" and "calls_ok ok [c]"
  shows "\<exists>s' r. fifo_step push front pop nil s c = Some (s', r) \<and> inv s' \<and>
    capacity s' = capacity s \<and> spec_step (capacity s) (items s) c = (items s', r)"
proof (cases c)
  case (Push x)
  then have "ok x" using assms(2) by (simp add: calls_ok_def)
  show ?thesis
  proof (cases "length (items s) < capacity s")
    case True
    with push_room [OF assms(1) \<open>ok x\<close>] Push show ?thesis by fastforce
  next
    case False
    then have "length (items s) = capacity s" using within_capacity [OF assms(1)] by simp
    with push_full [OF assms(1) \<open>ok x\<close>] Push assms(1) show ?thesis by fastforce
  qed
next
  case Pop
  show ?thesis
  proof (cases "items s")
    case Nil
    with Pop nil_iff assms(1) show ?thesis by simp
  next
    case (Cons y ys)
    with pop_tl [OF assms(1)] front_hd [OF assms(1)] nil_iff [OF assms(1)] Pop
    show ?thesis by fastforce
  qed
qed

lemma run_refines:
  assumes "inv s" and "calls_ok ok cs"
  shows "\<exists>s' rs. fifo_run push front pop nil s cs = Some (s', rs) \<and> inv s' \<and>
    capacity s' = capacity s \<and> spec_run (capacity s) (items s) cs = (items s', rs)"
  using assms
proof (induction cs arbitrary: s)
  case Nil
  then show ?case by simp
next
  case (Cons c cs)
  then have "calls_ok ok [c]" and cs: "calls_ok ok cs" by (simp_all add: calls_ok_def)
  then obtain s1 r where 1: "fifo_step push front pop nil s c = Some (s1, r)" "inv s1"
      "capacity s1 = capacity s" "spec_step (capacity s) (items s) c = (items s1, r)"
    using step_refines [OF Cons.prems(1)] by blast
  obtain s2 rs where "fifo_run push front pop nil s1 cs = Some (s2, rs)" "inv s2"
      "capacity s2 = capacity s1" "spec_run (capacity s1) (items s1) cs = (items s2, rs)"
    using Cons.IH [OF 1(2) cs] by blast
  with 1 show ?case by simp
qed

end

locale bounded_deque = bounded_fifo +
  fixes push_front :: "'a \<Rightarrow> 's \<Rightarrow> ('s \<times> bool) option"
    and rear :: "'s \<Rightarrow> 'a option"
    and pop_back :: "'s \<Rightarrow> 's option"
  assumes push_front_room: "inv s \<Longrightarrow> ok x \<Longrightarrow> length (items s) < capacity s \<Longrightarrow>
      \<exists>s'. push_front x s = Some (s', True) \<and> inv s' \<and> items s' = x # items s \<and> capacity s' = capacity s"
    and push_front_full: "inv s \<Longrightarrow> ok x \<Longrightarrow> length (items s) = capacity s \<Longrightarrow>
      push_front x s = Some (s, False)"
    and back_last: "inv s \<Longrightarrow> items s \<noteq> [] \<Longrightarrow> rear s = Some (last (items s))"
    and pop_back_butlast: "inv s \<Longrightarrow> items s \<noteq> [] \<Longrightarrow>
      \<exists>s'. pop_back s = Some s' \<and> inv s' \<and> items s' = butlast (items s) \<and> capacity s' = capacity s"
begin

text \<open>Used as a stack from the front: what was pushed last comes back and the rest is untouched.\<close>

lemma push_front_pop:
  assumes "inv s" and "ok x" and "length (items s) < capacity s"
  shows "\<exists>s1 s2. push_front x s = Some (s1, True) \<and> front s1 = Some x \<and> pop s1 = Some s2 \<and>
    inv s2 \<and> items s2 = items s"
proof -
  obtain s1 where s1: "push_front x s = Some (s1, True)" "inv s1" "items s1 = x # items s"
    using push_front_room [OF assms] by blast
  with front_hd [OF s1(2,3)] pop_tl [OF s1(2,3)] show ?thesis by blast
qed

text \<open>Used as a stack from the back.\<close>

lemma push_pop_back:
  assumes "inv s" and "ok x" and "length (items s) < capacity s"
  shows "\<exists>s1 s2. push x s = Some (s1, True) \<and> rear s1 = Some x \<and> pop_back s1 = Some s2 \<and>
    inv s2 \<and> items s2 = items s"
proof -
  obtain s1 where s1: "push x s = Some (s1, True)" "inv s1" "items s1 = items s @ [x]"
    using push_room [OF assms] by blast
  with back_last [OF s1(2)] pop_back_butlast [OF s1(2)] show ?thesis by auto
qed

end

subsection \<open>Sequences of nodes\<close>

datatype 'n seq_call = AppendNode 'n | PrependNode 'n | RemoveNode 'n | RemoveFirstNode | Visit

datatype 'n seq_answer = Done | Found bool | Visited "'n list"

text \<open>Linking a node that is linked already is not a legal call (\<open>None\<close>).\<close>

fun seq_spec :: "'n seq_call \<Rightarrow> 'n list \<Rightarrow> ('n list \<times> 'n seq_answer) option" where
  "seq_spec (AppendNode n) xs = (if n \<in> set xs then None else Some (xs @ [n], Done))"
| "seq_spec (PrependNode n) xs = (if n \<in> set xs then None else Some (n # xs, Done))"
| "seq_spec (RemoveNode n) xs = Some (remove1 n xs, Found (n \<in> set xs))"
| "seq_spec RemoveFirstNode xs = Some (tl xs, Done)"
| "seq_spec Visit xs = Some (xs, Visited xs)"

fun calls_run :: "('c \<Rightarrow> 's \<Rightarrow> ('s \<times> 'r) option) \<Rightarrow> 'c list \<Rightarrow> 's \<Rightarrow> ('s \<times> 'r list) option" where
  "calls_run step [] s = Some (s, [])"
| "calls_run step (c # cs) s = do {
     (s', r) \<leftarrow> step c s; (s'', rs) \<leftarrow> calls_run step cs s'; Some (s'', r # rs) }"

fun seq_step ::
    "('n \<Rightarrow> 's \<Rightarrow> 's option) \<Rightarrow> ('n \<Rightarrow> 's \<Rightarrow> 's option) \<Rightarrow> ('n \<Rightarrow> 's \<Rightarrow> ('s \<times> bool) option) \<Rightarrow>
     ('s \<Rightarrow> 's option) \<Rightarrow> ('s \<Rightarrow> 'n list option) \<Rightarrow> 'n seq_call \<Rightarrow> 's \<Rightarrow> ('s \<times> 'n seq_answer) option" where
  "seq_step add_last add_first unlink unlink_first visit (AppendNode n) s =
     map_option (\<lambda>s'. (s', Done)) (add_last n s)"
| "seq_step add_last add_first unlink unlink_first visit (PrependNode n) s =
     map_option (\<lambda>s'. (s', Done)) (add_first n s)"
| "seq_step add_last add_first unlink unlink_first visit (RemoveNode n) s =
     map_option (\<lambda>(s', b). (s', Found b)) (unlink n s)"
| "seq_step add_last add_first unlink unlink_first visit RemoveFirstNode s =
     map_option (\<lambda>s'. (s', Done)) (unlink_first s)"
| "seq_step add_last add_first unlink unlink_first visit Visit s =
     map_option (\<lambda>ns. (s, Visited ns)) (visit s)"

locale node_sequence =
  fixes repr :: "'s \<Rightarrow> 'n list \<Rightarrow> bool"
    and add_last :: "'n \<Rightarrow> 's \<Rightarrow> 's option"
    and add_first :: "'n \<Rightarrow> 's \<Rightarrow> 's option"
    and unlink :: "'n \<Rightarrow> 's \<Rightarrow> ('s \<times> bool) option"
    and unlink_first :: "'s \<Rightarrow> 's option"
    and visit :: "'s \<Rightarrow> 'n list option"
  assumes append_law: "repr s xs \<Longrightarrow> n \<notin> set xs \<Longrightarrow> \<exists>s'. add_last n s = Some s' \<and> repr s' (xs @ [n])"
    and prepend_law: "repr s xs \<Longrightarrow> n \<notin> set xs \<Longrightarrow> \<exists>s'. add_first n s = Some s' \<and> repr s' (n # xs)"
    and remove_law: "repr s xs \<Longrightarrow>
      \<exists>s'. unlink n s = Some (s', n \<in> set xs) \<and> repr s' (remove1 n xs)"
    and removeFirst_law: "repr s xs \<Longrightarrow> \<exists>s'. unlink_first s = Some s' \<and> repr s' (tl xs)"
    and visit_law: "repr s xs \<Longrightarrow> visit s = Some xs"
begin

lemma step_refines:
  assumes "repr s xs" and "seq_spec c xs = Some (ys, r)"
  shows "\<exists>s'. seq_step add_last add_first unlink unlink_first visit c s = Some (s', r) \<and> repr s' ys"
proof (cases c)
  case (AppendNode n)
  with assms append_law [OF assms(1), of n] show ?thesis by (auto split: if_splits)
next
  case (PrependNode n)
  with assms prepend_law [OF assms(1), of n] show ?thesis by (auto split: if_splits)
next
  case (RemoveNode n)
  with assms remove_law [OF assms(1), of n] show ?thesis by auto
next
  case RemoveFirstNode
  with assms removeFirst_law [OF assms(1)] show ?thesis by auto
next
  case Visit
  with assms visit_law [OF assms(1)] show ?thesis by auto
qed

lemma calls_refine:
  assumes "repr s xs" and "calls_run seq_spec cs xs = Some (ys, rs)"
  shows "\<exists>s'. calls_run (seq_step add_last add_first unlink unlink_first visit) cs s = Some (s', rs) \<and>
    repr s' ys"
  using assms
proof (induction cs arbitrary: s xs rs)
  case Nil
  then show ?case by auto
next
  case (Cons c cs)
  from Cons.prems(2) obtain xs1 r rs1 where 1: "seq_spec c xs = Some (xs1, r)"
      "calls_run seq_spec cs xs1 = Some (ys, rs1)" "rs = r # rs1"
    by (auto simp: bind_eq_Some_conv)
  from step_refines [OF Cons.prems(1) 1(1)] obtain s1 where
    s1: "seq_step add_last add_first unlink unlink_first visit c s = Some (s1, r)" "repr s1 xs1" by blast
  from Cons.IH [OF s1(2) 1(2)] s1(1) 1(3) show ?case by auto
qed

end


subsection \<open>Simulations\<close>

inductive steps :: "('s \<Rightarrow> 'e \<Rightarrow> 's \<Rightarrow> bool) \<Rightarrow> 's \<Rightarrow> 'e list \<Rightarrow> 's \<Rightarrow> bool" for step where
  steps_Nil: "steps step s [] s"
| steps_Cons: "step s e s1 \<Longrightarrow> steps step s1 es s2 \<Longrightarrow> steps step s (e # es) s2"

inductive_cases steps_NilE: "steps step s [] s'"
inductive_cases steps_ConsE: "steps step s (e # es) s'"

lemma steps_snoc: "steps step s es s1 \<Longrightarrow> step s1 e s2 \<Longrightarrow> steps step s (es @ [e]) s2"
  by (induction rule: steps.induct) (auto intro: steps.intros)

text \<open>Every step of the code is a step of the specification with the same event.\<close>

locale simulation =
  fixes code_step :: "'s \<Rightarrow> 'e \<Rightarrow> 's \<Rightarrow> bool"
    and spec_step :: "'m \<Rightarrow> 'e \<Rightarrow> 'm \<Rightarrow> bool"
    and related :: "'s \<Rightarrow> 'm \<Rightarrow> bool"
  assumes step_simulated: "related s m \<Longrightarrow> code_step s e s' \<Longrightarrow> \<exists>m'. spec_step m e m' \<and> related s' m'"
begin

lemma steps_simulated:
  assumes "steps code_step s es s'" and "related s m"
  shows "\<exists>m'. steps spec_step m es m' \<and> related s' m'"
  using assms
proof (induction arbitrary: m rule: steps.induct)
  case (steps_Nil s)
  then show ?case by (blast intro: steps.steps_Nil)
next
  case (steps_Cons s e s1 es s2)
  from step_simulated [OF steps_Cons.prems steps_Cons.hyps(1)] obtain m1 where
    "spec_step m e m1" "related s1 m1" by blast
  with steps_Cons.IH show ?case by (blast intro: steps.steps_Cons)
qed

end

end
