(* ===== verification/Ring_Index.thy ===== *)
theory Ring_Index
  imports Prelude
begin

text \<open>
  What the ring buffers of \<open>utils/container\<close> have in common: a block of \<open>N\<close> slots, of which
  \<open>n\<close> consecutive ones (modulo \<open>N\<close>), from \<open>start\<close> on, are in use. \<open>ring_view buf start n\<close> is
  the sequence they hold; the lemmas say how it changes when a slot is written at either end or an
  end is moved.
\<close>

definition ring_pos :: "'a list \<Rightarrow> nat \<Rightarrow> nat \<Rightarrow> nat" where
  "ring_pos buf start i = (start + i) mod length buf"

definition ring_view :: "'a list \<Rightarrow> nat \<Rightarrow> nat \<Rightarrow> 'a list" where
  "ring_view buf start n = map (\<lambda>i. buf ! ring_pos buf start i) [0..<n]"

subsection \<open>Positions modulo the size\<close>

lemma mod_step_ne:
  assumes "l < n" and "0 < d" and "d < n"
  shows "(l + d) mod n \<noteq> (l :: nat)"
  using assms by (cases "l + d < n") (auto simp: mod_if)

lemma rotation_reaches:
  assumes "i < n" and "l < n"
  shows "\<exists>j < n. (l + j) mod n = (i :: nat)"
proof (cases "l \<le> i")
  case True
  with assms show ?thesis by (intro exI [of _ "i - l"]) simp
next
  case False
  with assms show ?thesis by (intro exI [of _ "n + i - l"]) auto
qed

lemma length_ring_view [simp]: "length (ring_view buf start n) = n"
  by (simp add: ring_view_def)

lemma nth_ring_view: "i < n \<Longrightarrow> ring_view buf start n ! i = buf ! ring_pos buf start i"
  by (simp add: ring_view_def)

lemma ring_view_Nil_iff: "ring_view buf start n = [] \<longleftrightarrow> n = 0"
  by (simp add: ring_view_def)

lemma ring_view_0 [simp]: "ring_view buf start 0 = []"
  by (simp add: ring_view_def)

lemma ring_pos_less: "buf \<noteq> [] \<Longrightarrow> ring_pos buf start i < length buf"
  by (simp add: ring_pos_def)

lemma ring_pos_inj:
  assumes "i < length buf" and "j < length buf"
  shows "ring_pos buf start i = ring_pos buf start j \<longleftrightarrow> i = j"
proof
  assume eq: "ring_pos buf start i = ring_pos buf start j"
  have "i = j" if "i \<le> j" "j < length buf" "(start + i) mod length buf = (start + j) mod length buf" for i j
  proof -
    have "length buf dvd (start + j) - (start + i)"
      using that by (metis mod_eq_dvd_iff_nat add_le_cancel_left)
    then have "length buf dvd j - i" by simp
    with that show "i = j" by (meson diff_is_0_eq dvd_imp_le le_antisym less_imp_diff_less linorder_not_le not_gr_zero)
  qed
  from this [of i j] this [of j i] eq assms show "i = j"
    by (cases "i \<le> j") (auto simp: ring_pos_def)
qed simp

lemma ring_pos_wrap: "ring_pos buf (start mod length buf) i = ring_pos buf start i"
  by (simp add: ring_pos_def mod_add_left_eq)

lemma ring_pos_shift: "ring_pos buf (start + k) i = ring_pos buf start (k + i)"
  by (simp add: ring_pos_def add.assoc)

lemma ring_view_wrap: "ring_view buf (start mod length buf) n = ring_view buf start n"
  by (simp add: ring_view_def ring_pos_wrap)

lemma ring_view_Suc_mod: "ring_view buf (Suc (start mod length buf)) n = ring_view buf (Suc start) n"
  by (metis mod_Suc_eq ring_view_wrap)

text \<open>The general rule: what is kept, what is new.\<close>

lemma ring_view_extend:
  assumes "length buf' = length buf"
    and "\<And>i. i < n \<Longrightarrow> buf' ! ring_pos buf start i = buf ! ring_pos buf start i"
    and "\<And>k. k < length vs \<Longrightarrow> buf' ! ring_pos buf start (n + k) = vs ! k"
  shows "ring_view buf' start (n + length vs) = ring_view buf start n @ vs"
proof (rule nth_equalityI)
  show "length (ring_view buf' start (n + length vs)) = length (ring_view buf start n @ vs)"
    by simp
next
  fix i
  assume "i < length (ring_view buf' start (n + length vs))"
  then have i: "i < n + length vs" by simp
  show "ring_view buf' start (n + length vs) ! i = (ring_view buf start n @ vs) ! i"
  proof (cases "i < n")
    case True
    with assms(1,2) i show ?thesis by (simp add: nth_ring_view nth_append ring_pos_def)
  next
    case False
    then have "buf' ! ring_pos buf start (n + (i - n)) = vs ! (i - n)"
      using i by (intro assms(3)) simp
    with False assms(1) i show ?thesis by (simp add: nth_ring_view nth_append ring_pos_def)
  qed
qed

lemma ring_view_update_new:
  assumes "n < length buf"
  shows "ring_view (buf[ring_pos buf start n := v]) start (Suc n) = ring_view buf start n @ [v]"
proof -
  have ne: "buf \<noteq> []" using assms by auto
  have "ring_view (buf[ring_pos buf start n := v]) start (n + length [v]) = ring_view buf start n @ [v]"
    using assms by (intro ring_view_extend) (auto simp: ring_pos_less [OF ne] ring_pos_inj nth_list_update)
  then show ?thesis by simp
qed

lemma ring_view_Cons:
  "ring_view buf start (Suc n) = buf ! ring_pos buf start 0 # ring_view buf (Suc start) n"
  by (simp add: ring_view_def ring_pos_def upt_conv_Cons map_Suc_upt [symmetric] del: upt_Suc)

lemma ring_view_Suc:
  "ring_view buf start (Suc n) = ring_view buf start n @ [buf ! ring_pos buf start n]"
  by (simp add: ring_view_def)

lemma ring_view_update_front:
  assumes "n < length buf" and "ring_pos buf start 0 = p"
  shows "ring_view (buf[p := v]) start (Suc n) = v # ring_view buf (Suc start) n"
proof -
  have ne: "buf \<noteq> []" using assms by auto
  have eq: "ring_view (buf[p := v]) (Suc start) n = ring_view buf (Suc start) n"
  proof (rule nth_equalityI)
    fix i assume i: "i < length (ring_view (buf[p := v]) (Suc start) n)"
    then have "ring_pos buf start (Suc i) \<noteq> ring_pos buf start 0"
      using assms by (subst ring_pos_inj) auto
    then show "ring_view (buf[p := v]) (Suc start) n ! i = ring_view buf (Suc start) n ! i"
      using i assms(2) by (simp add: nth_ring_view ring_pos_def)
  qed simp
  have "buf[p := v] ! ring_pos (buf[p := v]) start 0 = v"
    using assms ring_pos_less [OF ne, of start 0] by (simp add: ring_pos_def)
  with eq show ?thesis by (simp add: ring_view_Cons)
qed

lemma hd_ring_view: "0 < n \<Longrightarrow> hd (ring_view buf start n) = buf ! ring_pos buf start 0"
  by (cases n) (simp_all add: ring_view_Cons)

lemma ring_view_eq_Cons:
  "ring_view buf start n = y # ys \<Longrightarrow>
     0 < n \<and> y = buf ! ring_pos buf start 0 \<and> ys = ring_view buf (Suc start) (n - 1)"
  by (cases n) (simp_all add: ring_view_Cons)

lemma last_ring_view: "0 < n \<Longrightarrow> last (ring_view buf start n) = buf ! ring_pos buf start (n - 1)"
  by (cases n) (simp_all add: ring_view_Suc)

lemma butlast_ring_view: "butlast (ring_view buf start n) = ring_view buf start (n - 1)"
  by (cases n) (simp_all add: ring_view_Suc)

lemma take_ring_view: "k \<le> n \<Longrightarrow> take k (ring_view buf start n) = ring_view buf start k"
  by (simp add: ring_view_def take_map)

subsection \<open>Copying a block into a ring, in one or in two pieces\<close>

text \<open>
  \<open>ring_written buf buf' h vs\<close>: compared with \<open>buf\<close>, the slots \<open>h, h + 1, ...\<close> (modulo the
  size) hold \<open>vs\<close> and every other slot is as before.
\<close>

definition ring_written :: "'a list \<Rightarrow> 'a list \<Rightarrow> nat \<Rightarrow> 'a list \<Rightarrow> bool" where
  "ring_written buf buf' h vs \<longleftrightarrow> length buf' = length buf \<and>
     (\<forall>k<length vs. buf' ! ring_pos buf h k = vs ! k) \<and>
     (\<forall>p<length buf. (\<forall>k<length vs. p \<noteq> ring_pos buf h k) \<longrightarrow> buf' ! p = buf ! p)"

lemma ring_written_once:
  assumes "acopy buf h vs = Some buf'"
  shows "ring_written buf buf' h vs"
proof -
  have len: "h + length vs \<le> length buf" using assms by (simp add: acopy_eq_Some)
  have pos: "ring_pos buf h k = h + k" if "k < length vs" for k
    using that len by (simp add: ring_pos_def)
  have "buf' ! p = buf ! p" if "p < length buf" "\<forall>k<length vs. p \<noteq> h + k" for p
  proof -
    have "\<not> (h \<le> p \<and> p < h + length vs)"
      using that(2) by (auto dest: spec [of _ "p - h"])
    with nth_acopy [OF assms that(1)] show ?thesis by auto
  qed
  then show ?thesis
    using pos len length_acopy [OF assms] nth_acopy [OF assms]
    by (auto simp: ring_written_def)
qed

lemma ring_written_twice:
  assumes h: "h + e = length buf" and e: "e < length vs" and fit: "length vs \<le> length buf"
    and 1: "acopy buf h (take e vs) = Some buf1" and 2: "acopy buf1 0 (drop e vs) = Some buf'"
  shows "ring_written buf buf' h vs"
proof -
  have len: "length buf1 = length buf" "length buf' = length buf"
    using length_acopy [OF 1] length_acopy [OF 2] by simp_all
  have nth: "buf' ! p = (if p < length vs - e then vs ! (p + e)
      else if h \<le> p then vs ! (p - h) else buf ! p)" if "p < length buf" for p
    using nth_acopy [OF 2, of p] nth_acopy [OF 1, of p] that h e len by (auto simp: add.commute)
  have posl: "ring_pos buf h k = h + k" if "k < e" for k
    using that h by (simp add: ring_pos_def)
  have posr: "ring_pos buf h k = k - e" if "e \<le> k" "k < length vs" for k
  proof -
    have eq: "h + k = (k - e) + length buf" using that h by simp
    have "k - e < length buf" using that fit by simp
    then show ?thesis by (simp only: ring_pos_def eq mod_add_self2 mod_less)
  qed
  have new: "buf' ! ring_pos buf h k = vs ! k" if "k < length vs" for k
  proof (cases "k < e")
    case True
    with posl [OF True] nth [of "h + k"] h e fit show ?thesis by auto
  next
    case False
    with posr [of k] that nth [of "k - e"] fit show ?thesis by auto
  qed
  have old: "buf' ! p = buf ! p" if p: "p < length buf" "\<forall>k<length vs. p \<noteq> ring_pos buf h k" for p
  proof -
    have "\<not> p < length vs - e"
    proof
      assume "p < length vs - e"
      then have "p + e < length vs" by simp
      with p(2) posr [of "p + e"] show False by fastforce
    qed
    moreover have "\<not> h \<le> p"
    proof
      assume "h \<le> p"
      then have "p - h < e" using p(1) h by simp
      then have "p - h < length vs" using e by simp
      with posl [OF \<open>p - h < e\<close>] p(2) \<open>h \<le> p\<close> show False by fastforce
    qed
    ultimately show ?thesis using nth [OF p(1)] by simp
  qed
  from new old len show ?thesis by (simp add: ring_written_def)
qed

lemma ring_view_written:
  assumes w: "ring_written buf buf' h vs" and fit: "n + length vs \<le> length buf"
    and h: "h mod length buf = ring_pos buf start n"
  shows "ring_view buf' start (n + length vs) = ring_view buf start n @ vs"
proof (cases "buf = []")
  case True
  with fit show ?thesis by simp
next
  case False
  have pos: "ring_pos buf start (n + k) = ring_pos buf h k" for k
  proof -
    have "(start + n + k) mod length buf = ((start + n) mod length buf + k) mod length buf"
      by (simp add: mod_add_left_eq)
    also have "\<dots> = (h mod length buf + k) mod length buf"
      using h by (simp only: ring_pos_def)
    also have "\<dots> = (h + k) mod length buf"
      by (rule mod_add_left_eq)
    finally show ?thesis by (simp add: ring_pos_def add.assoc)
  qed
  show ?thesis
  proof (rule ring_view_extend)
    show "length buf' = length buf" using w by (simp add: ring_written_def)
  next
    fix i assume i: "i < n"
    have "\<forall>k<length vs. ring_pos buf start i \<noteq> ring_pos buf h k"
      using i fit by (auto simp: pos [symmetric] ring_pos_inj)
    with w ring_pos_less [OF False] show "buf' ! ring_pos buf start i = buf ! ring_pos buf start i"
      by (simp add: ring_written_def)
  next
    fix k assume "k < length vs"
    with w show "buf' ! ring_pos buf start (n + k) = vs ! k"
      by (simp add: pos ring_written_def)
  qed
qed

end
