(* ===== verification/Ring_Deque.thy ===== *)
theory Ring_Deque
  imports Slices Interfaces Ring_Index
begin

text \<open>
  \<open>outpost::Deque\<close> (modules/utils/src/outpost/utils/container/deque.h, deque_impl.h): a double
  ended queue in a ring of \<open>mMaxSize\<close> slots. \<open>mHead\<close> is the slot written last by \<open>append\<close>,
  \<open>mTail\<close> the slot of the front element. The backing buffer is part of the state.

  \<open>deque_items\<close> is the abstraction to a list. \<open>deque_inv\<close> holds of a fresh deque with at
  least two slots and is kept by every operation; with a single slot it does not hold, and the
  code reads outside of its buffer (\<open>deque_single_slot_undefined\<close>).
\<close>

datatype DequeAppendStrategy = complete | partial

record 'a deque =
  mBuffer :: "'a list"
  mMaxSize :: size_t
  mHead :: size_t
  mTail :: size_t
  mSize :: size_t

definition deque_new :: "'a list \<Rightarrow> 'a deque" where
  "deque_new backendBuffer = \<lparr>mBuffer = backendBuffer, mMaxSize = length backendBuffer,
     mHead = 0, mTail = 1, mSize = 0\<rparr>"

definition deque_isEmpty :: "'a deque \<Rightarrow> bool" where
  "deque_isEmpty d \<longleftrightarrow> mSize d = 0"

definition deque_isFull :: "'a deque \<Rightarrow> bool" where
  "deque_isFull d \<longleftrightarrow> mSize d = mMaxSize d"

definition deque_getSize :: "'a deque \<Rightarrow> size_t" where
  "deque_getSize d = mSize d"

definition deque_getMaxSize :: "'a deque \<Rightarrow> size_t" where
  "deque_getMaxSize d = mMaxSize d"

definition deque_getAvailableSpace :: "'a deque \<Rightarrow> size_t" where
  "deque_getAvailableSpace d = szsub (mMaxSize d) (mSize d)"

definition deque_clear :: "'a deque \<Rightarrow> 'a deque" where
  "deque_clear d = d\<lparr>mHead := 0, mTail := 1, mSize := 0\<rparr>"

definition deque_getFront :: "'a deque \<Rightarrow> 'a option" where
  "deque_getFront d = aread (mBuffer d) (mTail d)"

definition deque_getBack :: "'a deque \<Rightarrow> 'a option" where
  "deque_getBack d = aread (mBuffer d) (mHead d)"

definition deque_append :: "'a \<Rightarrow> 'a deque \<Rightarrow> ('a deque \<times> bool) option" where
  "deque_append value d =
     (if \<not> deque_isFull d then
        let head = (if mHead d \<ge> szsub (mMaxSize d) 1 then 0 else szadd (mHead d) 1)
        in do {
          buf \<leftarrow> awrite (mBuffer d) head value;
          Some (d\<lparr>mHead := head, mBuffer := buf, mSize := szadd (mSize d) 1\<rparr>, True) }
      else Some (d, False))"

text \<open>
  \<open>append\<close> of a slice, here the list of its elements. \<open>appendMultipleElements\<close> is
  \<open>acopy\<close> (one \<open>memcpy\<close>, or the same assignments one by one).
\<close>

definition deque_appendSlice ::
    "DequeAppendStrategy \<Rightarrow> 'a list \<Rightarrow> 'a deque \<Rightarrow> ('a deque \<times> size_t) option" where
  "deque_appendSlice strategy values d =
     (let elementsToAppend = length values in
      if elementsToAppend \<noteq> 0 \<and> \<not> deque_isFull d then
        if elementsToAppend > szsub (mMaxSize d) (mSize d) \<and> strategy \<noteq> partial
        then Some (d, 0)
        else
          let elementsToAppend =
                (if elementsToAppend > szsub (mMaxSize d) (mSize d)
                 then szsub (mMaxSize d) (mSize d) else elementsToAppend);
              head = szadd (mHead d) 1;
              elementsUntilEndOfBuffer = szsub (mMaxSize d) head
          in if elementsToAppend \<le> elementsUntilEndOfBuffer then do {
               buf \<leftarrow> acopy (mBuffer d) head (take elementsToAppend values);
               Some (d\<lparr>mBuffer := buf, mHead := szsub (szadd head elementsToAppend) 1,
                       mSize := szadd (mSize d) elementsToAppend\<rparr>, elementsToAppend) }
             else do {
               buf1 \<leftarrow> acopy (mBuffer d) head (take elementsUntilEndOfBuffer values);
               buf2 \<leftarrow> acopy buf1 0 (drop elementsUntilEndOfBuffer (take elementsToAppend values));
               Some (d\<lparr>mBuffer := buf2,
                       mHead := szsub (szsub elementsToAppend elementsUntilEndOfBuffer) 1,
                       mSize := szadd (mSize d) elementsToAppend\<rparr>, elementsToAppend) }
      else Some (d, elementsToAppend))"

definition deque_prepend :: "'a \<Rightarrow> 'a deque \<Rightarrow> ('a deque \<times> bool) option" where
  "deque_prepend value d =
     (if \<not> deque_isFull d then
        let tail = (if mTail d = 0 then szsub (mMaxSize d) 1 else szsub (mTail d) 1)
        in do {
          buf \<leftarrow> awrite (mBuffer d) tail value;
          Some (d\<lparr>mTail := tail, mBuffer := buf, mSize := szadd (mSize d) 1\<rparr>, True) }
      else Some (d, False))"

definition deque_removeBack :: "'a deque \<Rightarrow> 'a deque" where
  "deque_removeBack d =
     d\<lparr>mHead := (if mHead d = 0 then szsub (mMaxSize d) 1 else szsub (mHead d) 1),
       mSize := szsub (mSize d) 1\<rparr>"

definition deque_removeFront :: "'a deque \<Rightarrow> 'a deque" where
  "deque_removeFront d =
     d\<lparr>mTail := (if mTail d \<ge> szsub (mMaxSize d) 1 then 0 else szadd (mTail d) 1),
       mSize := szsub (mSize d) 1\<rparr>"

subsection \<open>Abstraction and invariant\<close>

definition deque_items :: "'a deque \<Rightarrow> 'a list" where
  "deque_items d = ring_view (mBuffer d) (mTail d) (mSize d)"

definition deque_inv :: "'a deque \<Rightarrow> bool" where
  "deque_inv d \<longleftrightarrow> length (mBuffer d) = mMaxSize d \<and> 2 \<le> mMaxSize d \<and> mMaxSize d < 2 ^ size_bits \<and>
     mHead d < mMaxSize d \<and> mTail d < mMaxSize d \<and> mSize d \<le> mMaxSize d \<and>
     (mTail d + mSize d) mod mMaxSize d = (mHead d + 1) mod mMaxSize d"

lemma deque_invD:
  assumes "deque_inv d"
  shows "length (mBuffer d) = mMaxSize d" and "mBuffer d \<noteq> []" and "2 \<le> mMaxSize d"
    and "mMaxSize d < 2 ^ size_bits" and "mHead d < mMaxSize d" and "mTail d < mMaxSize d"
    and "mSize d \<le> mMaxSize d" and "mSize d < 2 ^ size_bits"
    and "(mTail d + mSize d) mod mMaxSize d = (mHead d + 1) mod mMaxSize d"
  using assms by (auto simp: deque_inv_def)

lemma deque_inv_update:
  "deque_inv (d\<lparr>mBuffer := b, mHead := h, mSize := n\<rparr>) \<longleftrightarrow>
     length b = mMaxSize d \<and> 2 \<le> mMaxSize d \<and> mMaxSize d < 2 ^ size_bits \<and> h < mMaxSize d \<and>
     mTail d < mMaxSize d \<and> n \<le> mMaxSize d \<and> (mTail d + n) mod mMaxSize d = (h + 1) mod mMaxSize d"
  "deque_inv (d\<lparr>mHead := h, mSize := n\<rparr>) \<longleftrightarrow>
     length (mBuffer d) = mMaxSize d \<and> 2 \<le> mMaxSize d \<and> mMaxSize d < 2 ^ size_bits \<and> h < mMaxSize d \<and>
     mTail d < mMaxSize d \<and> n \<le> mMaxSize d \<and> (mTail d + n) mod mMaxSize d = (h + 1) mod mMaxSize d"
  by (simp_all add: deque_inv_def)

lemma deque_inv_new: "2 \<le> length buf \<Longrightarrow> length buf < 2 ^ size_bits \<Longrightarrow> deque_inv (deque_new buf)"
  by (auto simp: deque_inv_def deque_new_def)

lemma deque_items_new: "deque_items (deque_new buf) = []"
  by (simp add: deque_items_def deque_new_def)

lemma deque_clear_correct: "deque_inv d \<Longrightarrow> deque_inv (deque_clear d) \<and> deque_items (deque_clear d) = []"
  by (auto simp: deque_inv_def deque_clear_def deque_items_def)

lemma deque_size_items: "length (deque_items d) = mSize d"
  by (simp add: deque_items_def)

lemma deque_isEmpty_iff: "deque_isEmpty d \<longleftrightarrow> deque_items d = []"
  by (simp add: deque_isEmpty_def deque_items_def ring_view_Nil_iff)

text \<open>Moving an index one slot up or down, as the code writes it and as arithmetic modulo the size.\<close>

lemma ring_up:
  assumes "i < N" and "2 \<le> N" and "N < 2 ^ size_bits"
  shows "(if i \<ge> szsub N 1 then 0 else szadd i 1) = (i + 1) mod N"
  using assms by (simp add: szsub_exact szadd_exact mod_Suc) linarith

lemma ring_down:
  assumes "i < N" and "2 \<le> N" and "N < 2 ^ size_bits"
  shows "(if i = 0 then szsub N 1 else szsub i 1) = (i + N - 1) mod N"
proof (cases i)
  case 0
  with assms show ?thesis by (simp add: szsub_exact)
next
  case (Suc j)
  then have "(i + N - 1) mod N = (j + N) mod N" by simp
  with Suc assms show ?thesis by (simp add: szsub_exact)
qed

lemma ring_down_up:
  assumes "i < N"
  shows "Suc ((i + N - 1) mod N) mod N = i"
proof -
  have "Suc ((i + N - 1) mod N) mod N = Suc (i + N - 1) mod N" by (rule mod_Suc_eq)
  also have "Suc (i + N - 1) = i + N" using assms by simp
  finally show ?thesis using assms by simp
qed

lemma deque_append_eq:
  assumes "deque_inv d" and "mSize d < mMaxSize d"
  shows "deque_append v d = Some (d\<lparr>mHead := ring_pos (mBuffer d) (mTail d) (mSize d),
    mBuffer := (mBuffer d)[ring_pos (mBuffer d) (mTail d) (mSize d) := v], mSize := Suc (mSize d)\<rparr>, True)"
proof -
  note D = deque_invD [OF assms(1)]
  have "(if mHead d \<ge> szsub (mMaxSize d) 1 then 0 else szadd (mHead d) 1) =
      ring_pos (mBuffer d) (mTail d) (mSize d)"
    using D ring_up [of "mHead d" "mMaxSize d"] by (simp add: ring_pos_def)
  moreover have "szadd (mSize d) 1 = Suc (mSize d)"
    using D assms(2) by (simp add: szadd_exact)
  ultimately show ?thesis
    using assms(2) ring_pos_less [OF D(2), of "mTail d" "mSize d"]
    by (simp add: deque_append_def deque_isFull_def Let_def awrite_Some)
qed

lemma deque_append_room:
  assumes "deque_inv d" and "length (deque_items d) < mMaxSize d"
  shows "\<exists>d'. deque_append v d = Some (d', True) \<and> deque_inv d' \<and>
    deque_items d' = deque_items d @ [v] \<and> mMaxSize d' = mMaxSize d"
proof -
  note D = deque_invD [OF assms(1)]
  let ?p = "ring_pos (mBuffer d) (mTail d) (mSize d)"
  let ?d = "d\<lparr>mHead := ?p, mBuffer := (mBuffer d)[?p := v], mSize := Suc (mSize d)\<rparr>"
  have sz: "mSize d < mMaxSize d" using assms(2) by (simp add: deque_size_items)
  have "?p < mMaxSize d" using D ring_pos_less [OF D(2)] by simp
  moreover have "(mTail d + Suc (mSize d)) mod mMaxSize d = (?p + 1) mod mMaxSize d"
    using D(1) by (simp add: ring_pos_def mod_Suc_eq)
  ultimately have "deque_inv ?d" using D sz by (simp add: deque_inv_def)
  moreover have "deque_items ?d = deque_items d @ [v]"
    using ring_view_update_new [of "mSize d" "mBuffer d" "mTail d" v] sz D(1)
    by (simp add: deque_items_def)
  ultimately show ?thesis using deque_append_eq [OF assms(1) sz, of v] by auto
qed

lemma deque_append_full:
  "deque_inv d \<Longrightarrow> length (deque_items d) = mMaxSize d \<Longrightarrow> deque_append v d = Some (d, False)"
  by (simp add: deque_append_def deque_isFull_def deque_size_items)

lemma deque_getFront_hd:
  assumes "deque_inv d" and "deque_items d = y # ys"
  shows "deque_getFront d = Some y"
  using deque_invD [OF assms(1)] assms(2) ring_view_eq_Cons [of "mBuffer d" "mTail d" "mSize d" y ys]
  by (simp add: deque_getFront_def deque_items_def aread_def ring_pos_def)

lemma deque_removeFront_tl:
  assumes "deque_inv d" and "deque_items d = y # ys"
  shows "deque_inv (deque_removeFront d) \<and> deque_items (deque_removeFront d) = ys \<and>
    mMaxSize (deque_removeFront d) = mMaxSize d"
proof -
  note D = deque_invD [OF assms(1)]
  have r: "0 < mSize d" "ys = ring_view (mBuffer d) (Suc (mTail d)) (mSize d - 1)"
    using assms(2) ring_view_eq_Cons [of "mBuffer d" "mTail d" "mSize d" y ys]
    by (simp_all add: deque_items_def)
  have eq: "deque_removeFront d = d\<lparr>mTail := (mTail d + 1) mod mMaxSize d, mSize := mSize d - 1\<rparr>"
    using D r(1) ring_up [of "mTail d" "mMaxSize d"] by (simp add: deque_removeFront_def szsub_exact)
  have "((mTail d + 1) mod mMaxSize d + (mSize d - 1)) mod mMaxSize d =
      (mTail d + 1 + (mSize d - 1)) mod mMaxSize d"
    by (rule mod_add_left_eq)
  also have "\<dots> = (mHead d + 1) mod mMaxSize d" using D(9) r(1) by simp
  finally have "deque_inv (deque_removeFront d)"
    using D r(1) by (simp add: eq deque_inv_def)
  moreover have "deque_items (deque_removeFront d) = ys"
    using ring_view_wrap [of "mBuffer d" "Suc (mTail d)"] D(1) r(2) by (simp add: eq deque_items_def)
  ultimately show ?thesis by (simp add: eq)
qed

lemma deque_prepend_room:
  assumes "deque_inv d" and "length (deque_items d) < mMaxSize d"
  shows "\<exists>d'. deque_prepend v d = Some (d', True) \<and> deque_inv d' \<and>
    deque_items d' = v # deque_items d \<and> mMaxSize d' = mMaxSize d"
proof -
  note D = deque_invD [OF assms(1)]
  let ?t = "(mTail d + mMaxSize d - 1) mod mMaxSize d"
  let ?d = "d\<lparr>mTail := ?t, mBuffer := (mBuffer d)[?t := v], mSize := Suc (mSize d)\<rparr>"
  have sz: "mSize d < mMaxSize d" using assms(2) by (simp add: deque_size_items)
  have t: "?t < mMaxSize d" using D by simp
  have Suc_t: "Suc ?t mod mMaxSize d = mTail d" using D(6) by (rule ring_down_up)
  have "(?t + Suc (mSize d)) mod mMaxSize d = (Suc ?t mod mMaxSize d + mSize d) mod mMaxSize d"
    by (simp add: mod_add_left_eq)
  also have "\<dots> = (mHead d + 1) mod mMaxSize d" using D(9) by (simp only: Suc_t)
  finally have inv: "deque_inv ?d" using D sz t by (simp add: deque_inv_def)
  have "ring_view ((mBuffer d)[?t := v]) ?t (Suc (mSize d)) = v # ring_view (mBuffer d) (Suc ?t) (mSize d)"
    using sz t D(1) by (intro ring_view_update_front) (simp_all add: ring_pos_def)
  also have "ring_view (mBuffer d) (Suc ?t) (mSize d) = deque_items d"
    using ring_view_wrap [of "mBuffer d" "Suc ?t" "mSize d"] D(1) Suc_t by (simp add: deque_items_def)
  finally have items: "deque_items ?d = v # deque_items d" by (simp add: deque_items_def)
  have "deque_prepend v d = Some (?d, True)"
    using D sz t ring_down [of "mTail d" "mMaxSize d"]
    by (simp add: deque_prepend_def deque_isFull_def Let_def awrite_Some szadd_exact)
  with inv items show ?thesis by auto
qed

lemma deque_prepend_full:
  "deque_inv d \<Longrightarrow> length (deque_items d) = mMaxSize d \<Longrightarrow> deque_prepend v d = Some (d, False)"
  by (simp add: deque_prepend_def deque_isFull_def deque_size_items)

lemma mod_cancel_Suc:
  assumes "Suc a mod N = Suc b mod N" and "0 < N"
  shows "a mod N = b mod (N::nat)"
proof -
  have "(Suc a mod N + (N - 1)) mod N = (Suc b mod N + (N - 1)) mod N" using assms(1) by simp
  then have "(Suc a + (N - 1)) mod N = (Suc b + (N - 1)) mod N" by (simp only: mod_add_left_eq)
  with assms(2) show ?thesis by simp
qed

lemma deque_head_pos:
  assumes "deque_inv d" and "0 < mSize d"
  shows "ring_pos (mBuffer d) (mTail d) (mSize d - 1) = mHead d"
proof -
  note D = deque_invD [OF assms(1)]
  have "Suc (mTail d + (mSize d - 1)) mod mMaxSize d = Suc (mHead d) mod mMaxSize d"
    using D(9) assms(2) by simp
  moreover have "0 < mMaxSize d" using D(3) by simp
  ultimately have "(mTail d + (mSize d - 1)) mod mMaxSize d = mHead d mod mMaxSize d"
    by (rule mod_cancel_Suc)
  then show ?thesis using D(1,5) by (simp add: ring_pos_def)
qed

lemma deque_getBack_last:
  assumes "deque_inv d" and "deque_items d \<noteq> []"
  shows "deque_getBack d = Some (last (deque_items d))"
proof -
  have "0 < mSize d" using assms(2) by (simp add: deque_items_def ring_view_Nil_iff)
  then show ?thesis
    using deque_invD [OF assms(1)] deque_head_pos [OF assms(1)]
    by (simp add: deque_getBack_def aread_def deque_items_def last_ring_view)
qed

lemma deque_removeBack_butlast:
  assumes "deque_inv d" and "deque_items d \<noteq> []"
  shows "deque_inv (deque_removeBack d) \<and> deque_items (deque_removeBack d) = butlast (deque_items d) \<and>
    mMaxSize (deque_removeBack d) = mMaxSize d"
proof -
  note D = deque_invD [OF assms(1)]
  let ?h = "(mHead d + mMaxSize d - 1) mod mMaxSize d"
  have sz: "0 < mSize d" using assms(2) by (simp add: deque_items_def ring_view_Nil_iff)
  have eq: "deque_removeBack d = d\<lparr>mHead := ?h, mSize := mSize d - 1\<rparr>"
    using D sz ring_down [of "mHead d" "mMaxSize d"] by (simp add: deque_removeBack_def szsub_exact)
  have "(mTail d + (mSize d - 1)) mod mMaxSize d = mHead d"
    using deque_head_pos [OF assms(1) sz] D(1) by (simp add: ring_pos_def)
  moreover have "Suc ?h mod mMaxSize d = mHead d" using D(5) by (rule ring_down_up)
  ultimately have "(mTail d + (mSize d - 1)) mod mMaxSize d = (?h + 1) mod mMaxSize d"
    by (simp only: Suc_eq_plus1)
  moreover have "?h < mMaxSize d" and "mSize d - 1 \<le> mMaxSize d" using D(3,7) by auto
  ultimately have "deque_inv (deque_removeBack d)"
    unfolding eq deque_inv_update(2) using D(1,3,4,6) by (intro conjI)
  then show ?thesis by (simp add: eq deque_items_def butlast_ring_view)
qed

text \<open>The deque keeps the contract of a bounded deque.\<close>

interpretation dq: bounded_deque deque_items deque_inv mMaxSize "\<lambda>_. True"
    deque_append deque_getFront "\<lambda>d. Some (deque_removeFront d)" deque_isEmpty
    deque_prepend deque_getBack "\<lambda>d. Some (deque_removeBack d)"
proof unfold_locales
  fix s :: "'a deque" and x :: 'a
  assume inv: "deque_inv s"
  show "length (deque_items s) < mMaxSize s \<Longrightarrow> \<exists>s'. deque_append x s = Some (s', True) \<and>
      deque_inv s' \<and> deque_items s' = deque_items s @ [x] \<and> mMaxSize s' = mMaxSize s"
    by (rule deque_append_room [OF inv])
  show "length (deque_items s) = mMaxSize s \<Longrightarrow> deque_append x s = Some (s, False)"
    by (rule deque_append_full [OF inv])
  show "length (deque_items s) < mMaxSize s \<Longrightarrow> \<exists>s'. deque_prepend x s = Some (s', True) \<and>
      deque_inv s' \<and> deque_items s' = x # deque_items s \<and> mMaxSize s' = mMaxSize s"
    by (rule deque_prepend_room [OF inv])
  show "length (deque_items s) = mMaxSize s \<Longrightarrow> deque_prepend x s = Some (s, False)"
    by (rule deque_prepend_full [OF inv])
  show "length (deque_items s) \<le> mMaxSize s"
    using deque_invD(7) [OF inv] by (simp add: deque_size_items)
  show "deque_isEmpty s = (deque_items s = [])" by (rule deque_isEmpty_iff)
next
  fix s :: "'a deque" and y ys
  assume "deque_inv s" and "deque_items s = y # ys"
  then show "deque_getFront s = Some y" by (rule deque_getFront_hd)
next
  fix s :: "'a deque" and y ys
  assume "deque_inv s" and "deque_items s = y # ys"
  from deque_removeFront_tl [OF this]
  show "\<exists>s'. Some (deque_removeFront s) = Some s' \<and> deque_inv s' \<and> deque_items s' = ys \<and>
      mMaxSize s' = mMaxSize s" by blast
next
  fix s :: "'a deque"
  assume "deque_inv s" and "deque_items s \<noteq> []"
  then show "deque_getBack s = Some (last (deque_items s))" by (rule deque_getBack_last)
next
  fix s :: "'a deque"
  assume "deque_inv s" and "deque_items s \<noteq> []"
  from deque_removeBack_butlast [OF this]
  show "\<exists>s'. Some (deque_removeBack s) = Some s' \<and> deque_inv s' \<and>
      deque_items s' = butlast (deque_items s) \<and> mMaxSize s' = mMaxSize s" by blast
qed

subsection \<open>Appending a slice\<close>

text \<open>The number of elements a call of \<open>append\<close> on a slice of \<open>n\<close> elements adds.\<close>

definition deque_accepted :: "DequeAppendStrategy \<Rightarrow> nat \<Rightarrow> nat \<Rightarrow> nat" where
  "deque_accepted strategy n room = (if n \<le> room then n else if strategy = partial then room else 0)"

lemma deque_written:
  assumes inv: "deque_inv d" and w: "ring_written (mBuffer d) buf (mHead d + 1) vs"
    and fit: "mSize d + length vs \<le> mMaxSize d"
    and h: "h < mMaxSize d" "(h + 1) mod mMaxSize d = (mHead d + 1 + length vs) mod mMaxSize d"
  defines "d' \<equiv> d\<lparr>mBuffer := buf, mHead := h, mSize := mSize d + length vs\<rparr>"
  shows "deque_inv d'" and "deque_items d' = deque_items d @ vs"
proof -
  note D = deque_invD [OF inv]
  have len: "length buf = mMaxSize d" using w D(1) by (simp add: ring_written_def)
  have "(mTail d + (mSize d + length vs)) mod mMaxSize d =
      ((mTail d + mSize d) mod mMaxSize d + length vs) mod mMaxSize d"
    by (simp add: mod_add_left_eq add.assoc)
  also have "\<dots> = (mHead d + 1 + length vs) mod mMaxSize d"
    by (simp only: D(9) mod_add_left_eq)
  finally show "deque_inv d'"
    unfolding d'_def deque_inv_update(1) using D(3,4,6) h len fit by (intro conjI) simp_all
  have "(mHead d + 1) mod length (mBuffer d) = ring_pos (mBuffer d) (mTail d) (mSize d)"
    using D(1,9) by (simp add: ring_pos_def)
  with ring_view_written [OF w, of "mSize d" "mTail d"] fit D(1)
  show "deque_items d' = deque_items d @ vs" by (simp add: deque_items_def d'_def)
qed

lemma deque_appendSlice_room:
  assumes inv: "deque_inv d" and sz: "mSize d < mMaxSize d" and vs: "values \<noteq> []"
    and n: "n = deque_accepted strategy (length values) (mMaxSize d - mSize d)" "n \<noteq> 0"
  shows "\<exists>d'. deque_appendSlice strategy values d = Some (d', n) \<and> deque_inv d' \<and>
    deque_items d' = deque_items d @ take n values \<and> mMaxSize d' = mMaxSize d"
proof -
  note D = deque_invD [OF inv]
  have len: "length (take n values) = n" "n \<le> mMaxSize d - mSize d" "n \<le> length values"
    using n by (auto simp: deque_accepted_def split: if_splits)
  have fit: "mSize d + length (take n values) \<le> mMaxSize d" using len sz by simp
  have sub: "szsub (mMaxSize d) (mSize d) = mMaxSize d - mSize d"
    "szsub (mMaxSize d) (mHead d + 1) = mMaxSize d - (mHead d + 1)"
    "szadd (mHead d) 1 = mHead d + 1" "szadd (mSize d) n = mSize d + n"
    "\<not> deque_isFull d"
    using D sz len by (simp_all add: szsub_exact szadd_exact deque_isFull_def)
  have pre: "\<not> (length values > mMaxSize d - mSize d \<and> strategy \<noteq> partial)"
    "(if length values > mMaxSize d - mSize d then mMaxSize d - mSize d else length values) = n"
    using n by (auto simp: deque_accepted_def split: if_splits)
  have go: "length values \<noteq> 0 \<and> \<not> deque_isFull d" using vs sub(5) by simp
  let ?e = "mMaxSize d - (mHead d + 1)"
  show ?thesis
  proof (cases "n \<le> ?e")
    case True
    obtain buf where buf: "acopy (mBuffer d) (mHead d + 1) (take n values) = Some buf"
      using acopy_Some [of "mHead d + 1" "take n values" "mBuffer d"] True D(1,5) len by auto
    have h: "szsub (szadd (mHead d + 1) n) 1 = mHead d + n" "mHead d + n < mMaxSize d"
      using True D(4,5) n(2) by (simp_all add: szsub_exact szadd_exact)
    have "deque_appendSlice strategy values d =
        Some (d\<lparr>mBuffer := buf, mHead := mHead d + n, mSize := mSize d + n\<rparr>, n)"
      unfolding deque_appendSlice_def Let_def sub if_P [OF go] if_not_P [OF pre(1)] pre(2) if_P [OF True]
      using buf by (simp add: h(1) [simplified])
    with deque_written [OF inv ring_written_once [OF buf] fit, of "mHead d + n"] h len
    show ?thesis by (simp add: add.commute)
  next
    case False
    obtain buf1 where buf1: "acopy (mBuffer d) (mHead d + 1) (take ?e (take n values)) = Some buf1"
      using acopy_Some [of "mHead d + 1" "take ?e (take n values)" "mBuffer d"] False D(1,5) len by auto
    have l1: "length buf1 = mMaxSize d" using length_acopy [OF buf1] D(1) by simp
    obtain buf where buf: "acopy buf1 0 (drop ?e (take n values)) = Some buf"
      using acopy_Some [of 0 "drop ?e (take n values)" buf1] l1 len D(5) by auto
    have w: "ring_written (mBuffer d) buf (mHead d + 1) (take n values)"
      using ring_written_twice [OF _ _ _ buf1 buf] False D(1,5) len fit by simp
    have h: "szsub (szsub n ?e) 1 = n - ?e - 1" "n - ?e - 1 < mMaxSize d"
      using False D(4,5) n(2) len by (simp_all add: szsub_exact)
    have "n - ?e - 1 + 1 + mMaxSize d = mHead d + 1 + n" using False D(5) by simp
    then have "(n - ?e - 1 + 1) mod mMaxSize d = (mHead d + 1 + n) mod mMaxSize d"
      by (metis mod_add_self2)
    with deque_written [OF inv w fit, of "n - ?e - 1"] h len
    have "deque_inv (d\<lparr>mBuffer := buf, mHead := n - ?e - 1, mSize := mSize d + n\<rparr>)"
      "deque_items (d\<lparr>mBuffer := buf, mHead := n - ?e - 1, mSize := mSize d + n\<rparr>) =
        deque_items d @ take n values" by simp_all
    moreover have "take ?e values = take ?e (take n values)" using False by (simp add: min_def)
    then have "deque_appendSlice strategy values d =
        Some (d\<lparr>mBuffer := buf, mHead := n - ?e - 1, mSize := mSize d + n\<rparr>, n)"
      unfolding deque_appendSlice_def Let_def sub if_P [OF go] if_not_P [OF pre(1)] pre(2) if_not_P [OF False] h
      using buf1 buf by simp
    ultimately show ?thesis by simp
  qed
qed

text \<open>
  C35. Appending a slice to a deque that is not full adds, after what is stored already, the whole
  slice when it fits, as many of its first elements as there is room under \<open>partial\<close>, and
  nothing under \<open>complete\<close>; the returned count is the number of added elements, nothing is
  written outside of the buffer (also when the copy wraps around its end) and the invariant is kept.\<close>

theorem deque_appendSlice_adds:
  assumes "deque_inv d" and "mSize d < mMaxSize d"
    and "n = deque_accepted strategy (length values) (mMaxSize d - mSize d)"
  shows "\<exists>d'. deque_appendSlice strategy values d = Some (d', n) \<and> deque_inv d' \<and>
    deque_items d' = deque_items d @ take n values \<and> mMaxSize d' = mMaxSize d"
proof (cases "n = 0")
  case True
  have "szsub (mMaxSize d) (mSize d) = mMaxSize d - mSize d"
    using deque_invD [OF assms(1)] by (simp add: szsub_exact)
  moreover have "\<not> deque_isFull d" using assms(2) by (simp add: deque_isFull_def)
  ultimately have "deque_appendSlice strategy values d = Some (d, 0)"
    using True assms
    by (auto simp: deque_appendSlice_def deque_accepted_def Let_def split: if_splits)
  with True assms(1) show ?thesis by simp
next
  case False
  then have "values \<noteq> []" using assms(3) by (auto simp: deque_accepted_def)
  with deque_appendSlice_room [OF assms(1,2) _ assms(3) False] show ?thesis by simp
qed

lemma deque_appendSlice_adds_witness:
  "\<exists>d'. deque_appendSlice partial [1, 2, 3, 4, 5::nat]
      \<lparr>mBuffer = [10, 0, 0, 7], mMaxSize = 4, mHead = 0, mTail = 3, mSize = 2\<rparr> = Some (d', 2) \<and>
    deque_inv d' \<and> deque_items d' = [7, 10] @ [1, 2] \<and> mMaxSize d' = 4"
  using deque_appendSlice_adds [of "\<lparr>mBuffer = [10, 0, 0, 7::nat], mMaxSize = 4, mHead = 0,
      mTail = 3, mSize = 2\<rparr>" 2 partial "[1, 2, 3, 4, 5]"]
  by (simp add: deque_inv_def deque_accepted_def deque_items_def ring_view_def ring_pos_def
      upt_rec size_bits_def)

text \<open>
  C34. For a client that only appends, looks at the front and removes it, a deque of two or more
  slots is a bounded first-in first-out list: every sequence of calls runs without touching memory
  outside of the buffer and gives the answers that the list gives.\<close>

theorem deque_refines_fifo:
  assumes "2 \<le> length buf" and "length buf < 2 ^ size_bits"
  shows "\<exists>d rs. fifo_run deque_append deque_getFront (\<lambda>d. Some (deque_removeFront d)) deque_isEmpty
      (deque_new buf) cs = Some (d, rs) \<and> deque_inv d \<and>
    spec_run (length buf) [] cs = (deque_items d, rs)"
proof -
  have "calls_ok (\<lambda>_. True) cs" by (simp add: calls_ok_def list_all_iff split: fifo_call.split)
  moreover have "mMaxSize (deque_new buf) = length buf" by (simp add: deque_new_def)
  ultimately show ?thesis
    using dq.run_refines [OF deque_inv_new [OF assms], of cs] by (auto simp: deque_items_new)
qed

lemma deque_refines_fifo_witness:
  "\<exists>d rs. fifo_run deque_append deque_getFront (\<lambda>d. Some (deque_removeFront d)) deque_isEmpty
      (deque_new [0, 0::nat]) [Push 4, Push 5, Push 6, Pop] = Some (d, rs) \<and> deque_inv d \<and>
    spec_run 2 [] [Push 4, Push 5, Push 6, Pop] = (deque_items d, rs)"
  using deque_refines_fifo [of "[0, 0::nat]" "[Push 4, Push 5, Push 6, Pop]"]
  by (simp add: size_bits_def)

text \<open>
  Appending a slice to a full deque: nothing is appended, under either strategy, but the call
  returns the number of elements of the slice, as if all of them had been.
\<close>

lemma deque_appendSlice_full_reports_all:
  "mSize d = mMaxSize d \<Longrightarrow> deque_appendSlice strategy values d = Some (d, length values)"
  by (simp add: deque_appendSlice_def deque_isFull_def)

text \<open>A deque of one slot accepts an element and then looks for it behind its buffer.\<close>

lemma deque_single_slot_undefined:
  "\<exists>d. deque_append v (deque_new [w]) = Some (d, True) \<and> deque_getSize d = 1 \<and>
     deque_getFront d = None"
  by (simp add: deque_append_def deque_new_def deque_isFull_def deque_getFront_def deque_getSize_def
      awrite_def aread_def szsub_def szadd_def size_bits_def)

end
