(* ===== verification/Byte_Ring.thy ===== *)
theory Byte_Ring
  imports Interfaces Ring_Index
begin

text \<open>
  \<open>outpost::utils::ByteArrayRingBuffer\<close> (byte_array_ring_buffer.h): a ring of slots, each with a
  length, a flag byte and \<open>elementSize\<close> bytes. The template parameter \<open>elementSize\<close> is an
  argument of the operations that use it.

  \<open>bring_items\<close> is the sequence of stored messages (flags and bytes). \<open>bring_clean\<close> says that
  behind the length of every slot there are only zeros: \<open>append\<close> keeps it when it is called with
  its default \<open>pReset = true\<close>, so a message never exposes bytes of an older one.
\<close>

record element =
  elLength :: size_t
  elFlags :: u8
  elBuffer :: "u8 list"

record bring =
  brBuffer :: "element list"
  brReadIndex :: size_t
  brNumber :: size_t

definition bring_new :: "element list \<Rightarrow> bring" where
  "bring_new buffer = \<lparr>brBuffer = buffer, brReadIndex = 0, brNumber = 0\<rparr>"

definition bring_storage :: "nat \<Rightarrow> nat \<Rightarrow> bring" where
  "bring_storage elementSize numberOfElements =
     bring_new (replicate numberOfElements
       \<lparr>elLength = 0, elFlags = 0, elBuffer = replicate elementSize 0\<rparr>)"

definition bring_getFreeSlots :: "bring \<Rightarrow> size_t" where
  "bring_getFreeSlots s = szsub (length (brBuffer s)) (brNumber s)"

definition bring_getUsedSlots :: "bring \<Rightarrow> size_t" where
  "bring_getUsedSlots s = brNumber s"

definition bring_isEmpty :: "bring \<Rightarrow> bool" where
  "bring_isEmpty s \<longleftrightarrow> brNumber s = 0"

text \<open>A modulus of zero is undefined.\<close>

definition bring_increment :: "bring \<Rightarrow> size_t \<Rightarrow> size_t \<Rightarrow> size_t option" where
  "bring_increment s index count =
     (if brBuffer s = [] then None else Some (szadd index count mod length (brBuffer s)))"

text \<open>
  The write index is kept in an \<open>int\<close>, so that an index of \<open>2 ^ 31\<close> or more would be negative
  (\<open>None\<close>).
\<close>

definition bring_append :: "nat \<Rightarrow> u8 list \<Rightarrow> u8 \<Rightarrow> bool \<Rightarrow> bring \<Rightarrow> (bring \<times> bool) option" where
  "bring_append elementSize data flags pReset s =
     (if brNumber s < length (brBuffer s) \<and> length data \<le> elementSize then do {
        writeIndex \<leftarrow> bring_increment s (brReadIndex s) (brNumber s);
        e \<leftarrow> (if writeIndex < 2 ^ 31 then aread (brBuffer s) writeIndex else None);
        cleared \<leftarrow> (if pReset \<and> elLength e > length data
                    then acopy (elBuffer e) (length data) (replicate (elLength e - length data) 0)
                    else Some (elBuffer e));
        bytes \<leftarrow> acopy cleared 0 data;
        slots \<leftarrow> awrite (brBuffer s) writeIndex
                   \<lparr>elLength = length data, elFlags = flags, elBuffer = bytes\<rparr>;
        Some (s\<lparr>brBuffer := slots, brNumber := szadd (brNumber s) 1\<rparr>, True) }
      else Some (s, False))"

text \<open>The bytes of a slot that a slice returned by \<open>read\<close> or \<open>peek\<close> shows.\<close>

definition slot_bytes :: "element \<Rightarrow> u8 list" where
  "slot_bytes e = take (elLength e) (elBuffer e)"

definition bring_read :: "bring \<Rightarrow> u8 list option" where
  "bring_read s = map_option slot_bytes (aread (brBuffer s) (brReadIndex s))"

definition bring_readFlags :: "bring \<Rightarrow> u8 option" where
  "bring_readFlags s = map_option elFlags (aread (brBuffer s) (brReadIndex s))"

definition bring_setFlags :: "u8 \<Rightarrow> bring \<Rightarrow> bring option" where
  "bring_setFlags flags s = do {
     e \<leftarrow> aread (brBuffer s) (brReadIndex s);
     slots \<leftarrow> awrite (brBuffer s) (brReadIndex s) (e\<lparr>elFlags := flags\<rparr>);
     Some (s\<lparr>brBuffer := slots\<rparr>) }"

definition bring_pop :: "bring \<Rightarrow> (bring \<times> bool) option" where
  "bring_pop s =
     (if brNumber s > 0 then do {
        next \<leftarrow> bring_increment s (brReadIndex s) 1;
        Some (s\<lparr>brReadIndex := next, brNumber := brNumber s - 1\<rparr>, True) }
      else Some (s, False))"

definition bring_peek :: "size_t \<Rightarrow> bring \<Rightarrow> u8 list option" where
  "bring_peek index s =
     (if index \<le> brNumber s then do {
        position \<leftarrow> bring_increment s (brReadIndex s) index;
        e \<leftarrow> aread (brBuffer s) position;
        Some (slot_bytes e) }
      else Some [])"

definition bring_peekFlags :: "size_t \<Rightarrow> bring \<Rightarrow> u8 option" where
  "bring_peekFlags index s =
     (if index \<le> brNumber s then do {
        position \<leftarrow> bring_increment s (brReadIndex s) index;
        e \<leftarrow> aread (brBuffer s) position;
        Some (elFlags e) }
      else Some 0)"

definition bring_reset :: "bring \<Rightarrow> bring" where
  "bring_reset s = s\<lparr>brReadIndex := 0, brNumber := 0\<rparr>"

definition bring_resetElementsFrom :: "size_t \<Rightarrow> bring \<Rightarrow> bring" where
  "bring_resetElementsFrom count s =
     (if brNumber s > count then s\<lparr>brNumber := count\<rparr> else s)"

subsection \<open>Abstraction and invariant\<close>

definition slot_message :: "element \<Rightarrow> u8 \<times> u8 list" where
  "slot_message e = (elFlags e, slot_bytes e)"

definition bring_items :: "bring \<Rightarrow> (u8 \<times> u8 list) list" where
  "bring_items s = map slot_message (ring_view (brBuffer s) (brReadIndex s) (brNumber s))"

definition slot_ok :: "nat \<Rightarrow> element \<Rightarrow> bool" where
  "slot_ok elementSize e \<longleftrightarrow> length (elBuffer e) = elementSize \<and> elLength e \<le> elementSize"

definition bring_inv :: "nat \<Rightarrow> bring \<Rightarrow> bool" where
  "bring_inv elementSize s \<longleftrightarrow> list_all (slot_ok elementSize) (brBuffer s) \<and>
     length (brBuffer s) < 2 ^ 31 \<and> (brBuffer s \<noteq> [] \<longrightarrow> brReadIndex s < length (brBuffer s)) \<and>
     brNumber s \<le> length (brBuffer s)"

definition slot_clean :: "element \<Rightarrow> bool" where
  "slot_clean e \<longleftrightarrow> list_all (\<lambda>b. b = 0) (drop (elLength e) (elBuffer e))"

definition bring_clean :: "bring \<Rightarrow> bool" where
  "bring_clean s \<longleftrightarrow> list_all slot_clean (brBuffer s)"

lemma bring_storage_ok:
  "n < 2 ^ 31 \<Longrightarrow> bring_inv k (bring_storage k n) \<and> bring_clean (bring_storage k n) \<and>
     bring_items (bring_storage k n) = []"
  by (auto simp: bring_inv_def bring_storage_def bring_new_def slot_ok_def bring_clean_def
      slot_clean_def bring_items_def list_all_iff)

lemma length_bring_items [simp]: "length (bring_items s) = brNumber s"
  by (simp add: bring_items_def)

lemma bring_isEmpty_iff: "bring_isEmpty s \<longleftrightarrow> bring_items s = []"
  by (simp add: bring_isEmpty_def bring_items_def ring_view_Nil_iff)

lemma bring_increment_pos:
  "bring_inv k s \<Longrightarrow> brBuffer s \<noteq> [] \<Longrightarrow> count \<le> length (brBuffer s) \<Longrightarrow>
     bring_increment s (brReadIndex s) count = Some (ring_pos (brBuffer s) (brReadIndex s) count)"
  by (simp add: bring_increment_def ring_pos_def bring_inv_def szadd_exact size_bits_def)

text \<open>What \<open>append\<close> puts into a slot: the message, and zeros where the old one was longer.\<close>

definition slot_written :: "u8 list \<Rightarrow> u8 \<Rightarrow> bool \<Rightarrow> element \<Rightarrow> element" where
  "slot_written data flags pReset e = \<lparr>elLength = length data, elFlags = flags,
     elBuffer = data @ (if pReset \<and> elLength e > length data
       then replicate (elLength e - length data) 0 @ drop (elLength e) (elBuffer e)
       else drop (length data) (elBuffer e))\<rparr>"

lemma slot_written_ok:
  assumes "slot_ok k e" and "length data \<le> k"
  shows "slot_ok k (slot_written data flags r e)"
    and "slot_message (slot_written data flags r e) = (flags, data)"
  using assms by (auto simp: slot_ok_def slot_written_def slot_message_def slot_bytes_def)

lemma slot_written_clean:
  assumes "slot_clean e"
  shows "slot_clean (slot_written data flags True e)"
proof (cases "elLength e > length data")
  case True
  with assms show ?thesis by (simp add: slot_clean_def slot_written_def list_all_iff)
next
  case False
  then have "set (drop (length data) (elBuffer e)) \<subseteq> set (drop (elLength e) (elBuffer e))"
    by (intro set_drop_subset_set_drop) simp
  with False assms show ?thesis by (auto simp: slot_clean_def slot_written_def list_all_iff)
qed

lemma bring_append_eq:
  assumes inv: "bring_inv k s" and sz: "brNumber s < length (brBuffer s)" and fit: "length data \<le> k"
  defines "p \<equiv> ring_pos (brBuffer s) (brReadIndex s) (brNumber s)"
  shows "bring_append k data flags r s =
    Some (s\<lparr>brBuffer := (brBuffer s)[p := slot_written data flags r (brBuffer s ! p)],
      brNumber := Suc (brNumber s)\<rparr>, True)"
proof -
  have ne: "brBuffer s \<noteq> []" using sz by auto
  have p: "p < length (brBuffer s)" unfolding p_def by (rule ring_pos_less [OF ne])
  let ?e = "brBuffer s ! p"
  have e: "length (elBuffer ?e) = k" "elLength ?e \<le> k"
    using inv p by (auto simp: bring_inv_def list_all_length slot_ok_def)
  have l31: "p < 2 ^ 31" "szadd (brNumber s) 1 = Suc (brNumber s)"
    using inv p sz by (simp_all add: bring_inv_def szadd_exact size_bits_def)
  have clr: "(if r \<and> elLength ?e > length data
      then acopy (elBuffer ?e) (length data) (replicate (elLength ?e - length data) 0)
      else Some (elBuffer ?e)) \<bind> (\<lambda>c. acopy c 0 data) =
    Some (elBuffer (slot_written data flags r ?e))"
    using e fit by (simp add: acopy_def slot_written_def)
  have "bring_increment s (brReadIndex s) (brNumber s) = Some p"
    using bring_increment_pos [OF inv ne, of "brNumber s"] sz by (simp add: p_def)
  then have "bring_append k data flags r s = do {
      bytes \<leftarrow> (if r \<and> elLength ?e > length data
        then acopy (elBuffer ?e) (length data) (replicate (elLength ?e - length data) 0)
        else Some (elBuffer ?e)) \<bind> (\<lambda>c. acopy c 0 data);
      slots \<leftarrow> awrite (brBuffer s) p \<lparr>elLength = length data, elFlags = flags, elBuffer = bytes\<rparr>;
      Some (s\<lparr>brBuffer := slots, brNumber := Suc (brNumber s)\<rparr>, True) }"
    using sz fit l31 p by (simp add: bring_append_def aread_Some)
  also have "\<dots> = Some (s\<lparr>brBuffer := (brBuffer s)[p := slot_written data flags r ?e],
      brNumber := Suc (brNumber s)\<rparr>, True)"
    unfolding clr using p by (simp add: awrite_Some slot_written_def)
  finally show ?thesis .
qed

lemma bring_append_room:
  assumes inv: "bring_inv k s" and fit: "length data \<le> k" and sz: "brNumber s < length (brBuffer s)"
  shows "\<exists>s'. bring_append k data flags r s = Some (s', True) \<and> bring_inv k s' \<and>
    bring_items s' = bring_items s @ [(flags, data)] \<and> length (brBuffer s') = length (brBuffer s) \<and>
    (r \<longrightarrow> bring_clean s \<longrightarrow> bring_clean s')"
proof -
  let ?p = "ring_pos (brBuffer s) (brReadIndex s) (brNumber s)"
  let ?e = "slot_written data flags r (brBuffer s ! ?p)"
  let ?s = "s\<lparr>brBuffer := (brBuffer s)[?p := ?e], brNumber := Suc (brNumber s)\<rparr>"
  have ne: "brBuffer s \<noteq> []" using sz by auto
  have p: "?p < length (brBuffer s)" by (rule ring_pos_less [OF ne])
  have "slot_ok k (brBuffer s ! ?p)" using inv p by (simp add: bring_inv_def list_all_length)
  note w = slot_written_ok [OF this fit, of flags r]
  have "bring_inv k ?s"
    using inv sz w(1) p by (auto simp: bring_inv_def list_all_length nth_list_update)
  moreover have "bring_items ?s = bring_items s @ [(flags, data)]"
    using ring_view_update_new [OF sz, of "brReadIndex s" ?e] w(2) by (simp add: bring_items_def)
  moreover have "r \<longrightarrow> bring_clean s \<longrightarrow> bring_clean ?s"
    using slot_written_clean p by (auto simp: bring_clean_def list_all_length nth_list_update)
  ultimately show ?thesis using bring_append_eq [OF inv sz fit, of flags r] by auto
qed

lemma bring_append_refused:
  "brNumber s = length (brBuffer s) \<or> k < length data \<Longrightarrow>
     bring_append k data flags r s = Some (s, False)"
  by (auto simp: bring_append_def)

lemma bring_read_hd:
  assumes "bring_inv k s" and "bring_items s = (fl, bs) # ms"
  shows "bring_read s = Some bs" and "bring_readFlags s = Some fl"
proof -
  obtain y ys where y: "ring_view (brBuffer s) (brReadIndex s) (brNumber s) = y # ys"
      "slot_message y = (fl, bs)" using assms(2) by (auto simp: bring_items_def map_eq_Cons_conv)
  from ring_view_eq_Cons [OF y(1)]
  have "0 < brNumber s" "y = brBuffer s ! ring_pos (brBuffer s) (brReadIndex s) 0" by simp_all
  with assms(1) have "aread (brBuffer s) (brReadIndex s) = Some y"
    by (auto simp: aread_def ring_pos_def bring_inv_def)
  with y(2) show "bring_read s = Some bs" and "bring_readFlags s = Some fl"
    by (simp_all add: bring_read_def bring_readFlags_def slot_message_def)
qed

lemma bring_pop_tl:
  assumes inv: "bring_inv k s" and ms: "bring_items s = m # ms"
  shows "\<exists>s'. bring_pop s = Some (s', True) \<and> bring_inv k s' \<and> bring_items s' = ms \<and>
    brBuffer s' = brBuffer s"
proof -
  obtain y ys where y: "ring_view (brBuffer s) (brReadIndex s) (brNumber s) = y # ys"
      "ms = map slot_message ys" using ms by (auto simp: bring_items_def map_eq_Cons_conv)
  from ring_view_eq_Cons [OF y(1)]
  have n: "0 < brNumber s" "ys = ring_view (brBuffer s) (Suc (brReadIndex s)) (brNumber s - 1)"
    by simp_all
  then have ne: "brBuffer s \<noteq> []" using inv by (auto simp: bring_inv_def)
  let ?p = "ring_pos (brBuffer s) (brReadIndex s) 1"
  let ?s = "s\<lparr>brReadIndex := ?p, brNumber := brNumber s - 1\<rparr>"
  have "bring_increment s (brReadIndex s) 1 = Some ?p"
    using ne by (intro bring_increment_pos [OF inv]) (simp_all add: Suc_leI)
  then have pop: "bring_pop s = Some (?s, True)" using n(1) by (simp add: bring_pop_def)
  have "bring_inv k ?s" using inv ring_pos_less [OF ne] by (auto simp: bring_inv_def)
  moreover have "bring_items ?s = ms"
    using ring_view_wrap [of "brBuffer s" "Suc (brReadIndex s)" "brNumber s - 1"] n(2) y(2)
    by (simp add: bring_items_def ring_pos_def)
  ultimately show ?thesis using pop by auto
qed

lemma bring_pop_empty: "bring_isEmpty s \<Longrightarrow> bring_pop s = Some (s, False)"
  by (simp add: bring_isEmpty_def bring_pop_def)

lemma bring_peek_used:
  assumes inv: "bring_inv k s" and i: "i < brNumber s"
  shows "bring_peek i s = Some (snd (bring_items s ! i))"
    and "bring_peekFlags i s = Some (fst (bring_items s ! i))"
proof -
  have ne: "brBuffer s \<noteq> []" and n: "brNumber s \<le> length (brBuffer s)"
    using inv i by (auto simp: bring_inv_def)
  have "bring_increment s (brReadIndex s) i = Some (ring_pos (brBuffer s) (brReadIndex s) i)"
    using i n by (intro bring_increment_pos [OF inv ne]) simp
  moreover have "aread (brBuffer s) (ring_pos (brBuffer s) (brReadIndex s) i) =
      Some (ring_view (brBuffer s) (brReadIndex s) (brNumber s) ! i)"
    using ring_pos_less [OF ne] i by (simp add: aread_def nth_ring_view)
  ultimately show "bring_peek i s = Some (snd (bring_items s ! i))"
    and "bring_peekFlags i s = Some (fst (bring_items s ! i))"
    using i by (simp_all add: bring_peek_def bring_peekFlags_def bring_items_def slot_message_def)
qed

lemma bring_reset_items: "bring_inv k s \<Longrightarrow> bring_inv k (bring_reset s) \<and> bring_items (bring_reset s) = []"
  by (auto simp: bring_inv_def bring_reset_def bring_items_def)

lemma bring_resetElementsFrom_items:
  "bring_inv k s \<Longrightarrow> bring_inv k (bring_resetElementsFrom n s) \<and>
     bring_items (bring_resetElementsFrom n s) = take n (bring_items s)"
  by (auto simp: bring_inv_def bring_resetElementsFrom_def bring_items_def take_map take_ring_view)

subsection \<open>The contract\<close>

text \<open>The calls of the client interface, on a message with its flags.\<close>

definition bring_push :: "nat \<Rightarrow> u8 \<times> u8 list \<Rightarrow> bring \<Rightarrow> (bring \<times> bool) option" where
  "bring_push k m s = bring_append k (snd m) (fst m) True s"

definition bring_front :: "bring \<Rightarrow> (u8 \<times> u8 list) option" where
  "bring_front s = do { fl \<leftarrow> bring_readFlags s; bs \<leftarrow> bring_read s; Some (fl, bs) }"

interpretation br: bounded_fifo bring_items "\<lambda>s. bring_inv k s \<and> bring_clean s"
    "\<lambda>s. length (brBuffer s)" "\<lambda>m. length (snd m) \<le> k" "bring_push k" bring_front
    "\<lambda>s. map_option fst (bring_pop s)" bring_isEmpty for k
proof unfold_locales
  fix s and x :: "u8 \<times> u8 list"
  assume inv: "bring_inv k s \<and> bring_clean s" and ok: "length (snd x) \<le> k"
  show "\<exists>s'. bring_push k x s = Some (s', True) \<and> (bring_inv k s' \<and> bring_clean s') \<and>
      bring_items s' = bring_items s @ [x] \<and> length (brBuffer s') = length (brBuffer s)"
    if "length (bring_items s) < length (brBuffer s)"
    using bring_append_room [of k s "snd x" "fst x" True] inv ok that by (auto simp: bring_push_def)
  show "bring_push k x s = Some (s, False)" if "length (bring_items s) = length (brBuffer s)"
    using that by (simp add: bring_push_def bring_append_refused)
next
  fix s and y :: "u8 \<times> u8 list" and ys
  assume inv: "bring_inv k s \<and> bring_clean s" and "bring_items s = y # ys"
  then have items: "bring_items s = (fst y, snd y) # ys" by simp
  show "bring_front s = Some y"
    using bring_read_hd [OF conjunct1 [OF inv] items] by (simp add: bring_front_def)
  show "\<exists>s'. map_option fst (bring_pop s) = Some s' \<and> (bring_inv k s' \<and> bring_clean s') \<and>
      bring_items s' = ys \<and> length (brBuffer s') = length (brBuffer s)"
    using bring_pop_tl [OF conjunct1 [OF inv] items] inv by (auto simp: bring_clean_def)
next
  fix s
  assume "bring_inv k s \<and> bring_clean s"
  then show "length (bring_items s) \<le> length (brBuffer s)" by (simp add: bring_inv_def)
  show "bring_isEmpty s = (bring_items s = [])" by (rule bring_isEmpty_iff)
qed

text \<open>
  C38. A byte array ring buffer behaves as a bounded first-in first-out list of messages: any
  sequence of \<open>append\<close> (with messages of at most the slot size), \<open>read\<close>/\<open>readFlags\<close> and
  \<open>pop\<close> runs inside of its storage and gives the answers of that list, and at the end the bytes
  behind every message in storage are still zero, so no bytes of an older message remain there.\<close>

theorem bring_refines_fifo:
  assumes "n < 2 ^ 31" and "calls_ok (\<lambda>m. length (snd m) \<le> k) cs"
  shows "\<exists>s rs. fifo_run (bring_push k) bring_front (\<lambda>s. map_option fst (bring_pop s)) bring_isEmpty
      (bring_storage k n) cs = Some (s, rs) \<and> bring_inv k s \<and> bring_clean s \<and>
    spec_run n [] cs = (bring_items s, rs)"
  using br.run_refines [of k "bring_storage k n" cs] bring_storage_ok [OF assms(1), of k] assms(2)
  by (auto simp: bring_storage_def bring_new_def)

lemma bring_refines_fifo_witness:
  "\<exists>s rs. fifo_run (bring_push 2) bring_front (\<lambda>s. map_option fst (bring_pop s)) bring_isEmpty
      (bring_storage 2 1) [Push (1, [5, 6]), Push (2, []), Pop, Push (3, [7])] = Some (s, rs) \<and>
    bring_inv 2 s \<and> bring_clean s \<and>
    spec_run 1 [] [Push (1, [5, 6]), Push (2, []), Pop, Push (3, [7])] = (bring_items s, rs)"
  using bring_refines_fifo [of 1 2 "[Push (1, [5, 6]), Push (2, []), Pop, Push (3, [7])]"]
  by (simp add: calls_ok_def)

text \<open>
  \<open>peek\<close> at the index \<open>getUsedSlots()\<close> is not refused: it shows the message of a slot that is
  not in use, here one that was taken out already.
\<close>

lemma bring_peek_past_used_stale:
  "do { (s1, _) \<leftarrow> bring_append 1 [9] 4 True (bring_storage 1 2);
        (s2, _) \<leftarrow> bring_pop s1;
        (s3, _) \<leftarrow> bring_append 1 [] 0 True s2;
        bs \<leftarrow> bring_peek (bring_getUsedSlots s3) s3;
        Some (bring_getUsedSlots s3, bs) } = Some (1, [9])"
  by (simp add: bring_append_def bring_storage_def bring_new_def bring_increment_def bring_pop_def
      bring_getUsedSlots_def bring_peek_def slot_bytes_def szadd_def size_bits_def aread_def
      awrite_def acopy_def replicate_2)

end
