(* ===== verification/Linked_List.thy ===== *)
theory Linked_List
  imports Interfaces "HOL-Library.Sublist"
begin

text \<open>
  \<open>outpost::List\<close> (list.h, list_impl.h): a singly linked list of nodes that live outside of it.
  A node is identified by its address, of any type \<open>'n\<close>; a pointer is an \<open>'n option\<close> with
  \<open>None\<close> for \<open>nullptr\<close>. \<open>lNext\<close> is the heap: the member \<open>mNext\<close> of every node. What a node
  carries besides (the payload that a condition or \<open>operator<\<close> reads) is a function of the node.

  The loops follow pointers and need not end on a cyclic heap: they are partial functions, whose
  value \<open>None\<close> is "does not return" or "dereferences a null pointer". \<open>list_repr s xs\<close> says
  that the list object and the heap represent the sequence of nodes \<open>xs\<close>.
\<close>

subsection \<open>Chains in the heap\<close>

fun path :: "('n \<Rightarrow> 'n option) \<Rightarrow> 'n option \<Rightarrow> 'n list \<Rightarrow> 'n option \<Rightarrow> bool" where
  "path nxt p [] q \<longleftrightarrow> p = q"
| "path nxt p (n # ns) q \<longleftrightarrow> p = Some n \<and> path nxt (nxt n) ns q"

lemma path_append: "path nxt p (xs @ ys) q \<longleftrightarrow> (\<exists>r. path nxt p xs r \<and> path nxt r ys q)"
  by (induction xs arbitrary: p) auto

lemma path_upd [simp]: "n \<notin> set xs \<Longrightarrow> path (nxt(n := v)) p xs q = path nxt p xs q"
  by (induction xs arbitrary: p) auto

lemma path_None [simp]: "path nxt None xs q \<longleftrightarrow> xs = [] \<and> q = None"
  by (cases xs) auto

lemma path_snoc: "path nxt p (xs @ [n]) q \<longleftrightarrow> path nxt p xs (Some n) \<and> nxt n = q"
  by (auto simp: path_append)

lemma path_relink:
  assumes "path nxt p xs q" and "xs \<noteq> []" and "distinct xs"
  shows "path (nxt(last xs := r)) p xs r"
  using assms by (cases xs rule: rev_cases) (simp_all add: path_snoc)

subsection \<open>The list object\<close>

record 'n llist =
  lNext :: "'n \<Rightarrow> 'n option"
  lHead :: "'n option"
  lTail :: "'n option"

definition list_new :: "('n \<Rightarrow> 'n option) \<Rightarrow> 'n llist" where
  "list_new nxt = \<lparr>lNext = nxt, lHead = None, lTail = None\<rparr>"

definition list_isEmpty :: "'n llist \<Rightarrow> bool" where
  "list_isEmpty s \<longleftrightarrow> lHead s = None"

definition list_first :: "'n llist \<Rightarrow> 'n option" where
  "list_first s = lHead s"

definition list_last :: "'n llist \<Rightarrow> 'n option" where
  "list_last s = lTail s"

partial_function (option) list_get_loop ::
    "('n \<Rightarrow> bool) \<Rightarrow> ('n \<Rightarrow> 'n option) \<Rightarrow> 'n option \<Rightarrow> 'n option option" where
  "list_get_loop condition nxt current =
     (case current of None \<Rightarrow> Some None
      | Some n \<Rightarrow> if condition n then Some (Some n) else list_get_loop condition nxt (nxt n))"

definition list_get :: "('n \<Rightarrow> bool) \<Rightarrow> 'n llist \<Rightarrow> 'n option option" where
  "list_get condition s = list_get_loop condition (lNext s) (lHead s)"

fun list_getN_loop :: "('n \<Rightarrow> 'n option) \<Rightarrow> 'n option \<Rightarrow> size_t \<Rightarrow> 'n option" where
  "list_getN_loop nxt None n = None"
| "list_getN_loop nxt (Some c) 0 = Some c"
| "list_getN_loop nxt (Some c) (Suc n) = list_getN_loop nxt (nxt c) n"

definition list_getN :: "size_t \<Rightarrow> 'n llist \<Rightarrow> 'n option" where
  "list_getN n s = list_getN_loop (lNext s) (lHead s) n"

definition list_reset :: "'n llist \<Rightarrow> 'n llist" where
  "list_reset s = s\<lparr>lHead := None, lTail := None\<rparr>"

definition list_prepend :: "'n \<Rightarrow> 'n llist \<Rightarrow> 'n llist" where
  "list_prepend node s =
     (let s = (if lTail s = None then s\<lparr>lTail := Some node\<rparr> else s)
      in s\<lparr>lNext := (lNext s)(node := lHead s), lHead := Some node\<rparr>)"

definition list_append :: "'n \<Rightarrow> 'n llist \<Rightarrow> 'n llist option" where
  "list_append node s = do {
     s \<leftarrow> (if lHead s = None then Some (s\<lparr>lHead := Some node\<rparr>)
          else case lTail s of None \<Rightarrow> None
               | Some t \<Rightarrow> Some (s\<lparr>lNext := (lNext s)(t := Some node)\<rparr>));
     Some (s\<lparr>lTail := Some node, lNext := (lNext s)(node := None)\<rparr>) }"

partial_function (option) list_insert_loop ::
    "('n \<Rightarrow> 'n \<Rightarrow> bool) \<Rightarrow> 'n \<Rightarrow> ('n \<Rightarrow> 'n option) \<Rightarrow> 'n \<Rightarrow> 'n option" where
  "list_insert_loop lt node nxt current =
     (case nxt current of None \<Rightarrow> Some current
      | Some m \<Rightarrow> if lt m node then list_insert_loop lt node nxt m else Some current)"

definition list_insert :: "('n \<Rightarrow> 'n \<Rightarrow> bool) \<Rightarrow> 'n \<Rightarrow> 'n llist \<Rightarrow> 'n llist option" where
  "list_insert lt node s =
     (let s = s\<lparr>lNext := (lNext s)(node := None)\<rparr> in
      case lHead s of
        None \<Rightarrow> Some (s\<lparr>lHead := Some node, lTail := Some node\<rparr>)
      | Some head \<Rightarrow>
          if lt node head
          then Some (s\<lparr>lNext := (lNext s)(node := Some head), lHead := Some node\<rparr>)
          else case lTail s of None \<Rightarrow> None
          | Some tail \<Rightarrow>
              if lt tail node
              then Some (s\<lparr>lNext := (lNext s)(tail := Some node), lTail := Some node\<rparr>)
              else do {
                current \<leftarrow> list_insert_loop lt node (lNext s) head;
                let s = (if lNext s current = None then s\<lparr>lTail := Some node\<rparr> else s);
                Some (s\<lparr>lNext := (lNext s)(node := lNext s current, current := Some node)\<rparr>) })"

text \<open>
  The removing operations take a node \<open>n\<close> out behind \<open>previous\<close> (\<open>None\<close>: it is the head) with
  the same statements.
\<close>

definition list_unlink :: "'n option \<Rightarrow> 'n \<Rightarrow> 'n llist \<Rightarrow> 'n llist" where
  "list_unlink previous n s =
     (let s = (case previous of
         None \<Rightarrow> let s = s\<lparr>lHead := lNext s n\<rparr>
                in (if lHead s = None then s\<lparr>lTail := None\<rparr> else s)
       | Some p \<Rightarrow> let s = s\<lparr>lNext := (lNext s)(p := lNext s n)\<rparr>
                in (if lNext s p = None then s\<lparr>lTail := Some p\<rparr> else s))
      in s\<lparr>lNext := (lNext s)(n := None)\<rparr>)"

text \<open>The search of \<open>removeNode\<close> and \<open>remove\<close>: the place and its predecessor.\<close>

partial_function (option) list_seek ::
    "('n \<Rightarrow> bool) \<Rightarrow> ('n \<Rightarrow> 'n option) \<Rightarrow> 'n \<Rightarrow> 'n option \<Rightarrow> ('n \<times> 'n option) option" where
  "list_seek stop nxt previous current =
     (case current of None \<Rightarrow> Some (previous, None)
      | Some c \<Rightarrow> if stop c then Some (previous, Some c) else list_seek stop nxt c (nxt c))"

definition list_removeNode :: "'n \<Rightarrow> 'n llist \<Rightarrow> ('n llist \<times> bool) option" where
  "list_removeNode node s =
     (case lHead s of
        None \<Rightarrow> Some (s, False)
      | Some head \<Rightarrow>
          if head = node then Some (list_unlink None node s, True)
          else do {
            (previous, current) \<leftarrow> list_seek (\<lambda>c. c = node) (lNext s) head (lNext s head);
            case current of
              None \<Rightarrow> Some (s, False)
            | Some c \<Rightarrow> Some (list_unlink (Some previous) c s, True) })"

definition list_remove :: "('n \<Rightarrow> bool) \<Rightarrow> 'n llist \<Rightarrow> ('n llist \<times> 'n option) option" where
  "list_remove condition s =
     (case lHead s of
        None \<Rightarrow> Some (s, None)
      | Some head \<Rightarrow>
          if condition head then Some (list_unlink None head s, Some head)
          else do {
            (previous, node) \<leftarrow> list_seek condition (lNext s) head (lNext s head);
            case node of
              None \<Rightarrow> Some (s, None)
            | Some n \<Rightarrow> Some (list_unlink (Some previous) n s, Some n) })"

partial_function (option) list_removeAll_loop ::
    "('n \<Rightarrow> bool) \<Rightarrow> 'n option \<Rightarrow> 'n option \<Rightarrow> 'n llist \<Rightarrow> 'n llist option" where
  "list_removeAll_loop condition previous current s =
     (case current of None \<Rightarrow> Some s
      | Some n \<Rightarrow>
          if condition n
          then list_removeAll_loop condition previous (lNext s n) (list_unlink previous n s)
          else list_removeAll_loop condition (Some n) (lNext s n) s)"

definition list_removeAll :: "('n \<Rightarrow> bool) \<Rightarrow> 'n llist \<Rightarrow> 'n llist option" where
  "list_removeAll condition s = list_removeAll_loop condition None (lHead s) s"

text \<open>
  \<open>removeAll\<close> with a \<open>postCondition\<close> that is called for every removed node. The callback may
  change the list and its own environment \<open>'e\<close>.
\<close>

type_synonym ('n, 'e) list_callback = "'n \<Rightarrow> 'n llist \<times> 'e \<Rightarrow> ('n llist \<times> 'e) option"

partial_function (option) list_removeAllPost_heads ::
    "('n \<Rightarrow> bool) \<Rightarrow> ('n, 'e) list_callback \<Rightarrow> 'n llist \<times> 'e \<Rightarrow>
     ('n option \<times> 'n llist \<times> 'e) option" where
  "list_removeAllPost_heads condition post se =
     (case lHead (fst se) of
        None \<Rightarrow> Some (None, se)
      | Some n \<Rightarrow>
          if condition n
          then post n (list_unlink None n (fst se), snd se) \<bind> list_removeAllPost_heads condition post
          else Some (Some n, se))"

partial_function (option) list_removeAllPost_rest ::
    "('n \<Rightarrow> bool) \<Rightarrow> ('n, 'e) list_callback \<Rightarrow> 'n \<Rightarrow> 'n llist \<times> 'e \<Rightarrow> ('n llist \<times> 'e) option" where
  "list_removeAllPost_rest condition post previous se =
     (case lNext (fst se) previous of
        None \<Rightarrow> Some se
      | Some n \<Rightarrow>
          if condition n
          then post n (list_unlink (Some previous) n (fst se), snd se)
                 \<bind> list_removeAllPost_rest condition post previous
          else list_removeAllPost_rest condition post n se)"

definition list_removeAllPost ::
    "('n \<Rightarrow> bool) \<Rightarrow> ('n, 'e) list_callback \<Rightarrow> 'n llist \<times> 'e \<Rightarrow> ('n llist \<times> 'e) option" where
  "list_removeAllPost condition post se = do {
     (previous, se) \<leftarrow> list_removeAllPost_heads condition post se;
     case previous of None \<Rightarrow> Some se
     | Some p \<Rightarrow> list_removeAllPost_rest condition post p se }"

definition list_removeFirst :: "'n llist \<Rightarrow> 'n llist" where
  "list_removeFirst s =
     (case lHead s of
        None \<Rightarrow> s
      | Some h \<Rightarrow>
          let nx = lNext s h;
              s = s\<lparr>lNext := (lNext s)(h := None), lHead := nx\<rparr>
          in (if nx = None then s\<lparr>lTail := None\<rparr> else s))"

partial_function (option) list_size_loop ::
    "('n \<Rightarrow> 'n option) \<Rightarrow> 'n option \<Rightarrow> size_t \<Rightarrow> size_t option" where
  "list_size_loop nxt current numberOfElements =
     (case current of None \<Rightarrow> Some numberOfElements
      | Some c \<Rightarrow> list_size_loop nxt (nxt c) (szadd numberOfElements 1))"

definition list_size :: "'n llist \<Rightarrow> size_t option" where
  "list_size s = list_size_loop (lNext s) (lHead s) 0"

text \<open>
  The iterators: \<open>begin()\<close> and \<open>end()\<close> are pointers, \<open>operator++\<close> follows \<open>mNext\<close> and is
  undefined at the end. \<open>list_iterate\<close> is the loop \<open>for (auto it = begin(); it != end(); ++it)\<close>
  with the nodes it visits.
\<close>

definition list_begin :: "'n llist \<Rightarrow> 'n option" where
  "list_begin s = lHead s"

definition list_end :: "'n llist \<Rightarrow> 'n option" where
  "list_end s = None"

definition list_iter_next :: "'n llist \<Rightarrow> 'n option \<Rightarrow> 'n option option" where
  "list_iter_next s it = map_option (lNext s) it"

partial_function (option) list_iterate :: "'n llist \<Rightarrow> 'n option \<Rightarrow> 'n list option" where
  "list_iterate s it =
     (if it = list_end s then Some []
      else do { n \<leftarrow> it; it' \<leftarrow> list_iter_next s it; ns \<leftarrow> list_iterate s it'; Some (n # ns) })"

subsection \<open>What a list represents\<close>

definition list_repr :: "'n llist \<Rightarrow> 'n list \<Rightarrow> bool" where
  "list_repr s xs \<longleftrightarrow> path (lNext s) (lHead s) xs None \<and> distinct xs \<and>
     lTail s = (if xs = [] then None else Some (last xs))"

lemma list_repr_head: "list_repr s xs \<Longrightarrow> lHead s = (case xs of [] \<Rightarrow> None | n # ns \<Rightarrow> Some n)"
  by (auto simp: list_repr_def split: list.splits)

lemma list_repr_path: "list_repr s xs \<Longrightarrow> path (lNext s) (lHead s) xs None"
  by (simp add: list_repr_def)

lemma list_repr_next:
  "list_repr s (ys @ n # zs) \<Longrightarrow> lNext s n = (case zs of [] \<Rightarrow> None | m # ms \<Rightarrow> Some m)"
  by (auto simp: list_repr_def path_append split: list.splits)

lemma list_repr_tail: "list_repr s xs \<Longrightarrow> xs \<noteq> [] \<Longrightarrow> lTail s = Some (last xs)"
  by (simp add: list_repr_def)

lemma path_unique: "path nxt p xs None \<Longrightarrow> path nxt p ys None \<Longrightarrow> xs = ys"
  by (induction xs arbitrary: p ys) (auto elim: path.elims)

lemma list_repr_unique: "list_repr s xs \<Longrightarrow> list_repr s ys \<Longrightarrow> xs = ys"
  by (auto simp: list_repr_def intro: path_unique)

lemma list_new_repr: "list_repr (list_new nxt) []"
  by (simp add: list_repr_def list_new_def)

lemma list_reset_repr: "list_repr (list_reset s) []"
  by (simp add: list_repr_def list_reset_def)

lemma list_isEmpty_repr: "list_repr s xs \<Longrightarrow> list_isEmpty s \<longleftrightarrow> xs = []"
  by (auto simp: list_isEmpty_def dest: list_repr_head split: list.splits)

lemma list_first_repr: "list_repr s xs \<Longrightarrow> list_first s = (if xs = [] then None else Some (hd xs))"
  by (auto simp: list_first_def list_repr_head split: list.splits)

lemma list_last_repr: "list_repr s xs \<Longrightarrow> list_last s = (if xs = [] then None else Some (last xs))"
  by (simp add: list_last_def list_repr_def)

subsection \<open>Searching\<close>

lemma list_get_loop_path:
  "path nxt p xs None \<Longrightarrow> list_get_loop c nxt p = Some (find c xs)"
  by (induction xs arbitrary: p) (subst list_get_loop.simps, simp)+

lemma list_get_repr: "list_repr s xs \<Longrightarrow> list_get c s = Some (find c xs)"
  by (simp add: list_get_def list_get_loop_path list_repr_path)

lemma list_getN_loop_path:
  "path nxt p xs None \<Longrightarrow> list_getN_loop nxt p n = (if n < length xs then Some (xs ! n) else None)"
proof (induction xs arbitrary: p n)
  case (Cons x xs)
  then show ?case by (cases n) auto
qed simp

lemma list_getN_repr:
  "list_repr s xs \<Longrightarrow> list_getN n s = (if n < length xs then Some (xs ! n) else None)"
  by (simp add: list_getN_def list_getN_loop_path list_repr_path)

lemma list_size_loop_path:
  "path nxt p xs None \<Longrightarrow> k + length xs < 2 ^ size_bits \<Longrightarrow>
     list_size_loop nxt p k = Some (k + length xs)"
proof (induction xs arbitrary: p k)
  case Nil
  then show ?case by (simp add: list_size_loop.simps)
next
  case (Cons x xs)
  then have "szadd k 1 = Suc k" by (simp add: szadd_exact)
  with Cons.prems Cons.IH [of "nxt x" "Suc k"] show ?case
    by (subst list_size_loop.simps) simp
qed

lemma list_size_repr:
  "list_repr s xs \<Longrightarrow> length xs < 2 ^ size_bits \<Longrightarrow> list_size s = Some (length xs)"
  using list_size_loop_path [of "lNext s" "lHead s" xs 0]
  by (simp add: list_size_def list_repr_path)

lemma list_iterate_path:
  "path (lNext s) p xs None \<Longrightarrow> list_iterate s p = Some xs"
proof (induction xs arbitrary: p)
  case Nil
  then show ?case by (simp add: list_iterate.simps list_end_def)
next
  case (Cons x xs)
  then show ?case
    by (subst list_iterate.simps) (simp add: list_end_def list_iter_next_def)
qed

lemma list_iterate_repr: "list_repr s xs \<Longrightarrow> list_iterate s (list_begin s) = Some xs"
  by (simp add: list_iterate_path list_begin_def list_repr_path)

subsection \<open>Adding nodes\<close>

lemma list_prepend_repr:
  "list_repr s xs \<Longrightarrow> n \<notin> set xs \<Longrightarrow> list_repr (list_prepend n s) (n # xs)"
  by (auto simp: list_repr_def list_prepend_def Let_def)

lemma list_append_repr:
  assumes "list_repr s xs" and "n \<notin> set xs"
  shows "\<exists>s'. list_append n s = Some s' \<and> list_repr s' (xs @ [n])"
proof (cases xs rule: rev_cases)
  case Nil
  with assms show ?thesis by (simp add: list_repr_def list_append_def)
next
  case (snoc ys y)
  with assms have "path (lNext s) (lHead s) ys (Some y)" "lTail s = Some y" "lHead s \<noteq> None"
    by (auto simp: list_repr_def path_snoc elim: path.elims)
  with snoc assms show ?thesis by (auto simp: list_repr_def list_append_def path_append)
qed

lemma list_insert_between:
  assumes "list_repr s (ys @ c # zs)" and "n \<notin> set (ys @ c # zs)"
  shows "list_repr (s\<lparr>lTail := (if zs = [] then Some n else lTail s),
    lNext := (lNext s)(n := lNext s c, c := Some n)\<rparr>) (ys @ c # n # zs)"
  using assms by (auto simp: list_repr_def path_append)

lemma list_insert_loop_path:
  assumes "path nxt (nxt c) xs None"
  shows "list_insert_loop lt n nxt c = Some (last (c # takeWhile (\<lambda>m. lt m n) xs))"
  using assms by (induction xs arbitrary: c) (subst list_insert_loop.simps, simp)+

text \<open>The sequence after \<open>insert\<close>, branch by branch as in the code.\<close>

definition insert_node :: "('n \<Rightarrow> 'n \<Rightarrow> bool) \<Rightarrow> 'n \<Rightarrow> 'n list \<Rightarrow> 'n list" where
  "insert_node lt n xs =
     (case xs of [] \<Rightarrow> [n]
      | h # t \<Rightarrow> if lt n h then n # xs
         else if lt (last xs) n then xs @ [n]
         else h # takeWhile (\<lambda>m. lt m n) t @ n # dropWhile (\<lambda>m. lt m n) t)"

lemma list_insert_repr:
  assumes repr: "list_repr s xs" and n: "n \<notin> set xs"
  shows "\<exists>s'. list_insert lt n s = Some s' \<and> list_repr s' (insert_node lt n xs)"
proof (cases xs)
  case Nil
  with assms show ?thesis by (simp add: list_repr_def list_insert_def insert_node_def)
next
  case (Cons h t)
  let ?s = "s\<lparr>lNext := (lNext s)(n := None)\<rparr>"
  have repr': "list_repr ?s xs" using assms by (simp add: list_repr_def)
  have hd: "lHead ?s = Some h" and tl: "lTail ?s = Some (last xs)"
    using Cons list_repr_head [OF repr] list_repr_tail [OF repr] by simp_all
  consider "lt n h" | "\<not> lt n h" "lt (last xs) n" | "\<not> lt n h" "\<not> lt (last xs) n" by blast
  then show ?thesis
  proof cases
    case 1
    with Cons hd n repr show ?thesis
      by (auto simp: list_insert_def insert_node_def list_repr_def)
  next
    case 2
    obtain ys l where ys: "xs = ys @ [l]" using Cons
      by (metis list.distinct(1) rev_exhaust)
    have nl: "lNext ?s l = None" using list_repr_next [of ?s ys l "[]"] repr' ys by simp
    have "list_repr (?s\<lparr>lTail := Some n, lNext := (lNext ?s)(n := None, l := Some n)\<rparr>) (xs @ [n])"
      using list_insert_between [of ?s ys l "[]" n] repr' n ys nl by simp
    moreover have "list_insert lt n s =
        Some (?s\<lparr>lTail := Some n, lNext := (lNext ?s)(n := None, l := Some n)\<rparr>)"
      using 2 hd tl ys by (simp add: list_insert_def)
    ultimately show ?thesis using 2 Cons by (simp add: insert_node_def)
  next
    case 3
    define ws where "ws = takeWhile (\<lambda>m. lt m n) t"
    define zs where "zs = dropWhile (\<lambda>m. lt m n) t"
    define c where "c = last (h # ws)"
    have t: "t = ws @ zs" by (simp add: ws_def zs_def)
    have split: "xs = butlast (h # ws) @ c # zs"
      using append_butlast_last_id [of "h # ws"] Cons by (simp add: c_def t del: butlast.simps last.simps)
    have "path (lNext ?s) (lNext ?s h) t None"
      using list_repr_path [OF repr'] Cons by simp
    from list_insert_loop_path [OF this, of lt n]
    have loop: "list_insert_loop lt n (lNext ?s) h = Some c" by (simp only: c_def ws_def)
    have nx: "lNext ?s c = (case zs of [] \<Rightarrow> None | m # ms \<Rightarrow> Some m)"
      using list_repr_next [of ?s "butlast (h # ws)" c zs] repr' split by simp
    let ?s' = "?s\<lparr>lTail := (if zs = [] then Some n else lTail ?s),
      lNext := (lNext ?s)(n := lNext ?s c, c := Some n)\<rparr>"
    have "list_repr ?s' (butlast (h # ws) @ c # n # zs)"
      using list_insert_between [of ?s "butlast (h # ws)" c zs n] repr' n split by simp
    also have "butlast (h # ws) @ c # n # zs = insert_node lt n xs"
      using 3 Cons append_butlast_last_id [of "h # ws"]
      by (simp add: insert_node_def ws_def [symmetric] zs_def [symmetric] c_def del: butlast.simps last.simps)
    finally have repr_s': "list_repr ?s' (insert_node lt n xs)" .
    have "(lNext ?s c = None) = (zs = [])" using nx by (simp split: list.splits)
    moreover have "c \<noteq> n" using n by (metis split in_set_conv_decomp)
    ultimately have "list_insert lt n s = Some ?s'"
      using 3 hd tl loop by (cases "zs = []") (auto simp add: list_insert_def Let_def)
    with repr_s' show ?thesis by blast
  qed
qed

subsection \<open>Taking nodes out\<close>

definition prev_of :: "'n list \<Rightarrow> 'n option" where
  "prev_of ys = (if ys = [] then None else Some (last ys))"

lemma list_unlink_repr:
  assumes "list_repr s (ys @ n # zs)"
  shows "list_repr (list_unlink (prev_of ys) n s) (ys @ zs)"
    and "lNext (list_unlink (prev_of ys) n s) n = None"
    and "m \<notin> set (ys @ [n]) \<Longrightarrow> lNext (list_unlink (prev_of ys) n s) m = lNext s m"
proof -
  show "list_repr (list_unlink (prev_of ys) n s) (ys @ zs)"
  proof (cases ys rule: rev_cases)
    case Nil
    with assms show ?thesis
      by (cases zs) (auto simp: list_repr_def list_unlink_def prev_of_def)
  next
    case (snoc ws p)
    with assms show ?thesis
      by (cases zs) (auto simp: list_repr_def list_unlink_def prev_of_def path_append)
  qed
  show "lNext (list_unlink (prev_of ys) n s) n = None"
    by (simp add: list_unlink_def Let_def)
  show "lNext (list_unlink (prev_of ys) n s) m = lNext s m" if "m \<notin> set (ys @ [n])"
    using that by (auto simp: list_unlink_def Let_def prev_of_def)
qed

lemma list_seek_path:
  assumes "path nxt (nxt c) xs None"
  shows "list_seek stop nxt c (nxt c) =
    Some (last (c # takeWhile (\<lambda>m. \<not> stop m) xs), find stop xs)"
  using assms by (induction xs arbitrary: c) (subst list_seek.simps, simp)+

lemma find_split:
  "find stop xs = Some n \<Longrightarrow> \<exists>zs. xs = takeWhile (\<lambda>m. \<not> stop m) xs @ n # zs \<and> stop n"
  by (induction xs) (auto split: if_splits)

text \<open>The sequence without its first node that satisfies the condition.\<close>

fun remove_first_such :: "('n \<Rightarrow> bool) \<Rightarrow> 'n list \<Rightarrow> 'n list" where
  "remove_first_such c [] = []"
| "remove_first_such c (x # xs) = (if c x then xs else x # remove_first_such c xs)"

lemma remove_first_such_split:
  "\<forall>y\<in>set ys. \<not> c y \<Longrightarrow> c n \<Longrightarrow> remove_first_such c (ys @ n # zs) = ys @ zs"
  by (induction ys) auto

lemma remove_first_such_none: "find c xs = None \<Longrightarrow> remove_first_such c xs = xs"
  by (induction xs) (auto split: if_splits)

lemma remove_first_such_eq: "remove_first_such (\<lambda>c. c = n) xs = remove1 n xs"
  by (induction xs) auto

text \<open>
  Note. \<open>remove\<close> always returns; it takes out the first node that satisfies the condition, returns
  it with its link cleared, keeps the order of the others with the tail pointer right, and without
  such a node changes nothing.\<close>

theorem list_remove_first_match:
  assumes repr: "list_repr s xs"
  shows "\<exists>s'. list_remove c s = Some (s', find c xs) \<and> list_repr s' (remove_first_such c xs) \<and>
    (\<forall>n. find c xs = Some n \<longrightarrow> lNext s' n = None) \<and> (find c xs = None \<longrightarrow> s' = s)"
proof (cases xs)
  case Nil
  with repr list_repr_head [OF repr] show ?thesis by (simp add: list_remove_def)
next
  case (Cons h t)
  then have hd: "lHead s = Some h" using list_repr_head [OF repr] by simp
  show ?thesis
  proof (cases "c h")
    case True
    with list_unlink_repr [of s "[]" h t] repr Cons hd show ?thesis
      by (simp add: list_remove_def prev_of_def)
  next
    case False
    have "path (lNext s) (lNext s h) t None" using list_repr_path [OF repr] Cons by simp
    from list_seek_path [OF this, of c]
    have seek: "list_seek c (lNext s) h (lNext s h) =
        Some (last (h # takeWhile (\<lambda>m. \<not> c m) t), find c t)" .
    show ?thesis
    proof (cases "find c t")
      case None
      with seek False Cons hd repr show ?thesis
        by (simp add: list_remove_def remove_first_such_none)
    next
      case (Some n)
      let ?ys = "h # takeWhile (\<lambda>m. \<not> c m) t"
      obtain zs where t: "t = takeWhile (\<lambda>m. \<not> c m) t @ n # zs" and n: "c n"
        using find_split [OF Some] by blast
      have xs: "xs = ?ys @ n # zs" using Cons t by simp
      have "\<forall>y\<in>set ?ys. \<not> c y" using False by (auto dest: set_takeWhileD)
      from remove_first_such_split [of ?ys c n zs, OF this n] xs
      have rm: "remove_first_such c xs = ?ys @ zs" by simp
      have "list_remove c s = Some (list_unlink (prev_of ?ys) n s, Some n)"
        using seek False hd Some by (simp add: list_remove_def prev_of_def)
      moreover have "find c xs = Some n" using False Cons Some by simp
      ultimately show ?thesis
        using list_unlink_repr [of s ?ys n zs] repr xs rm by simp
    qed
  qed
qed

lemma list_removeNode_is_remove:
  "list_removeNode n s = map_option (\<lambda>(s', r). (s', r \<noteq> None)) (list_remove (\<lambda>c. c = n) s)"
  if "list_repr s xs"
proof (cases xs)
  case Nil
  with list_repr_head [OF that] show ?thesis by (simp add: list_removeNode_def list_remove_def)
next
  case (Cons h t)
  then have hd: "lHead s = Some h" and path: "path (lNext s) (lNext s h) t None"
    using list_repr_head [OF that] list_repr_path [OF that] by simp_all
  from list_seek_path [OF path, of "\<lambda>c. c = n"] hd show ?thesis
    by (simp add: list_removeNode_def list_remove_def split: option.split)
qed

lemma list_removeNode_repr:
  assumes repr: "list_repr s xs"
  shows "\<exists>s'. list_removeNode n s = Some (s', n \<in> set xs) \<and> list_repr s' (remove1 n xs) \<and>
    (n \<notin> set xs \<longrightarrow> s' = s)"
proof -
  obtain s' where s': "list_remove (\<lambda>c. c = n) s = Some (s', find (\<lambda>c. c = n) xs)"
      "list_repr s' (remove1 n xs)" "find (\<lambda>c. c = n) xs = None \<longrightarrow> s' = s"
    using list_remove_first_match [OF repr, of "\<lambda>c. c = n"] by (auto simp: remove_first_such_eq)
  moreover have "find (\<lambda>c. c = n) xs = None \<longleftrightarrow> n \<notin> set xs" by (auto simp: find_None_iff)
  ultimately show ?thesis using list_removeNode_is_remove [OF repr, of n] by auto
qed

lemma list_removeFirst_repr: "list_repr s xs \<Longrightarrow> list_repr (list_removeFirst s) (tl xs)"
  by (cases xs) (auto simp: list_repr_def list_removeFirst_def Let_def)

lemma list_removeAll_loop_repr:
  assumes "list_repr s (ys @ zs)"
    and "current = (case zs of [] \<Rightarrow> None | m # ms \<Rightarrow> Some m)"
  shows "\<exists>s'. list_removeAll_loop c (prev_of ys) current s = Some s' \<and>
    list_repr s' (ys @ filter (\<lambda>n. \<not> c n) zs) \<and>
    (\<forall>m. m \<notin> set (ys @ zs) \<longrightarrow> lNext s' m = lNext s m) \<and>
    (\<forall>n\<in>set zs. c n \<longrightarrow> lNext s' n = None)"
  using assms
proof (induction zs arbitrary: s ys current)
  case Nil
  then show ?case by (simp add: list_removeAll_loop.simps)
next
  case (Cons n zs)
  have nx: "lNext s n = (case zs of [] \<Rightarrow> None | m # ms \<Rightarrow> Some m)"
    using list_repr_next [OF Cons.prems(1)] .
  show ?case
  proof (cases "c n")
    case True
    let ?s = "list_unlink (prev_of ys) n s"
    note u = list_unlink_repr [OF Cons.prems(1)]
    have n: "n \<notin> set (ys @ zs)" using Cons.prems(1) by (simp add: list_repr_def)
    obtain s' where s': "list_removeAll_loop c (prev_of ys) (lNext s n) ?s = Some s'"
      "list_repr s' (ys @ filter (\<lambda>n. \<not> c n) zs)"
      "\<forall>m. m \<notin> set (ys @ zs) \<longrightarrow> lNext s' m = lNext ?s m" "\<forall>n\<in>set zs. c n \<longrightarrow> lNext s' n = None"
      using Cons.IH [OF u(1) nx] by blast
    have "list_removeAll_loop c (prev_of ys) current s = Some s'"
      using s'(1) True Cons.prems(2) by (subst list_removeAll_loop.simps) simp
    moreover have "lNext s' n = None" using s'(3) n u(2) by simp
    moreover have "\<forall>m. m \<notin> set (ys @ n # zs) \<longrightarrow> lNext s' m = lNext s m"
      using s'(3) u(3) by simp
    ultimately show ?thesis using s' True by auto
  next
    case False
    have "list_repr s ((ys @ [n]) @ zs)" using Cons.prems(1) by simp
    from Cons.IH [OF this nx] obtain s' where
      s': "list_removeAll_loop c (prev_of (ys @ [n])) (lNext s n) s = Some s'"
      "list_repr s' ((ys @ [n]) @ filter (\<lambda>n. \<not> c n) zs)"
      "\<forall>m. m \<notin> set ((ys @ [n]) @ zs) \<longrightarrow> lNext s' m = lNext s m"
      "\<forall>n\<in>set zs. c n \<longrightarrow> lNext s' n = None" by blast
    have "list_removeAll_loop c (prev_of ys) current s = Some s'"
      using s'(1) False Cons.prems(2) by (subst list_removeAll_loop.simps) (simp add: prev_of_def)
    with s' False show ?thesis by auto
  qed
qed

lemma list_removeAll_repr:
  assumes repr: "list_repr s xs"
  shows "\<exists>s'. list_removeAll c s = Some s' \<and> list_repr s' (filter (\<lambda>n. \<not> c n) xs) \<and>
    (\<forall>n\<in>set xs. c n \<longrightarrow> lNext s' n = None)"
  using list_removeAll_loop_repr [of s "[]" xs "lHead s" c] repr list_repr_head [OF repr]
  by (auto simp: list_removeAll_def prev_of_def)

text \<open>
  For \<open>removeAll\<close> with a callback, \<open>list_callback_ok c f J post\<close> says what the callback may do with a
  removed node \<open>n\<close>, which is not linked: it returns, updates its environment with \<open>f\<close>, and may insert
  nodes that do not satisfy the condition anywhere into this very list. What it relies on and keeps
  (say, which nodes it still has to insert) is an invariant \<open>J\<close> of the list and its environment,
  before the node is taken out and after the callback.\<close>

definition list_callback_ok ::
    "('n \<Rightarrow> bool) \<Rightarrow> ('n \<Rightarrow> 'e \<Rightarrow> 'e) \<Rightarrow> ('n list \<Rightarrow> 'e \<Rightarrow> bool) \<Rightarrow> ('n, 'e) list_callback \<Rightarrow> bool" where
  "list_callback_ok c f J post \<longleftrightarrow> (\<forall>n s e as bs. list_repr s (as @ bs) \<longrightarrow> n \<notin> set (as @ bs) \<longrightarrow> lNext s n = None \<longrightarrow>
     c n \<longrightarrow> (\<forall>x \<in> set as. \<not> c x) \<longrightarrow> J (as @ n # bs) e \<longrightarrow>
     (\<exists>s' ys. post n (s, e) = Some (s', f n e) \<and> list_repr s' ys \<and> subseq (as @ bs) ys \<and>
        (\<forall>x \<in> set ys. c x \<longrightarrow> x \<in> set (as @ bs)) \<and> J ys (f n e)))"

lemma filter_inserted:
  assumes "subseq us ys" and "distinct us" "distinct ys" and "\<forall>x \<in> set ys. c x \<longrightarrow> x \<in> set us"
  shows "filter c ys = filter c us"
proof -
  have sub: "subseq (filter c us) (filter c ys)" using assms(1) by (rule subseq_filter)
  have "set us \<subseteq> set ys" using assms(1) by (auto dest: list_emb_set)
  then have "set (filter c us) = set (filter c ys)" using assms(4) by auto
  moreover have "distinct (filter c us)" "distinct (filter c ys)" using assms(2,3) by simp_all
  ultimately have "length (filter c us) = length (filter c ys)" by (metis distinct_card)
  with sub show ?thesis by (metis subseq_same_length)
qed

lemma subseq_around:
  assumes "subseq (as @ p # bs) (as' @ p # bs')" and "distinct (as' @ p # bs')"
  shows "subseq as as'" and "subseq bs bs'"
proof -
  from list_emb_appendD [OF assms(1)] obtain us vs where
    1: "as' @ p # bs' = us @ vs" "subseq as us" "subseq (p # bs) vs" by blast
  from list_emb_ConsD [OF 1(3)] obtain u1 u2 where 2: "vs = u1 @ p # u2" "subseq bs u2" by auto
  have "as' @ p # bs' = (us @ u1) @ p # u2" using 1(1) 2(1) by simp
  with assms(2) have "as' = us @ u1 \<and> bs' = u2"
    by (subst (asm) append_Cons_eq_iff) auto
  with 1(2) 2(2) show "subseq as as'" "subseq bs bs'" by (auto intro: list_emb_append2)
qed

lemma removeAllPost_step:
  assumes ok: "list_callback_ok c f J post" and repr: "list_repr s (as @ n # bs)"
    and "c n" and "\<forall>x \<in> set as. \<not> c x" and "J (as @ n # bs) e"
  shows "\<exists>s' ys. post n (list_unlink (prev_of as) n s, e) = Some (s', f n e) \<and> list_repr s' ys \<and>
     subseq (as @ bs) ys \<and> filter c ys = filter c bs \<and> J ys (f n e)"
proof -
  have "distinct (as @ n # bs)" using repr by (simp add: list_repr_def)
  then have "n \<notin> set (as @ bs)" by simp
  with ok assms(3-5) list_unlink_repr [OF repr] obtain s' ys where
    1: "post n (list_unlink (prev_of as) n s, e) = Some (s', f n e)" "list_repr s' ys" "subseq (as @ bs) ys"
      "\<forall>x \<in> set ys. c x \<longrightarrow> x \<in> set (as @ bs)" "J ys (f n e)"
    unfolding list_callback_ok_def by blast
  have "distinct ys" "distinct (as @ bs)" using 1(2) repr by (simp_all add: list_repr_def)
  with filter_inserted [OF 1(3) this(2,1) 1(4)] assms(4) have "filter c ys = filter c bs" by simp
  with 1 show ?thesis by blast
qed

lemma removeAllPost_heads_ok:
  assumes ok: "list_callback_ok c f J post" and "list_repr s xs" and "J xs e"
  shows "\<exists>s' xs' e'. list_removeAllPost_heads c post (s, e) = Some (lHead s', s', e') \<and> list_repr s' xs' \<and> J xs' e' \<and>
    (xs' \<noteq> [] \<longrightarrow> \<not> c (hd xs')) \<and> fold f (filter c xs') e' = fold f (filter c xs) e \<and>
    subseq (filter (\<lambda>x. \<not> c x) xs) xs'"
  using assms(2,3)
proof (induction "length (filter c xs)" arbitrary: s xs e rule: less_induct)
  case less
  note head = list_repr_head [OF less.prems(1)]
  show ?case
  proof (cases "xs \<noteq> [] \<and> c (hd xs)")
    case False
    then have "list_removeAllPost_heads c post (s, e) = Some (lHead s, s, e)"
      using head by (subst list_removeAllPost_heads.simps) (auto split: list.splits)
    with False less.prems show ?thesis
      by (intro exI [of _ s] exI [of _ xs] exI [of _ e]) (auto intro: subseq_filter_left)
  next
    case True
    then obtain n bs where xs: "xs = n # bs" "c n" by (cases xs) auto
    from removeAllPost_step [OF ok, of s "[]" n bs e] less.prems xs obtain s1 ys where
      1: "post n (list_unlink None n s, e) = Some (s1, f n e)" "list_repr s1 ys" "subseq bs ys"
        "filter c ys = filter c bs" "J ys (f n e)" by (auto simp: prev_of_def)
    have "length (filter c ys) < length (filter c xs)" using 1(4) xs by simp
    from less.hyps [OF this 1(2,5)] obtain s' xs' e' where
      2: "list_removeAllPost_heads c post (s1, f n e) = Some (lHead s', s', e')" "list_repr s' xs'" "J xs' e'"
        "xs' \<noteq> [] \<longrightarrow> \<not> c (hd xs')" "fold f (filter c xs') e' = fold f (filter c ys) (f n e)"
        "subseq (filter (\<lambda>x. \<not> c x) ys) xs'" by blast
    have "list_removeAllPost_heads c post (s, e) = Some (lHead s', s', e')"
      using 1(1) 2(1) head xs by (subst list_removeAllPost_heads.simps) simp
    moreover have "subseq (filter (\<lambda>x. \<not> c x) xs) xs'"
      using subseq_order.trans [OF subseq_filter [OF 1(3)] 2(6)] xs by simp
    ultimately show ?thesis using 2 1(4) xs by auto
  qed
qed

lemma removeAllPost_rest_ok:
  assumes ok: "list_callback_ok c f J post"
    and "list_repr s (as @ p # bs)" and "J (as @ p # bs) e" and "filter c (as @ [p]) = []"
  shows "\<exists>s' xs'. list_removeAllPost_rest c post p (s, e) = Some (s', fold f (filter c bs) e) \<and> list_repr s' xs' \<and>
    J xs' (fold f (filter c bs) e) \<and> filter c xs' = [] \<and> subseq (filter (\<lambda>x. \<not> c x) (as @ p # bs)) xs'"
  using assms(2-)
proof (induction "length (filter c bs)" arbitrary: s as p bs e rule: less_induct)
  case (less bs)
  note outer = less.hyps
  show ?case
    using outer less.prems
  proof (induction bs arbitrary: s as p)
    case Nil
    then show ?case using list_repr_next [OF Nil.prems(2)]
      by (intro exI [of _ s] exI [of _ "as @ [p]"]) (subst list_removeAllPost_rest.simps, auto)
  next
    case (Cons n bs)
    have nx: "lNext s p = Some n" using list_repr_next [OF Cons.prems(2)] by simp
    have repr: "list_repr s ((as @ [p]) @ n # bs)" and J: "J ((as @ [p]) @ n # bs) e" using Cons.prems(2,3) by simp_all
    show ?case
    proof (cases "c n")
      case False
      then have "filter c (n # bs) = filter c bs" "filter c ((as @ [p]) @ [n]) = []"
        using Cons.prems(4) by (simp_all split: if_splits)
      then obtain s' xs' where
        "list_removeAllPost_rest c post n (s, e) = Some (s', fold f (filter c bs) e)" "list_repr s' xs'"
        "J xs' (fold f (filter c bs) e)" "filter c xs' = []" "subseq (filter (\<lambda>x. \<not> c x) ((as @ [p]) @ n # bs)) xs'"
        using Cons.IH [OF _ repr J] Cons.prems(1) by metis
      moreover from this(1) have "list_removeAllPost_rest c post p (s, e) = Some (s', fold f (filter c bs) e)"
        using nx False by (subst list_removeAllPost_rest.simps) simp
      ultimately show ?thesis using False by (intro exI [of _ s'] exI [of _ xs']) simp
    next
      case True
      have no: "\<forall>x \<in> set (as @ [p]). \<not> c x" using Cons.prems(4) by (auto simp: filter_empty_conv)
      from removeAllPost_step [OF ok repr True no J] obtain s1 ys where
        1: "post n (list_unlink (Some p) n s, e) = Some (s1, f n e)" "list_repr s1 ys" "subseq ((as @ [p]) @ bs) ys"
          "filter c ys = filter c bs" "J ys (f n e)" by (auto simp: prev_of_def)
      have "p \<in> set ys" using 1(3) by (auto dest: list_emb_set)
      then obtain as' bs' where ys: "ys = as' @ p # bs'" by (auto simp: in_set_conv_decomp)
      have dist: "distinct ys" using 1(2) by (simp add: list_repr_def)
      then have sub: "subseq as as'" "subseq bs bs'" using subseq_around [of as p bs as' bs'] 1(3) ys by simp_all
      have "\<not> c x" if "x \<in> set as'" for x
      proof
        assume "c x"
        then have "x \<in> set (filter c ys)" using that ys by simp
        then have "x \<in> set bs" using 1(4) by simp
        then have "x \<in> set bs'" using sub(2) by (auto dest: list_emb_set)
        then show False using that dist ys by auto
      qed
      then have as': "filter c (as' @ [p]) = []" using no by (simp add: filter_empty_conv)
      then have bs': "filter c bs' = filter c bs" using 1(4) ys by (simp split: if_splits)
      then have "length (filter c bs') < length (filter c (n # bs))" using True by simp
      from Cons.prems(1) [OF this] 1(2,5) as' obtain s' xs' where
        2: "list_removeAllPost_rest c post p (s1, f n e) = Some (s', fold f (filter c bs') (f n e))" "list_repr s' xs'"
          "J xs' (fold f (filter c bs') (f n e))" "filter c xs' = []" "subseq (filter (\<lambda>x. \<not> c x) ys) xs'"
        unfolding ys by blast
      have "list_removeAllPost_rest c post p (s, e) = Some (s', fold f (filter c (n # bs)) e)"
        using 1(1) 2(1) bs' nx True by (subst list_removeAllPost_rest.simps) simp
      moreover have "subseq (filter (\<lambda>x. \<not> c x) (as @ p # n # bs)) xs'"
        using subseq_order.trans [OF subseq_filter [OF 1(3)] 2(5)] True by (simp split: if_splits)
      ultimately show ?thesis using 2 bs' True by (intro exI [of _ s'] exI [of _ xs']) simp
    qed
  qed
qed

text \<open>
  C40. \<open>removeAll\<close> with a callback returns, also when the callback inserts nodes into the list that is
  being traversed, as long as these do not satisfy the condition themselves. It takes exactly the
  nodes that satisfy the condition out of the list, calls the callback once for each of them, in list
  order and with the node already unlinked, and keeps the others in their order; in the end the list
  is linked soundly, with the inserted nodes where the callback has put them.\<close>

theorem list_removeAllPost_visits:
  assumes ok: "list_callback_ok c f J post" and repr: "list_repr s xs" and "J xs e"
  shows "\<exists>s' xs'. list_removeAllPost c post (s, e) = Some (s', fold f (filter c xs) e) \<and> list_repr s' xs' \<and>
    filter c xs' = [] \<and> subseq (filter (\<lambda>n. \<not> c n) xs) xs' \<and> J xs' (fold f (filter c xs) e)"
proof -
  from removeAllPost_heads_ok [OF assms] obtain s1 xs1 e1 where
    1: "list_removeAllPost_heads c post (s, e) = Some (lHead s1, s1, e1)" "list_repr s1 xs1" "J xs1 e1"
      "xs1 \<noteq> [] \<longrightarrow> \<not> c (hd xs1)" "fold f (filter c xs1) e1 = fold f (filter c xs) e"
      "subseq (filter (\<lambda>x. \<not> c x) xs) xs1" by blast
  note head = list_repr_head [OF 1(2)]
  show ?thesis
  proof (cases xs1)
    case Nil
    with 1 head show ?thesis
      by (intro exI [of _ s1] exI [of _ xs1]) (simp add: list_removeAllPost_def)
  next
    case (Cons p bs)
    with 1 have "filter c ([] @ [p]) = []" by simp
    from removeAllPost_rest_ok [OF ok, of s1 "[]" p bs e1, OF _ _ this] 1(2,3) Cons obtain s' xs' where
      2: "list_removeAllPost_rest c post p (s1, e1) = Some (s', fold f (filter c bs) e1)" "list_repr s' xs'"
        "J xs' (fold f (filter c bs) e1)" "filter c xs' = []" "subseq (filter (\<lambda>x. \<not> c x) xs1) xs'" by auto
    have "filter c xs1 = filter c bs" using 1(4) Cons by simp
    moreover have "subseq (filter (\<lambda>n. \<not> c n) xs) xs'"
      using subseq_order.trans [OF subseq_filter [OF 1(6), of "\<lambda>x. \<not> c x"] 2(5)] by simp
    ultimately show ?thesis using 1(1,5) 2 head Cons
      by (intro exI [of _ s'] exI [of _ xs']) (simp add: list_removeAllPost_def)
  qed
qed

text \<open>A concrete list of three nodes, for the instances of the properties.\<close>

definition list_123 :: "nat llist" where
  "list_123 = \<lparr>lNext = (\<lambda>n. if n = 1 then Some 2 else if n = 2 then Some 3 else None),
     lHead = Some 1, lTail = Some 3\<rparr>"

lemma list_123_repr: "list_repr list_123 [1, 2, 3]"
  by (simp add: list_repr_def list_123_def)

lemma list_remove_first_match_witness:
  "\<exists>s'. list_remove even list_123 = Some (s', Some 2) \<and> list_repr s' [1, 3]"
  using list_remove_first_match [OF list_123_repr, of even] by auto

text \<open>The test \<open>removeAlInsertInPost\<close>: 3 is removed, and four nodes are inserted beside it and beside its neighbours.\<close>

definition list_135 :: "nat llist" where
  "list_135 = \<lparr>lNext = (\<lambda>n. if n = 1 then Some 3 else if n = 3 then Some 5 else None), lHead = Some 1, lTail = Some 5\<rparr>"

definition insert_beside :: "(nat, nat list) list_callback" where
  "insert_beside n se = do {
     s \<leftarrow> list_insert (<) 0 (fst se); s \<leftarrow> list_insert (<) 2 s; s \<leftarrow> list_insert (<) 4 s; s \<leftarrow> list_insert (<) 6 s;
     Some (s, snd se @ [n]) }"

definition beside_states :: "nat list \<Rightarrow> nat list \<Rightarrow> bool" where
  "beside_states xs e \<longleftrightarrow> e = [] \<and> xs = [1, 3, 5] \<or> e = [3] \<and> xs = [0, 1, 2, 4, 5, 6]"

lemma list_135_repr: "list_repr list_135 [1, 3, 5]"
  by (simp add: list_repr_def list_135_def)

lemma insert_beside_15:
  assumes "list_repr s [1, 5]"
  shows "\<exists>s'. insert_beside n (s, e) = Some (s', e @ [n]) \<and> list_repr s' [0, 1, 2, 4, 5, 6]"
proof -
  from list_insert_repr [OF assms, of 0 "(<)"] obtain s1 where 1: "list_insert (<) 0 s = Some s1" "list_repr s1 [0, 1, 5]"
    by (auto simp: insert_node_def)
  from list_insert_repr [OF 1(2), of 2 "(<)"] obtain s2 where 2: "list_insert (<) 2 s1 = Some s2" "list_repr s2 [0, 1, 2, 5]"
    by (auto simp: insert_node_def)
  from list_insert_repr [OF 2(2), of 4 "(<)"] obtain s3 where 3: "list_insert (<) 4 s2 = Some s3" "list_repr s3 [0, 1, 2, 4, 5]"
    by (auto simp: insert_node_def)
  from list_insert_repr [OF 3(2), of 6 "(<)"] obtain s4 where 4: "list_insert (<) 6 s3 = Some s4" "list_repr s4 [0, 1, 2, 4, 5, 6]"
    by (auto simp: insert_node_def)
  show ?thesis using 1(1) 2(1) 3(1) 4 by (simp add: insert_beside_def)
qed

lemma insert_beside_ok: "list_callback_ok (\<lambda>n. n = 3) (\<lambda>n e. e @ [n]) beside_states insert_beside"
  unfolding list_callback_ok_def
proof (intro allI impI)
  fix n :: nat and s :: "nat llist" and e as bs
  assume repr: "list_repr s (as @ bs)" and n: "n = 3" and J: "beside_states (as @ n # bs) e"
  from J n have o: "as = [1]" "bs = [5]" "e = []" by (auto simp: beside_states_def append_eq_Cons_conv)
  then have "list_repr s [1, 5]" using repr by simp
  from insert_beside_15 [OF this, of n e] obtain s' where
    "insert_beside n (s, e) = Some (s', e @ [n])" "list_repr s' [0, 1, 2, 4, 5, 6]" by blast
  then show "\<exists>s' ys. insert_beside n (s, e) = Some (s', e @ [n]) \<and> list_repr s' ys \<and> subseq (as @ bs) ys \<and>
      (\<forall>x\<in>set ys. x = 3 \<longrightarrow> x \<in> set (as @ bs)) \<and> beside_states ys (e @ [n])"
    by (intro exI [of _ s'] exI [of _ "[0, 1, 2, 4, 5, 6]"]) (simp add: o n beside_states_def)
qed

lemma list_removeAllPost_visits_witness:
  "\<exists>s'. list_removeAllPost (\<lambda>n. n = 3) insert_beside (list_135, []) = Some (s', [3]) \<and> list_repr s' [0, 1, 2, 4, 5, 6]"
  using list_removeAllPost_visits [OF insert_beside_ok list_135_repr, of "[]"] by (auto simp: beside_states_def)


subsection \<open>Ordered insertion\<close>

lemma set_dropWhile_D: "x \<in> set (dropWhile P xs) \<Longrightarrow> x \<in> set xs"
  by (induction xs) (auto split: if_splits)

lemma sorted_wrt_takeWhile_dropWhile:
  assumes "sorted_wrt (\<lambda>a b. (key a :: 'k :: linorder) \<le> key b) xs"
  shows "sorted_wrt (\<lambda>a b. key a \<le> key b)
    (takeWhile (\<lambda>m. key m < key n) xs @ n # dropWhile (\<lambda>m. key m < key n) xs)"
  using assms by (induction xs) (auto dest: set_takeWhileD set_dropWhile_D simp: not_less)

text \<open>
  Note. \<open>insert\<close> into a list that is sorted by a key (with \<open>operator<\<close> comparing the keys) returns,
  keeps it sorted, and the list then has the old nodes, in their old order, and the new one.\<close>

theorem list_insert_sorted:
  fixes key :: "'n \<Rightarrow> 'k :: linorder"
  assumes repr: "list_repr s xs" and n: "n \<notin> set xs"
    and sorted: "sorted_wrt (\<lambda>a b. key a \<le> key b) xs"
  shows "\<exists>s' ys. list_insert (\<lambda>a b. key a < key b) n s = Some s' \<and> list_repr s' ys \<and>
    sorted_wrt (\<lambda>a b. key a \<le> key b) ys \<and> remove1 n ys = xs"
proof -
  let ?lt = "\<lambda>a b. key a < key b"
  let ?ys = "insert_node ?lt n xs"
  obtain s' where "list_insert ?lt n s = Some s'" "list_repr s' ?ys"
    using list_insert_repr [OF repr n] by blast
  moreover have "sorted_wrt (\<lambda>a b. key a \<le> key b) ?ys"
  proof (cases xs)
    case (Cons h t)
    show ?thesis
    proof (cases "\<not> ?lt n h \<and> \<not> ?lt (last xs) n")
      case True
      with sorted Cons sorted_wrt_takeWhile_dropWhile [of key t n] show ?thesis
        by (auto simp: insert_node_def dest: set_takeWhileD set_dropWhile_D)
    next
      case False
      then consider "?lt n h" | "\<not> ?lt n h" "?lt (last xs) n" by blast
      then show ?thesis
      proof cases
        case 1
        with sorted Cons show ?thesis by (auto simp: insert_node_def)
      next
        case 2
        have "key m \<le> key (last xs)" if "m \<in> set xs" for m
          using sorted that by (cases xs rule: rev_cases) (auto simp: sorted_wrt_append)
        then have "key m \<le> key n" if "m \<in> set xs" for m using 2(2) that by fastforce
        with 2 sorted have "sorted_wrt (\<lambda>a b. key a \<le> key b) (xs @ [n])"
          by (simp add: sorted_wrt_append)
        with 2 Cons show ?thesis by (simp add: insert_node_def)
      qed
    qed
  qed (simp add: insert_node_def)
  moreover have "remove1 n ?ys = xs"
    using n by (auto simp: insert_node_def remove1_append remove1_idem split: list.splits
        dest: set_takeWhileD)
  ultimately show ?thesis by blast
qed

lemma list_insert_sorted_witness:
  "\<exists>s' ys. list_insert (\<lambda>a b. a div 2 < (b :: nat) div 2) 4 list_123 = Some s' \<and> list_repr s' ys \<and>
     sorted_wrt (\<lambda>a b. a div 2 \<le> b div 2) ys \<and> remove1 4 ys = [1, 2, 3]"
  using list_insert_sorted [OF list_123_repr, of 4 "\<lambda>n. n div 2"] by simp

subsection \<open>The contract\<close>

interpretation ll: node_sequence list_repr list_append "\<lambda>n s. Some (list_prepend n s)" list_removeNode
    "\<lambda>s. Some (list_removeFirst s)" "\<lambda>s. list_iterate s (list_begin s)"
proof unfold_locales
  fix s :: "'n llist" and xs n
  assume repr: "list_repr s xs"
  show "n \<notin> set xs \<Longrightarrow> \<exists>s'. list_append n s = Some s' \<and> list_repr s' (xs @ [n])"
    by (rule list_append_repr [OF repr])
  show "n \<notin> set xs \<Longrightarrow> \<exists>s'. Some (list_prepend n s) = Some s' \<and> list_repr s' (n # xs)"
    using list_prepend_repr [OF repr] by simp
  show "\<exists>s'. list_removeNode n s = Some (s', n \<in> set xs) \<and> list_repr s' (remove1 n xs)"
    using list_removeNode_repr [OF repr, of n] by blast
  show "\<exists>s'. Some (list_removeFirst s) = Some s' \<and> list_repr s' (tl xs)"
    using list_removeFirst_repr [OF repr] by simp
  show "list_iterate s (list_begin s) = Some xs" by (rule list_iterate_repr [OF repr])
qed

text \<open>The calls of a client of the list.\<close>

definition list_step :: "'n seq_call \<Rightarrow> 'n llist \<Rightarrow> ('n llist \<times> 'n seq_answer) option" where
  "list_step = seq_step list_append (\<lambda>n s. Some (list_prepend n s)) list_removeNode
     (\<lambda>s. Some (list_removeFirst s)) (\<lambda>s. list_iterate s (list_begin s))"

lemmas list_calls_refine = ll.calls_refine [folded list_step_def]

end
