(* ===== verification/Circular_List.thy ===== *)
theory Circular_List
  imports Linked_List
begin

text \<open>
  \<open>outpost::CircularSinglyLinkedList\<close> (circular_singly_linked_list.h and _impl.h). The list keeps
  one pointer, \<open>mHead\<close>, to its last node, whose \<open>mNext\<close> is the first node. Nodes, pointers and
  partiality are as in the theory of \<open>List\<close>; a \<open>do ... while\<close> loop follows the ring until it is
  back at \<open>mHead\<close>, so it would not end if the ring did not pass through \<open>mHead\<close>.
\<close>

record 'n clist =
  cNext :: "'n \<Rightarrow> 'n option"
  cHead :: "'n option"

definition circ_new :: "('n \<Rightarrow> 'n option) \<Rightarrow> 'n clist" where
  "circ_new nxt = \<lparr>cNext = nxt, cHead = None\<rparr>"

definition circ_isEmpty :: "'n clist \<Rightarrow> bool" where
  "circ_isEmpty s \<longleftrightarrow> cHead s = None"

definition circ_first :: "'n clist \<Rightarrow> 'n option option" where
  "circ_first s = map_option (cNext s) (cHead s)"

definition circ_last :: "'n clist \<Rightarrow> 'n option" where
  "circ_last s = cHead s"

partial_function (option) circ_get_loop ::
    "('n \<Rightarrow> bool) \<Rightarrow> ('n \<Rightarrow> 'n option) \<Rightarrow> 'n \<Rightarrow> 'n \<Rightarrow> 'n option option" where
  "circ_get_loop condition nxt head current = do {
     current \<leftarrow> nxt current;
     if condition current then Some (Some current)
     else if current = head then Some None
     else circ_get_loop condition nxt head current }"

definition circ_get :: "('n \<Rightarrow> bool) \<Rightarrow> 'n clist \<Rightarrow> 'n option option" where
  "circ_get condition s =
     (case cHead s of None \<Rightarrow> Some None | Some h \<Rightarrow> circ_get_loop condition (cNext s) h h)"

partial_function (option) circ_getN_loop ::
    "('n \<Rightarrow> 'n option) \<Rightarrow> 'n \<Rightarrow> 'n \<Rightarrow> size_t \<Rightarrow> 'n option option" where
  "circ_getN_loop nxt head current n = do {
     current \<leftarrow> nxt current;
     let n = szsub n 1 in
     if n > 0 \<and> current \<noteq> head then circ_getN_loop nxt head current n
     else Some (if n = 0 then Some current else None) }"

definition circ_getN :: "size_t \<Rightarrow> 'n clist \<Rightarrow> 'n option option" where
  "circ_getN n s =
     (case cHead s of None \<Rightarrow> Some None | Some h \<Rightarrow> circ_getN_loop (cNext s) h h (szadd n 1))"

definition circ_reset :: "'n clist \<Rightarrow> 'n clist" where
  "circ_reset s = s\<lparr>cHead := None\<rparr>"

definition circ_prepend :: "'n \<Rightarrow> 'n clist \<Rightarrow> 'n clist" where
  "circ_prepend node s =
     (case cHead s of
        None \<Rightarrow> s\<lparr>cHead := Some node, cNext := (cNext s)(node := Some node)\<rparr>
      | Some h \<Rightarrow> s\<lparr>cNext := (cNext s)(node := cNext s h, h := Some node)\<rparr>)"

definition circ_append :: "'n \<Rightarrow> 'n clist \<Rightarrow> 'n clist" where
  "circ_append node s =
     (case cHead s of
        None \<Rightarrow> s\<lparr>cHead := Some node, cNext := (cNext s)(node := Some node)\<rparr>
      | Some h \<Rightarrow> s\<lparr>cNext := (cNext s)(node := cNext s h, h := Some node), cHead := Some node\<rparr>)"

text \<open>The search of \<open>insert\<close>: the node it stops at, and whether it was found to be the place.\<close>

partial_function (option) circ_insert_loop ::
    "('n \<Rightarrow> 'n \<Rightarrow> bool) \<Rightarrow> 'n \<Rightarrow> ('n \<Rightarrow> 'n option) \<Rightarrow> 'n \<Rightarrow> 'n \<Rightarrow> ('n \<times> bool) option" where
  "circ_insert_loop lt node nxt head current = do {
     current \<leftarrow> nxt current;
     after \<leftarrow> nxt current;
     if lt node after then Some (current, True)
     else if current = head then Some (current, False)
     else circ_insert_loop lt node nxt head current }"

definition circ_insert :: "('n \<Rightarrow> 'n \<Rightarrow> bool) \<Rightarrow> 'n \<Rightarrow> 'n clist \<Rightarrow> 'n clist option" where
  "circ_insert lt node s =
     (case cHead s of
        None \<Rightarrow> Some (s\<lparr>cHead := Some node, cNext := (cNext s)(node := Some node)\<rparr>)
      | Some h \<Rightarrow> do {
          (current, found) \<leftarrow> circ_insert_loop lt node (cNext s) h h;
          if \<not> found \<or> current = h
          then Some (s\<lparr>cNext := (cNext s)(node := cNext s h, h := Some node), cHead := Some node\<rparr>)
          else Some (s\<lparr>cNext := (cNext s)(node := cNext s current, current := Some node)\<rparr>) })"

text \<open>The search of \<open>removeNode\<close> and \<open>remove\<close>: the place and its predecessor.\<close>

partial_function (option) circ_seek ::
    "('n \<Rightarrow> bool) \<Rightarrow> ('n \<Rightarrow> 'n option) \<Rightarrow> 'n \<Rightarrow> 'n \<Rightarrow> ('n \<times> 'n option) option" where
  "circ_seek stop nxt head previous = do {
     current \<leftarrow> nxt previous;
     if stop current then Some (previous, Some current)
     else if current = head then Some (previous, None)
     else circ_seek stop nxt head current }"

text \<open>What \<open>removeNode\<close> and \<open>remove\<close> do with the node they found.\<close>

definition circ_unlink :: "'n \<Rightarrow> 'n \<Rightarrow> 'n clist \<Rightarrow> 'n clist" where
  "circ_unlink previous n s =
     (let s = (if cHead s = Some n
               then if cNext s n = Some n then s\<lparr>cHead := None\<rparr> else s\<lparr>cHead := Some previous\<rparr>
               else s)
      in s\<lparr>cNext := (cNext s)(previous := cNext s n)\<rparr>)"

definition circ_removeNode :: "'n \<Rightarrow> 'n clist \<Rightarrow> ('n clist \<times> bool) option" where
  "circ_removeNode node s =
     (case cHead s of
        None \<Rightarrow> Some (s, False)
      | Some h \<Rightarrow> do {
          (previous, result) \<leftarrow> circ_seek (\<lambda>c. c = node) (cNext s) h h;
          case result of
            None \<Rightarrow> Some (s, False)
          | Some r \<Rightarrow> Some (circ_unlink previous r s, True) })"

definition circ_remove :: "('n \<Rightarrow> bool) \<Rightarrow> 'n clist \<Rightarrow> ('n clist \<times> 'n option) option" where
  "circ_remove condition s =
     (case cHead s of
        None \<Rightarrow> Some (s, None)
      | Some h \<Rightarrow> do {
          (previous, result) \<leftarrow> circ_seek condition (cNext s) h h;
          case result of
            None \<Rightarrow> Some (s, None)
          | Some r \<Rightarrow> Some (circ_unlink previous r s, Some r) })"

text \<open>
  One pass of the loop of \<open>removeAll\<close> over the node \<open>current\<close>, when it satisfies the condition:
  the list, and the new value of the variable \<open>current\<close>.
\<close>

definition circ_drop :: "'n \<Rightarrow> 'n \<Rightarrow> 'n clist \<Rightarrow> 'n clist \<times> 'n option" where
  "circ_drop previous current s =
     (if cHead s = Some current
      then let s = (if cNext s current = Some current then s\<lparr>cHead := None\<rparr>
                    else s\<lparr>cHead := Some previous, cNext := (cNext s)(previous := cNext s current)\<rparr>)
           in (s, cHead s)
      else (s\<lparr>cNext := (cNext s)(previous := cNext s current)\<rparr>, Some current))"

partial_function (option) circ_removeAll_loop ::
    "('n \<Rightarrow> bool) \<Rightarrow> 'n \<Rightarrow> 'n option \<Rightarrow> 'n clist \<Rightarrow> 'n clist option" where
  "circ_removeAll_loop condition previous nextCurrent s = do {
     n \<leftarrow> nextCurrent;
     if condition n then
       let (s', current) = circ_drop previous n s in
       if current \<noteq> cHead s'
       then circ_removeAll_loop condition previous (cNext s' n) s'
       else Some s'
     else if Some n \<noteq> cHead s then circ_removeAll_loop condition n (cNext s n) s
     else Some s }"

definition circ_removeAll :: "('n \<Rightarrow> bool) \<Rightarrow> 'n clist \<Rightarrow> 'n clist option" where
  "circ_removeAll condition s =
     (case cHead s of None \<Rightarrow> Some s | Some h \<Rightarrow> circ_removeAll_loop condition h (cNext s h) s)"

text \<open>
  The version with a \<open>postCondition\<close>: it is called on the object that \<open>current\<close> points to after
  the removal (\<open>None\<close> when that is the null pointer).
\<close>

partial_function (option) circ_removeAllPost_loop ::
    "('n \<Rightarrow> bool) \<Rightarrow> ('n \<Rightarrow> 'n clist \<times> 'e \<Rightarrow> ('n clist \<times> 'e) option) \<Rightarrow> 'n \<Rightarrow> 'n option \<Rightarrow>
     'n clist \<times> 'e \<Rightarrow> ('n clist \<times> 'e) option" where
  "circ_removeAllPost_loop condition post previous nextCurrent se = do {
     n \<leftarrow> nextCurrent;
     if condition n then do {
       let (s', current) = circ_drop previous n (fst se);
       c \<leftarrow> current;
       (s'', e') \<leftarrow> post c (s', snd se);
       if current \<noteq> cHead s''
       then circ_removeAllPost_loop condition post previous (cNext s' n) (s'', e')
       else Some (s'', e') }
     else if Some n \<noteq> cHead (fst se)
       then circ_removeAllPost_loop condition post n (cNext (fst se) n) se
     else Some se }"

definition circ_removeAllPost ::
    "('n \<Rightarrow> bool) \<Rightarrow> ('n \<Rightarrow> 'n clist \<times> 'e \<Rightarrow> ('n clist \<times> 'e) option) \<Rightarrow> 'n clist \<times> 'e \<Rightarrow>
     ('n clist \<times> 'e) option" where
  "circ_removeAllPost condition post se =
     (case cHead (fst se) of None \<Rightarrow> Some se
      | Some h \<Rightarrow> circ_removeAllPost_loop condition post h (cNext (fst se) h) se)"

definition circ_removeFirst :: "'n clist \<Rightarrow> 'n clist option" where
  "circ_removeFirst s =
     (case cHead s of
        None \<Rightarrow> Some s
      | Some h \<Rightarrow>
          if cNext s h = Some h then Some (s\<lparr>cHead := None\<rparr>)
          else do { next \<leftarrow> cNext s h; Some (s\<lparr>cNext := (cNext s)(h := cNext s next)\<rparr>) })"

partial_function (option) circ_size_loop ::
    "('n \<Rightarrow> 'n option) \<Rightarrow> 'n \<Rightarrow> 'n \<Rightarrow> size_t \<Rightarrow> size_t option" where
  "circ_size_loop nxt head current numberOfElements = do {
     current \<leftarrow> nxt current;
     let numberOfElements = szadd numberOfElements 1 in
     if current \<noteq> head then circ_size_loop nxt head current numberOfElements
     else Some numberOfElements }"

definition circ_size :: "'n clist \<Rightarrow> size_t option" where
  "circ_size s =
     (case cHead s of None \<Rightarrow> Some 0 | Some h \<Rightarrow> circ_size_loop (cNext s) h h 0)"

text \<open>An iterator: the node and the last node of the list.\<close>

type_synonym 'n circ_iter = "'n option \<times> 'n option"

definition circ_begin :: "'n clist \<Rightarrow> 'n circ_iter" where
  "circ_begin s = (case cHead s of None \<Rightarrow> (None, None) | Some h \<Rightarrow> (cNext s h, Some h))"

definition circ_end :: "'n circ_iter" where
  "circ_end = (None, None)"

definition circ_iter_next :: "'n clist \<Rightarrow> 'n circ_iter \<Rightarrow> 'n circ_iter option" where
  "circ_iter_next s it =
     (if fst it = snd it then Some (None, snd it)
      else case fst it of None \<Rightarrow> None | Some n \<Rightarrow> Some (cNext s n, snd it))"

definition circ_iter_eq :: "'n circ_iter \<Rightarrow> 'n circ_iter \<Rightarrow> bool" where
  "circ_iter_eq a b \<longleftrightarrow> fst a = fst b"

partial_function (option) circ_iterate :: "'n clist \<Rightarrow> 'n circ_iter \<Rightarrow> 'n list option" where
  "circ_iterate s it =
     (if circ_iter_eq it circ_end then Some []
      else do { n \<leftarrow> fst it; it' \<leftarrow> circ_iter_next s it; ns \<leftarrow> circ_iterate s it'; Some (n # ns) })"

subsection \<open>What a list represents\<close>

definition circ_repr :: "'n clist \<Rightarrow> 'n list \<Rightarrow> bool" where
  "circ_repr s xs \<longleftrightarrow> distinct xs \<and> cHead s = prev_of xs \<and>
     (xs \<noteq> [] \<longrightarrow> path (cNext s) (Some (hd xs)) xs (Some (hd xs)))"

lemma circ_new_repr: "circ_repr (circ_new nxt) []"
  by (simp add: circ_repr_def circ_new_def prev_of_def)

lemma circ_reset_repr: "circ_repr (circ_reset s) []"
  by (simp add: circ_repr_def circ_reset_def prev_of_def)

lemma circ_repr_head: "circ_repr s xs \<Longrightarrow> cHead s = prev_of xs"
  by (simp add: circ_repr_def)

lemma circ_repr_next:
  "circ_repr s (ys @ n # zs) \<Longrightarrow> cNext s n = Some (hd (zs @ ys @ [n]))"
  by (cases ys; cases zs) (auto simp: circ_repr_def path_append)

lemma circ_repr_snoc_next: "circ_repr s (ys @ [n]) \<Longrightarrow> cNext s n = Some (hd (ys @ [n]))"
  using circ_repr_next [of s ys n "[]"] by simp

lemma circ_isEmpty_repr: "circ_repr s xs \<Longrightarrow> circ_isEmpty s \<longleftrightarrow> xs = []"
  by (simp add: circ_isEmpty_def circ_repr_def prev_of_def)

lemma circ_last_repr: "circ_repr s xs \<Longrightarrow> circ_last s = (if xs = [] then None else Some (last xs))"
  by (simp add: circ_last_def circ_repr_def prev_of_def)

lemma circ_first_repr: "circ_repr s xs \<Longrightarrow> circ_first s = (if xs = [] then None else Some (Some (hd xs)))"
  by (cases xs rule: rev_cases) (auto simp: circ_first_def circ_repr_head prev_of_def dest: circ_repr_snoc_next)

text \<open>
  The loops start at the last node \<open>h\<close> and look at the successor first. A position is a split
  \<open>ys @ zs\<close> of the sequence, \<open>zs\<close> what is still to be seen; \<open>ring_at\<close> is the node the loop
  stands on.
\<close>

definition ring_at :: "'n list \<Rightarrow> 'n list \<Rightarrow> 'n" where
  "ring_at ys zs = (if ys = [] then last zs else last ys)"

lemma circ_repr_at:
  assumes "circ_repr s (ys @ z # zs)"
  shows "cNext s (ring_at ys (z # zs)) = Some z"
proof (cases ys rule: rev_cases)
  case Nil
  obtain ws w where ws: "z # zs = ws @ [w]" by (metis list.distinct(1) rev_exhaust)
  with assms Nil circ_repr_snoc_next [of s ws w] show ?thesis
    by (simp add: ring_at_def) (metis list.sel(1))
next
  case (snoc ws w)
  with assms circ_repr_next [of s ws w "z # zs"] show ?thesis by (simp add: ring_at_def)
qed

lemma circ_head_iff:
  assumes "circ_repr s (ys @ z # zs)" and "cHead s = Some h"
  shows "z = h \<longleftrightarrow> zs = []"
  using assms by (cases zs rule: rev_cases) (auto simp: circ_repr_def prev_of_def)

lemma ring_at_Cons: "zs \<noteq> [] \<Longrightarrow> ring_at (ys @ [z]) zs = z"
  by (simp add: ring_at_def)

lemma circ_get_loop_ring:
  assumes "circ_repr s (ys @ zs)" and "zs \<noteq> []" and h: "cHead s = Some h"
  shows "circ_get_loop c (cNext s) h (ring_at ys zs) = Some (find c zs)"
  using assms(1,2)
proof (induction zs arbitrary: ys)
  case (Cons z zs)
  note at = circ_repr_at [OF Cons.prems(1)] and iff = circ_head_iff [OF Cons.prems(1) h]
  have "circ_get_loop c (cNext s) h z = Some (find c zs)" if "zs \<noteq> []"
    using Cons.IH [of "ys @ [z]"] Cons.prems(1) that by (simp add: ring_at_def)
  with at iff show ?case by (subst circ_get_loop.simps) auto
qed simp

lemma circ_head_at: "circ_repr s xs \<Longrightarrow> xs \<noteq> [] \<Longrightarrow> cHead s = Some (ring_at [] xs)"
  by (simp add: circ_repr_def prev_of_def ring_at_def)

lemma circ_get_repr: "circ_repr s xs \<Longrightarrow> circ_get c s = Some (find c xs)"
  using circ_get_loop_ring [of s "[]" xs "ring_at [] xs" c]
  by (cases "xs = []") (auto simp: circ_get_def circ_head_at circ_repr_head prev_of_def)

lemma circ_size_loop_ring:
  assumes "circ_repr s (ys @ zs)" and "zs \<noteq> []" and h: "cHead s = Some h"
    and "k + length zs < 2 ^ size_bits"
  shows "circ_size_loop (cNext s) h (ring_at ys zs) k = Some (k + length zs)"
  using assms(1,2,4)
proof (induction zs arbitrary: ys k)
  case (Cons z zs)
  note at = circ_repr_at [OF Cons.prems(1)] and iff = circ_head_iff [OF Cons.prems(1) h]
  have "circ_size_loop (cNext s) h z (Suc k) = Some (Suc k + length zs)" if "zs \<noteq> []"
    using Cons.IH [of "ys @ [z]" "Suc k"] Cons.prems that by (simp add: ring_at_def)
  moreover have "szadd k 1 = Suc k" using Cons.prems(3) by (simp add: szadd_exact)
  ultimately show ?case using at iff by (subst circ_size_loop.simps) auto
qed simp

lemma circ_size_repr: "circ_repr s xs \<Longrightarrow> length xs < 2 ^ size_bits \<Longrightarrow> circ_size s = Some (length xs)"
  using circ_size_loop_ring [of s "[]" xs "ring_at [] xs" 0]
  by (cases "xs = []") (auto simp: circ_size_def circ_head_at circ_repr_head prev_of_def)

lemma circ_getN_loop_ring:
  assumes "circ_repr s (ys @ zs)" and "zs \<noteq> []" and h: "cHead s = Some h"
    and "n + 1 < 2 ^ size_bits"
  shows "circ_getN_loop (cNext s) h (ring_at ys zs) (n + 1) =
    Some (if n < length zs then Some (zs ! n) else None)"
  using assms(1,2,4)
proof (induction zs arbitrary: ys n)
  case (Cons z zs)
  note at = circ_repr_at [OF Cons.prems(1)] and iff = circ_head_iff [OF Cons.prems(1) h]
  have n: "szsub (n + 1) 1 = n" using Cons.prems(3) by (simp add: szsub_exact)
  have "circ_getN_loop (cNext s) h z n = Some (if n - 1 < length zs then Some (zs ! (n - 1)) else None)"
    if "zs \<noteq> []" "0 < n"
    using Cons.IH [of "ys @ [z]" "n - 1"] Cons.prems that by (simp add: ring_at_def)
  with n at iff show ?case
    by (subst circ_getN_loop.simps) (auto simp: Let_def nth_Cons')
qed simp

lemma circ_getN_repr:
  assumes "circ_repr s xs" and "n + 1 < 2 ^ size_bits"
  shows "circ_getN n s = Some (if n < length xs then Some (xs ! n) else None)"
  using circ_getN_loop_ring [of s "[]" xs "ring_at [] xs" n] assms
  by (cases "xs = []") (auto simp: circ_getN_def circ_head_at circ_repr_head prev_of_def szadd_exact)

lemma circ_iterate_ring:
  assumes "circ_repr s (ys @ zs)" and "zs \<noteq> []" and h: "cHead s = Some h"
  shows "circ_iterate s (Some (hd zs), Some h) = Some zs"
  using assms(1,2)
proof (induction zs arbitrary: ys)
  case (Cons z zs)
  note iff = circ_head_iff [OF Cons.prems(1) h]
  have "circ_iterate s (Some (hd zs), Some h) = Some zs" if "zs \<noteq> []"
    using Cons.IH [of "ys @ [z]"] Cons.prems(1) that by simp
  moreover have "cNext s z = Some (hd zs)" if "zs \<noteq> []"
    using circ_repr_next [OF Cons.prems(1)] that by simp
  moreover have "circ_iterate s (None, Some h) = Some []"
    by (simp add: circ_iterate.simps circ_iter_eq_def circ_end_def)
  ultimately show ?case using iff
    by (subst circ_iterate.simps) (auto simp: circ_iter_eq_def circ_end_def circ_iter_next_def)
qed simp

lemma circ_iterate_repr: "circ_repr s xs \<Longrightarrow> circ_iterate s (circ_begin s) = Some xs"
  using circ_iterate_ring [of s "[]" xs "ring_at [] xs"] circ_repr_at [of s "[]" "hd xs" "tl xs"]
  by (cases xs) (auto simp: circ_begin_def circ_head_at circ_repr_head prev_of_def
      circ_iterate.simps [of s "(None, None)"] circ_iter_eq_def circ_end_def)

subsection \<open>Adding nodes\<close>

lemma circ_add:
  assumes "circ_repr s xs" and n: "n \<notin> set xs" and h: "cHead s = Some h"
  shows "path ((cNext s)(n := cNext s h, h := Some n)) (Some (hd xs)) (xs @ [n]) (Some (hd xs))"
    and "path ((cNext s)(n := cNext s h, h := Some n)) (Some n) (n # xs) (Some n)"
proof -
  obtain ws where xs: "xs = ws @ [h]"
    using assms by (cases xs rule: rev_cases) (auto simp: circ_repr_def prev_of_def)
  define f where "f = hd xs"
  have p: "path (cNext s) (Some f) ws (Some h)" and l: "cNext s h = Some f"
    using assms(1) xs by (simp_all add: circ_repr_def path_snoc f_def)
  have "h \<notin> set ws" and "n \<notin> set ws" "n \<noteq> h" using assms xs by (auto simp: circ_repr_def)
  with p l have "path ((cNext s)(n := cNext s h, h := Some n)) (Some f) ws (Some h)" by simp
  with l \<open>n \<noteq> h\<close>
  show "path ((cNext s)(n := cNext s h, h := Some n)) (Some (hd xs)) (xs @ [n]) (Some (hd xs))"
    and "path ((cNext s)(n := cNext s h, h := Some n)) (Some n) (n # xs) (Some n)"
    using f_def [symmetric] xs by (simp_all add: path_append)
qed

lemma circ_prepend_repr:
  assumes "circ_repr s xs" and "n \<notin> set xs"
  shows "circ_repr (circ_prepend n s) (n # xs)"
proof (cases "cHead s")
  case None
  with assms show ?thesis by (auto simp: circ_repr_def prev_of_def circ_prepend_def split: if_splits)
next
  case (Some h)
  then have "prev_of (n # xs) = Some h" using circ_repr_head [OF assms(1)]
    by (simp add: prev_of_def split: if_splits)
  with Some circ_add(2) [OF assms Some] assms show ?thesis
    unfolding circ_repr_def circ_prepend_def by simp
qed

lemma circ_append_repr:
  assumes "circ_repr s xs" and "n \<notin> set xs"
  shows "circ_repr (circ_append n s) (xs @ [n])"
proof (cases "cHead s")
  case None
  with assms show ?thesis by (auto simp: circ_repr_def prev_of_def circ_append_def split: if_splits)
next
  case (Some h)
  then have "hd (xs @ [n]) = hd xs" using circ_repr_head [OF assms(1)]
    by (simp add: prev_of_def split: if_splits)
  with Some circ_add(1) [OF assms Some] assms show ?thesis
    unfolding circ_repr_def circ_append_def by (simp add: prev_of_def)
qed

subsection \<open>Taking nodes out\<close>

lemma circ_relink:
  assumes "circ_repr s (ys @ n # zs)" and "ys @ zs \<noteq> []"
  defines "nx \<equiv> (cNext s)(ring_at ys (n # zs) := cNext s n)"
  shows "path nx (Some (hd (ys @ zs))) (ys @ zs) (Some (hd (ys @ zs)))"
proof (cases ys rule: rev_cases)
  case Nil
  then obtain ws w where ws: "zs = ws @ [w]" using assms(2) by (metis append_Nil rev_exhaust)
  with assms Nil show ?thesis
    by (cases ws) (auto simp: circ_repr_def path_append ring_at_def nx_def)
next
  case (snoc vs v)
  with assms show ?thesis
    by (cases vs; cases zs) (auto simp: circ_repr_def path_append ring_at_def nx_def)
qed

lemma circ_next_self:
  assumes "circ_repr s (ys @ n # zs)"
  shows "cNext s n = Some n \<longleftrightarrow> ys @ zs = []"
  using circ_repr_next [OF assms] assms
  by (cases zs; cases ys) (auto simp: circ_repr_def)

lemma circ_unlink_repr:
  assumes repr: "circ_repr s (ys @ n # zs)"
  shows "circ_repr (circ_unlink (ring_at ys (n # zs)) n s) (ys @ zs)"
proof (cases "ys @ zs = []")
  case True
  with assms circ_next_self [OF repr] show ?thesis
    by (simp add: circ_repr_def circ_unlink_def prev_of_def)
next
  case False
  have "cHead s = Some (last (n # zs))" using repr by (simp add: circ_repr_def prev_of_def)
  moreover have "last (n # zs) = n \<longleftrightarrow> zs = []"
    using repr by (cases zs rule: rev_cases) (auto simp: circ_repr_def)
  ultimately have "cHead (circ_unlink (ring_at ys (n # zs)) n s) = prev_of (ys @ zs)"
    using False circ_next_self [OF repr]
    by (auto simp: circ_unlink_def prev_of_def ring_at_def Let_def)
  then show ?thesis
    using circ_relink [OF repr False] repr by (auto simp: circ_repr_def circ_unlink_def Let_def)
qed

lemma circ_drop_repr:
  assumes repr: "circ_repr s (ys @ n # zs)"
  obtains s' cur where "circ_drop (ring_at ys (n # zs)) n s = (s', cur)"
    and "circ_repr s' (ys @ zs)" and "cur \<noteq> cHead s' \<longleftrightarrow> zs \<noteq> []"
    and "cNext s' n = cNext s n \<or> ys @ zs = [] \<or> zs = []"
    and "cur = (if zs \<noteq> [] then Some n else prev_of ys)"
proof (cases "ys @ zs = []")
  case True
  with repr circ_next_self [OF repr]
  have "circ_drop (ring_at ys (n # zs)) n s = (s\<lparr>cHead := None\<rparr>, None)"
    by (simp add: circ_repr_def circ_drop_def prev_of_def)
  with True show ?thesis by (intro that) (auto simp: circ_repr_def prev_of_def)
next
  case False
  have hd: "cHead s = Some (last (n # zs))" using repr by (simp add: circ_repr_def prev_of_def)
  have ln: "last (n # zs) = n \<longleftrightarrow> zs = []" and d: "distinct (ys @ zs)"
    using repr by (cases zs rule: rev_cases; auto simp: circ_repr_def)+
  let ?s = "(s\<lparr>cHead := prev_of (ys @ zs), cNext := (cNext s)(ring_at ys (n # zs) := cNext s n)\<rparr>)"
  have r: "circ_repr ?s (ys @ zs)"
    using circ_relink [OF repr False] d by (simp add: circ_repr_def)
  have eq: "circ_drop (ring_at ys (n # zs)) n s = (?s, if zs \<noteq> [] then Some n else prev_of ys)"
    using False hd ln circ_next_self [OF repr]
    by (auto simp: circ_drop_def prev_of_def ring_at_def Let_def)
  have "ring_at ys (n # zs) \<noteq> n" if "zs \<noteq> []"
    using that ln repr by (auto simp: ring_at_def circ_repr_def)
  then have "cNext ?s n = cNext s n \<or> ys @ zs = [] \<or> zs = []" by simp
  moreover have "(if zs \<noteq> [] then Some n else prev_of ys) \<noteq> cHead ?s \<longleftrightarrow> zs \<noteq> []"
    using ln by (auto simp: prev_of_def)
  ultimately show ?thesis using that [OF eq r] by simp
qed

lemma circ_seek_found:
  assumes "circ_repr s (ys @ us @ n # ws)" and h: "cHead s = Some h" and n: "c n"
    and "\<forall>u\<in>set us. \<not> c u"
  shows "circ_seek c (cNext s) h (ring_at ys (us @ n # ws)) =
    Some (ring_at (ys @ us) (n # ws), Some n)"
  using assms(1,4)
proof (induction us arbitrary: ys)
  case Nil
  with circ_repr_at [of s ys n ws] n show ?case by (subst circ_seek.simps) simp
next
  case (Cons u us)
  have at: "cNext s (ring_at ys (u # us @ n # ws)) = Some u" and "u \<noteq> h"
    using circ_repr_at [of s ys u "us @ n # ws"] circ_head_iff [of s ys u "us @ n # ws", OF _ h]
      Cons.prems(1) by simp_all
  with Cons.IH [of "ys @ [u]"] Cons.prems show ?case
    by (subst circ_seek.simps) (simp add: ring_at_def)
qed

lemma circ_seek_none:
  assumes "circ_repr s (ys @ zs)" and "zs \<noteq> []" and h: "cHead s = Some h"
    and "\<forall>z\<in>set zs. \<not> c z"
  shows "\<exists>p. circ_seek c (cNext s) h (ring_at ys zs) = Some (p, None)"
  using assms(1,2,4)
proof (induction zs arbitrary: ys)
  case (Cons z zs)
  note at = circ_repr_at [OF Cons.prems(1)] and iff = circ_head_iff [OF Cons.prems(1) h]
  have "\<exists>p. circ_seek c (cNext s) h z = Some (p, None)" if "zs \<noteq> []"
    using Cons.IH [of "ys @ [z]"] Cons.prems that by (simp add: ring_at_def)
  with at iff Cons.prems(3) show ?case by (subst circ_seek.simps) auto
qed simp

lemma circ_remove_repr:
  assumes repr: "circ_repr s xs"
  shows "\<exists>s'. circ_remove c s = Some (s', find c xs) \<and> circ_repr s' (remove_first_such c xs) \<and>
    (find c xs = None \<longrightarrow> s' = s)"
proof (cases "xs = []")
  case True
  with repr circ_repr_head [OF repr] show ?thesis by (simp add: circ_remove_def prev_of_def)
next
  case False
  note h = circ_head_at [OF repr False]
  show ?thesis
  proof (cases "find c xs")
    case None
    then have "\<forall>z\<in>set xs. \<not> c z" by (auto simp: find_None_iff)
    then obtain p where "circ_seek c (cNext s) (ring_at [] xs) (ring_at [] xs) = Some (p, None)"
      using circ_seek_none [of s "[]" xs "ring_at [] xs" c] repr h False by auto
    with repr h None show ?thesis by (simp add: circ_remove_def remove_first_such_none)
  next
    case (Some n)
    obtain us ws where us: "us = takeWhile (\<lambda>m. \<not> c m) xs" "xs = us @ n # ws" "c n"
      using find_split [OF Some] by blast
    have no: "\<forall>u\<in>set us. \<not> c u" unfolding us(1) by (auto dest: set_takeWhileD)
    have "circ_remove c s = Some (circ_unlink (ring_at us (n # ws)) n s, Some n)"
      using circ_seek_found [of s "[]" us n ws _ c, OF _ h us(3) no] repr h us(2)
      by (simp add: circ_remove_def)
    with circ_unlink_repr [of s us n ws] repr us(2) Some remove_first_such_split [OF no us(3)]
    show ?thesis by simp
  qed
qed

lemma circ_removeNode_is_remove:
  "circ_removeNode n s = map_option (\<lambda>(s', r). (s', r \<noteq> None)) (circ_remove (\<lambda>c. c = n) s)"
  unfolding circ_removeNode_def circ_remove_def
  by (cases "cHead s") (auto split: Option.bind_split option.split)

lemma circ_removeNode_repr:
  assumes repr: "circ_repr s xs"
  shows "\<exists>s'. circ_removeNode n s = Some (s', n \<in> set xs) \<and> circ_repr s' (remove1 n xs)"
proof -
  obtain s' where "circ_remove (\<lambda>c. c = n) s = Some (s', find (\<lambda>c. c = n) xs)"
      "circ_repr s' (remove1 n xs)"
    using circ_remove_repr [OF repr, of "\<lambda>c. c = n"] by (auto simp: remove_first_such_eq)
  moreover have "find (\<lambda>c. c = n) xs = None \<longleftrightarrow> n \<notin> set xs" by (auto simp: find_None_iff)
  ultimately show ?thesis by (auto simp: circ_removeNode_is_remove)
qed

lemma circ_removeFirst_repr:
  assumes repr: "circ_repr s xs"
  shows "\<exists>s'. circ_removeFirst s = Some s' \<and> circ_repr s' (tl xs)"
proof (cases xs)
  case Nil
  with repr show ?thesis by (auto simp: circ_removeFirst_def circ_repr_def prev_of_def)
next
  case (Cons x zs)
  have at: "cNext s (ring_at [] xs) = Some x" using circ_repr_at [of s "[]" x zs] repr Cons by simp
  have h: "cHead s = Some (ring_at [] xs)" using circ_head_at [OF repr] Cons by simp
  show ?thesis
  proof (cases "zs = []")
    case True
    with Cons h at show ?thesis by (simp add: circ_removeFirst_def circ_repr_def prev_of_def ring_at_def)
  next
    case False
    then have "ring_at [] xs \<noteq> x"
      using repr Cons by (cases zs rule: rev_cases) (auto simp: ring_at_def circ_repr_def)
    with h at have rf: "circ_removeFirst s =
        Some (s\<lparr>cNext := (cNext s)(ring_at [] xs := cNext s x)\<rparr>)"
      by (simp add: circ_removeFirst_def)
    have "circ_repr s ([] @ x # zs)" using repr Cons by simp
    from circ_relink [OF this] False Cons rf h repr show ?thesis
      by (auto simp: circ_repr_def prev_of_def ring_at_def)
  qed
qed

lemma circ_removeAll_loop_repr:
  assumes "circ_repr s (ys @ zs)" and "zs \<noteq> []"
  shows "\<exists>s'. circ_removeAll_loop c (ring_at ys zs) (Some (hd zs)) s = Some s' \<and>
    circ_repr s' (ys @ filter (\<lambda>n. \<not> c n) zs)"
  using assms
proof (induction zs arbitrary: s ys)
  case (Cons n zs)
  have next_n: "cNext s n = Some (hd zs)" if "zs \<noteq> []"
    using circ_repr_next [OF Cons.prems(1)] that by simp
  show ?case
  proof (cases "c n")
    case True
    obtain s' cur where drop: "circ_drop (ring_at ys (n # zs)) n s = (s', cur)"
      "circ_repr s' (ys @ zs)" "cur \<noteq> cHead s' \<longleftrightarrow> zs \<noteq> []"
      "cNext s' n = cNext s n \<or> ys @ zs = [] \<or> zs = []"
      by (rule circ_drop_repr [OF Cons.prems(1)])
    show ?thesis
    proof (cases "zs = []")
      case True
      with \<open>c n\<close> drop show ?thesis by (subst circ_removeAll_loop.simps) auto
    next
      case False
      have "ring_at ys (n # zs) = ring_at ys zs" using False by (simp add: ring_at_def)
      with Cons.IH [OF drop(2) False] drop False next_n \<open>c n\<close> show ?thesis
        by (subst circ_removeAll_loop.simps) auto
    qed
  next
    case False
    have head: "Some n \<noteq> cHead s \<longleftrightarrow> zs \<noteq> []"
      using Cons.prems(1) by (cases zs rule: rev_cases) (auto simp: circ_repr_def prev_of_def)
    show ?thesis
    proof (cases "zs = []")
      case True
      then have "cHead s = Some n" using head by simp
      with True False Cons.prems(1) show ?thesis by (subst circ_removeAll_loop.simps) simp
    next
      case ne: False
      have "circ_repr s ((ys @ [n]) @ zs)" using Cons.prems(1) by simp
      from Cons.IH [OF this ne] ne head next_n False show ?thesis
        by (subst circ_removeAll_loop.simps) (auto simp: ring_at_def)
    qed
  qed
qed simp

text \<open>
  Note. \<open>removeAll\<close> of the circular list always returns and takes out exactly the nodes that satisfy
  the condition, whichever of them is the last node that the list object points to: the rest is
  again a well-formed ring, in the old order.\<close>

theorem circ_removeAll_filters:
  assumes repr: "circ_repr s xs"
  shows "\<exists>s'. circ_removeAll c s = Some s' \<and> circ_repr s' (filter (\<lambda>n. \<not> c n) xs)"
proof (cases "xs = []")
  case True
  with repr circ_repr_head [OF repr] show ?thesis by (simp add: circ_removeAll_def prev_of_def)
next
  case False
  have "cNext s (ring_at [] xs) = Some (hd xs)"
    using circ_repr_at [of s "[]" "hd xs" "tl xs"] repr False by simp
  with circ_removeAll_loop_repr [of s "[]" xs c] circ_head_at [OF repr False] repr False
  show ?thesis by (simp add: circ_removeAll_def)
qed

text \<open>A concrete ring of three nodes.\<close>

definition circ_123 :: "nat clist" where
  "circ_123 = \<lparr>cNext = (\<lambda>n. if n = 1 then Some 2 else if n = 2 then Some 3 else Some 1),
     cHead = Some 3\<rparr>"

lemma circ_123_repr: "circ_repr circ_123 [1, 2, 3]"
  by (simp add: circ_repr_def circ_123_def prev_of_def)

lemma circ_removeAll_filters_witness:
  "\<exists>s'. circ_removeAll odd circ_123 = Some s' \<and> circ_repr s' [2]"
  using circ_removeAll_filters [OF circ_123_repr, of odd] by simp

text \<open>
  The version with a callback passes the wrong node when the last one is removed: here the
  condition holds of node 3 only, and the callback (which records what it gets) sees node 2, which
  stays in the list. If the list becomes empty, it is called through the null pointer.
\<close>

lemma circ_removeAllPost_wrong_node:
  "map_option snd (circ_removeAllPost (\<lambda>n. n = 3) (\<lambda>n (s, e). Some (s, e @ [n])) (circ_123, [])) =
     Some [2]"
  by (simp add: circ_removeAllPost_def circ_123_def circ_removeAllPost_loop.simps circ_drop_def)

lemma circ_removeAllPost_null:
  "circ_removeAllPost (\<lambda>_. True) post (\<lparr>cNext = (\<lambda>_. Some 1), cHead = Some (1 :: nat)\<rparr>, e) = None"
  by (simp add: circ_removeAllPost_def circ_removeAllPost_loop.simps circ_drop_def)

text \<open>\<open>insert\<close> never compares the new node with the first one and the list loses its order.\<close>

lemma circ_insert_new_minimum:
  "circ_insert (<) (0 :: nat) \<lparr>cNext = (\<lambda>_. Some 5), cHead = Some 5\<rparr> \<bind>
     (\<lambda>s. circ_iterate s (circ_begin s)) = Some [5, 0]"
  by (simp add: circ_insert_def circ_insert_loop.simps circ_iterate.simps circ_begin_def
      circ_iter_next_def circ_iter_eq_def circ_end_def)

subsection \<open>The contract\<close>

interpretation cl: node_sequence circ_repr "\<lambda>n s. Some (circ_append n s)"
    "\<lambda>n s. Some (circ_prepend n s)" circ_removeNode circ_removeFirst
    "\<lambda>s. circ_iterate s (circ_begin s)"
proof unfold_locales
  fix s :: "'n clist" and xs n
  assume repr: "circ_repr s xs"
  show "n \<notin> set xs \<Longrightarrow> \<exists>s'. Some (circ_append n s) = Some s' \<and> circ_repr s' (xs @ [n])"
    using circ_append_repr [OF repr] by simp
  show "n \<notin> set xs \<Longrightarrow> \<exists>s'. Some (circ_prepend n s) = Some s' \<and> circ_repr s' (n # xs)"
    using circ_prepend_repr [OF repr] by simp
  show "\<exists>s'. circ_removeNode n s = Some (s', n \<in> set xs) \<and> circ_repr s' (remove1 n xs)"
    by (rule circ_removeNode_repr [OF repr])
  show "\<exists>s'. circ_removeFirst s = Some s' \<and> circ_repr s' (tl xs)"
    by (rule circ_removeFirst_repr [OF repr])
  show "circ_iterate s (circ_begin s) = Some xs" by (rule circ_iterate_repr [OF repr])
qed

definition circ_step :: "'n seq_call \<Rightarrow> 'n clist \<Rightarrow> ('n clist \<times> 'n seq_answer) option" where
  "circ_step = seq_step (\<lambda>n s. Some (circ_append n s)) (\<lambda>n s. Some (circ_prepend n s)) circ_removeNode
     circ_removeFirst (\<lambda>s. circ_iterate s (circ_begin s))"

lemmas circ_calls_refine = cl.calls_refine [folded circ_step_def]

text \<open>
  C39. The two linked lists are interchangeable: for every sequence of calls (append, prepend,
  removeNode, removeFirst, a complete iteration) that never links a node twice, both return, give
  the same answers, and these are the answers of a plain sequence of nodes.\<close>

theorem lists_agree:
  assumes "calls_run seq_spec cs [] = Some (xs, rs)"
  shows "\<exists>s c. calls_run list_step cs (list_new nxt) = Some (s, rs) \<and> list_repr s xs \<and>
    calls_run circ_step cs (circ_new nxt) = Some (c, rs) \<and> circ_repr c xs"
  using list_calls_refine [OF list_new_repr assms] circ_calls_refine [OF circ_new_repr assms]
  by blast

definition sample_calls :: "nat seq_call list" where
  "sample_calls = [AppendNode 1, PrependNode 2, RemoveNode 1, Visit]"

lemma lists_agree_witness:
  "\<exists>s c. calls_run list_step sample_calls (list_new (\<lambda>_. None)) =
      Some (s, [Done, Done, Found True, Visited [2]]) \<and> list_repr s [2] \<and>
    calls_run circ_step sample_calls (circ_new (\<lambda>_. None)) =
      Some (c, [Done, Done, Found True, Visited [2]]) \<and> circ_repr c [2]"
  by (rule lists_agree) (simp add: sample_calls_def)

end
