(* ===== verification/Ordered_Map.thy ===== *)
theory Ordered_Map
  imports Prelude
begin

text \<open>
  \<open>outpost::FixedOrderedMap\<close> (fixed_ordered_map.h, fixed_ordered_map_impl.h): lookup by binary
  search in an array of entries that is sorted by its keys. An entry is a pair of its key and the
  rest; the \<open>int\<close> variables of the search are integers, and the conversion of the size to
  \<open>int\<close> keeps its low 32 bits as a signed value. A returned pointer is an index.
\<close>

type_synonym ('k, 'v) entries = "('k \<times> 'v) list"

definition omap_getNumberOfElements :: "('k, 'v) entries \<Rightarrow> size_t" where
  "omap_getNumberOfElements es = length es"

definition int_of_size :: "size_t \<Rightarrow> int" where
  "int_of_size n = signed_take_bit 31 (int n)"

text \<open>An access with an \<open>int\<close> index.\<close>

definition aread_int :: "'a list \<Rightarrow> int \<Rightarrow> 'a option" where
  "aread_int m i = (if 0 \<le> i then aread m (nat i) else None)"

function omap_search :: "('k :: linorder, 'v) entries \<Rightarrow> 'k \<Rightarrow> int \<Rightarrow> int \<Rightarrow> nat option option" where
  "omap_search es key imin imax =
     (if imax \<ge> imin then
        let mid = imin + (imax - imin) div 2 in
        case aread_int es mid of
          None \<Rightarrow> None
        | Some e \<Rightarrow>
            if fst e = key then Some (Some (nat mid))
            else if fst e < key then omap_search es key (mid + 1) imax
            else omap_search es key imin (mid - 1)
      else Some None)"
  by pat_completeness auto

termination
  by (relation "measure (\<lambda>(es, key, imin, imax). nat (imax - imin + 1))") auto

declare omap_search.simps [simp del]

definition omap_getEntry :: "('k :: linorder) \<Rightarrow> ('k, 'v) entries \<Rightarrow> nat option option" where
  "omap_getEntry key es = omap_search es key 0 (int_of_size (length es) - 1)"

lemma int_of_size_exact: "n < 2 ^ 31 \<Longrightarrow> int_of_size n = int n"
  by (simp add: int_of_size_def signed_take_bit_int_eq_self)

text \<open>
  What the search keeps: the key is not to the left of \<open>imin\<close> and not to the right of \<open>imax\<close>.
\<close>

definition key_within :: "('k :: linorder, 'v) entries \<Rightarrow> 'k \<Rightarrow> int \<Rightarrow> int \<Rightarrow> bool" where
  "key_within es key imin imax \<longleftrightarrow> 0 \<le> imin \<and> imax < int (length es) \<and>
     (\<forall>i<length es. fst (es ! i) = key \<longrightarrow> imin \<le> int i \<and> int i \<le> imax)"

lemma key_within_step:
  assumes sorted: "sorted (map fst es)" and w: "key_within es key imin imax"
    and mid: "imin \<le> mid" "mid \<le> imax"
  shows "fst (es ! nat mid) < key \<Longrightarrow> key_within es key (mid + 1) imax"
    and "key < fst (es ! nat mid) \<Longrightarrow> key_within es key imin (mid - 1)"
proof -
  have len: "nat mid < length es" "0 \<le> mid" using w mid by (auto simp: key_within_def)
  have le: "fst (es ! i) \<le> fst (es ! j)" if "i \<le> j" "j < length es" for i j
    using sorted_nth_mono [OF sorted, of i j] that by simp
  have right: "mid + 1 \<le> int i" if "fst (es ! nat mid) < key" "i < length es" "fst (es ! i) = key" for i
    using le [of i "nat mid"] that len by (cases "i \<le> nat mid") auto
  have left: "int i \<le> mid - 1" if "key < fst (es ! nat mid)" "i < length es" "fst (es ! i) = key" for i
    using le [of "nat mid" i] that len by (cases "nat mid \<le> i") auto
  show "fst (es ! nat mid) < key \<Longrightarrow> key_within es key (mid + 1) imax"
    using w right mid by (auto simp: key_within_def)
  show "key < fst (es ! nat mid) \<Longrightarrow> key_within es key imin (mid - 1)"
    using w left mid by (auto simp: key_within_def)
qed

lemma omap_search_correct:
  assumes "sorted (map fst es)" and "key_within es key imin imax"
  shows "\<exists>r. omap_search es key imin imax = Some r \<and>
    (case r of None \<Rightarrow> key \<notin> fst ` set es | Some i \<Rightarrow> i < length es \<and> fst (es ! i) = key)"
  using assms
proof (induction es key imin imax rule: omap_search.induct)
  case (1 es key imin imax)
  show ?case
  proof (cases "imin \<le> imax")
    case False
    with "1.prems"(2) have "key \<notin> fst ` set es"
      by (fastforce simp: key_within_def in_set_conv_nth)
    with False show ?thesis by (simp add: omap_search.simps)
  next
    case True
    define mid where "mid = imin + (imax - imin) div 2"
    have mid: "imin \<le> mid" "mid \<le> imax" using True by (simp_all add: mid_def)
    then have len: "nat mid < length es" "0 \<le> mid"
      using "1.prems"(2) by (auto simp: key_within_def)
    then have rd: "aread_int es mid = Some (es ! nat mid)" by (simp add: aread_int_def aread_def)
    note eq = omap_search.simps [of es key imin imax, folded mid_def]
    note step = key_within_step [OF "1.prems" mid]
    consider "fst (es ! nat mid) = key" | "fst (es ! nat mid) < key" | "key < fst (es ! nat mid)"
      by fastforce
    then show ?thesis
    proof cases
      case 1
      with True rd len show ?thesis by (simp add: eq Let_def)
    next
      case 2
      from "1.IH"(1) [OF True mid_def rd less_imp_neq [OF 2] 2 "1.prems"(1) step(1) [OF 2]] 2
        less_imp_neq [OF 2] True rd
      show ?thesis by (simp add: eq Let_def)
    next
      case 3
      from "1.IH"(2) [OF True mid_def rd less_imp_neq [OF 3, symmetric] less_not_sym [OF 3] "1.prems"(1) step(2) [OF 3]] 3
        less_imp_neq [OF 3] less_not_sym [OF 3] True rd
      show ?thesis by (simp add: eq Let_def)
    qed
  qed
qed

text \<open>
  Note. On an array that is sorted by its keys (and has fewer than \<open>2 ^ 31\<close> entries) \<open>getEntry\<close>
  returns and reads only inside of the array; it finds an entry with the key exactly when there is
  one.\<close>

theorem omap_getEntry_finds:
  assumes "sorted (map fst es)" and "length es < 2 ^ 31"
  shows "\<exists>r. omap_getEntry key es = Some r \<and>
    (case r of None \<Rightarrow> key \<notin> fst ` set es | Some i \<Rightarrow> i < length es \<and> fst (es ! i) = key)"
  using omap_search_correct [of es key 0 "int (length es) - 1"] assms
  by (simp add: omap_getEntry_def int_of_size_exact key_within_def)

definition three_entries :: "(nat \<times> string) list" where
  "three_entries = [(1, ''a''), (4, ''b''), (7, ''c'')]"

lemma omap_getEntry_finds_witness:
  "\<exists>r. omap_getEntry 4 three_entries = Some r \<and> (case r of None \<Rightarrow> 4 \<notin> fst ` set three_entries
     | Some i \<Rightarrow> i < length three_entries \<and> fst (three_entries ! i) = 4)"
  by (rule omap_getEntry_finds) (simp_all add: three_entries_def)

lemma omap_getEntry_map_of:
  assumes "sorted (map fst es)" and "distinct (map fst es)" and "length es < 2 ^ 31"
  shows "map_option (map_option (\<lambda>i. snd (es ! i))) (omap_getEntry key es) = Some (map_of es key)"
proof -
  obtain r where r: "omap_getEntry key es = Some r"
    "case r of None \<Rightarrow> key \<notin> fst ` set es | Some i \<Rightarrow> i < length es \<and> fst (es ! i) = key"
    using omap_getEntry_finds [OF assms(1,3)] by blast
  show ?thesis
  proof (cases r)
    case None
    with r(2) have "map_of es key = None" by (simp add: map_of_eq_None_iff)
    with None r(1) show ?thesis by simp
  next
    case (Some i)
    with r(2) have i: "i < length es" "fst (es ! i) = key" by simp_all
    then have "(key, snd (es ! i)) \<in> set es" using nth_mem [OF i(1)] by (cases "es ! i") simp
    with assms(2) have "map_of es key = Some (snd (es ! i))" by simp
    with Some r(1) show ?thesis by simp
  qed
qed

end
