(* ===== verification/Cobs.thy ===== *)
theory Cobs
  imports Prelude
begin

text \<open>
  \<open>CobsBase\<close> and \<open>CobsEncodingGeneratorBase\<close> (utils/coding/cobs.h, cobs_impl.h): consistent
  overhead byte stuffing. The template parameter \<open>blockLength\<close> is an argument; the code's own
  instance is 254. \<open>cobs_ref\<close> is what a COBS text means; the theorems relate the encoder, the
  decoder (on a memory, also in place) and the byte-wise generator to it.
\<close>

subsection \<open>Encoder\<close>

text \<open>
  The loop of \<open>encode\<close> and the assignment behind it. \<open>bp\<close> is \<open>blockLengthPtr - output\<close>, and
  \<open>outputPtr - output\<close> is \<open>len\<close> throughout.
\<close>

fun cobs_encode_loop ::
    "u8 \<Rightarrow> u8 list \<Rightarrow> u8 list \<Rightarrow> nat \<Rightarrow> size_t \<Rightarrow> u8 \<Rightarrow> (u8 list \<times> size_t) option" where
  "cobs_encode_loop blockLength [] out bp len currentBlockLength = do {
     out \<leftarrow> awrite out bp (currentBlockLength + 1); Some (out, len) }"
| "cobs_encode_loop blockLength (x # xs) out bp len currentBlockLength =
     (if len < length out then
        if x = 0 then do {
          out \<leftarrow> awrite out bp (currentBlockLength + 1);
          cobs_encode_loop blockLength xs out len (len + 1) 0 }
        else do {
          out \<leftarrow> awrite out len x;
          let len = len + 1; currentBlockLength = currentBlockLength + 1 in
          if currentBlockLength = blockLength \<and> len < length out then do {
            out \<leftarrow> awrite out bp (currentBlockLength + 1);
            cobs_encode_loop blockLength xs out len (len + 1) 0 }
          else cobs_encode_loop blockLength xs out bp len currentBlockLength }
      else do {
        out \<leftarrow> awrite out bp (currentBlockLength + 1); Some (out, len) })"

definition cobs_encode :: "u8 \<Rightarrow> u8 list \<Rightarrow> u8 list \<Rightarrow> (u8 list \<times> size_t) option" where
  "cobs_encode blockLength input out = cobs_encode_loop blockLength input out 0 1 0"

definition cobs_getMaximumSizeOfEncodedData :: "u8 \<Rightarrow> size_t \<Rightarrow> size_t" where
  "cobs_getMaximumSizeOfEncodedData blockLength inputLength =
     (if inputLength = 0 then 1
      else szadd inputLength (szadd ((inputLength - 1) div unat blockLength) 1))"

subsection \<open>Decoder\<close>

text \<open>
  The decoder reads the bytes \<open>inputPtr\<close> to \<open>inputEnd\<close> of a memory and writes to the same
  memory from \<open>output\<close> on; the two ranges may overlap. A block that is longer than the rest of the
  input is copied all the same: \<open>None\<close> only when that leaves the memory.
\<close>

function cobs_decode_loop ::
    "u8 \<Rightarrow> nat \<Rightarrow> u8 list \<Rightarrow> nat \<Rightarrow> nat \<Rightarrow> size_t \<Rightarrow> (u8 list \<times> size_t) option" where
  "cobs_decode_loop blockLength inputEnd mem inputPtr output outputPosition =
     (if inputPtr < inputEnd then do {
        data \<leftarrow> aread mem inputPtr;
        let inputPtr = inputPtr + 1 in
        if data = 0 then cobs_decode_loop blockLength inputEnd mem (max inputEnd inputPtr) output 0
        else
          let currentBlockLength = data - 1; n = unat currentBlockLength in
          if inputPtr + n \<le> length mem then do {
            mem \<leftarrow> acopy mem (output + outputPosition) (take n (drop inputPtr mem));
            let outputPosition = outputPosition + n; inputPtr = inputPtr + n in
            if currentBlockLength < blockLength \<and> inputPtr < inputEnd then do {
              mem \<leftarrow> awrite mem (output + outputPosition) 0;
              cobs_decode_loop blockLength inputEnd mem inputPtr output (outputPosition + 1) }
            else cobs_decode_loop blockLength inputEnd mem inputPtr output outputPosition }
          else None }
      else Some (mem, outputPosition))"
  by pat_completeness auto

termination
  by (relation "measure (\<lambda>(b, inputEnd, m, inputPtr, out, p). inputEnd - inputPtr)") auto

declare cobs_decode_loop.simps [simp del]

definition cobs_decode :: "u8 \<Rightarrow> u8 list \<Rightarrow> nat \<Rightarrow> size_t \<Rightarrow> nat \<Rightarrow> (u8 list \<times> size_t) option" where
  "cobs_decode blockLength mem input n output =
     cobs_decode_loop blockLength (input + n) mem input output 0"

subsection \<open>Generator\<close>

record cobs_generator =
  gData :: "u8 list option"
  gLength :: size_t
  gCurrentPosition :: size_t
  gNextBlock :: u8
  gZeroElementSkip :: bool

definition cobs_generator_new :: "u8 list option \<Rightarrow> cobs_generator" where
  "cobs_generator_new input = \<lparr>gData = input,
     gLength = (case input of None \<Rightarrow> 0 | Some d \<Rightarrow> length d),
     gCurrentPosition = 0, gNextBlock = 0, gZeroElementSkip = False\<rparr>"

definition cobs_isFinished :: "cobs_generator \<Rightarrow> bool" where
  "cobs_isFinished g \<longleftrightarrow> gCurrentPosition g = gLength g"

function cobs_findNextBlock_loop :: "u8 \<Rightarrow> u8 list \<Rightarrow> size_t \<Rightarrow> size_t \<Rightarrow> u8 \<Rightarrow> u8 option" where
  "cobs_findNextBlock_loop blockLength d len position blockSize =
     (if position < len then do {
        x \<leftarrow> aread d position;
        if x \<noteq> 0 \<and> blockSize < blockLength
        then cobs_findNextBlock_loop blockLength d len (position + 1) (blockSize + 1)
        else Some blockSize }
      else Some blockSize)"
  by pat_completeness auto

termination
  by (relation "measure (\<lambda>(b, d, len, position, n). len - position)") auto

declare cobs_findNextBlock_loop.simps [simp del]

definition cobs_findNextBlock :: "u8 \<Rightarrow> cobs_generator \<Rightarrow> u8 option" where
  "cobs_findNextBlock blockLength g =
     (case gData g of None \<Rightarrow> Some 0
      | Some d \<Rightarrow> cobs_findNextBlock_loop blockLength d (gLength g) (gCurrentPosition g) 0)"

definition cobs_getNextByte :: "u8 \<Rightarrow> cobs_generator \<Rightarrow> (cobs_generator \<times> u8) option" where
  "cobs_getNextByte blockLength g =
     (if gNextBlock g = 0 then
        let g = (if gZeroElementSkip g then g\<lparr>gCurrentPosition := gCurrentPosition g + 1\<rparr>
                 else g\<lparr>gZeroElementSkip := True\<rparr>)
        in do {
          n \<leftarrow> cobs_findNextBlock blockLength g;
          let g = g\<lparr>gNextBlock := n\<rparr>;
              g = (if n = blockLength then g\<lparr>gZeroElementSkip := False\<rparr> else g)
          in Some (g, n + 1) }
      else do {
        d \<leftarrow> gData g;
        value \<leftarrow> aread d (gCurrentPosition g);
        Some (g\<lparr>gCurrentPosition := gCurrentPosition g + 1, gNextBlock := gNextBlock g - 1\<rparr>, value) })"

text \<open>The loop of a user: take bytes until \<open>isFinished\<close>. The first argument bounds the calls.\<close>

fun cobs_drain :: "nat \<Rightarrow> u8 \<Rightarrow> cobs_generator \<Rightarrow> u8 list option" where
  "cobs_drain fuel blockLength g =
     (if cobs_isFinished g then Some []
      else case fuel of 0 \<Rightarrow> None
      | Suc fuel \<Rightarrow> do {
          (g', x) \<leftarrow> cobs_getNextByte blockLength g;
          xs \<leftarrow> cobs_drain fuel blockLength g';
          Some (x # xs) })"

declare cobs_drain.simps [simp del]

subsection \<open>What a COBS text means\<close>

text \<open>
  A text is a sequence of blocks, each a length byte \<open>n + 1\<close> and \<open>n\<close> bytes. A block shorter than
  \<open>b\<close> that is not the last one stands for its bytes and a zero.
\<close>

function cobs_ref :: "nat \<Rightarrow> u8 list \<Rightarrow> u8 list option" where
  "cobs_ref b [] = Some []"
| "cobs_ref b (c # cs) =
     (let n = unat c - 1 in
      if c = 0 \<or> length cs < n then None
      else if length cs = n then Some cs
      else map_option (\<lambda>d. take n cs @ (if n < b then 0 # d else d)) (cobs_ref b (drop n cs)))"
  by pat_completeness auto

termination
  by (relation "measure (\<lambda>(b, cs). length cs)") auto

declare cobs_ref.simps(2) [simp del]

lemma cobs_ref_last: "unat c = Suc (length xs) \<Longrightarrow> cobs_ref b (c # xs) = Some xs"
  by (auto simp: cobs_ref.simps(2) Let_def)

lemma cobs_ref_block:
  assumes "unat c = Suc (length xs)" and "rest \<noteq> []"
  shows "cobs_ref b (c # xs @ rest) =
    map_option (\<lambda>d. xs @ (if length xs < b then 0 # d else d)) (cobs_ref b rest)"
  using assms by (auto simp: cobs_ref.simps(2) Let_def)

text \<open>Complete blocks \<open>cs\<close> in front of others, standing for \<open>data\<close>.\<close>

definition cobs_blocks :: "nat \<Rightarrow> u8 list \<Rightarrow> u8 list \<Rightarrow> bool" where
  "cobs_blocks b cs data \<longleftrightarrow>
     (\<forall>rest. rest \<noteq> [] \<longrightarrow> cobs_ref b (cs @ rest) = map_option ((@) data) (cobs_ref b rest))"

lemma cobs_blocks_Nil: "cobs_blocks b [] []"
  by (simp add: cobs_blocks_def option.map_ident_strong)

lemma cobs_blocks_snoc:
  assumes "cobs_blocks b cs data" and "unat c = Suc (length xs)"
  shows "cobs_blocks b (cs @ c # xs) (data @ xs @ (if length xs < b then [0] else []))"
  using assms
  by (auto simp: cobs_blocks_def cobs_ref_block option.map_comp o_def intro!: option.map_cong0)

lemma cobs_blocks_last:
  assumes "cobs_blocks b cs data" and "unat c = Suc (length xs)"
  shows "cobs_ref b (cs @ c # xs) = Some (data @ xs)"
  using assms by (simp add: cobs_blocks_def cobs_ref_last)

subsection \<open>The encoder is right\<close>

text \<open>
  Before every pass the output holds complete blocks \<open>cs\<close>, the place \<open>bp\<close> of the open block's
  length and the bytes \<open>cur\<close> of the open block.
\<close>

definition cobs_open ::
    "u8 list \<Rightarrow> nat \<Rightarrow> size_t \<Rightarrow> u8 \<Rightarrow> u8 list \<Rightarrow> u8 list \<Rightarrow> bool" where
  "cobs_open out bp len cbl cs cur \<longleftrightarrow> bp = length cs \<and> len = Suc (length cs + length cur) \<and>
     len \<le> length out \<and> unat cbl = length cur \<and> length cur \<le> 254 \<and>
     (\<exists>h. take len out = cs @ h # cur) \<and> 0 \<notin> set cs \<and> 0 \<notin> set cur"

lemma cobs_open_len: "cobs_open out bp len cbl cs cur \<Longrightarrow> len \<le> length out"
  by (simp add: cobs_open_def)

lemma unat_plus_1: "unat (c :: u8) \<le> 254 \<Longrightarrow> unat (c + 1) = Suc (unat c)"
  by (simp add: unat_word_ariths)

lemma cobs_open_close:
  assumes "cobs_open out bp len cbl cs cur"
  obtains out' where "awrite out bp (cbl + 1) = Some out'" and "length out' = length out"
    and "take len out' = cs @ (cbl + 1) # cur" and "unat (cbl + 1) = Suc (length cur)"
    and "0 \<notin> set (cs @ (cbl + 1) # cur)"
proof -
  obtain h where h: "take len out = cs @ h # cur" using assms by (auto simp: cobs_open_def)
  have bp: "bp = length cs" "bp < length out" "bp < len" using assms by (auto simp: cobs_open_def)
  have "take len (out[bp := cbl + 1]) = (take len out)[bp := cbl + 1]" by (simp add: take_update_swap)
  also have "\<dots> = cs @ (cbl + 1) # cur" using h bp by (simp add: list_update_append)
  finally have t: "take len (out[bp := cbl + 1]) = cs @ (cbl + 1) # cur" .
  have u: "unat (cbl + 1) = Suc (length cur)"
    using assms unat_plus_1 [of cbl] by (simp add: cobs_open_def)
  then have "cbl + 1 \<noteq> 0" by (metis nat.distinct(1) unat_0)
  with assms have "0 \<notin> set (cs @ (cbl + 1) # cur)" by (auto simp: cobs_open_def)
  with t u bp show ?thesis by (intro that) (simp_all add: awrite_Some)
qed

lemma cobs_open_put:
  assumes op: "cobs_open out bp len cbl cs cur" and room: "len < length out"
    and x: "x \<noteq> 0" and n: "length cur < 254"
  shows "\<exists>out'. awrite out len x = Some out' \<and> length out' = length out \<and>
    cobs_open out' bp (len + 1) (cbl + 1) cs (cur @ [x])"
proof -
  have "take (len + 1) (out[len := x]) = take len out @ [x]"
    using room by (simp add: take_Suc_conv_app_nth)
  with op room x n unat_plus_1 [of cbl] show ?thesis
    by (auto simp: cobs_open_def awrite_def)
qed

lemma cobs_open_next:
  assumes op: "cobs_open out bp len cbl cs cur" and room: "len < length out"
  obtains out' where "awrite out bp (cbl + 1) = Some out'" and "length out' = length out"
    and "cobs_open out' len (len + 1) 0 (cs @ (cbl + 1) # cur) []"
    and "unat (cbl + 1) = Suc (length cur)"
proof -
  obtain out' where o': "awrite out bp (cbl + 1) = Some out'" "length out' = length out"
    "take len out' = cs @ (cbl + 1) # cur" "unat (cbl + 1) = Suc (length cur)"
    "0 \<notin> set (cs @ (cbl + 1) # cur)" by (rule cobs_open_close [OF op])
  have "take (len + 1) out' = take len out' @ [out' ! len]"
    using room o'(2) by (simp add: take_Suc_conv_app_nth)
  with op room o' have "cobs_open out' len (len + 1) 0 (cs @ (cbl + 1) # cur) []"
    by (auto simp: cobs_open_def)
  with o' show ?thesis by (intro that)
qed

text \<open>What is still needed of the output when \<open>r\<close> bytes are left and the open block has \<open>k\<close>.\<close>

definition cobs_need :: "nat \<Rightarrow> nat \<Rightarrow> nat \<Rightarrow> nat" where
  "cobs_need b k r = (if r = 0 then 0 else r + (k + r - 1) div b)"

lemma cobs_need_zero: "cobs_need b 0 r + 1 \<le> cobs_need b k (Suc r)"
  by (auto simp: cobs_need_def div_le_mono)

lemma cobs_need_step: "cobs_need b (Suc k) r + 1 \<le> cobs_need b k (Suc r)"
  by (auto simp: cobs_need_def)

lemma cobs_need_full:
  assumes "0 < b" and "Suc k = b" and "0 < r"
  shows "cobs_need b 0 r + 2 \<le> cobs_need b k (Suc r)"
proof -
  have "k + Suc r - 1 = b + (r - 1)" using assms by simp
  moreover have "(b + (r - 1)) div b = Suc ((r - 1) div b)" using assms(1) by (simp add: div_add_self1)
  ultimately have "(k + Suc r - 1) div b = Suc ((r - 1) div b)" by simp
  with assms(3) show ?thesis by (simp add: cobs_need_def)
qed

lemma cobs_encode_finish:
  assumes op: "cobs_open out bp len cbl cs cur" and blk: "cobs_blocks b cs data"
  shows "\<exists>out'. awrite out bp (cbl + 1) = Some out' \<and> length out' = length out \<and>
    0 \<notin> set (take len out') \<and> cobs_ref b (take len out') = Some (data @ cur)"
  using cobs_open_close [OF op] cobs_blocks_last [OF blk, of "cbl + 1" cur] by metis

lemma cobs_encode_loop_correct:
  assumes b: "1 \<le> unat B" "unat B \<le> 254"
    and "cobs_open out bp len cbl cs cur" and "cobs_blocks (unat B) cs data"
    and "length cur < unat B \<or> len = length out"
  shows "\<exists>out' len' k. cobs_encode_loop B xs out bp len cbl = Some (out', len') \<and>
    length out' = length out \<and> len' \<le> length out \<and> 0 \<notin> set (take len' out') \<and>
    cobs_ref (unat B) (take len' out') = Some (data @ cur @ take k xs) \<and>
    (len + cobs_need (unat B) (length cur) (length xs) \<le> length out \<longrightarrow> k = length xs)"
  using assms(3-)
proof (induction xs arbitrary: out bp len cbl cs cur data)
  case Nil
  from cobs_encode_finish [OF Nil(1,2)] cobs_open_len [OF Nil(1)] show ?case by fastforce
next
  case (Cons x xs)
  note op = Cons.prems(1) and blk = Cons.prems(2)
  let ?b = "unat B"
  show ?case
  proof (cases "len < length out")
    case False
    have "0 < cobs_need ?b (length cur) (length (x # xs))" by (simp add: cobs_need_def)
    with False cobs_encode_finish [OF op blk] cobs_open_len [OF op] show ?thesis
      by (fastforce intro: exI [of _ 0])
  next
    case room: True
    with Cons.prems(3) have n: "length cur < ?b" by simp
    show ?thesis
    proof (cases "x = 0")
      case True
      obtain out1 where o1: "awrite out bp (cbl + 1) = Some out1" "length out1 = length out"
        "cobs_open out1 len (len + 1) 0 (cs @ (cbl + 1) # cur) []" "unat (cbl + 1) = Suc (length cur)"
        by (rule cobs_open_next [OF op room])
      have blk1: "cobs_blocks ?b (cs @ (cbl + 1) # cur) (data @ cur @ [0])"
        using cobs_blocks_snoc [OF blk o1(4)] n by simp
      obtain out' len' k where "cobs_encode_loop B xs out1 len (len + 1) 0 = Some (out', len')"
        "length out' = length out1" "len' \<le> length out1" "0 \<notin> set (take len' out')"
        "cobs_ref ?b (take len' out') = Some ((data @ cur @ [0]) @ [] @ take k xs)"
        "len + 1 + cobs_need ?b 0 (length xs) \<le> length out1 \<longrightarrow> k = length xs"
        using Cons.IH [OF o1(3) blk1] b by auto
      with True room o1 cobs_need_zero [of ?b "length xs" "length cur"] show ?thesis
        by (intro exI [of _ out'] exI [of _ len'] exI [of _ "Suc k"]) auto
    next
      case False
      from cobs_open_put [OF op room False] n b obtain out1 where
        o1: "awrite out len x = Some out1" "length out1 = length out"
          "cobs_open out1 bp (len + 1) (cbl + 1) cs (cur @ [x])" by auto
      have full: "cbl + 1 = B \<longleftrightarrow> Suc (length cur) = ?b"
        using o1(3) by (auto simp: cobs_open_def word_unat_eq_iff)
      show ?thesis
      proof (cases "cbl + 1 = B \<and> len + 1 < length out")
        case True
        obtain out2 where o2: "awrite out1 bp (cbl + 1 + 1) = Some out2" "length out2 = length out1"
          "cobs_open out2 (len + 1) (len + 2) 0 (cs @ (cbl + 1 + 1) # cur @ [x]) []"
          "unat (cbl + 1 + 1) = Suc (length (cur @ [x]))"
          using cobs_open_next [OF o1(3)] True o1(2) by (metis add_2_eq_Suc' add_Suc_right Suc_eq_plus1)
        have blk2: "cobs_blocks ?b (cs @ (cbl + 1 + 1) # cur @ [x]) (data @ cur @ [x])"
          using cobs_blocks_snoc [OF blk o2(4)] True full by simp
        obtain out' len' k where r: "cobs_encode_loop B xs out2 (len + 1) (len + 2) 0 = Some (out', len')"
          "length out' = length out2" "len' \<le> length out2" "0 \<notin> set (take len' out')"
          "cobs_ref ?b (take len' out') = Some ((data @ cur @ [x]) @ [] @ take k xs)"
          "len + 2 + cobs_need ?b 0 (length xs) \<le> length out2 \<longrightarrow> k = length xs"
          using Cons.IH [OF o2(3) blk2] b by auto
        have "cobs_need ?b 0 (length xs) + 2 \<le> cobs_need ?b (length cur) (length (x # xs))" if "xs \<noteq> []"
          using cobs_need_full [of ?b "length cur" "length xs"] that b True full by simp
        with r(6) o2(2) o1(2) True have
          "len + cobs_need ?b (length cur) (length (x # xs)) \<le> length out \<longrightarrow> k = length xs \<or> xs = []"
          by fastforce
        moreover have "take (min k (length xs)) xs = take k xs" by (simp add: min_def)
        ultimately show ?thesis using r o1 o2 True False room
          by (intro exI [of _ out'] exI [of _ len'] exI [of _ "Suc (min k (length xs))"])
            (auto simp: Let_def numeral_2_eq_2)
      next
        case no: False
        have "length (cur @ [x]) < ?b \<or> len + 1 = length out1"
          using no n full room o1(2) by auto
        from Cons.IH [OF o1(3) blk this] obtain out' len' k where
          r: "cobs_encode_loop B xs out1 bp (len + 1) (cbl + 1) = Some (out', len')"
          "length out' = length out1" "len' \<le> length out1" "0 \<notin> set (take len' out')"
          "cobs_ref ?b (take len' out') = Some (data @ (cur @ [x]) @ take k xs)"
          "len + 1 + cobs_need ?b (length (cur @ [x])) (length xs) \<le> length out1 \<longrightarrow> k = length xs"
          by blast
        with o1 no False room cobs_need_step [of ?b "length cur" "length xs"] show ?thesis
          by (intro exI [of _ out'] exI [of _ len'] exI [of _ "Suc k"]) (auto simp: Let_def)
      qed
    qed
  qed
qed

subsection \<open>The decoder is right\<close>

lemma cobs_decode_loop_correct:
  assumes B: "1 \<le> unat B" and "cobs_ref (unat B) (take (e - ip) (drop ip mem)) = Some d"
    and "ip \<le> e" and "e \<le> length mem" and "out + pos \<le> ip \<or> e \<le> out + pos"
    and "out + pos + length d \<le> length mem"
  shows "\<exists>mem'. cobs_decode_loop B e mem ip out pos = Some (mem', pos + length d) \<and>
    length mem' = length mem \<and> take (length d) (drop (out + pos) mem') = d \<and>
    (\<forall>i<length mem. i < out + pos \<or> out + pos + length d \<le> i \<longrightarrow> mem' ! i = mem ! i)"
  using assms(2-)
proof (induction "e - ip" arbitrary: ip mem d pos rule: less_induct)
  case less
  note len = less.prems(2,3) and apart = less.prems(4)
  show ?case
  proof (cases "ip < e")
    case False
    with less.prems have "d = []" by simp
    with False show ?thesis by (simp add: cobs_decode_loop.simps)
  next
    case True
    define c where "c = mem ! ip"
    define cs where "cs = take (e - (ip + 1)) (drop (ip + 1) mem)"
    define n where "n = unat c - 1"
    have rd: "aread mem ip = Some c" using True len by (simp add: aread_def c_def)
    have lcs: "length cs = e - (ip + 1)" using len by (simp add: cs_def)
    have code: "take (e - ip) (drop ip mem) = c # cs"
      using True len take_Suc_drop_nth [of ip mem "e - (ip + 1)"] by (simp add: c_def cs_def Suc_diff_Suc)
    have ref: "cobs_ref (unat B) (c # cs) = Some d" using less.prems(1) code by simp
    then have c0: "c \<noteq> 0" and n_le: "n \<le> length cs"
      by (auto simp: cobs_ref.simps(2) Let_def n_def split: if_splits)
    have un: "unat (c - 1) = n" using unat_minus_one [OF c0] by (simp add: n_def)
    have lt: "c - 1 < B \<longleftrightarrow> n < unat B" by (simp add: word_less_nat_alt un)
    have tk: "take n (drop (ip + 1) mem) = take n cs" using n_le lcs by (simp add: cs_def)
    have inb: "ip + 1 + n \<le> length mem" "ip + 1 + n \<le> e" using n_le lcs len True by simp_all
    show ?thesis
    proof (cases "length cs = n")
      case True
      then have d: "d = take n cs" using ref c0 by (simp add: cobs_ref.simps(2) Let_def n_def)
      obtain mem1 where m1: "acopy mem (out + pos) (take n cs) = Some mem1"
        using acopy_Some [of "out + pos" "take n cs" mem] less.prems(5) d by auto
      have "\<not> ip + 1 + n < e" using True lcs \<open>ip < e\<close> by simp
      then have "cobs_decode_loop B e mem ip out pos = Some (mem1, pos + n)"
        using \<open>ip < e\<close> rd c0 un tk inb m1
        by (subst cobs_decode_loop.simps) (simp add: Let_def cobs_decode_loop.simps [of B e mem1])
      with acopy_view [OF m1] length_acopy [OF m1] nth_acopy [OF m1] d True show ?thesis by auto
    next
      case False
      then obtain d' where d': "cobs_ref (unat B) (drop n cs) = Some d'"
        and d: "d = take n cs @ (if n < unat B then [0] else []) @ d'"
        using ref c0 n_le by (auto simp: cobs_ref.simps(2) Let_def n_def split: if_splits)
      define w where "w = take n cs @ (if n < unat B then [0] else [])"
      have dw: "d = w @ d'" using d by (simp add: w_def)
      have ltn: "ip + 1 + n < e" using False n_le lcs by simp
      obtain mem2 where m2: "acopy mem (out + pos) w = Some mem2"
        using acopy_Some [of "out + pos" w mem] less.prems(5) dw by auto
      have lm2: "length mem2 = length mem" by (rule length_acopy [OF m2])
      have step: "cobs_decode_loop B e mem ip out pos =
          cobs_decode_loop B e mem2 (ip + 1 + n) out (pos + length w)"
      proof (cases "n < unat B")
        case True
        obtain mem1 where m1: "acopy mem (out + pos) (take n cs) = Some mem1"
          using acopy_Some [of "out + pos" "take n cs" mem] less.prems(5) d by auto
        have lt0: "out + pos + length (take n cs) < length mem" using less.prems(5) d True by simp
        have "mem1 = take (out + pos) mem @ take n cs @ drop (out + pos + length (take n cs)) mem"
          using m1 by (simp only: acopy_eq_Some)
        then have "awrite mem1 (out + pos + length (take n cs)) 0 = acopy mem (out + pos) w"
          using acopy_snoc [OF lt0, of 0] True by (simp only: w_def if_True)
        moreover have "length (take n cs) = n" using n_le by simp
        ultimately have "awrite mem1 (out + pos + n) 0 = Some mem2" using m2 by (simp only:)
        with \<open>ip < e\<close> rd c0 un tk inb m1 ltn lt True n_le show ?thesis
          by (subst cobs_decode_loop.simps) (simp add: Let_def w_def add.assoc)
      next
        case False
        with \<open>ip < e\<close> rd c0 un tk inb m2 lt n_le show ?thesis
          by (subst cobs_decode_loop.simps) (simp add: Let_def w_def)
      qed
      have lw: "length w \<le> n + 1" "n \<le> length w" using n_le by (simp_all add: w_def)
      have keep: "take (e - (ip + 1 + n)) (drop (ip + 1 + n) mem2) = drop n cs"
      proof -
        have "take (e - (ip + 1 + n)) (drop (ip + 1 + n) mem2) =
            take (e - (ip + 1 + n)) (drop (ip + 1 + n) mem)"
          using nth_acopy [OF m2] lm2 apart lw by (intro take_drop_cong) auto
        then show ?thesis by (simp add: cs_def drop_take add.commute)
      qed
      have "\<exists>mem'. cobs_decode_loop B e mem2 (ip + 1 + n) out (pos + length w) =
          Some (mem', pos + length w + length d') \<and> length mem' = length mem2 \<and>
        take (length d') (drop (out + (pos + length w)) mem') = d' \<and>
        (\<forall>i<length mem2. i < out + (pos + length w) \<or> out + (pos + length w) + length d' \<le> i \<longrightarrow>
           mem' ! i = mem2 ! i)"
        using less.hyps [of "ip + 1 + n" mem2 d' "pos + length w"] \<open>ip < e\<close> keep d' ltn len lm2 apart lw
          less.prems(5) dw by auto
      then obtain mem' where m': "cobs_decode_loop B e mem2 (ip + 1 + n) out (pos + length w) =
          Some (mem', pos + length w + length d')" "length mem' = length mem2"
        "take (length d') (drop (out + pos + length w) mem') = d'"
        "\<And>i. i < length mem2 \<Longrightarrow> i < out + pos + length w \<or> out + pos + length w + length d' \<le> i \<Longrightarrow>
           mem' ! i = mem2 ! i" by (auto simp: add.assoc)
      have "take (length w) (drop (out + pos) mem') = take (length w) (drop (out + pos) mem2)"
        using m'(2,4) by (intro take_drop_cong) auto
      also have "\<dots> = w" by (rule acopy_view [OF m2])
      finally have "take (length d) (drop (out + pos) mem') = d"
        using take_drop_append [OF _ m'(3)] by (simp add: dw)
      moreover have "\<forall>i<length mem. i < out + pos \<or> out + pos + length d \<le> i \<longrightarrow> mem' ! i = mem ! i"
        using m'(4) nth_acopy [OF m2] lm2 by (simp add: dw)
      ultimately show ?thesis using step m' lm2 by (simp add: dw add.assoc)
    qed
  qed
qed

lemma cobs_decode_correct:
  assumes "1 \<le> unat B" and "cobs_ref (unat B) (take n (drop p mem)) = Some d"
    and "p + n \<le> length mem" and "out \<le> p \<or> p + n \<le> out" and "out + length d \<le> length mem"
  shows "\<exists>mem'. cobs_decode B mem p n out = Some (mem', length d) \<and> length mem' = length mem \<and>
    take (length d) (drop out mem') = d \<and>
    (\<forall>i<length mem. i < out \<or> out + length d \<le> i \<longrightarrow> mem' ! i = mem ! i)"
  using cobs_decode_loop_correct [OF assms(1), of "p + n" p mem d out 0] assms
  by (simp add: cobs_decode_def)

lemma cobs_maximum_size:
  assumes "2 * length input + 1 < 2 ^ size_bits"
  shows "cobs_getMaximumSizeOfEncodedData B (length input) = 1 + cobs_need (unat B) 0 (length input)"
proof -
  have "(length input - 1) div unat B \<le> length input"
    by (rule order_trans [OF div_le_dividend]) simp
  with assms have "length input + ((length input - 1) div unat B + 1) < 2 ^ size_bits" by linarith
  then show ?thesis
    by (simp add: cobs_getMaximumSizeOfEncodedData_def cobs_need_def szadd_exact)
qed

text \<open>
  C18. For every output buffer that is not empty, whatever its size, \<open>encode\<close> writes only inside of
  it and returns a length within it; the produced bytes contain no zero, and they are the encoding
  of a prefix of the input - of the whole input when the buffer has at least
  \<open>getMaximumSizeOfEncodedData\<close> bytes.\<close>

theorem cobs_encode_any_buffer:
  assumes "1 \<le> unat B" and "unat B \<le> 254" and "out \<noteq> []"
  shows "\<exists>out' len k. cobs_encode B input out = Some (out', len) \<and> length out' = length out \<and>
    len \<le> length out \<and> 0 \<notin> set (take len out') \<and>
    cobs_ref (unat B) (take len out') = Some (take k input) \<and>
    (2 * length input + 1 < 2 ^ size_bits \<and>
       cobs_getMaximumSizeOfEncodedData B (length input) \<le> length out \<longrightarrow> k = length input)"
proof -
  have "cobs_open out 0 1 0 [] []"
    using assms(3) by (cases out) (simp_all add: cobs_open_def)
  from cobs_encode_loop_correct [OF assms(1,2) this cobs_blocks_Nil, of input] assms(1)
  obtain out' len k where r: "cobs_encode B input out = Some (out', len)" "length out' = length out"
    "len \<le> length out" "0 \<notin> set (take len out')"
    "cobs_ref (unat B) (take len out') = Some (take k input)"
    "1 + cobs_need (unat B) 0 (length input) \<le> length out \<longrightarrow> k = length input"
    by (auto simp: cobs_encode_def)
  with cobs_maximum_size [of input B] show ?thesis by auto
qed

definition cobs_sample :: "u8 list" where
  "cobs_sample = [7, 0, 9]"

definition cobs_sample_buffer :: "u8 list" where
  "cobs_sample_buffer = [0, 0, 0, 0]"

lemma cobs_encode_any_buffer_witness:
  "\<exists>out' len k. cobs_encode 254 cobs_sample cobs_sample_buffer = Some (out', len) \<and>
    length out' = length cobs_sample_buffer \<and> len \<le> length cobs_sample_buffer \<and>
    0 \<notin> set (take len out') \<and>
    cobs_ref (unat (254 :: u8)) (take len out') = Some (take k cobs_sample) \<and>
    (2 * length cobs_sample + 1 < 2 ^ size_bits \<and>
       cobs_getMaximumSizeOfEncodedData 254 (length cobs_sample) \<le> length cobs_sample_buffer \<longrightarrow>
       k = length cobs_sample)"
  by (rule cobs_encode_any_buffer) (simp_all add: cobs_sample_buffer_def)

text \<open>
  C17. Encoding into a buffer of \<open>getMaximumSizeOfEncodedData\<close> bytes and decoding the result gives
  back the input, for every input: also when decoded in place (or to any lower address), and
  without touching anything but the decoded bytes.\<close>

theorem cobs_roundtrip:
  assumes "1 \<le> unat B" and "unat B \<le> 254" and "2 * length input + 1 < 2 ^ size_bits"
    and "cobs_getMaximumSizeOfEncodedData B (length input) \<le> length out" and "out \<noteq> []"
  shows "\<exists>out' len. cobs_encode B input out = Some (out', len) \<and>
    (\<forall>mem p q. take len (drop p mem) = take len out' \<longrightarrow> p + len \<le> length mem \<longrightarrow>
       q \<le> p \<or> p + len \<le> q \<longrightarrow> q + length input \<le> length mem \<longrightarrow>
       (\<exists>mem'. cobs_decode B mem p len q = Some (mem', length input) \<and>
          take (length input) (drop q mem') = input \<and>
          (\<forall>i<length mem. i < q \<or> q + length input \<le> i \<longrightarrow> mem' ! i = mem ! i)))"
proof -
  obtain out' len where e: "cobs_encode B input out = Some (out', len)"
    "cobs_ref (unat B) (take len out') = Some input"
    using cobs_encode_any_buffer [OF assms(1,2,5), of input] assms(3,4) by auto
  have dec: "\<exists>mem'. cobs_decode B mem p len q = Some (mem', length input) \<and>
      take (length input) (drop q mem') = input \<and>
      (\<forall>i<length mem. i < q \<or> q + length input \<le> i \<longrightarrow> mem' ! i = mem ! i)"
    if m: "take len (drop p mem) = take len out'" "p + len \<le> length mem" "q \<le> p \<or> p + len \<le> q"
      "q + length input \<le> length mem" for mem p q
  proof -
    have "cobs_ref (unat B) (take len (drop p mem)) = Some input" using e(2) m(1) by simp
    from cobs_decode_correct [OF assms(1) this m(2,3,4)] show ?thesis by blast
  qed
  from e(1) dec show ?thesis by blast
qed

lemma cobs_roundtrip_witness:
  "\<exists>out' len. cobs_encode 254 cobs_sample cobs_sample_buffer = Some (out', len) \<and>
    (\<forall>mem p q. take len (drop p mem) = take len out' \<longrightarrow> p + len \<le> length mem \<longrightarrow>
       q \<le> p \<or> p + len \<le> q \<longrightarrow> q + length cobs_sample \<le> length mem \<longrightarrow>
       (\<exists>mem'. cobs_decode 254 mem p len q = Some (mem', length cobs_sample) \<and>
          take (length cobs_sample) (drop q mem') = cobs_sample \<and>
          (\<forall>i<length mem. i < q \<or> q + length cobs_sample \<le> i \<longrightarrow> mem' ! i = mem ! i)))"
  by (rule cobs_roundtrip)
    (simp_all add: cobs_sample_def cobs_sample_buffer_def cobs_getMaximumSizeOfEncodedData_def
      szadd_def size_bits_def)

text \<open>
  The decoder trusts the length bytes: here the input is the single byte 5 at address 0, and four
  bytes behind it are copied and reported. An output buffer of no bytes is written to by
  \<open>encode\<close>.
\<close>

lemma cobs_decode_reads_past_input:
  "cobs_decode 254 [5, 11, 12, 13, 14, 0, 0, 0, 0] 0 1 5 = Some ([5, 11, 12, 13, 14, 11, 12, 13, 14], 4)"
  by code_simp

lemma cobs_encode_empty_buffer: "cobs_encode B input [] = None"
  by (cases input) (simp_all add: cobs_encode_def awrite_def)

subsection \<open>The generator is right\<close>

text \<open>The number of bytes of the next block, and the text the generator produces.\<close>

definition cobs_run :: "nat \<Rightarrow> u8 list \<Rightarrow> nat" where
  "cobs_run b xs = length (takeWhile (\<lambda>x. x \<noteq> 0) (take b xs))"

lemma cobs_run_le: "cobs_run b xs \<le> b" "cobs_run b xs \<le> length xs"
  using length_takeWhile_le [of "\<lambda>x. x \<noteq> 0" "take b xs"] by (simp_all add: cobs_run_def)

lemma cobs_run_Cons:
  "cobs_run b (x # xs) = (if x \<noteq> 0 \<and> 0 < b then Suc (cobs_run (b - 1) xs) else 0)"
  by (cases b) (simp_all add: cobs_run_def)

lemma take_cobs_run: "take (cobs_run b xs) xs = takeWhile (\<lambda>x. x \<noteq> 0) (take b xs)"
proof -
  have "take (cobs_run b xs) xs = take (cobs_run b xs) (take b xs)"
    using cobs_run_le(1) [of b xs] by (simp add: min.absorb1)
  also have "\<dots> = takeWhile (\<lambda>x. x \<noteq> 0) (take b xs)"
    by (simp only: cobs_run_def takeWhile_eq_take [symmetric])
  finally show ?thesis .
qed

lemma drop_cobs_run:
  assumes "cobs_run b xs < b" and "drop (cobs_run b xs) xs \<noteq> []"
  shows "hd (drop (cobs_run b xs) xs) = 0"
proof -
  have n: "cobs_run b xs < length (take b xs)" using assms by simp
  then have "take b xs ! cobs_run b xs = 0"
    unfolding cobs_run_def using nth_length_takeWhile [of "\<lambda>x. x \<noteq> 0" "take b xs"] by simp
  with n show ?thesis by (simp add: hd_drop_conv_nth)
qed

function cobs_text :: "nat \<Rightarrow> u8 list \<Rightarrow> u8 list" where
  "cobs_text b xs =
     of_nat (Suc (cobs_run b xs)) # take (cobs_run b xs) xs @
       (case drop (cobs_run b xs) xs of
          [] \<Rightarrow> []
        | r # rs \<Rightarrow> if b = 0 then [] else if cobs_run b xs = b then cobs_text b (r # rs) else cobs_text b rs)"
  by pat_completeness auto

termination
  by (relation "measure (\<lambda>(b, xs). length xs)") (auto dest!: arg_cong [of _ _ length])

declare cobs_text.simps [simp del]

lemma cobs_text_unfold:
  assumes "1 \<le> b"
  shows "cobs_text b xs = of_nat (Suc (cobs_run b xs)) # take (cobs_run b xs) xs @
    (if drop (cobs_run b xs) xs = [] then []
     else if cobs_run b xs = b then cobs_text b (drop (cobs_run b xs) xs)
     else cobs_text b (tl (drop (cobs_run b xs) xs)))"
  using assms by (subst cobs_text.simps) (simp split: list.split)

lemma cobs_text_induct:
  assumes "1 \<le> b"
    and step: "\<And>xs. (drop (cobs_run b xs) xs \<noteq> [] \<Longrightarrow> cobs_run b xs = b \<Longrightarrow> P (drop (cobs_run b xs) xs)) \<Longrightarrow>
      (drop (cobs_run b xs) xs \<noteq> [] \<Longrightarrow> cobs_run b xs \<noteq> b \<Longrightarrow> P (tl (drop (cobs_run b xs) xs))) \<Longrightarrow> P xs"
  shows "P xs"
proof (induction xs rule: length_induct)
  case (1 xs)
  show ?case
  proof (rule step)
    assume "drop (cobs_run b xs) xs \<noteq> []" and "cobs_run b xs = b"
    with assms(1) have "length (drop (cobs_run b xs) xs) < length xs" by simp
    with 1 show "P (drop (cobs_run b xs) xs)" by blast
  next
    assume "drop (cobs_run b xs) xs \<noteq> []"
    then have "length (tl (drop (cobs_run b xs) xs)) < length xs" by simp
    with 1 show "P (tl (drop (cobs_run b xs) xs))" by blast
  qed
qed

lemma unat_of_nat_8: "n < 256 \<Longrightarrow> unat (of_nat n :: u8) = n"
  by (simp add: unat_of_nat)

lemma cobs_text_ref:
  assumes "1 \<le> b" and "b \<le> 254"
  shows "cobs_text b xs \<noteq> [] \<and> cobs_ref b (cobs_text b xs) = Some xs \<and> 0 \<notin> set (cobs_text b xs)"
proof (rule cobs_text_induct [OF assms(1), of _ xs], goal_cases)
  case (1 xs)
  define n where "n = cobs_run b xs"
  define rest where "rest = drop n xs"
  have n: "n \<le> b" "n \<le> length xs" using cobs_run_le [of b xs] by (simp_all add: n_def)
  have u: "unat (of_nat (Suc n) :: u8) = Suc (length (take n xs))"
    using n assms by (simp add: unat_of_nat_8 del: of_nat_Suc)
  then have z: "of_nat (Suc n) \<noteq> (0 :: u8)" by (metis nat.distinct(1) unat_0)
  have nz: "0 \<notin> set (take n xs)"
    unfolding n_def take_cobs_run by (auto dest: set_takeWhileD)
  have split: "xs = take n xs @ rest" by (simp add: rest_def)
  note eq = cobs_text_unfold [OF assms(1), of xs, folded n_def, folded rest_def]
  show ?case
  proof (cases "rest = []")
    case True
    then have "cobs_text b xs = of_nat (Suc n) # take n xs" by (simp add: eq)
    moreover have "take n xs = xs" using True by (simp add: rest_def)
    ultimately show ?thesis using cobs_ref_last [OF u] z nz by auto
  next
    case rest: False
    define next_block where "next_block = (if n = b then cobs_text b rest else cobs_text b (tl rest))"
    define d where "d = (if n = b then rest else tl rest)"
    have txt_eq: "cobs_text b xs = of_nat (Suc n) # take n xs @ next_block"
      using rest assms by (simp add: eq next_block_def)
    have IH: "next_block \<noteq> [] \<and> cobs_ref b next_block = Some d \<and> 0 \<notin> set next_block"
      using "1"(1) [folded n_def, folded rest_def] "1"(2) [folded n_def, folded rest_def] rest assms
      by (auto simp: next_block_def d_def)
    have "rest = (if n < b then 0 # d else d)"
      using drop_cobs_run [of b xs, folded n_def, folded rest_def] rest n
      by (cases rest) (auto simp: d_def)
    with split have xs: "take n xs @ (if n < b then 0 # d else d) = xs" by simp
    have "length (take n xs) = n" using n by simp
    then have "cobs_ref b (cobs_text b xs) = Some xs"
      using cobs_ref_block [OF u, of next_block b] IH xs by (simp add: txt_eq)
    with IH txt_eq z nz show ?thesis by auto
  qed
qed

lemma cobs_text_length:
  assumes "1 \<le> b"
  shows "length (cobs_text b xs) \<le> 1 + cobs_need b 0 (length xs)"
proof (rule cobs_text_induct [OF assms(1), of _ xs], goal_cases)
  case (1 xs)
  define n where "n = cobs_run b xs"
  define rest where "rest = drop n xs"
  have n: "n \<le> b" "n \<le> length xs" using cobs_run_le [of b xs] by (simp_all add: n_def)
  note eq = cobs_text_unfold [OF assms(1), of xs, folded n_def, folded rest_def]
  have len: "length xs = n + length rest" using n by (simp add: rest_def)
  consider "rest = []" | "rest \<noteq> []" "n = b" | "rest \<noteq> []" "n < b" using n by fastforce
  then show ?case
  proof cases
    case 1
    then show ?thesis using n len by (simp add: eq cobs_need_def)
  next
    case 2
    have "length xs - 1 = b + (length rest - 1)" using 2 len by (cases rest) simp_all
    then have "(length xs - 1) div b = Suc ((length rest - 1) div b)"
      using assms by (simp add: div_add_self1)
    with 2 "1"(1) [folded n_def, folded rest_def] assms len n show ?thesis
      by (simp add: eq cobs_need_def)
  next
    case 3
    have "cobs_need b 0 (length rest - 1) + 1 \<le> cobs_need b n (length rest)"
      using cobs_need_zero [of b "length rest - 1" n] 3 by (cases rest) simp_all
    also have "cobs_need b n (length rest) + n \<le> cobs_need b 0 (length xs)"
      using 3 len by (auto simp: cobs_need_def)
    finally show ?thesis
      using 3 "1"(2) [folded n_def, folded rest_def] assms len n by (simp add: eq)
  qed
qed

lemma cobs_findNextBlock_loop_run:
  assumes "unat k \<le> unat B" and "len = length d"
  shows "cobs_findNextBlock_loop B d len p k = Some (k + of_nat (cobs_run (unat B - unat k) (drop p d)))"
  using assms
proof (induction B d len p k rule: cobs_findNextBlock_loop.induct)
  case (1 B d len p k)
  show ?case
  proof (cases "p < len \<and> d ! p \<noteq> 0 \<and> k < B")
    case True
    then have dp: "drop p d = d ! p # drop (p + 1) d" using "1.prems" by (simp add: Cons_nth_drop_Suc)
    have "unat k < unat B" using True by (simp add: word_less_nat_alt)
    then have "unat (k + 1) = Suc (unat k)" using unsigned_less [of B, where 'a = nat]
      by (simp add: unat_word_ariths)
    with True "1.IH" [of "d ! p"] "1.prems" dp \<open>unat k < unat B\<close> show ?thesis
      by (subst cobs_findNextBlock_loop.simps)
        (simp add: aread_def cobs_run_Cons add.assoc del: drop_Suc_Cons)
  next
    case False
    have "cobs_run (unat B - unat k) (drop p d) = 0"
    proof (cases "p < len")
      case True
      then have "drop p d = d ! p # drop (p + 1) d" using "1.prems" by (simp add: Cons_nth_drop_Suc)
      with True False show ?thesis by (auto simp: cobs_run_Cons word_less_nat_alt)
    qed (use "1.prems" in \<open>simp add: cobs_run_def\<close>)
    with False "1.prems" show ?thesis
      by (subst cobs_findNextBlock_loop.simps) (auto simp: aread_def)
  qed
qed

text \<open>Inside of a block the generator hands out its bytes.\<close>

lemma cobs_drain_block:
  assumes "gData g = Some d" and "gLength g = length d" and "unat (gNextBlock g) = n"
    and "gCurrentPosition g + n \<le> length d"
    and "cobs_drain fuel B (g\<lparr>gCurrentPosition := gCurrentPosition g + n, gNextBlock := 0\<rparr>) = Some ys"
  shows "cobs_drain (n + fuel) B g = Some (take n (drop (gCurrentPosition g) d) @ ys)"
  using assms
proof (induction n arbitrary: g)
  case 0
  then have "g\<lparr>gCurrentPosition := gCurrentPosition g + 0, gNextBlock := 0\<rparr> = g"
    by (simp add: unat_eq_0)
  with 0 show ?case by simp
next
  case (Suc n)
  let ?p = "gCurrentPosition g"
  let ?g = "g\<lparr>gCurrentPosition := ?p + 1, gNextBlock := gNextBlock g - 1\<rparr>"
  have nz: "gNextBlock g \<noteq> 0" using Suc.prems(3) by auto
  have p: "?p < length d" using Suc.prems(4) by simp
  have "unat (gNextBlock ?g) = n" using unat_minus_one [OF nz] Suc.prems(3) by simp
  then have "cobs_drain (n + fuel) B ?g = Some (take n (drop (?p + 1) d) @ ys)"
    using Suc.IH [of ?g] Suc.prems by simp
  moreover have "cobs_getNextByte B g = Some (?g, d ! ?p)"
    using nz Suc.prems(1) p by (simp add: cobs_getNextByte_def aread_def)
  ultimately show ?case
    using p Suc.prems(2)
    by (subst cobs_drain.simps) (simp add: cobs_isFinished_def take_Suc_drop_nth)
qed

text \<open>
  Between two blocks: \<open>q\<close> is where the next block starts, behind the zero that the current
  position is on when \<open>mZeroElementSkip\<close> is set.
\<close>

lemma cobs_drain_text:
  assumes b: "1 \<le> unat B" "unat B \<le> 254" and "gData g = Some d" and "gLength g = length d"
    and "gNextBlock g = 0" and "gCurrentPosition g < length d"
    and "q = (if gZeroElementSkip g then Suc (gCurrentPosition g) else gCurrentPosition g)"
    and "length (cobs_text (unat B) (drop q d)) \<le> fuel"
  shows "cobs_drain fuel B g = Some (cobs_text (unat B) (drop q d))"
  using assms(3-)
proof (induction "length d - q" arbitrary: g q fuel rule: less_induct)
  case less
  let ?b = "unat B"
  define n where "n = cobs_run ?b (drop q d)"
  define rest where "rest = drop n (drop q d)"
  have q: "q \<le> length d" using less.prems(4,5) by auto
  have n: "n \<le> ?b" "n \<le> length d - q" using cobs_run_le [of ?b "drop q d"] by (simp_all add: n_def)
  note txt_eq = cobs_text_unfold [OF b(1), of "drop q d", folded n_def, folded rest_def]
  define g1 where "g1 = g\<lparr>gCurrentPosition := q, gNextBlock := of_nat n,
    gZeroElementSkip := (n \<noteq> ?b)\<rparr>"
  have un: "unat (of_nat n :: u8) = n" using n b by (simp add: unat_of_nat_8)
  have Bn: "of_nat n = B \<longleftrightarrow> n = ?b"
    using un by (simp add: word_unat_eq_iff)
  have next1: "cobs_getNextByte B g = Some (g1, of_nat n + 1)"
    using less.prems(1-3,5) cobs_findNextBlock_loop_run [of 0 B "length d" d q] Bn
    by (auto simp: cobs_getNextByte_def cobs_findNextBlock_def g1_def n_def Let_def)
  define g2 where "g2 = g1\<lparr>gCurrentPosition := q + n, gNextBlock := 0\<rparr>"
  define tail where "tail = (if rest = [] then [] else if n = ?b then cobs_text ?b rest
    else cobs_text ?b (tl rest))"
  have len: "Suc (n + length tail) \<le> fuel"
    using less.prems(6) b n by (auto simp: txt_eq tail_def)
  have drain2: "cobs_drain (fuel - Suc n) B g2 = Some tail"
  proof (cases "rest = []")
    case True
    then have "q + n = length d" using q n by (simp add: rest_def)
    with True less.prems(2) show ?thesis
      by (subst cobs_drain.simps) (simp add: cobs_isFinished_def g2_def g1_def tail_def)
  next
    case False
    then have qn: "q + n < length d" by (simp add: rest_def)
    let ?q' = "if n \<noteq> ?b then Suc (q + n) else q + n"
    have tail: "tail = cobs_text ?b (drop ?q' d)"
      using False by (simp add: tail_def rest_def tl_drop [symmetric] drop_Suc add.commute)
    have "cobs_drain (fuel - Suc n) B g2 = Some (cobs_text ?b (drop ?q' d))"
    proof (rule less.hyps)
      show "length d - ?q' < length d - q" using qn b n by auto
      show "length (cobs_text ?b (drop ?q' d)) \<le> fuel - Suc n" using len tail by simp
    qed (use less.prems(1,2) qn in \<open>simp_all add: g2_def g1_def\<close>)
    with tail show ?thesis by simp
  qed
  have "cobs_drain (n + (fuel - Suc n)) B g1 = Some (take n (drop q d) @ tail)"
    using cobs_drain_block [of g1 d n "fuel - Suc n" B tail] less.prems(1,2) un n q drain2
    by (simp add: g1_def g2_def)
  moreover obtain f where "fuel = Suc f" "n + (fuel - Suc n) = f" using len by (cases fuel) simp_all
  moreover have "cobs_text ?b (drop q d) = of_nat (Suc n) # take n (drop q d) @ tail"
    using b by (simp add: txt_eq tail_def)
  ultimately show ?case
    using next1 less.prems(2,4)
    by (subst cobs_drain.simps) (simp add: cobs_isFinished_def add.commute)
qed

text \<open>
  C19. The byte-wise generator ends: after at most \<open>getMaximumSizeOfEncodedData\<close> calls of
  \<open>getNextByte\<close> it is finished, and the bytes it gave contain no zero and are an encoding of the
  whole input. (For an empty input it is finished at once.)\<close>

theorem cobs_generator_encodes:
  assumes "1 \<le> unat B" and "unat B \<le> 254" and "2 * length input + 1 < 2 ^ size_bits"
  shows "\<exists>bytes. cobs_drain (cobs_getMaximumSizeOfEncodedData B (length input)) B
      (cobs_generator_new (Some input)) = Some bytes \<and>
    length bytes \<le> cobs_getMaximumSizeOfEncodedData B (length input) \<and> 0 \<notin> set bytes \<and>
    cobs_ref (unat B) bytes = Some input"
proof (cases "input = []")
  case True
  then show ?thesis
    by (subst cobs_drain.simps) (simp add: cobs_isFinished_def cobs_generator_new_def)
next
  case False
  have "length (cobs_text (unat B) input) \<le> cobs_getMaximumSizeOfEncodedData B (length input)"
    using cobs_text_length [OF assms(1), of input] cobs_maximum_size [OF assms(3), of B] by simp
  with False cobs_drain_text [OF assms(1,2), of "cobs_generator_new (Some input)" input 0]
    cobs_text_ref [OF assms(1,2), of input]
  show ?thesis by (simp add: cobs_generator_new_def)
qed

lemma cobs_generator_encodes_witness:
  "\<exists>bytes. cobs_drain (cobs_getMaximumSizeOfEncodedData 254 (length cobs_sample)) 254
      (cobs_generator_new (Some cobs_sample)) = Some bytes \<and>
    length bytes \<le> cobs_getMaximumSizeOfEncodedData 254 (length cobs_sample) \<and> 0 \<notin> set bytes \<and>
    cobs_ref (unat (254 :: u8)) bytes = Some cobs_sample"
  by (rule cobs_generator_encodes) (simp_all add: cobs_sample_def size_bits_def)

end
