(* ===== verification/Scalar_Codec.thy ===== *)
theory Scalar_Codec
  imports Prelude
begin

text \<open>
  What the serialization traits (utils/storage/serialize_traits.h and
  serialize_little_endian_traits.h) have in common.

  A cursor is an index into a memory of bytes. \<open>store\<close> writes at the cursor and returns it
  advanced, \<open>read\<close> reads there and returns it advanced, \<open>peek\<close> reads at an offset. The locale
  \<open>scalar_codec\<close> is the contract of one trait: \<open>store\<close> is exactly a copy of the bytes
  \<open>enc v\<close>, \<open>read\<close> depends only on the bytes under the cursor, and \<open>dec\<close> undoes \<open>enc\<close>. Its
  lemmas give the behaviour of the loops over slices. \<open>exact_codec\<close> adds that every byte
  sequence of the right length is the encoding of what is read from it.
\<close>

subsection \<open>Bytes and words\<close>

lemma byte_merge_gen:
  fixes v :: "'a :: len word"
  assumes "k' = k + 8"
  shows "push_bit k (ucast (ucast (drop_bit k v) :: u8)) OR take_bit k v = take_bit k' v"
  by (rule bit_word_eqI)
    (auto simp: assms bit_or_iff bit_push_bit_iff bit_unsigned_iff bit_drop_bit_eq bit_take_bit_iff)

lemma byte_merge_0:
  fixes v :: "'a :: len word"
  shows "push_bit 0 (ucast (ucast (drop_bit 0 v) :: u8)) = take_bit 8 v"
  by (rule bit_word_eqI) (auto simp: bit_unsigned_iff bit_take_bit_iff)

text \<open>Joining a word from its bytes, lowest byte first.\<close>

lemma byte_merge:
  fixes v :: "'a :: len word"
  shows "push_bit 8 (ucast (ucast (drop_bit 8 v) :: u8)) OR take_bit 8 v = take_bit 16 v"
    and "push_bit 16 (ucast (ucast (drop_bit 16 v) :: u8)) OR take_bit 16 v = take_bit 24 v"
    and "push_bit 24 (ucast (ucast (drop_bit 24 v) :: u8)) OR take_bit 24 v = take_bit 32 v"
    and "push_bit 32 (ucast (ucast (drop_bit 32 v) :: u8)) OR take_bit 32 v = take_bit 40 v"
    and "push_bit 40 (ucast (ucast (drop_bit 40 v) :: u8)) OR take_bit 40 v = take_bit 48 v"
    and "push_bit 48 (ucast (ucast (drop_bit 48 v) :: u8)) OR take_bit 48 v = take_bit 56 v"
    and "push_bit 56 (ucast (ucast (drop_bit 56 v) :: u8)) OR take_bit 56 v = take_bit 64 v"
  by (simp_all add: byte_merge_gen)

lemma take_bit_all: "LENGTH('a) \<le> k \<Longrightarrow> take_bit k (v :: 'a :: len word) = v"
  by (rule bit_word_eqI) (auto simp: bit_take_bit_iff)

lemmas byte_bits = bit_or_iff bit_push_bit_iff bit_unsigned_iff bit_drop_bit_eq

lemma list_nth_simps:
  "(x # xs) ! 0 = x" "(x # xs) ! 1 = xs ! 0" "(x # xs) ! 2 = xs ! 1" "(x # xs) ! 3 = xs ! 2"
  "(x # xs) ! 4 = xs ! 3" "(x # xs) ! 5 = xs ! 4" "(x # xs) ! 6 = xs ! 5" "(x # xs) ! 7 = xs ! 6"
  by (simp_all add: nth_Cons')

lemma length_2E:
  assumes "length xs = 2" obtains a b where "xs = [a, b]"
  using assms by (auto simp: numeral_2_eq_2 length_Suc_conv)

lemma length_4E:
  assumes "length xs = 4" obtains a b c d where "xs = [a, b, c, d]"
  using assms by (auto simp: eval_nat_numeral length_Suc_conv)

lemma length_8E:
  assumes "length xs = 8" obtains a b c d e f g h where "xs = [a, b, c, d, e, f, g, h]"
  using assms by (auto simp: eval_nat_numeral length_Suc_conv)

lemma ucast_id_simps: "(ucast :: 'a :: len word \<Rightarrow> 'a word) = (\<lambda>w. w)"
    "map_option (\<lambda>x. x) r = r" "map_option (\<lambda>(x, y). (x, y)) q = q"
  by (simp_all add: fun_eq_iff option.map_ident option.map_ident_strong split: prod.split)

lemma map_conv_bind_option: "map_option f x = x \<bind> (\<lambda>y. Some (f y))"
  by (cases x) simp_all

subsection \<open>Sequences of assignments\<close>

text \<open>\<open>buffer[0] = b0; buffer[1] = b1; ...\<close>\<close>

fun awrites :: "'a list \<Rightarrow> nat \<Rightarrow> 'a list \<Rightarrow> 'a list option" where
  "awrites m p [] = Some m"
| "awrites m p (b # bs) = awrite m p b \<bind> (\<lambda>m. awrites m (Suc p) bs)"

lemma awrites_acopy: "bs \<noteq> [] \<Longrightarrow> awrites m p bs = acopy m p bs"
proof (induction bs arbitrary: m p)
  case (Cons b bs)
  show ?case
  proof (cases "bs = []")
    case True
    then show ?thesis by (auto simp: awrite_def acopy_def upd_conv_take_nth_drop)
  next
    case False
    with Cons.IH show ?thesis
      by (auto simp: awrite_def acopy_def upd_conv_take_nth_drop ac_simps)
  qed
qed simp

lemma acopy_append: "acopy m p (xs @ ys) = acopy m p xs \<bind> (\<lambda>m. acopy m (p + length xs) ys)"
  by (auto simp: acopy_def ac_simps)

lemma acopy_None: "acopy m p vs = None \<longleftrightarrow> length m < p + length vs"
  by (auto simp: acopy_def)

subsection \<open>Loops over slices\<close>

fun store_slice ::
    "(u8 list \<Rightarrow> nat \<Rightarrow> 'a \<Rightarrow> (u8 list \<times> nat) option) \<Rightarrow> u8 list \<Rightarrow> nat \<Rightarrow> 'a list \<Rightarrow>
     (u8 list \<times> nat) option" where
  "store_slice st m p [] = Some (m, p)"
| "store_slice st m p (v # vs) = do { (m, p) \<leftarrow> st m p v; store_slice st m p vs }"

fun read_slice ::
    "(u8 list \<Rightarrow> nat \<Rightarrow> ('a \<times> nat) option) \<Rightarrow> u8 list \<Rightarrow> nat \<Rightarrow> nat \<Rightarrow> ('a list \<times> nat) option" where
  "read_slice rd m p 0 = Some ([], p)"
| "read_slice rd m p (Suc n) = do {
     (v, p) \<leftarrow> rd m p; (vs, p) \<leftarrow> read_slice rd m p n; Some (v # vs, p) }"

subsection \<open>The contract\<close>

locale scalar_codec =
  fixes width :: nat
    and enc :: "'a \<Rightarrow> u8 list"
    and dec :: "u8 list \<Rightarrow> 'a"
    and st :: "u8 list \<Rightarrow> nat \<Rightarrow> 'a \<Rightarrow> (u8 list \<times> nat) option"
    and rd :: "u8 list \<Rightarrow> nat \<Rightarrow> ('a \<times> nat) option"
    and pk :: "u8 list \<Rightarrow> nat \<Rightarrow> nat \<Rightarrow> 'a option"
  assumes width_pos: "0 < width"
    and enc_length: "length (enc v) = width"
    and dec_enc: "dec (enc v) = v"
    and store_law: "st m p v = map_option (\<lambda>m. (m, p + width)) (acopy m p (enc v))"
    and read_law: "rd m p = (if p + width \<le> length m
      then Some (dec (take width (drop p m)), p + width) else None)"
    and peek_law: "pk m p n = map_option fst (rd m (p + n))"
begin

lemma store_read:
  assumes "st m p v = Some (m', q)"
  shows "q = p + width" and "rd m' p = Some (v, q)" and "k + n = p \<Longrightarrow> pk m' k n = Some v"
proof -
  from assms have c: "acopy m p (enc v) = Some m'" and q: "q = p + width"
    by (auto simp: store_law)
  from c have "p + width \<le> length m'" "take width (drop p m') = enc v"
    using acopy_view [OF c] length_acopy [OF c] by (auto simp: acopy_eq_Some enc_length)
  then have r: "rd m' p = Some (v, q)" by (simp add: read_law dec_enc q)
  then show "rd m' p = Some (v, q)" and "k + n = p \<Longrightarrow> pk m' k n = Some v"
    by (simp_all add: peek_law)
  show "q = p + width" by (rule q)
qed

lemma read_enc:
  assumes "take width (drop p m) = enc v"
  shows "rd m p = Some (v, p + width)"
proof -
  have "length (take width (drop p m)) = width" by (simp only: assms enc_length)
  then have "p + width \<le> length m" using width_pos by (simp add: min_def split: if_splits)
  with assms show ?thesis by (simp add: read_law dec_enc)
qed

lemma store_None: "st m p v = None \<longleftrightarrow> length m < p + width"
  by (simp add: store_law acopy_None enc_length)

lemma store_slice_copy:
  "store_slice st m p vs = (if vs = [] then Some (m, p) else
     map_option (\<lambda>m. (m, p + width * length vs)) (acopy m p (concat (map enc vs))))"
proof (induction vs arbitrary: m p)
  case (Cons v vs)
  show ?case
  proof (cases "acopy m p (enc v)")
    case None
    then show ?thesis by (simp add: store_law acopy_append enc_length)
  next
    case (Some m')
    then have "p + width \<le> length m'" using length_acopy [OF Some] enc_length by (auto simp: acopy_eq_Some)
    with Some Cons.IH [of m' "p + width"] show ?thesis
      by (auto simp: store_law acopy_append enc_length add.assoc)
  qed
qed simp

lemma read_slice_enc:
  "take (width * length vs) (drop p m) = concat (map enc vs) \<Longrightarrow>
     read_slice rd m p (length vs) = Some (vs, p + width * length vs)"
proof (induction vs arbitrary: p)
  case (Cons v vs)
  have all: "take (width + width * length vs) (drop p m) = enc v @ concat (map enc vs)"
    using Cons.prems by simp
  from arg_cong [OF all, of "take width"] have "take width (drop p m) = enc v"
    by (simp add: enc_length)
  moreover from arg_cong [OF all, of "drop width"]
  have rest: "take (width * length vs) (drop (p + width) m) = concat (map enc vs)"
    by (simp add: enc_length drop_take add.commute)
  ultimately show ?case using read_enc Cons.IH [OF rest] by (simp add: add.assoc)
qed simp

end

locale exact_codec = scalar_codec +
  assumes enc_dec: "length bs = width \<Longrightarrow> enc (dec bs) = bs"
begin

lemma read_store:
  assumes "rd m p = Some (v, q)"
  shows "st m p v = Some (m, q)"
proof -
  from assms have "p + width \<le> length m" "v = dec (take width (drop p m))" "q = p + width"
    by (auto simp: read_law split: if_splits)
  moreover from this have "enc v = take width (drop p m)" by (simp add: enc_dec)
  moreover have "take p m @ take width (drop p m) @ drop (p + width) m = m"
    by (metis append_take_drop_id drop_drop add.commute)
  ultimately show ?thesis by (simp add: store_law acopy_def)
qed

end

subsection \<open>SerializeStorageTraits\<close>

text \<open>
  \<open>SerializeStorageTraits\<close> (serialize_storage_traits.h) stores a value of another type, usually an
  enumeration, converted by \<open>static_cast\<close> in both directions. Where the conversion to the storage
  type loses nothing, the trait keeps the contract of the trait it is built on.
\<close>

definition storage_store ::
    "(u8 list \<Rightarrow> nat \<Rightarrow> 'b \<Rightarrow> (u8 list \<times> nat) option) \<Rightarrow> ('a \<Rightarrow> 'b) \<Rightarrow>
     u8 list \<Rightarrow> nat \<Rightarrow> 'a \<Rightarrow> (u8 list \<times> nat) option" where
  "storage_store st to_storage m p v = st m p (to_storage v)"

definition storage_read ::
    "(u8 list \<Rightarrow> nat \<Rightarrow> ('b \<times> nat) option) \<Rightarrow> ('b \<Rightarrow> 'a) \<Rightarrow> u8 list \<Rightarrow> nat \<Rightarrow> ('a \<times> nat) option" where
  "storage_read rd from_storage m p = do { (v, q) \<leftarrow> rd m p; Some (from_storage v, q) }"

definition storage_peek ::
    "(u8 list \<Rightarrow> nat \<Rightarrow> nat \<Rightarrow> 'b option) \<Rightarrow> ('b \<Rightarrow> 'a) \<Rightarrow> u8 list \<Rightarrow> nat \<Rightarrow> nat \<Rightarrow> 'a option" where
  "storage_peek pk from_storage m p n = do { v \<leftarrow> pk m p n; Some (from_storage v) }"

lemma storage_codec:
  assumes "scalar_codec w enc dec st rd pk" and "\<And>v. from_storage (to_storage v) = v"
  shows "scalar_codec w (\<lambda>v. enc (to_storage v)) (\<lambda>bs. from_storage (dec bs))
    (storage_store st to_storage) (storage_read rd from_storage) (storage_peek pk from_storage)"
  using assms
  by (auto simp: scalar_codec_def storage_store_def storage_read_def storage_peek_def
      map_conv_bind_option)

end
