(* ===== verification/Serialize_Traits.thy ===== *)
theory Serialize_Traits
  imports Scalar_Codec
begin

text \<open>
  \<open>SerializeBigEndianTraits\<close> (utils/storage/serialize_traits.h), one group of definitions per
  type: \<open>store\<close>, \<open>read\<close>, \<open>peek\<close> and \<open>size\<close>. A buffer pointer is an index into a memory of
  bytes. Signed types are words read with \<open>sint\<close>, so the casts between signed and unsigned do not
  change them; a \<open>float\<close> or \<open>double\<close> is its 32 or 64 bit representation, which is what the
  code copies. Every type is shown to keep the contract \<open>scalar_codec\<close>.
\<close>

subsection \<open>bool and uint8_t\<close>

definition be_bool_store :: "u8 list \<Rightarrow> nat \<Rightarrow> bool \<Rightarrow> (u8 list \<times> nat) option" where
  "be_bool_store m p data = do { m \<leftarrow> awrites m p [if data then 1 else 0]; Some (m, p + 1) }"

definition be_bool_read :: "u8 list \<Rightarrow> nat \<Rightarrow> (bool \<times> nat) option" where
  "be_bool_read m p = do { value \<leftarrow> aread m p; Some (value \<noteq> 0, p + 1) }"

definition be_bool_peek :: "u8 list \<Rightarrow> nat \<Rightarrow> nat \<Rightarrow> bool option" where
  "be_bool_peek m p n = do { value \<leftarrow> aread m (p + n); Some (value \<noteq> 0) }"

definition be_bool_size :: nat where
  "be_bool_size = 1"

definition be_u8_store :: "u8 list \<Rightarrow> nat \<Rightarrow> u8 \<Rightarrow> (u8 list \<times> nat) option" where
  "be_u8_store m p data = do { m \<leftarrow> awrites m p [data]; Some (m, p + 1) }"

definition be_u8_read :: "u8 list \<Rightarrow> nat \<Rightarrow> (u8 \<times> nat) option" where
  "be_u8_read m p = do { value \<leftarrow> aread m p; Some (value, p + 1) }"

definition be_u8_peek :: "u8 list \<Rightarrow> nat \<Rightarrow> nat \<Rightarrow> u8 option" where
  "be_u8_peek m p n = aread m (p + n)"

definition be_u8_size :: nat where
  "be_u8_size = 1"

subsection \<open>uint16_t\<close>

definition be_u16_store :: "u8 list \<Rightarrow> nat \<Rightarrow> u16 \<Rightarrow> (u8 list \<times> nat) option" where
  "be_u16_store m p data = do {
     m \<leftarrow> awrites m p [ucast (drop_bit 8 data), ucast (drop_bit 0 data)];
     Some (m, p + 2) }"

definition be_u16_read :: "u8 list \<Rightarrow> nat \<Rightarrow> (u16 \<times> nat) option" where
  "be_u16_read m p = do {
     b0 \<leftarrow> aread m p; b1 \<leftarrow> aread m (p + 1);
     Some (push_bit 8 (ucast b0) OR push_bit 0 (ucast b1), p + 2) }"

definition be_u16_peek :: "u8 list \<Rightarrow> nat \<Rightarrow> nat \<Rightarrow> u16 option" where
  "be_u16_peek m p n = do {
     b0 \<leftarrow> aread m (p + n); b1 \<leftarrow> aread m (p + n + 1);
     Some (push_bit 8 (ucast b0) OR push_bit 0 (ucast b1)) }"

definition be_u16_size :: nat where
  "be_u16_size = 2"

subsection \<open>uint32_t\<close>

definition be_u32_store :: "u8 list \<Rightarrow> nat \<Rightarrow> u32 \<Rightarrow> (u8 list \<times> nat) option" where
  "be_u32_store m p data = do {
     m \<leftarrow> awrites m p [ucast (drop_bit 24 data), ucast (drop_bit 16 data), ucast (drop_bit 8 data), ucast (drop_bit 0 data)];
     Some (m, p + 4) }"

definition be_u32_read :: "u8 list \<Rightarrow> nat \<Rightarrow> (u32 \<times> nat) option" where
  "be_u32_read m p = do {
     b0 \<leftarrow> aread m p; b1 \<leftarrow> aread m (p + 1); b2 \<leftarrow> aread m (p + 2); b3 \<leftarrow> aread m (p + 3);
     Some (push_bit 24 (ucast b0) OR push_bit 16 (ucast b1) OR
       push_bit 8 (ucast b2) OR push_bit 0 (ucast b3), p + 4) }"

definition be_u32_peek :: "u8 list \<Rightarrow> nat \<Rightarrow> nat \<Rightarrow> u32 option" where
  "be_u32_peek m p n = do {
     b0 \<leftarrow> aread m (p + n); b1 \<leftarrow> aread m (p + n + 1); b2 \<leftarrow> aread m (p + n + 2); b3 \<leftarrow> aread m (p + n + 3);
     Some (push_bit 24 (ucast b0) OR push_bit 16 (ucast b1) OR
       push_bit 8 (ucast b2) OR push_bit 0 (ucast b3)) }"

definition be_u32_size :: nat where
  "be_u32_size = 4"

subsection \<open>uint64_t\<close>

definition be_u64_store :: "u8 list \<Rightarrow> nat \<Rightarrow> u64 \<Rightarrow> (u8 list \<times> nat) option" where
  "be_u64_store m p data = do {
     m \<leftarrow> awrites m p [ucast (drop_bit 56 data), ucast (drop_bit 48 data), ucast (drop_bit 40 data), ucast (drop_bit 32 data),
       ucast (drop_bit 24 data), ucast (drop_bit 16 data), ucast (drop_bit 8 data), ucast (drop_bit 0 data)];
     Some (m, p + 8) }"

definition be_u64_read :: "u8 list \<Rightarrow> nat \<Rightarrow> (u64 \<times> nat) option" where
  "be_u64_read m p = do {
     b0 \<leftarrow> aread m p; b1 \<leftarrow> aread m (p + 1); b2 \<leftarrow> aread m (p + 2); b3 \<leftarrow> aread m (p + 3);
     b4 \<leftarrow> aread m (p + 4); b5 \<leftarrow> aread m (p + 5); b6 \<leftarrow> aread m (p + 6); b7 \<leftarrow> aread m (p + 7);
     Some (push_bit 56 (ucast b0) OR push_bit 48 (ucast b1) OR push_bit 40 (ucast b2) OR
       push_bit 32 (ucast b3) OR push_bit 24 (ucast b4) OR push_bit 16 (ucast b5) OR
       push_bit 8 (ucast b6) OR push_bit 0 (ucast b7), p + 8) }"

definition be_u64_peek :: "u8 list \<Rightarrow> nat \<Rightarrow> nat \<Rightarrow> u64 option" where
  "be_u64_peek m p n = do {
     b0 \<leftarrow> aread m (p + n); b1 \<leftarrow> aread m (p + n + 1); b2 \<leftarrow> aread m (p + n + 2); b3 \<leftarrow> aread m (p + n + 3);
     b4 \<leftarrow> aread m (p + n + 4); b5 \<leftarrow> aread m (p + n + 5); b6 \<leftarrow> aread m (p + n + 6); b7 \<leftarrow> aread m (p + n + 7);
     Some (push_bit 56 (ucast b0) OR push_bit 48 (ucast b1) OR push_bit 40 (ucast b2) OR
       push_bit 32 (ucast b3) OR push_bit 24 (ucast b4) OR push_bit 16 (ucast b5) OR
       push_bit 8 (ucast b6) OR push_bit 0 (ucast b7)) }"

definition be_u64_size :: nat where
  "be_u64_size = 8"

subsection \<open>Signed and floating point types, by conversion\<close>

definition be_char_store :: "u8 list \<Rightarrow> nat \<Rightarrow> i8 \<Rightarrow> (u8 list \<times> nat) option" where
  "be_char_store m p data = be_u8_store m p (ucast data)"

definition be_i8_store :: "u8 list \<Rightarrow> nat \<Rightarrow> i8 \<Rightarrow> (u8 list \<times> nat) option" where
  "be_i8_store m p data = be_u8_store m p (ucast data)"

definition be_i8_read :: "u8 list \<Rightarrow> nat \<Rightarrow> (i8 \<times> nat) option" where
  "be_i8_read m p = map_option (\<lambda>(value, q). (ucast value, q)) (be_u8_read m p)"

definition be_i8_peek :: "u8 list \<Rightarrow> nat \<Rightarrow> nat \<Rightarrow> i8 option" where
  "be_i8_peek m p n = map_option ucast (be_u8_peek m p n)"

definition be_i8_size :: nat where
  "be_i8_size = 1"

definition be_i16_store :: "u8 list \<Rightarrow> nat \<Rightarrow> i16 \<Rightarrow> (u8 list \<times> nat) option" where
  "be_i16_store m p data = be_u16_store m p (ucast data)"

definition be_i16_read :: "u8 list \<Rightarrow> nat \<Rightarrow> (i16 \<times> nat) option" where
  "be_i16_read m p = map_option (\<lambda>(value, q). (ucast value, q)) (be_u16_read m p)"

definition be_i16_peek :: "u8 list \<Rightarrow> nat \<Rightarrow> nat \<Rightarrow> i16 option" where
  "be_i16_peek m p n = map_option ucast (be_u16_peek m p n)"

definition be_i16_size :: nat where
  "be_i16_size = 2"

definition be_i32_store :: "u8 list \<Rightarrow> nat \<Rightarrow> i32 \<Rightarrow> (u8 list \<times> nat) option" where
  "be_i32_store m p data = be_u32_store m p (ucast data)"

definition be_i32_read :: "u8 list \<Rightarrow> nat \<Rightarrow> (i32 \<times> nat) option" where
  "be_i32_read m p = map_option (\<lambda>(value, q). (ucast value, q)) (be_u32_read m p)"

definition be_i32_peek :: "u8 list \<Rightarrow> nat \<Rightarrow> nat \<Rightarrow> i32 option" where
  "be_i32_peek m p n = map_option ucast (be_u32_peek m p n)"

definition be_i32_size :: nat where
  "be_i32_size = 4"

definition be_i64_store :: "u8 list \<Rightarrow> nat \<Rightarrow> i64 \<Rightarrow> (u8 list \<times> nat) option" where
  "be_i64_store m p data = be_u64_store m p (ucast data)"

definition be_i64_read :: "u8 list \<Rightarrow> nat \<Rightarrow> (i64 \<times> nat) option" where
  "be_i64_read m p = map_option (\<lambda>(value, q). (ucast value, q)) (be_u64_read m p)"

definition be_i64_peek :: "u8 list \<Rightarrow> nat \<Rightarrow> nat \<Rightarrow> i64 option" where
  "be_i64_peek m p n = map_option ucast (be_u64_peek m p n)"

definition be_i64_size :: nat where
  "be_i64_size = 8"

definition be_float_store :: "u8 list \<Rightarrow> nat \<Rightarrow> u32 \<Rightarrow> (u8 list \<times> nat) option" where
  "be_float_store m p data = be_u32_store m p data"

definition be_float_read :: "u8 list \<Rightarrow> nat \<Rightarrow> (u32 \<times> nat) option" where
  "be_float_read m p = be_u32_read m p"

definition be_float_peek :: "u8 list \<Rightarrow> nat \<Rightarrow> nat \<Rightarrow> u32 option" where
  "be_float_peek m p n = be_u32_peek m p n"

definition be_float_size :: nat where
  "be_float_size = 4"

definition be_double_store :: "u8 list \<Rightarrow> nat \<Rightarrow> u64 \<Rightarrow> (u8 list \<times> nat) option" where
  "be_double_store m p data = be_u64_store m p data"

definition be_double_read :: "u8 list \<Rightarrow> nat \<Rightarrow> (u64 \<times> nat) option" where
  "be_double_read m p = be_u64_read m p"

definition be_double_peek :: "u8 list \<Rightarrow> nat \<Rightarrow> nat \<Rightarrow> u64 option" where
  "be_double_peek m p n = be_u64_peek m p n"

definition be_double_size :: nat where
  "be_double_size = 8"

subsection \<open>The contract\<close>

text \<open>The byte sequence of a value, and the value of a byte sequence.\<close>

definition be_u8_bytes :: "u8 \<Rightarrow> u8 list" where
  "be_u8_bytes data = [data]"

definition be_u8_value :: "u8 list \<Rightarrow> u8" where
  "be_u8_value bs = (bs ! 0)"

lemma be_u8_value_bytes: "be_u8_value (be_u8_bytes v) = v"
  by (simp add: be_u8_value_def be_u8_bytes_def)

interpretation be_u8: exact_codec 1 be_u8_bytes be_u8_value be_u8_store
    be_u8_read be_u8_peek
proof
  fix m p n v and bs :: "u8 list"
  show "length (be_u8_bytes v) = 1" by (simp add: be_u8_bytes_def)
  show "be_u8_value (be_u8_bytes v) = v" by (rule be_u8_value_bytes)
  show "be_u8_store m p v = map_option (\<lambda>m. (m, p + 1)) (acopy m p (be_u8_bytes v))"
    by (simp add: be_u8_store_def awrites_acopy be_u8_bytes_def map_conv_bind_option del: awrites.simps)
  show rd: "be_u8_read m p =
      (if p + 1 \<le> length m then Some (be_u8_value (take 1 (drop p m)), p + 1) else None)" for m p
    by (simp add: be_u8_read_def be_u8_value_def aread_def)
  show "be_u8_peek m p n = map_option fst (be_u8_read m (p + n))"
    by (simp add: be_u8_peek_def be_u8_read_def map_conv_bind_option)
  show "length bs = 1 \<Longrightarrow> be_u8_bytes (be_u8_value bs) = bs"
    by (auto simp: be_u8_bytes_def be_u8_value_def length_Suc_conv)
qed simp

definition be_u16_bytes :: "u16 \<Rightarrow> u8 list" where
  "be_u16_bytes data = [ucast (drop_bit 8 data), ucast (drop_bit 0 data)]"

definition be_u16_value :: "u8 list \<Rightarrow> u16" where
  "be_u16_value bs = (push_bit 8 (ucast (bs ! 0)) OR push_bit 0 (ucast (bs ! 1)))"

lemma be_u16_value_bytes: "be_u16_value (be_u16_bytes v) = v"
proof -
  have "be_u16_value (be_u16_bytes v) = take_bit 16 v"
    unfolding be_u16_value_def be_u16_bytes_def list_nth_simps byte_merge_0 byte_merge ..
  then show ?thesis by (simp add: take_bit_all)
qed

lemma be_u16_value_byte:
  shows "ucast (drop_bit 0 (be_u16_value [a, b])) = b"
    "ucast (drop_bit 8 (be_u16_value [a, b])) = a"
  unfolding be_u16_value_def list_nth_simps
  by (rule bit_word_eqI, auto simp add: byte_bits dest: bit_imp_le_length)+

lemma be_u16_bytes_value: "length bs = 2 \<Longrightarrow> be_u16_bytes (be_u16_value bs) = bs"
  by (elim length_2E) (simp only: be_u16_bytes_def be_u16_value_byte)

interpretation be_u16: exact_codec 2 be_u16_bytes be_u16_value be_u16_store
    be_u16_read be_u16_peek
proof
  fix m p n v and bs :: "u8 list"
  show "length (be_u16_bytes v) = 2" by (simp add: be_u16_bytes_def)
  show "be_u16_value (be_u16_bytes v) = v" by (rule be_u16_value_bytes)
  show "be_u16_store m p v = map_option (\<lambda>m. (m, p + 2)) (acopy m p (be_u16_bytes v))"
    by (simp add: be_u16_store_def awrites_acopy be_u16_bytes_def map_conv_bind_option del: awrites.simps)
  show rd: "be_u16_read m p =
      (if p + 2 \<le> length m then Some (be_u16_value (take 2 (drop p m)), p + 2) else None)" for m p
    by (simp add: be_u16_read_def be_u16_value_def aread_def)
  show "be_u16_peek m p n = map_option fst (be_u16_read m (p + n))"
    by (simp add: be_u16_peek_def be_u16_read_def map_conv_bind_option)
  show "length bs = 2 \<Longrightarrow> be_u16_bytes (be_u16_value bs) = bs"
    by (rule be_u16_bytes_value)
qed simp

definition be_u32_bytes :: "u32 \<Rightarrow> u8 list" where
  "be_u32_bytes data = [ucast (drop_bit 24 data), ucast (drop_bit 16 data), ucast (drop_bit 8 data), ucast (drop_bit 0 data)]"

definition be_u32_value :: "u8 list \<Rightarrow> u32" where
  "be_u32_value bs = (push_bit 24 (ucast (bs ! 0)) OR push_bit 16 (ucast (bs ! 1)) OR
     push_bit 8 (ucast (bs ! 2)) OR push_bit 0 (ucast (bs ! 3)))"

lemma be_u32_value_bytes: "be_u32_value (be_u32_bytes v) = v"
proof -
  have "be_u32_value (be_u32_bytes v) = take_bit 32 v"
    unfolding be_u32_value_def be_u32_bytes_def list_nth_simps byte_merge_0 byte_merge ..
  then show ?thesis by (simp add: take_bit_all)
qed

lemma be_u32_value_byte:
  shows "ucast (drop_bit 0 (be_u32_value [a, b, c, d])) = d"
    "ucast (drop_bit 8 (be_u32_value [a, b, c, d])) = c"
    "ucast (drop_bit 16 (be_u32_value [a, b, c, d])) = b"
    "ucast (drop_bit 24 (be_u32_value [a, b, c, d])) = a"
  unfolding be_u32_value_def list_nth_simps
  by (rule bit_word_eqI, auto simp add: byte_bits dest: bit_imp_le_length)+

lemma be_u32_bytes_value: "length bs = 4 \<Longrightarrow> be_u32_bytes (be_u32_value bs) = bs"
  by (elim length_4E) (simp only: be_u32_bytes_def be_u32_value_byte)

interpretation be_u32: exact_codec 4 be_u32_bytes be_u32_value be_u32_store
    be_u32_read be_u32_peek
proof
  fix m p n v and bs :: "u8 list"
  show "length (be_u32_bytes v) = 4" by (simp add: be_u32_bytes_def)
  show "be_u32_value (be_u32_bytes v) = v" by (rule be_u32_value_bytes)
  show "be_u32_store m p v = map_option (\<lambda>m. (m, p + 4)) (acopy m p (be_u32_bytes v))"
    by (simp add: be_u32_store_def awrites_acopy be_u32_bytes_def map_conv_bind_option del: awrites.simps)
  show rd: "be_u32_read m p =
      (if p + 4 \<le> length m then Some (be_u32_value (take 4 (drop p m)), p + 4) else None)" for m p
    by (simp add: be_u32_read_def be_u32_value_def aread_def)
  show "be_u32_peek m p n = map_option fst (be_u32_read m (p + n))"
    by (simp add: be_u32_peek_def be_u32_read_def map_conv_bind_option)
  show "length bs = 4 \<Longrightarrow> be_u32_bytes (be_u32_value bs) = bs"
    by (rule be_u32_bytes_value)
qed simp

definition be_u64_bytes :: "u64 \<Rightarrow> u8 list" where
  "be_u64_bytes data = [ucast (drop_bit 56 data), ucast (drop_bit 48 data), ucast (drop_bit 40 data), ucast (drop_bit 32 data),
     ucast (drop_bit 24 data), ucast (drop_bit 16 data), ucast (drop_bit 8 data), ucast (drop_bit 0 data)]"

definition be_u64_value :: "u8 list \<Rightarrow> u64" where
  "be_u64_value bs = (push_bit 56 (ucast (bs ! 0)) OR push_bit 48 (ucast (bs ! 1)) OR
     push_bit 40 (ucast (bs ! 2)) OR push_bit 32 (ucast (bs ! 3)) OR
     push_bit 24 (ucast (bs ! 4)) OR push_bit 16 (ucast (bs ! 5)) OR
     push_bit 8 (ucast (bs ! 6)) OR push_bit 0 (ucast (bs ! 7)))"

lemma be_u64_value_bytes: "be_u64_value (be_u64_bytes v) = v"
proof -
  have "be_u64_value (be_u64_bytes v) = take_bit 64 v"
    unfolding be_u64_value_def be_u64_bytes_def list_nth_simps byte_merge_0 byte_merge ..
  then show ?thesis by (simp add: take_bit_all)
qed

lemma be_u64_value_byte:
  shows "ucast (drop_bit 0 (be_u64_value [a, b, c, d, e, f, g, h])) = h"
    "ucast (drop_bit 8 (be_u64_value [a, b, c, d, e, f, g, h])) = g"
    "ucast (drop_bit 16 (be_u64_value [a, b, c, d, e, f, g, h])) = f"
    "ucast (drop_bit 24 (be_u64_value [a, b, c, d, e, f, g, h])) = e"
    "ucast (drop_bit 32 (be_u64_value [a, b, c, d, e, f, g, h])) = d"
    "ucast (drop_bit 40 (be_u64_value [a, b, c, d, e, f, g, h])) = c"
    "ucast (drop_bit 48 (be_u64_value [a, b, c, d, e, f, g, h])) = b"
    "ucast (drop_bit 56 (be_u64_value [a, b, c, d, e, f, g, h])) = a"
  unfolding be_u64_value_def list_nth_simps
  by (rule bit_word_eqI, auto simp add: byte_bits dest: bit_imp_le_length)+

lemma be_u64_bytes_value: "length bs = 8 \<Longrightarrow> be_u64_bytes (be_u64_value bs) = bs"
  by (elim length_8E) (simp only: be_u64_bytes_def be_u64_value_byte)

interpretation be_u64: exact_codec 8 be_u64_bytes be_u64_value be_u64_store
    be_u64_read be_u64_peek
proof
  fix m p n v and bs :: "u8 list"
  show "length (be_u64_bytes v) = 8" by (simp add: be_u64_bytes_def)
  show "be_u64_value (be_u64_bytes v) = v" by (rule be_u64_value_bytes)
  show "be_u64_store m p v = map_option (\<lambda>m. (m, p + 8)) (acopy m p (be_u64_bytes v))"
    by (simp add: be_u64_store_def awrites_acopy be_u64_bytes_def map_conv_bind_option del: awrites.simps)
  show rd: "be_u64_read m p =
      (if p + 8 \<le> length m then Some (be_u64_value (take 8 (drop p m)), p + 8) else None)" for m p
    by (simp add: be_u64_read_def be_u64_value_def aread_def)
  show "be_u64_peek m p n = map_option fst (be_u64_read m (p + n))"
    by (simp add: be_u64_peek_def be_u64_read_def map_conv_bind_option)
  show "length bs = 8 \<Longrightarrow> be_u64_bytes (be_u64_value bs) = bs"
    by (rule be_u64_bytes_value)
qed simp

interpretation be_bool: scalar_codec 1 "\<lambda>b. [if b then 1 else 0]" "\<lambda>bs. bs ! 0 \<noteq> 0" be_bool_store
    be_bool_read be_bool_peek
proof
  fix m p n v
  show "be_bool_store m p v = map_option (\<lambda>m. (m, p + 1)) (acopy m p [if v then 1 else 0])"
    by (simp add: be_bool_store_def awrites_acopy map_conv_bind_option del: awrites.simps)
  show rd: "be_bool_read m p =
      (if p + 1 \<le> length m then Some (take 1 (drop p m) ! 0 \<noteq> 0, p + 1) else None)" for m p
    by (simp add: be_bool_read_def aread_def)
  show "be_bool_peek m p n = map_option fst (be_bool_read m (p + n))"
    by (simp add: be_bool_peek_def be_bool_read_def map_conv_bind_option)
qed simp_all

lemma be_i8_is_u8:
  "be_i8_store = be_u8_store" "be_i8_read = be_u8_read" "be_i8_peek = be_u8_peek"
  by (simp_all add: fun_eq_iff be_i8_store_def be_i8_read_def be_i8_peek_def ucast_id_simps option.map_id)

interpretation be_i8: exact_codec 1 be_u8_bytes be_u8_value be_i8_store
    be_i8_read be_i8_peek
  unfolding be_i8_is_u8 by (rule be_u8.exact_codec_axioms)

lemma be_i16_is_u16:
  "be_i16_store = be_u16_store" "be_i16_read = be_u16_read" "be_i16_peek = be_u16_peek"
  by (simp_all add: fun_eq_iff be_i16_store_def be_i16_read_def be_i16_peek_def ucast_id_simps option.map_id)

interpretation be_i16: exact_codec 2 be_u16_bytes be_u16_value be_i16_store
    be_i16_read be_i16_peek
  unfolding be_i16_is_u16 by (rule be_u16.exact_codec_axioms)

lemma be_i32_is_u32:
  "be_i32_store = be_u32_store" "be_i32_read = be_u32_read" "be_i32_peek = be_u32_peek"
  by (simp_all add: fun_eq_iff be_i32_store_def be_i32_read_def be_i32_peek_def ucast_id_simps option.map_id)

interpretation be_i32: exact_codec 4 be_u32_bytes be_u32_value be_i32_store
    be_i32_read be_i32_peek
  unfolding be_i32_is_u32 by (rule be_u32.exact_codec_axioms)

lemma be_i64_is_u64:
  "be_i64_store = be_u64_store" "be_i64_read = be_u64_read" "be_i64_peek = be_u64_peek"
  by (simp_all add: fun_eq_iff be_i64_store_def be_i64_read_def be_i64_peek_def ucast_id_simps option.map_id)

interpretation be_i64: exact_codec 8 be_u64_bytes be_u64_value be_i64_store
    be_i64_read be_i64_peek
  unfolding be_i64_is_u64 by (rule be_u64.exact_codec_axioms)

lemma be_float_is_u32:
  "be_float_store = be_u32_store" "be_float_read = be_u32_read" "be_float_peek = be_u32_peek"
  by (simp_all add: fun_eq_iff be_float_store_def be_float_read_def be_float_peek_def ucast_id_simps option.map_id)

interpretation be_float: exact_codec 4 be_u32_bytes be_u32_value be_float_store
    be_float_read be_float_peek
  unfolding be_float_is_u32 by (rule be_u32.exact_codec_axioms)

lemma be_double_is_u64:
  "be_double_store = be_u64_store" "be_double_read = be_u64_read" "be_double_peek = be_u64_peek"
  by (simp_all add: fun_eq_iff be_double_store_def be_double_read_def be_double_peek_def ucast_id_simps option.map_id)

interpretation be_double: exact_codec 8 be_u64_bytes be_u64_value be_double_store
    be_double_read be_double_peek
  unfolding be_double_is_u64 by (rule be_u64.exact_codec_axioms)

end
