(* ===== verification/Serialize_LE_Traits.thy ===== *)
theory Serialize_LE_Traits
  imports Scalar_Codec
begin

text \<open>
  \<open>SerializeLittleEndianTraits\<close> (utils/storage/serialize_little_endian_traits.h), one group of definitions per
  type: \<open>store\<close>, \<open>read\<close>, \<open>peek\<close> and \<open>size\<close>. A buffer pointer is an index into a memory of
  bytes. Signed types are words read with \<open>sint\<close>, so the casts between signed and unsigned do not
  change them; a \<open>float\<close> or \<open>double\<close> is its 32 or 64 bit representation, which is what the
  code copies. Every type is shown to keep the contract \<open>scalar_codec\<close>.
\<close>

subsection \<open>bool and uint8_t\<close>

definition le_bool_store :: "u8 list \<Rightarrow> nat \<Rightarrow> bool \<Rightarrow> (u8 list \<times> nat) option" where
  "le_bool_store m p data = do { m \<leftarrow> awrites m p [if data then 1 else 0]; Some (m, p + 1) }"

definition le_bool_read :: "u8 list \<Rightarrow> nat \<Rightarrow> (bool \<times> nat) option" where
  "le_bool_read m p = do { value \<leftarrow> aread m p; Some (value \<noteq> 0, p + 1) }"

definition le_bool_peek :: "u8 list \<Rightarrow> nat \<Rightarrow> nat \<Rightarrow> bool option" where
  "le_bool_peek m p n = do { value \<leftarrow> aread m (p + n); Some (value \<noteq> 0) }"

definition le_bool_size :: nat where
  "le_bool_size = 1"

definition le_u8_store :: "u8 list \<Rightarrow> nat \<Rightarrow> u8 \<Rightarrow> (u8 list \<times> nat) option" where
  "le_u8_store m p data = do { m \<leftarrow> awrites m p [data]; Some (m, p + 1) }"

definition le_u8_read :: "u8 list \<Rightarrow> nat \<Rightarrow> (u8 \<times> nat) option" where
  "le_u8_read m p = do { value \<leftarrow> aread m p; Some (value, p + 1) }"

definition le_u8_peek :: "u8 list \<Rightarrow> nat \<Rightarrow> nat \<Rightarrow> u8 option" where
  "le_u8_peek m p n = aread m (p + n)"

definition le_u8_size :: nat where
  "le_u8_size = 1"

subsection \<open>uint16_t\<close>

definition le_u16_store :: "u8 list \<Rightarrow> nat \<Rightarrow> u16 \<Rightarrow> (u8 list \<times> nat) option" where
  "le_u16_store m p data = do {
     m \<leftarrow> awrites m p [ucast (drop_bit 0 data), ucast (drop_bit 8 data)];
     Some (m, p + 2) }"

definition le_u16_read :: "u8 list \<Rightarrow> nat \<Rightarrow> (u16 \<times> nat) option" where
  "le_u16_read m p = do {
     b0 \<leftarrow> aread m p; b1 \<leftarrow> aread m (p + 1);
     Some (push_bit 8 (ucast b1) OR push_bit 0 (ucast b0), p + 2) }"

definition le_u16_peek :: "u8 list \<Rightarrow> nat \<Rightarrow> nat \<Rightarrow> u16 option" where
  "le_u16_peek m p n = do {
     b0 \<leftarrow> aread m (p + n); b1 \<leftarrow> aread m (p + n + 1);
     Some (push_bit 8 (ucast b1) OR push_bit 0 (ucast b0)) }"

definition le_u16_size :: nat where
  "le_u16_size = 2"

subsection \<open>uint32_t\<close>

definition le_u32_store :: "u8 list \<Rightarrow> nat \<Rightarrow> u32 \<Rightarrow> (u8 list \<times> nat) option" where
  "le_u32_store m p data = do {
     m \<leftarrow> awrites m p [ucast (drop_bit 0 data), ucast (drop_bit 8 data), ucast (drop_bit 16 data), ucast (drop_bit 24 data)];
     Some (m, p + 4) }"

definition le_u32_read :: "u8 list \<Rightarrow> nat \<Rightarrow> (u32 \<times> nat) option" where
  "le_u32_read m p = do {
     b0 \<leftarrow> aread m p; b1 \<leftarrow> aread m (p + 1); b2 \<leftarrow> aread m (p + 2); b3 \<leftarrow> aread m (p + 3);
     Some (push_bit 24 (ucast b3) OR push_bit 16 (ucast b2) OR
       push_bit 8 (ucast b1) OR push_bit 0 (ucast b0), p + 4) }"

definition le_u32_peek :: "u8 list \<Rightarrow> nat \<Rightarrow> nat \<Rightarrow> u32 option" where
  "le_u32_peek m p n = do {
     b0 \<leftarrow> aread m (p + n); b1 \<leftarrow> aread m (p + n + 1); b2 \<leftarrow> aread m (p + n + 2); b3 \<leftarrow> aread m (p + n + 3);
     Some (push_bit 24 (ucast b3) OR push_bit 16 (ucast b2) OR
       push_bit 8 (ucast b1) OR push_bit 0 (ucast b0)) }"

definition le_u32_size :: nat where
  "le_u32_size = 4"

subsection \<open>uint64_t\<close>

definition le_u64_store :: "u8 list \<Rightarrow> nat \<Rightarrow> u64 \<Rightarrow> (u8 list \<times> nat) option" where
  "le_u64_store m p data = do {
     m \<leftarrow> awrites m p [ucast (drop_bit 0 data), ucast (drop_bit 8 data), ucast (drop_bit 16 data), ucast (drop_bit 24 data),
       ucast (drop_bit 32 data), ucast (drop_bit 40 data), ucast (drop_bit 48 data), ucast (drop_bit 56 data)];
     Some (m, p + 8) }"

definition le_u64_read :: "u8 list \<Rightarrow> nat \<Rightarrow> (u64 \<times> nat) option" where
  "le_u64_read m p = do {
     b0 \<leftarrow> aread m p; b1 \<leftarrow> aread m (p + 1); b2 \<leftarrow> aread m (p + 2); b3 \<leftarrow> aread m (p + 3);
     b4 \<leftarrow> aread m (p + 4); b5 \<leftarrow> aread m (p + 5); b6 \<leftarrow> aread m (p + 6); b7 \<leftarrow> aread m (p + 7);
     Some (push_bit 56 (ucast b7) OR push_bit 48 (ucast b6) OR push_bit 40 (ucast b5) OR
       push_bit 32 (ucast b4) OR push_bit 24 (ucast b3) OR push_bit 16 (ucast b2) OR
       push_bit 8 (ucast b1) OR push_bit 0 (ucast b0), p + 8) }"

definition le_u64_peek :: "u8 list \<Rightarrow> nat \<Rightarrow> nat \<Rightarrow> u64 option" where
  "le_u64_peek m p n = do {
     b0 \<leftarrow> aread m (p + n); b1 \<leftarrow> aread m (p + n + 1); b2 \<leftarrow> aread m (p + n + 2); b3 \<leftarrow> aread m (p + n + 3);
     b4 \<leftarrow> aread m (p + n + 4); b5 \<leftarrow> aread m (p + n + 5); b6 \<leftarrow> aread m (p + n + 6); b7 \<leftarrow> aread m (p + n + 7);
     Some (push_bit 56 (ucast b7) OR push_bit 48 (ucast b6) OR push_bit 40 (ucast b5) OR
       push_bit 32 (ucast b4) OR push_bit 24 (ucast b3) OR push_bit 16 (ucast b2) OR
       push_bit 8 (ucast b1) OR push_bit 0 (ucast b0)) }"

definition le_u64_size :: nat where
  "le_u64_size = 8"

subsection \<open>Signed and floating point types, by conversion\<close>

definition le_char_store :: "u8 list \<Rightarrow> nat \<Rightarrow> i8 \<Rightarrow> (u8 list \<times> nat) option" where
  "le_char_store m p data = le_u8_store m p (ucast data)"

definition le_i8_store :: "u8 list \<Rightarrow> nat \<Rightarrow> i8 \<Rightarrow> (u8 list \<times> nat) option" where
  "le_i8_store m p data = le_u8_store m p (ucast data)"

definition le_i8_read :: "u8 list \<Rightarrow> nat \<Rightarrow> (i8 \<times> nat) option" where
  "le_i8_read m p = map_option (\<lambda>(value, q). (ucast value, q)) (le_u8_read m p)"

definition le_i8_peek :: "u8 list \<Rightarrow> nat \<Rightarrow> nat \<Rightarrow> i8 option" where
  "le_i8_peek m p n = map_option ucast (le_u8_peek m p n)"

definition le_i8_size :: nat where
  "le_i8_size = 1"

definition le_i16_store :: "u8 list \<Rightarrow> nat \<Rightarrow> i16 \<Rightarrow> (u8 list \<times> nat) option" where
  "le_i16_store m p data = le_u16_store m p (ucast data)"

definition le_i16_read :: "u8 list \<Rightarrow> nat \<Rightarrow> (i16 \<times> nat) option" where
  "le_i16_read m p = map_option (\<lambda>(value, q). (ucast value, q)) (le_u16_read m p)"

definition le_i16_peek :: "u8 list \<Rightarrow> nat \<Rightarrow> nat \<Rightarrow> i16 option" where
  "le_i16_peek m p n = map_option ucast (le_u16_peek m p n)"

definition le_i16_size :: nat where
  "le_i16_size = 2"

definition le_i32_store :: "u8 list \<Rightarrow> nat \<Rightarrow> i32 \<Rightarrow> (u8 list \<times> nat) option" where
  "le_i32_store m p data = le_u32_store m p (ucast data)"

definition le_i32_read :: "u8 list \<Rightarrow> nat \<Rightarrow> (i32 \<times> nat) option" where
  "le_i32_read m p = map_option (\<lambda>(value, q). (ucast value, q)) (le_u32_read m p)"

definition le_i32_peek :: "u8 list \<Rightarrow> nat \<Rightarrow> nat \<Rightarrow> i32 option" where
  "le_i32_peek m p n = map_option ucast (le_u32_peek m p n)"

definition le_i32_size :: nat where
  "le_i32_size = 4"

definition le_i64_store :: "u8 list \<Rightarrow> nat \<Rightarrow> i64 \<Rightarrow> (u8 list \<times> nat) option" where
  "le_i64_store m p data = le_u64_store m p (ucast data)"

definition le_i64_read :: "u8 list \<Rightarrow> nat \<Rightarrow> (i64 \<times> nat) option" where
  "le_i64_read m p = map_option (\<lambda>(value, q). (ucast value, q)) (le_u64_read m p)"

definition le_i64_peek :: "u8 list \<Rightarrow> nat \<Rightarrow> nat \<Rightarrow> i64 option" where
  "le_i64_peek m p n = map_option ucast (le_u64_peek m p n)"

definition le_i64_size :: nat where
  "le_i64_size = 8"

definition le_float_store :: "u8 list \<Rightarrow> nat \<Rightarrow> u32 \<Rightarrow> (u8 list \<times> nat) option" where
  "le_float_store m p data = le_u32_store m p data"

definition le_float_read :: "u8 list \<Rightarrow> nat \<Rightarrow> (u32 \<times> nat) option" where
  "le_float_read m p = le_u32_read m p"

definition le_float_peek :: "u8 list \<Rightarrow> nat \<Rightarrow> nat \<Rightarrow> u32 option" where
  "le_float_peek m p n = le_u32_peek m p n"

definition le_float_size :: nat where
  "le_float_size = 4"

definition le_double_store :: "u8 list \<Rightarrow> nat \<Rightarrow> u64 \<Rightarrow> (u8 list \<times> nat) option" where
  "le_double_store m p data = le_u64_store m p data"

definition le_double_read :: "u8 list \<Rightarrow> nat \<Rightarrow> (u64 \<times> nat) option" where
  "le_double_read m p = le_u64_read m p"

definition le_double_peek :: "u8 list \<Rightarrow> nat \<Rightarrow> nat \<Rightarrow> u64 option" where
  "le_double_peek m p n = le_u64_peek m p n"

definition le_double_size :: nat where
  "le_double_size = 8"

subsection \<open>The contract\<close>

text \<open>The byte sequence of a value, and the value of a byte sequence.\<close>

definition le_u8_bytes :: "u8 \<Rightarrow> u8 list" where
  "le_u8_bytes data = [data]"

definition le_u8_value :: "u8 list \<Rightarrow> u8" where
  "le_u8_value bs = (bs ! 0)"

lemma le_u8_value_bytes: "le_u8_value (le_u8_bytes v) = v"
  by (simp add: le_u8_value_def le_u8_bytes_def)

interpretation le_u8: exact_codec 1 le_u8_bytes le_u8_value le_u8_store
    le_u8_read le_u8_peek
proof
  fix m p n v and bs :: "u8 list"
  show "length (le_u8_bytes v) = 1" by (simp add: le_u8_bytes_def)
  show "le_u8_value (le_u8_bytes v) = v" by (rule le_u8_value_bytes)
  show "le_u8_store m p v = map_option (\<lambda>m. (m, p + 1)) (acopy m p (le_u8_bytes v))"
    by (simp add: le_u8_store_def awrites_acopy le_u8_bytes_def map_conv_bind_option del: awrites.simps)
  show rd: "le_u8_read m p =
      (if p + 1 \<le> length m then Some (le_u8_value (take 1 (drop p m)), p + 1) else None)" for m p
    by (simp add: le_u8_read_def le_u8_value_def aread_def)
  show "le_u8_peek m p n = map_option fst (le_u8_read m (p + n))"
    by (simp add: le_u8_peek_def le_u8_read_def map_conv_bind_option)
  show "length bs = 1 \<Longrightarrow> le_u8_bytes (le_u8_value bs) = bs"
    by (auto simp: le_u8_bytes_def le_u8_value_def length_Suc_conv)
qed simp

definition le_u16_bytes :: "u16 \<Rightarrow> u8 list" where
  "le_u16_bytes data = [ucast (drop_bit 0 data), ucast (drop_bit 8 data)]"

definition le_u16_value :: "u8 list \<Rightarrow> u16" where
  "le_u16_value bs = (push_bit 8 (ucast (bs ! 1)) OR push_bit 0 (ucast (bs ! 0)))"

lemma le_u16_value_bytes: "le_u16_value (le_u16_bytes v) = v"
proof -
  have "le_u16_value (le_u16_bytes v) = take_bit 16 v"
    unfolding le_u16_value_def le_u16_bytes_def list_nth_simps byte_merge_0 byte_merge ..
  then show ?thesis by (simp add: take_bit_all)
qed

lemma le_u16_value_byte:
  shows "ucast (drop_bit 0 (le_u16_value [a, b])) = a"
    "ucast (drop_bit 8 (le_u16_value [a, b])) = b"
  unfolding le_u16_value_def list_nth_simps
  by (rule bit_word_eqI, auto simp add: byte_bits dest: bit_imp_le_length)+

lemma le_u16_bytes_value: "length bs = 2 \<Longrightarrow> le_u16_bytes (le_u16_value bs) = bs"
  by (elim length_2E) (simp only: le_u16_bytes_def le_u16_value_byte)

interpretation le_u16: exact_codec 2 le_u16_bytes le_u16_value le_u16_store
    le_u16_read le_u16_peek
proof
  fix m p n v and bs :: "u8 list"
  show "length (le_u16_bytes v) = 2" by (simp add: le_u16_bytes_def)
  show "le_u16_value (le_u16_bytes v) = v" by (rule le_u16_value_bytes)
  show "le_u16_store m p v = map_option (\<lambda>m. (m, p + 2)) (acopy m p (le_u16_bytes v))"
    by (simp add: le_u16_store_def awrites_acopy le_u16_bytes_def map_conv_bind_option del: awrites.simps)
  show rd: "le_u16_read m p =
      (if p + 2 \<le> length m then Some (le_u16_value (take 2 (drop p m)), p + 2) else None)" for m p
    by (simp add: le_u16_read_def le_u16_value_def aread_def)
  show "le_u16_peek m p n = map_option fst (le_u16_read m (p + n))"
    by (simp add: le_u16_peek_def le_u16_read_def map_conv_bind_option)
  show "length bs = 2 \<Longrightarrow> le_u16_bytes (le_u16_value bs) = bs"
    by (rule le_u16_bytes_value)
qed simp

definition le_u32_bytes :: "u32 \<Rightarrow> u8 list" where
  "le_u32_bytes data = [ucast (drop_bit 0 data), ucast (drop_bit 8 data), ucast (drop_bit 16 data), ucast (drop_bit 24 data)]"

definition le_u32_value :: "u8 list \<Rightarrow> u32" where
  "le_u32_value bs = (push_bit 24 (ucast (bs ! 3)) OR push_bit 16 (ucast (bs ! 2)) OR
     push_bit 8 (ucast (bs ! 1)) OR push_bit 0 (ucast (bs ! 0)))"

lemma le_u32_value_bytes: "le_u32_value (le_u32_bytes v) = v"
proof -
  have "le_u32_value (le_u32_bytes v) = take_bit 32 v"
    unfolding le_u32_value_def le_u32_bytes_def list_nth_simps byte_merge_0 byte_merge ..
  then show ?thesis by (simp add: take_bit_all)
qed

lemma le_u32_value_byte:
  shows "ucast (drop_bit 0 (le_u32_value [a, b, c, d])) = a"
    "ucast (drop_bit 8 (le_u32_value [a, b, c, d])) = b"
    "ucast (drop_bit 16 (le_u32_value [a, b, c, d])) = c"
    "ucast (drop_bit 24 (le_u32_value [a, b, c, d])) = d"
  unfolding le_u32_value_def list_nth_simps
  by (rule bit_word_eqI, auto simp add: byte_bits dest: bit_imp_le_length)+

lemma le_u32_bytes_value: "length bs = 4 \<Longrightarrow> le_u32_bytes (le_u32_value bs) = bs"
  by (elim length_4E) (simp only: le_u32_bytes_def le_u32_value_byte)

interpretation le_u32: exact_codec 4 le_u32_bytes le_u32_value le_u32_store
    le_u32_read le_u32_peek
proof
  fix m p n v and bs :: "u8 list"
  show "length (le_u32_bytes v) = 4" by (simp add: le_u32_bytes_def)
  show "le_u32_value (le_u32_bytes v) = v" by (rule le_u32_value_bytes)
  show "le_u32_store m p v = map_option (\<lambda>m. (m, p + 4)) (acopy m p (le_u32_bytes v))"
    by (simp add: le_u32_store_def awrites_acopy le_u32_bytes_def map_conv_bind_option del: awrites.simps)
  show rd: "le_u32_read m p =
      (if p + 4 \<le> length m then Some (le_u32_value (take 4 (drop p m)), p + 4) else None)" for m p
    by (simp add: le_u32_read_def le_u32_value_def aread_def)
  show "le_u32_peek m p n = map_option fst (le_u32_read m (p + n))"
    by (simp add: le_u32_peek_def le_u32_read_def map_conv_bind_option)
  show "length bs = 4 \<Longrightarrow> le_u32_bytes (le_u32_value bs) = bs"
    by (rule le_u32_bytes_value)
qed simp

definition le_u64_bytes :: "u64 \<Rightarrow> u8 list" where
  "le_u64_bytes data = [ucast (drop_bit 0 data), ucast (drop_bit 8 data), ucast (drop_bit 16 data), ucast (drop_bit 24 data),
     ucast (drop_bit 32 data), ucast (drop_bit 40 data), ucast (drop_bit 48 data), ucast (drop_bit 56 data)]"

definition le_u64_value :: "u8 list \<Rightarrow> u64" where
  "le_u64_value bs = (push_bit 56 (ucast (bs ! 7)) OR push_bit 48 (ucast (bs ! 6)) OR
     push_bit 40 (ucast (bs ! 5)) OR push_bit 32 (ucast (bs ! 4)) OR
     push_bit 24 (ucast (bs ! 3)) OR push_bit 16 (ucast (bs ! 2)) OR
     push_bit 8 (ucast (bs ! 1)) OR push_bit 0 (ucast (bs ! 0)))"

lemma le_u64_value_bytes: "le_u64_value (le_u64_bytes v) = v"
proof -
  have "le_u64_value (le_u64_bytes v) = take_bit 64 v"
    unfolding le_u64_value_def le_u64_bytes_def list_nth_simps byte_merge_0 byte_merge ..
  then show ?thesis by (simp add: take_bit_all)
qed

lemma le_u64_value_byte:
  shows "ucast (drop_bit 0 (le_u64_value [a, b, c, d, e, f, g, h])) = a"
    "ucast (drop_bit 8 (le_u64_value [a, b, c, d, e, f, g, h])) = b"
    "ucast (drop_bit 16 (le_u64_value [a, b, c, d, e, f, g, h])) = c"
    "ucast (drop_bit 24 (le_u64_value [a, b, c, d, e, f, g, h])) = d"
    "ucast (drop_bit 32 (le_u64_value [a, b, c, d, e, f, g, h])) = e"
    "ucast (drop_bit 40 (le_u64_value [a, b, c, d, e, f, g, h])) = f"
    "ucast (drop_bit 48 (le_u64_value [a, b, c, d, e, f, g, h])) = g"
    "ucast (drop_bit 56 (le_u64_value [a, b, c, d, e, f, g, h])) = h"
  unfolding le_u64_value_def list_nth_simps
  by (rule bit_word_eqI, auto simp add: byte_bits dest: bit_imp_le_length)+

lemma le_u64_bytes_value: "length bs = 8 \<Longrightarrow> le_u64_bytes (le_u64_value bs) = bs"
  by (elim length_8E) (simp only: le_u64_bytes_def le_u64_value_byte)

interpretation le_u64: exact_codec 8 le_u64_bytes le_u64_value le_u64_store
    le_u64_read le_u64_peek
proof
  fix m p n v and bs :: "u8 list"
  show "length (le_u64_bytes v) = 8" by (simp add: le_u64_bytes_def)
  show "le_u64_value (le_u64_bytes v) = v" by (rule le_u64_value_bytes)
  show "le_u64_store m p v = map_option (\<lambda>m. (m, p + 8)) (acopy m p (le_u64_bytes v))"
    by (simp add: le_u64_store_def awrites_acopy le_u64_bytes_def map_conv_bind_option del: awrites.simps)
  show rd: "le_u64_read m p =
      (if p + 8 \<le> length m then Some (le_u64_value (take 8 (drop p m)), p + 8) else None)" for m p
    by (simp add: le_u64_read_def le_u64_value_def aread_def)
  show "le_u64_peek m p n = map_option fst (le_u64_read m (p + n))"
    by (simp add: le_u64_peek_def le_u64_read_def map_conv_bind_option)
  show "length bs = 8 \<Longrightarrow> le_u64_bytes (le_u64_value bs) = bs"
    by (rule le_u64_bytes_value)
qed simp

interpretation le_bool: scalar_codec 1 "\<lambda>b. [if b then 1 else 0]" "\<lambda>bs. bs ! 0 \<noteq> 0" le_bool_store
    le_bool_read le_bool_peek
proof
  fix m p n v
  show "le_bool_store m p v = map_option (\<lambda>m. (m, p + 1)) (acopy m p [if v then 1 else 0])"
    by (simp add: le_bool_store_def awrites_acopy map_conv_bind_option del: awrites.simps)
  show rd: "le_bool_read m p =
      (if p + 1 \<le> length m then Some (take 1 (drop p m) ! 0 \<noteq> 0, p + 1) else None)" for m p
    by (simp add: le_bool_read_def aread_def)
  show "le_bool_peek m p n = map_option fst (le_bool_read m (p + n))"
    by (simp add: le_bool_peek_def le_bool_read_def map_conv_bind_option)
qed simp_all

lemma le_i8_is_u8:
  "le_i8_store = le_u8_store" "le_i8_read = le_u8_read" "le_i8_peek = le_u8_peek"
  by (simp_all add: fun_eq_iff le_i8_store_def le_i8_read_def le_i8_peek_def ucast_id_simps option.map_id)

interpretation le_i8: exact_codec 1 le_u8_bytes le_u8_value le_i8_store
    le_i8_read le_i8_peek
  unfolding le_i8_is_u8 by (rule le_u8.exact_codec_axioms)

lemma le_i16_is_u16:
  "le_i16_store = le_u16_store" "le_i16_read = le_u16_read" "le_i16_peek = le_u16_peek"
  by (simp_all add: fun_eq_iff le_i16_store_def le_i16_read_def le_i16_peek_def ucast_id_simps option.map_id)

interpretation le_i16: exact_codec 2 le_u16_bytes le_u16_value le_i16_store
    le_i16_read le_i16_peek
  unfolding le_i16_is_u16 by (rule le_u16.exact_codec_axioms)

lemma le_i32_is_u32:
  "le_i32_store = le_u32_store" "le_i32_read = le_u32_read" "le_i32_peek = le_u32_peek"
  by (simp_all add: fun_eq_iff le_i32_store_def le_i32_read_def le_i32_peek_def ucast_id_simps option.map_id)

interpretation le_i32: exact_codec 4 le_u32_bytes le_u32_value le_i32_store
    le_i32_read le_i32_peek
  unfolding le_i32_is_u32 by (rule le_u32.exact_codec_axioms)

lemma le_i64_is_u64:
  "le_i64_store = le_u64_store" "le_i64_read = le_u64_read" "le_i64_peek = le_u64_peek"
  by (simp_all add: fun_eq_iff le_i64_store_def le_i64_read_def le_i64_peek_def ucast_id_simps option.map_id)

interpretation le_i64: exact_codec 8 le_u64_bytes le_u64_value le_i64_store
    le_i64_read le_i64_peek
  unfolding le_i64_is_u64 by (rule le_u64.exact_codec_axioms)

lemma le_float_is_u32:
  "le_float_store = le_u32_store" "le_float_read = le_u32_read" "le_float_peek = le_u32_peek"
  by (simp_all add: fun_eq_iff le_float_store_def le_float_read_def le_float_peek_def ucast_id_simps option.map_id)

interpretation le_float: exact_codec 4 le_u32_bytes le_u32_value le_float_store
    le_float_read le_float_peek
  unfolding le_float_is_u32 by (rule le_u32.exact_codec_axioms)

lemma le_double_is_u64:
  "le_double_store = le_u64_store" "le_double_read = le_u64_read" "le_double_peek = le_u64_peek"
  by (simp_all add: fun_eq_iff le_double_store_def le_double_read_def le_double_peek_def ucast_id_simps option.map_id)

interpretation le_double: exact_codec 8 le_u64_bytes le_u64_value le_double_store
    le_double_read le_double_peek
  unfolding le_double_is_u64 by (rule le_u64.exact_codec_axioms)

end
