(* ===== verification/Serializer.thy ===== *)
theory Serializer
  imports Serialize_Traits Serialize_LE_Traits Slices
begin

text \<open>
  \<open>Serialize\<close>, \<open>Deserialize\<close> (utils/storage/serialize.h) and \<open>SerializeLittleEndian\<close>,
  \<open>DeserializeLittleEndian\<close> (serialize_little_endian.h). An object is the memory it points into and
  its two pointers, as indices. A member template is an operation that takes the \<open>store\<close>, \<open>read\<close>,
  \<open>peek\<close> or \<open>size\<close> of the trait.

  The last part defines messages, sequences of fields of all the types, and shows in the locale
  \<open>message_codec\<close> that a message that was written is read back, for both byte orders.
\<close>

record serializer =
  szMemory :: "u8 list"
  szBuffer :: nat
  szBegin :: nat

record deserializer =
  dzMemory :: "u8 list"
  dzBuffer :: nat
  dzBegin :: nat

subsection \<open>Serialize\<close>

definition sb_new :: "u8 list \<Rightarrow> nat \<Rightarrow> serializer" where
  "sb_new m outputBuffer = \<lparr>szMemory = m, szBuffer = outputBuffer, szBegin = outputBuffer\<rparr>"

definition sb_reset :: "serializer \<Rightarrow> serializer" where
  "sb_reset s = s\<lparr>szBuffer := szBegin s\<rparr>"

definition sb_getTypeSize :: "nat \<Rightarrow> nat \<Rightarrow> nat" where
  "sb_getTypeSize typeSize n = typeSize * n"

definition sb_store ::
    "(u8 list \<Rightarrow> nat \<Rightarrow> 'a \<Rightarrow> (u8 list \<times> nat) option) \<Rightarrow> 'a \<Rightarrow> serializer \<Rightarrow> serializer option" where
  "sb_store st data s = do {
     (m, p) \<leftarrow> st (szMemory s) (szBuffer s) data; Some (s\<lparr>szMemory := m, szBuffer := p\<rparr>) }"

definition sb_storeObject ::
    "(u8 list \<Rightarrow> nat \<Rightarrow> 'a \<Rightarrow> (u8 list \<times> nat) option) \<Rightarrow> 'a \<Rightarrow> serializer \<Rightarrow> serializer option" where
  "sb_storeObject st data s = do {
     (m, p) \<leftarrow> st (szMemory s) (szBuffer s) data; Some (s\<lparr>szMemory := m, szBuffer := p\<rparr>) }"

definition sb_store24 :: "u32 \<Rightarrow> serializer \<Rightarrow> serializer option" where
  "sb_store24 data s = do {
     m \<leftarrow> awrites (szMemory s) (szBuffer s) [ucast (drop_bit 16 data), ucast (drop_bit 8 data), ucast (drop_bit 0 data)];
     Some (s\<lparr>szMemory := m, szBuffer := szBuffer s + 3\<rparr>) }"

definition sb_storePacked12 :: "u16 \<Rightarrow> u16 \<Rightarrow> serializer \<Rightarrow> serializer option" where
  "sb_storePacked12 first second s = do {
     m \<leftarrow> awrites (szMemory s) (szBuffer s) [ucast (drop_bit 4 first),
       ucast ((push_bit 4 first AND 0xF0) OR (drop_bit 8 second AND 0x0F)), ucast (drop_bit 0 second)];
     Some (s\<lparr>szMemory := m, szBuffer := szBuffer s + 3\<rparr>) }"

text \<open>The buffer is a pointer (\<open>None\<close>: null) to the bytes that can be read there.\<close>

definition sb_storeBuffer :: "u8 list option \<Rightarrow> size_t \<Rightarrow> serializer \<Rightarrow> serializer option" where
  "sb_storeBuffer buffer n s =
     (case buffer of
        None \<Rightarrow> Some s
      | Some bytes \<Rightarrow>
          if n \<noteq> 0 then
            if n \<le> length bytes then do {
              m \<leftarrow> acopy (szMemory s) (szBuffer s) (take n bytes);
              Some (s\<lparr>szMemory := m, szBuffer := szBuffer s + n\<rparr>) }
            else None
          else Some s)"

definition sb_storeBytes :: "u8 list \<Rightarrow> serializer \<Rightarrow> serializer option" where
  "sb_storeBytes bytes s =
     (if length bytes \<noteq> 0 then do {
        m \<leftarrow> acopy (szMemory s) (szBuffer s) bytes;
        Some (s\<lparr>szMemory := m, szBuffer := szBuffer s + length bytes\<rparr>) }
      else Some s)"

definition sb_storeFixedBytes :: "u8 list \<Rightarrow> serializer \<Rightarrow> serializer option" where
  "sb_storeFixedBytes bytes s =
     (if length bytes \<noteq> 0 then do {
        m \<leftarrow> acopy (szMemory s) (szBuffer s) bytes;
        Some (s\<lparr>szMemory := m, szBuffer := szBuffer s + length bytes\<rparr>) }
      else Some s)"

definition sb_storeSlice ::
    "(u8 list \<Rightarrow> nat \<Rightarrow> 'a \<Rightarrow> (u8 list \<times> nat) option) \<Rightarrow> 'a list \<Rightarrow> serializer \<Rightarrow> serializer option" where
  "sb_storeSlice st array s = do {
     (m, p) \<leftarrow> store_slice st (szMemory s) (szBuffer s) array;
     Some (s\<lparr>szMemory := m, szBuffer := p\<rparr>) }"

definition sb_skip :: "size_t \<Rightarrow> serializer \<Rightarrow> serializer" where
  "sb_skip bytes s = s\<lparr>szBuffer := szBuffer s + bytes\<rparr>"

definition sb_skipType :: "nat \<Rightarrow> serializer \<Rightarrow> serializer" where
  "sb_skipType n s = s\<lparr>szBuffer := szBuffer s + n\<rparr>"

definition sb_getPointer :: "serializer \<Rightarrow> nat" where
  "sb_getPointer s = szBegin s"

definition sb_getPosition :: "serializer \<Rightarrow> int" where
  "sb_getPosition s = int (szBuffer s) - int (szBegin s)"

definition sb_getPointerToCurrentPosition :: "serializer \<Rightarrow> nat" where
  "sb_getPointerToCurrentPosition s = szBuffer s"

definition sb_asSlice :: "serializer \<Rightarrow> slice" where
  "sb_asSlice s = slice_unsafe (Some (szBegin s)) (nat (sb_getPosition s mod 2 ^ size_bits))"

definition sb_shift_in ::
    "(u8 list \<Rightarrow> nat \<Rightarrow> 'a \<Rightarrow> (u8 list \<times> nat) option) \<Rightarrow> 'a \<Rightarrow> serializer \<Rightarrow> serializer option" where
  "sb_shift_in st data s = sb_store st data s"

subsection \<open>Deserialize\<close>

definition db_new :: "u8 list \<Rightarrow> nat \<Rightarrow> deserializer" where
  "db_new m inputBuffer = \<lparr>dzMemory = m, dzBuffer = inputBuffer, dzBegin = inputBuffer\<rparr>"

definition db_reset :: "deserializer \<Rightarrow> deserializer" where
  "db_reset d = d\<lparr>dzBuffer := dzBegin d\<rparr>"

definition db_peek ::
    "(u8 list \<Rightarrow> nat \<Rightarrow> nat \<Rightarrow> 'a option) \<Rightarrow> size_t \<Rightarrow> deserializer \<Rightarrow> 'a option" where
  "db_peek pk n d = pk (dzMemory d) (dzBuffer d) n"

definition db_read ::
    "(u8 list \<Rightarrow> nat \<Rightarrow> ('a \<times> nat) option) \<Rightarrow> deserializer \<Rightarrow> ('a \<times> deserializer) option" where
  "db_read rd d = do { (v, p) \<leftarrow> rd (dzMemory d) (dzBuffer d); Some (v, d\<lparr>dzBuffer := p\<rparr>) }"

text \<open>The bytes that arrive in an array of \<open>n\<close> bytes.\<close>

definition db_readBytes :: "size_t \<Rightarrow> deserializer \<Rightarrow> (u8 list \<times> deserializer) option" where
  "db_readBytes n d =
     (if dzBuffer d + n \<le> length (dzMemory d)
      then Some (take n (drop (dzBuffer d) (dzMemory d)), d\<lparr>dzBuffer := dzBuffer d + n\<rparr>)
      else None)"

definition db_readSlice ::
    "(u8 list \<Rightarrow> nat \<Rightarrow> ('a \<times> nat) option) \<Rightarrow> size_t \<Rightarrow> deserializer \<Rightarrow> ('a list \<times> deserializer) option" where
  "db_readSlice rd n d = do {
     (vs, p) \<leftarrow> read_slice rd (dzMemory d) (dzBuffer d) n; Some (vs, d\<lparr>dzBuffer := p\<rparr>) }"

definition db_readUnsigned24 :: "deserializer \<Rightarrow> (u32 \<times> deserializer) option" where
  "db_readUnsigned24 d = do {
     b0 \<leftarrow> aread (dzMemory d) (dzBuffer d + 0); b1 \<leftarrow> aread (dzMemory d) (dzBuffer d + 1);
     b2 \<leftarrow> aread (dzMemory d) (dzBuffer d + 2);
     Some (push_bit 16 (ucast b0) OR push_bit 8 (ucast b1) OR push_bit 0 (ucast b2), d\<lparr>dzBuffer := dzBuffer d + 3\<rparr>) }"

definition db_readSigned24 :: "deserializer \<Rightarrow> (i32 \<times> deserializer) option" where
  "db_readSigned24 d = do {
     b0 \<leftarrow> aread (dzMemory d) (dzBuffer d + 0); b1 \<leftarrow> aread (dzMemory d) (dzBuffer d + 1);
     b2 \<leftarrow> aread (dzMemory d) (dzBuffer d + 2);
     let value = push_bit 16 (ucast b0) OR push_bit 8 (ucast b1) OR push_bit 0 (ucast b2);
         value = (if 0x00800000 AND value \<noteq> 0 then value OR 0xFF000000 else value)
     in Some (value, d\<lparr>dzBuffer := dzBuffer d + 3\<rparr>) }"

definition db_peek24 :: "size_t \<Rightarrow> deserializer \<Rightarrow> u32 option" where
  "db_peek24 n d = do {
     b0 \<leftarrow> aread (dzMemory d) (dzBuffer d + n + 0); b1 \<leftarrow> aread (dzMemory d) (dzBuffer d + n + 1);
     b2 \<leftarrow> aread (dzMemory d) (dzBuffer d + n + 2);
     Some (push_bit 16 (ucast b0) OR push_bit 8 (ucast b1) OR push_bit 0 (ucast b2)) }"

definition db_readBuffer :: "size_t \<Rightarrow> deserializer \<Rightarrow> (u8 list \<times> deserializer) option" where
  "db_readBuffer n d =
     (if dzBuffer d + n \<le> length (dzMemory d)
      then Some (take n (drop (dzBuffer d) (dzMemory d)), d\<lparr>dzBuffer := dzBuffer d + n\<rparr>)
      else None)"

definition db_peekBuffer :: "size_t \<Rightarrow> deserializer \<Rightarrow> u8 list option" where
  "db_peekBuffer n d =
     (if dzBuffer d + n \<le> length (dzMemory d)
      then Some (take n (drop (dzBuffer d) (dzMemory d))) else None)"

definition db_readPacked12 :: "deserializer \<Rightarrow> ((u16 \<times> u16) \<times> deserializer) option" where
  "db_readPacked12 d = do {
     b0 \<leftarrow> aread (dzMemory d) (dzBuffer d + 0); b1 \<leftarrow> aread (dzMemory d) (dzBuffer d + 1);
     b2 \<leftarrow> aread (dzMemory d) (dzBuffer d + 2);
     let first = ucast (push_bit 4 (ucast b0 :: u32)) OR ucast (drop_bit 4 (ucast b1 :: u32));
         second = ucast (push_bit 8 (ucast (b1 AND 0x0F) :: u32)) OR ucast (ucast b2 :: u32)
     in Some ((first, second), d\<lparr>dzBuffer := dzBuffer d + 3\<rparr>) }"

definition db_peekPacked12 :: "size_t \<Rightarrow> deserializer \<Rightarrow> (u16 \<times> u16) option" where
  "db_peekPacked12 n d = do {
     b0 \<leftarrow> aread (dzMemory d) (dzBuffer d + n + 0); b1 \<leftarrow> aread (dzMemory d) (dzBuffer d + n + 1);
     b2 \<leftarrow> aread (dzMemory d) (dzBuffer d + n + 2);
     let first = ucast (push_bit 4 (ucast b0 :: u32)) OR ucast (drop_bit 4 (ucast b1 :: u32));
         second = ucast (push_bit 8 (ucast (b1 AND 0x0F) :: u32)) OR ucast (ucast b2 :: u32)
     in Some (first, second) }"

definition db_skip :: "size_t \<Rightarrow> deserializer \<Rightarrow> deserializer" where
  "db_skip bytes d = d\<lparr>dzBuffer := dzBuffer d + bytes\<rparr>"

definition db_skipType :: "nat \<Rightarrow> deserializer \<Rightarrow> deserializer" where
  "db_skipType n d = d\<lparr>dzBuffer := dzBuffer d + n\<rparr>"

definition db_shift_out ::
    "(u8 list \<Rightarrow> nat \<Rightarrow> ('a \<times> nat) option) \<Rightarrow> deserializer \<Rightarrow> ('a \<times> deserializer) option" where
  "db_shift_out rd d = db_read rd d"

definition db_getPointer :: "deserializer \<Rightarrow> nat" where
  "db_getPointer d = dzBegin d"

definition db_getPointerToCurrentPosition :: "deserializer \<Rightarrow> nat" where
  "db_getPointerToCurrentPosition d = dzBuffer d"

definition db_getPosition :: "deserializer \<Rightarrow> int" where
  "db_getPosition d = int (dzBuffer d) - int (dzBegin d)"

definition db_asSlice :: "deserializer \<Rightarrow> slice" where
  "db_asSlice d = slice_unsafe (Some (dzBegin d)) (nat (db_getPosition d mod 2 ^ size_bits))"

subsection \<open>SerializeLittleEndian\<close>

definition sl_new :: "u8 list \<Rightarrow> nat \<Rightarrow> serializer" where
  "sl_new m outputBuffer = \<lparr>szMemory = m, szBuffer = outputBuffer, szBegin = outputBuffer\<rparr>"

definition sl_reset :: "serializer \<Rightarrow> serializer" where
  "sl_reset s = s\<lparr>szBuffer := szBegin s\<rparr>"

definition sl_store ::
    "(u8 list \<Rightarrow> nat \<Rightarrow> 'a \<Rightarrow> (u8 list \<times> nat) option) \<Rightarrow> 'a \<Rightarrow> serializer \<Rightarrow> serializer option" where
  "sl_store st data s = do {
     (m, p) \<leftarrow> st (szMemory s) (szBuffer s) data; Some (s\<lparr>szMemory := m, szBuffer := p\<rparr>) }"

definition sl_storeObject ::
    "(u8 list \<Rightarrow> nat \<Rightarrow> 'a \<Rightarrow> (u8 list \<times> nat) option) \<Rightarrow> 'a \<Rightarrow> serializer \<Rightarrow> serializer option" where
  "sl_storeObject st data s = do {
     (m, p) \<leftarrow> st (szMemory s) (szBuffer s) data; Some (s\<lparr>szMemory := m, szBuffer := p\<rparr>) }"

definition sl_store24 :: "u32 \<Rightarrow> serializer \<Rightarrow> serializer option" where
  "sl_store24 data s = do {
     m \<leftarrow> awrites (szMemory s) (szBuffer s) [ucast (drop_bit 0 data), ucast (drop_bit 8 data), ucast (drop_bit 16 data)];
     Some (s\<lparr>szMemory := m, szBuffer := szBuffer s + 3\<rparr>) }"

definition sl_storePacked12 :: "u16 \<Rightarrow> u16 \<Rightarrow> serializer \<Rightarrow> serializer option" where
  "sl_storePacked12 first second s = do {
     m \<leftarrow> awrites (szMemory s) (szBuffer s) [ucast (drop_bit 0 first),
       ucast ((drop_bit 4 first AND 0xF0) OR (second AND 0x0F)), ucast (drop_bit 4 second)];
     Some (s\<lparr>szMemory := m, szBuffer := szBuffer s + 3\<rparr>) }"

definition sl_storeBuffer :: "u8 list option \<Rightarrow> size_t \<Rightarrow> serializer \<Rightarrow> serializer option" where
  "sl_storeBuffer buffer n s =
     (case buffer of
        None \<Rightarrow> None
      | Some bytes \<Rightarrow>
          if n \<le> length bytes then do {
            m \<leftarrow> acopy (szMemory s) (szBuffer s) (take n bytes);
            Some (s\<lparr>szMemory := m, szBuffer := szBuffer s + n\<rparr>) }
          else None)"

definition sl_storeBytes :: "u8 list \<Rightarrow> serializer \<Rightarrow> serializer option" where
  "sl_storeBytes bytes s = do {
     m \<leftarrow> acopy (szMemory s) (szBuffer s) bytes;
     Some (s\<lparr>szMemory := m, szBuffer := szBuffer s + length bytes\<rparr>) }"

definition sl_skip :: "size_t \<Rightarrow> serializer \<Rightarrow> serializer" where
  "sl_skip bytes s = s\<lparr>szBuffer := szBuffer s + bytes\<rparr>"

definition sl_skipType :: "nat \<Rightarrow> serializer \<Rightarrow> serializer" where
  "sl_skipType n s = s\<lparr>szBuffer := szBuffer s + n\<rparr>"

definition sl_getPointer :: "serializer \<Rightarrow> nat" where
  "sl_getPointer s = szBegin s"

definition sl_getPosition :: "serializer \<Rightarrow> int" where
  "sl_getPosition s = int (szBuffer s) - int (szBegin s)"

definition sl_getPointerToCurrentPosition :: "serializer \<Rightarrow> nat" where
  "sl_getPointerToCurrentPosition s = szBuffer s"

definition sl_asSlice :: "serializer \<Rightarrow> slice" where
  "sl_asSlice s = slice_unsafe (Some (szBegin s)) (nat (sl_getPosition s mod 2 ^ size_bits))"

definition sl_shift_in ::
    "(u8 list \<Rightarrow> nat \<Rightarrow> 'a \<Rightarrow> (u8 list \<times> nat) option) \<Rightarrow> 'a \<Rightarrow> serializer \<Rightarrow> serializer option" where
  "sl_shift_in st data s = sl_store st data s"

subsection \<open>DeserializeLittleEndian\<close>

definition dl_new :: "u8 list \<Rightarrow> nat \<Rightarrow> deserializer" where
  "dl_new m inputBuffer = \<lparr>dzMemory = m, dzBuffer = inputBuffer, dzBegin = inputBuffer\<rparr>"

definition dl_reset :: "deserializer \<Rightarrow> deserializer" where
  "dl_reset d = d\<lparr>dzBuffer := dzBegin d\<rparr>"

definition dl_peek ::
    "(u8 list \<Rightarrow> nat \<Rightarrow> nat \<Rightarrow> 'a option) \<Rightarrow> size_t \<Rightarrow> deserializer \<Rightarrow> 'a option" where
  "dl_peek pk n d = pk (dzMemory d) (dzBuffer d) n"

definition dl_read ::
    "(u8 list \<Rightarrow> nat \<Rightarrow> ('a \<times> nat) option) \<Rightarrow> deserializer \<Rightarrow> ('a \<times> deserializer) option" where
  "dl_read rd d = do { (v, p) \<leftarrow> rd (dzMemory d) (dzBuffer d); Some (v, d\<lparr>dzBuffer := p\<rparr>) }"

definition dl_readSlice ::
    "(u8 list \<Rightarrow> nat \<Rightarrow> ('a \<times> nat) option) \<Rightarrow> size_t \<Rightarrow> deserializer \<Rightarrow> ('a list \<times> deserializer) option" where
  "dl_readSlice rd n d = do {
     (vs, p) \<leftarrow> read_slice rd (dzMemory d) (dzBuffer d) n; Some (vs, d\<lparr>dzBuffer := p\<rparr>) }"

definition dl_read24 :: "deserializer \<Rightarrow> (u32 \<times> deserializer) option" where
  "dl_read24 d = do {
     b0 \<leftarrow> aread (dzMemory d) (dzBuffer d + 0); b1 \<leftarrow> aread (dzMemory d) (dzBuffer d + 1);
     b2 \<leftarrow> aread (dzMemory d) (dzBuffer d + 2);
     Some (push_bit 16 (ucast b2) OR push_bit 8 (ucast b1) OR push_bit 0 (ucast b0), d\<lparr>dzBuffer := dzBuffer d + 3\<rparr>) }"

definition dl_peek24 :: "size_t \<Rightarrow> deserializer \<Rightarrow> u32 option" where
  "dl_peek24 n d = do {
     b0 \<leftarrow> aread (dzMemory d) (dzBuffer d + n + 0); b1 \<leftarrow> aread (dzMemory d) (dzBuffer d + n + 1);
     b2 \<leftarrow> aread (dzMemory d) (dzBuffer d + n + 2);
     Some (push_bit 16 (ucast b2) OR push_bit 8 (ucast b1) OR push_bit 0 (ucast b0)) }"

definition dl_readBuffer :: "size_t \<Rightarrow> deserializer \<Rightarrow> (u8 list \<times> deserializer) option" where
  "dl_readBuffer n d =
     (if dzBuffer d + n \<le> length (dzMemory d)
      then Some (take n (drop (dzBuffer d) (dzMemory d)), d\<lparr>dzBuffer := dzBuffer d + n\<rparr>)
      else None)"

definition dl_peekBuffer :: "size_t \<Rightarrow> deserializer \<Rightarrow> u8 list option" where
  "dl_peekBuffer n d =
     (if dzBuffer d + n \<le> length (dzMemory d)
      then Some (take n (drop (dzBuffer d) (dzMemory d))) else None)"

definition dl_readPacked12 :: "deserializer \<Rightarrow> ((u16 \<times> u16) \<times> deserializer) option" where
  "dl_readPacked12 d = do {
     b0 \<leftarrow> aread (dzMemory d) (dzBuffer d + 0); b1 \<leftarrow> aread (dzMemory d) (dzBuffer d + 1);
     b2 \<leftarrow> aread (dzMemory d) (dzBuffer d + 2);
     let first = ucast b0 OR push_bit 4 (ucast (b1 AND 0xF0));
         second = ucast (b1 AND 0x0F) OR push_bit 4 (ucast b2)
     in Some ((first, second), d\<lparr>dzBuffer := dzBuffer d + 3\<rparr>) }"

definition dl_peekPacked12 :: "size_t \<Rightarrow> deserializer \<Rightarrow> (u16 \<times> u16) option" where
  "dl_peekPacked12 n d = do {
     b0 \<leftarrow> aread (dzMemory d) (dzBuffer d + n + 0); b1 \<leftarrow> aread (dzMemory d) (dzBuffer d + n + 1);
     b2 \<leftarrow> aread (dzMemory d) (dzBuffer d + n + 2);
     let first = ucast b0 OR push_bit 4 (ucast (b1 AND 0xF0));
         second = ucast (b1 AND 0x0F) OR push_bit 4 (ucast b2)
     in Some (first, second) }"

definition dl_skip :: "size_t \<Rightarrow> deserializer \<Rightarrow> deserializer" where
  "dl_skip bytes d = d\<lparr>dzBuffer := dzBuffer d + bytes\<rparr>"

definition dl_skipType :: "nat \<Rightarrow> deserializer \<Rightarrow> deserializer" where
  "dl_skipType n d = d\<lparr>dzBuffer := dzBuffer d + n\<rparr>"

definition dl_shift_out ::
    "(u8 list \<Rightarrow> nat \<Rightarrow> ('a \<times> nat) option) \<Rightarrow> deserializer \<Rightarrow> ('a \<times> deserializer) option" where
  "dl_shift_out rd d = dl_read rd d"

definition dl_getPointer :: "deserializer \<Rightarrow> nat" where
  "dl_getPointer d = dzBegin d"

definition dl_getPointerToCurrentPosition :: "deserializer \<Rightarrow> nat" where
  "dl_getPointerToCurrentPosition d = dzBuffer d"

definition dl_getPosition :: "deserializer \<Rightarrow> int" where
  "dl_getPosition d = int (dzBuffer d) - int (dzBegin d)"

definition dl_asSlice :: "deserializer \<Rightarrow> slice" where
  "dl_asSlice d = slice_unsafe (Some (dzBegin d)) (nat (dl_getPosition d mod 2 ^ size_bits))"

subsection \<open>Messages\<close>

text \<open>
  A field of a message, and its kind (what a reader has to know). 24 bit and packed 12 bit values
  are stored from wider variables; \<open>field_ok\<close> says that they fit.
\<close>

datatype field = FBool bool | FU8 u8 | FU16 u16 | FU24 u32 | FU32 u32 | FU64 u64
  | FI8 i8 | FI16 i16 | FI32 i32 | FI64 i64 | FFloat u32 | FDouble u64
  | FPacked12 u16 u16 | FBytes "u8 list"

datatype kind = KBool | KU8 | KU16 | KU24 | KU32 | KU64 | KI8 | KI16 | KI32 | KI64
  | KFloat | KDouble | KPacked12 | KBytes nat

fun kind_of :: "field \<Rightarrow> kind" where
  "kind_of (FBool b) = KBool" | "kind_of (FU8 v) = KU8" | "kind_of (FU16 v) = KU16"
| "kind_of (FU24 v) = KU24" | "kind_of (FU32 v) = KU32" | "kind_of (FU64 v) = KU64"
| "kind_of (FI8 v) = KI8" | "kind_of (FI16 v) = KI16" | "kind_of (FI32 v) = KI32"
| "kind_of (FI64 v) = KI64" | "kind_of (FFloat v) = KFloat" | "kind_of (FDouble v) = KDouble"
| "kind_of (FPacked12 a b) = KPacked12" | "kind_of (FBytes bs) = KBytes (length bs)"

fun field_ok :: "field \<Rightarrow> bool" where
  "field_ok (FU24 v) = (v < 2 ^ 24)"
| "field_ok (FPacked12 a b) = (a < 2 ^ 12 \<and> b < 2 ^ 12)"
| "field_ok _ = True"

fun field_size :: "kind \<Rightarrow> nat" where
  "field_size KBool = 1" | "field_size KU8 = 1" | "field_size KU16 = 2" | "field_size KU24 = 3"
| "field_size KU32 = 4" | "field_size KU64 = 8" | "field_size KI8 = 1" | "field_size KI16 = 2"
| "field_size KI32 = 4" | "field_size KI64 = 8" | "field_size KFloat = 4" | "field_size KDouble = 8"
| "field_size KPacked12 = 3" | "field_size (KBytes n) = n"

fun sb_put :: "field \<Rightarrow> serializer \<Rightarrow> serializer option" where
  "sb_put (FBool b) = sb_store be_bool_store b"
| "sb_put (FU8 v) = sb_store be_u8_store v"
| "sb_put (FU16 v) = sb_store be_u16_store v"
| "sb_put (FU24 v) = sb_store24 v"
| "sb_put (FU32 v) = sb_store be_u32_store v"
| "sb_put (FU64 v) = sb_store be_u64_store v"
| "sb_put (FI8 v) = sb_store be_i8_store v"
| "sb_put (FI16 v) = sb_store be_i16_store v"
| "sb_put (FI32 v) = sb_store be_i32_store v"
| "sb_put (FI64 v) = sb_store be_i64_store v"
| "sb_put (FFloat v) = sb_store be_float_store v"
| "sb_put (FDouble v) = sb_store be_double_store v"
| "sb_put (FPacked12 a b) = sb_storePacked12 a b"
| "sb_put (FBytes bs) = sb_storeBytes bs"

fun db_get :: "kind \<Rightarrow> deserializer \<Rightarrow> (field \<times> deserializer) option" where
  "db_get KBool d = map_option (apfst FBool) (db_read be_bool_read d)"
| "db_get KU8 d = map_option (apfst FU8) (db_read be_u8_read d)"
| "db_get KU16 d = map_option (apfst FU16) (db_read be_u16_read d)"
| "db_get KU24 d = map_option (apfst FU24) (db_readUnsigned24 d)"
| "db_get KU32 d = map_option (apfst FU32) (db_read be_u32_read d)"
| "db_get KU64 d = map_option (apfst FU64) (db_read be_u64_read d)"
| "db_get KI8 d = map_option (apfst FI8) (db_read be_i8_read d)"
| "db_get KI16 d = map_option (apfst FI16) (db_read be_i16_read d)"
| "db_get KI32 d = map_option (apfst FI32) (db_read be_i32_read d)"
| "db_get KI64 d = map_option (apfst FI64) (db_read be_i64_read d)"
| "db_get KFloat d = map_option (apfst FFloat) (db_read be_float_read d)"
| "db_get KDouble d = map_option (apfst FDouble) (db_read be_double_read d)"
| "db_get KPacked12 d = map_option (apfst (\<lambda>(a, b). FPacked12 a b)) (db_readPacked12 d)"
| "db_get (KBytes n) d = map_option (apfst FBytes) (db_readBytes n d)"

fun sl_put :: "field \<Rightarrow> serializer \<Rightarrow> serializer option" where
  "sl_put (FBool b) = sl_store le_bool_store b"
| "sl_put (FU8 v) = sl_store le_u8_store v"
| "sl_put (FU16 v) = sl_store le_u16_store v"
| "sl_put (FU24 v) = sl_store24 v"
| "sl_put (FU32 v) = sl_store le_u32_store v"
| "sl_put (FU64 v) = sl_store le_u64_store v"
| "sl_put (FI8 v) = sl_store le_i8_store v"
| "sl_put (FI16 v) = sl_store le_i16_store v"
| "sl_put (FI32 v) = sl_store le_i32_store v"
| "sl_put (FI64 v) = sl_store le_i64_store v"
| "sl_put (FFloat v) = sl_store le_float_store v"
| "sl_put (FDouble v) = sl_store le_double_store v"
| "sl_put (FPacked12 a b) = sl_storePacked12 a b"
| "sl_put (FBytes bs) = sl_storeBytes bs"

fun dl_get :: "kind \<Rightarrow> deserializer \<Rightarrow> (field \<times> deserializer) option" where
  "dl_get KBool d = map_option (apfst FBool) (dl_read le_bool_read d)"
| "dl_get KU8 d = map_option (apfst FU8) (dl_read le_u8_read d)"
| "dl_get KU16 d = map_option (apfst FU16) (dl_read le_u16_read d)"
| "dl_get KU24 d = map_option (apfst FU24) (dl_read24 d)"
| "dl_get KU32 d = map_option (apfst FU32) (dl_read le_u32_read d)"
| "dl_get KU64 d = map_option (apfst FU64) (dl_read le_u64_read d)"
| "dl_get KI8 d = map_option (apfst FI8) (dl_read le_i8_read d)"
| "dl_get KI16 d = map_option (apfst FI16) (dl_read le_i16_read d)"
| "dl_get KI32 d = map_option (apfst FI32) (dl_read le_i32_read d)"
| "dl_get KI64 d = map_option (apfst FI64) (dl_read le_i64_read d)"
| "dl_get KFloat d = map_option (apfst FFloat) (dl_read le_float_read d)"
| "dl_get KDouble d = map_option (apfst FDouble) (dl_read le_double_read d)"
| "dl_get KPacked12 d = map_option (apfst (\<lambda>(a, b). FPacked12 a b)) (dl_readPacked12 d)"
| "dl_get (KBytes n) d = map_option (apfst FBytes) (dl_readBuffer n d)"

text \<open>Writing and reading a sequence of fields.\<close>

fun put_all :: "(field \<Rightarrow> serializer \<Rightarrow> serializer option) \<Rightarrow> field list \<Rightarrow> serializer \<Rightarrow> serializer option" where
  "put_all put [] s = Some s"
| "put_all put (f # fs) s = put f s \<bind> put_all put fs"

fun get_all ::
    "(kind \<Rightarrow> deserializer \<Rightarrow> (field \<times> deserializer) option) \<Rightarrow> kind list \<Rightarrow> deserializer \<Rightarrow>
     (field list \<times> deserializer) option" where
  "get_all get [] d = Some ([], d)"
| "get_all get (k # ks) d = do { (f, d) \<leftarrow> get k d; (fs, d) \<leftarrow> get_all get ks d; Some (f # fs, d) }"

definition message_size :: "field list \<Rightarrow> nat" where
  "message_size fs = sum_list (map (\<lambda>f. field_size (kind_of f)) fs)"

locale message_codec =
  fixes bytes :: "field \<Rightarrow> u8 list"
    and put :: "field \<Rightarrow> serializer \<Rightarrow> serializer option"
    and get :: "kind \<Rightarrow> deserializer \<Rightarrow> (field \<times> deserializer) option"
  assumes bytes_length: "length (bytes f) = field_size (kind_of f)"
    and put_law: "szBuffer s \<le> length (szMemory s) \<Longrightarrow> put f s =
      map_option (\<lambda>m. s\<lparr>szMemory := m, szBuffer := szBuffer s + length (bytes f)\<rparr>)
        (acopy (szMemory s) (szBuffer s) (bytes f))"
    and get_law: "field_ok f \<Longrightarrow> dzBuffer d + length (bytes f) \<le> length (dzMemory d) \<Longrightarrow>
      take (length (bytes f)) (drop (dzBuffer d) (dzMemory d)) = bytes f \<Longrightarrow>
      get (kind_of f) d = Some (f, d\<lparr>dzBuffer := dzBuffer d + length (bytes f)\<rparr>)"
begin

lemma message_length: "length (concat (map bytes fs)) = message_size fs"
  by (induction fs) (simp_all add: message_size_def bytes_length)

lemma put_all_copy:
  "szBuffer s \<le> length (szMemory s) \<Longrightarrow> put_all put fs s =
     map_option (\<lambda>m. s\<lparr>szMemory := m, szBuffer := szBuffer s + message_size fs\<rparr>)
       (acopy (szMemory s) (szBuffer s) (concat (map bytes fs)))"
proof (induction fs arbitrary: s)
  case Nil
  then show ?case by (simp add: message_size_def)
next
  case (Cons f fs)
  show ?case
  proof (cases "acopy (szMemory s) (szBuffer s) (bytes f)")
    case None
    then show ?thesis by (simp add: put_law [OF Cons.prems] acopy_append)
  next
    case (Some m)
    let ?s = "s\<lparr>szMemory := m, szBuffer := szBuffer s + length (bytes f)\<rparr>"
    have "szBuffer ?s \<le> length (szMemory ?s)"
      using length_acopy [OF Some] Some by (simp add: acopy_eq_Some)
    from Cons.IH [OF this] Some show ?thesis
      by (simp add: put_law [OF Cons.prems] acopy_append message_size_def bytes_length add.assoc)
  qed
qed

lemma get_all_bytes:
  "list_all field_ok fs \<Longrightarrow> dzBuffer d + message_size fs \<le> length (dzMemory d) \<Longrightarrow>
   take (message_size fs) (drop (dzBuffer d) (dzMemory d)) = concat (map bytes fs) \<Longrightarrow>
     get_all get (map kind_of fs) d = Some (fs, d\<lparr>dzBuffer := dzBuffer d + message_size fs\<rparr>)"
proof (induction fs arbitrary: d)
  case Nil
  then show ?case by (simp add: message_size_def)
next
  case (Cons f fs)
  let ?n = "length (bytes f)"
  have sz: "message_size (f # fs) = ?n + message_size fs"
    by (simp add: message_size_def bytes_length)
  have all: "take (?n + message_size fs) (drop (dzBuffer d) (dzMemory d)) =
      bytes f @ concat (map bytes fs)" using Cons.prems(3) by (simp add: sz)
  from arg_cong [OF all, of "take ?n"]
  have 1: "take ?n (drop (dzBuffer d) (dzMemory d)) = bytes f" by simp
  from arg_cong [OF all, of "drop ?n"]
  have 2: "take (message_size fs) (drop (dzBuffer d + ?n) (dzMemory d)) = concat (map bytes fs)"
    by (simp add: drop_take add.commute)
  have "get (kind_of f) d = Some (f, d\<lparr>dzBuffer := dzBuffer d + ?n\<rparr>)"
    using Cons.prems sz by (intro get_law 1) simp_all
  moreover have "get_all get (map kind_of fs) (d\<lparr>dzBuffer := dzBuffer d + ?n\<rparr>) =
      Some (fs, d\<lparr>dzBuffer := dzBuffer d + ?n + message_size fs\<rparr>)"
    using Cons.IH [of "d\<lparr>dzBuffer := dzBuffer d + ?n\<rparr>"] Cons.prems 2 sz by simp
  ultimately show ?case by (simp add: sz add.assoc)
qed

lemma message_roundtrip:
  assumes ok: "list_all field_ok fs" and fit: "p + message_size fs \<le> length m"
  shows "\<exists>s. put_all put fs \<lparr>szMemory = m, szBuffer = p, szBegin = p\<rparr> = Some s \<and>
    szBuffer s = p + message_size fs \<and> length (szMemory s) = length m \<and>
    (\<forall>i<length m. i < p \<or> p + message_size fs \<le> i \<longrightarrow> szMemory s ! i = m ! i) \<and>
    get_all get (map kind_of fs) \<lparr>dzMemory = szMemory s, dzBuffer = p, dzBegin = p\<rparr> =
      Some (fs, \<lparr>dzMemory = szMemory s, dzBuffer = p + message_size fs, dzBegin = p\<rparr>)"
proof -
  obtain m' where m': "acopy m p (concat (map bytes fs)) = Some m'"
    using acopy_Some [of p "concat (map bytes fs)" m] fit message_length by simp
  have "take (message_size fs) (drop p m') = concat (map bytes fs)"
    using acopy_view [OF m'] by (simp add: message_length)
  then have "get_all get (map kind_of fs) \<lparr>dzMemory = m', dzBuffer = p, dzBegin = p\<rparr> =
      Some (fs, \<lparr>dzMemory = m', dzBuffer = p + message_size fs, dzBegin = p\<rparr>)"
    using get_all_bytes [OF ok, of "\<lparr>dzMemory = m', dzBuffer = p, dzBegin = p\<rparr>"] fit
      length_acopy [OF m'] by simp
  with put_all_copy [of "\<lparr>szMemory = m, szBuffer = p, szBegin = p\<rparr>" fs] m' fit
    length_acopy [OF m'] nth_acopy [OF m'] message_length
  show ?thesis by simp
qed

end

subsection \<open>Both byte orders keep the contract\<close>

lemma mask_facts:
  "(0x0F :: 'a :: len word) = mask 4" "(0xF0 :: u8) = push_bit 4 (mask 4)"
  "(0xF0 :: u16) = push_bit 4 (mask 4)"
  by (simp_all add: mask_eq_exp_minus_1)

lemmas nibble_bits = bit_or_iff bit_and_iff bit_push_bit_iff bit_unsigned_iff bit_drop_bit_eq
  bit_mask_iff bit_take_bit_iff

lemma bit_shift_back: "bit a (4 + (n - 4)) \<longleftrightarrow> (if n < 4 then bit a 4 else bit a n)"
  by simp

lemma small_word: "w < 2 ^ k \<Longrightarrow> k < LENGTH('a) \<Longrightarrow> take_bit k (w :: 'a :: len word) = w"
proof -
  assume w: "w < 2 ^ k" and k: "k < LENGTH('a)"
  have "unat (of_nat (2 ^ k) :: 'a word) = 2 ^ k" using k by (subst unat_of_nat) simp
  then have "unat w < 2 ^ k" using w by (simp add: word_less_nat_alt)
  then show ?thesis by (simp add: word_unat_eq_iff unsigned_take_bit_eq take_bit_nat_eq_self)
qed

fun sb_bytes :: "field \<Rightarrow> u8 list" where
  "sb_bytes (FBool b) = [if b then 1 else 0]"
| "sb_bytes (FU8 v) = be_u8_bytes v"
| "sb_bytes (FU16 v) = be_u16_bytes v"
| "sb_bytes (FU24 v) = [ucast (drop_bit 16 v), ucast (drop_bit 8 v), ucast (drop_bit 0 v)]"
| "sb_bytes (FU32 v) = be_u32_bytes v"
| "sb_bytes (FU64 v) = be_u64_bytes v"
| "sb_bytes (FI8 v) = be_u8_bytes v"
| "sb_bytes (FI16 v) = be_u16_bytes v"
| "sb_bytes (FI32 v) = be_u32_bytes v"
| "sb_bytes (FI64 v) = be_u64_bytes v"
| "sb_bytes (FFloat v) = be_u32_bytes v"
| "sb_bytes (FDouble v) = be_u64_bytes v"
| "sb_bytes (FPacked12 a b) = [ucast (drop_bit 4 a),
     ucast ((push_bit 4 a AND 0xF0) OR (drop_bit 8 b AND 0x0F)), ucast (drop_bit 0 b)]"
| "sb_bytes (FBytes bs) = bs"

fun sl_bytes :: "field \<Rightarrow> u8 list" where
  "sl_bytes (FBool b) = [if b then 1 else 0]"
| "sl_bytes (FU8 v) = le_u8_bytes v"
| "sl_bytes (FU16 v) = le_u16_bytes v"
| "sl_bytes (FU24 v) = [ucast (drop_bit 0 v), ucast (drop_bit 8 v), ucast (drop_bit 16 v)]"
| "sl_bytes (FU32 v) = le_u32_bytes v"
| "sl_bytes (FU64 v) = le_u64_bytes v"
| "sl_bytes (FI8 v) = le_u8_bytes v"
| "sl_bytes (FI16 v) = le_u16_bytes v"
| "sl_bytes (FI32 v) = le_u32_bytes v"
| "sl_bytes (FI64 v) = le_u64_bytes v"
| "sl_bytes (FFloat v) = le_u32_bytes v"
| "sl_bytes (FDouble v) = le_u64_bytes v"
| "sl_bytes (FPacked12 a b) = [ucast (drop_bit 0 a),
     ucast ((drop_bit 4 a AND 0xF0) OR (b AND 0x0F)), ucast (drop_bit 4 b)]"
| "sl_bytes (FBytes bs) = bs"

lemmas sb_laws = be_bool.store_law be_u8.store_law be_u16.store_law be_u32.store_law be_u64.store_law
  be_i8.store_law be_i16.store_law be_i32.store_law be_i64.store_law be_float.store_law be_double.store_law
lemmas sl_laws = le_bool.store_law le_u8.store_law le_u16.store_law le_u32.store_law le_u64.store_law
  le_i8.store_law le_i16.store_law le_i32.store_law le_i64.store_law le_float.store_law le_double.store_law

lemmas sb_lengths = be_u8.enc_length be_u16.enc_length be_u32.enc_length be_u64.enc_length
lemmas sl_lengths = le_u8.enc_length le_u16.enc_length le_u32.enc_length le_u64.enc_length

lemma sb_bytes_length: "length (sb_bytes f) = field_size (kind_of f)"
  by (cases f) (simp_all add: sb_lengths)

lemma sl_bytes_length: "length (sl_bytes f) = field_size (kind_of f)"
  by (cases f) (simp_all add: sl_lengths)

lemma sb_put_law:
  assumes "szBuffer s \<le> length (szMemory s)"
  shows "sb_put f s = map_option (\<lambda>m. s\<lparr>szMemory := m, szBuffer := szBuffer s + length (sb_bytes f)\<rparr>)
    (acopy (szMemory s) (szBuffer s) (sb_bytes f))"
  using assms
  by (cases f) (auto simp: sb_store_def sb_laws sb_lengths sb_store24_def sb_storePacked12_def
      sb_storeBytes_def awrites_acopy map_conv_bind_option numeral_3_eq_3 simp del: awrites.simps)

lemma sl_put_law:
  assumes "szBuffer s \<le> length (szMemory s)"
  shows "sl_put f s = map_option (\<lambda>m. s\<lparr>szMemory := m, szBuffer := szBuffer s + length (sl_bytes f)\<rparr>)
    (acopy (szMemory s) (szBuffer s) (sl_bytes f))"
  using assms
  by (cases f) (auto simp: sl_store_def sl_laws sl_lengths sl_store24_def sl_storePacked12_def
      sl_storeBytes_def awrites_acopy map_conv_bind_option numeral_3_eq_3 simp del: awrites.simps)

text \<open>Three bytes under the cursor.\<close>

lemma three_bytes:
  assumes "p + 3 \<le> length m" and "take 3 (drop p m) = [x, y, z]"
  shows "aread m (p + 0) = Some x" and "aread m (p + 1) = Some y" and "aread m (p + 2) = Some z"
proof -
  have "take 3 (drop p m) ! i = m ! (p + i)" if "i < 3" for i using that assms(1) by simp
  from this [of 0] this [of 1] this [of 2] assms
  show "aread m (p + 0) = Some x" and "aread m (p + 1) = Some y" and "aread m (p + 2) = Some z"
    by (simp_all add: aread_def)
qed

lemma value24:
  "v < 2 ^ 24 \<Longrightarrow> push_bit 16 (ucast (ucast (drop_bit 16 v) :: u8)) OR
     push_bit 8 (ucast (ucast (drop_bit 8 v) :: u8)) OR push_bit 0 (ucast (ucast (drop_bit 0 v) :: u8)) =
   (v :: u32)"
  unfolding byte_merge_0 byte_merge by (rule small_word) simp_all

lemma packed12_be:
  fixes a b :: u16
  defines "x \<equiv> ucast (drop_bit 4 a) :: u8"
    and "y \<equiv> ucast ((push_bit 4 a AND 0xF0) OR (drop_bit 8 b AND 0x0F)) :: u8"
    and "z \<equiv> ucast (drop_bit 0 b) :: u8"
  assumes "a < 2 ^ 12" and "b < 2 ^ 12"
  shows "ucast (push_bit 4 (ucast x :: u32)) OR ucast (drop_bit 4 (ucast y :: u32)) = a"
    and "ucast (push_bit 8 (ucast (y AND 0x0F) :: u32)) OR ucast (ucast z :: u32) = b"
proof -
  have "ucast (push_bit 4 (ucast x :: u32)) OR ucast (drop_bit 4 (ucast y :: u32)) = take_bit 12 a"
    by (rule bit_word_eqI) (auto simp: x_def y_def mask_facts nibble_bits bit_shift_back)
  then show "ucast (push_bit 4 (ucast x :: u32)) OR ucast (drop_bit 4 (ucast y :: u32)) = a"
    using small_word [OF assms(4)] by simp
  have "ucast (push_bit 8 (ucast (y AND 0x0F) :: u32)) OR ucast (ucast z :: u32) = take_bit 12 b"
    by (rule bit_word_eqI) (auto simp: y_def z_def mask_facts nibble_bits bit_shift_back)
  then show "ucast (push_bit 8 (ucast (y AND 0x0F) :: u32)) OR ucast (ucast z :: u32) = b"
    using small_word [OF assms(5)] by simp
qed

lemma packed12_le:
  fixes a b :: u16
  defines "x \<equiv> ucast (drop_bit 0 a) :: u8"
    and "y \<equiv> ucast ((drop_bit 4 a AND 0xF0) OR (b AND 0x0F)) :: u8"
    and "z \<equiv> ucast (drop_bit 4 b) :: u8"
  assumes "a < 2 ^ 12" and "b < 2 ^ 12"
  shows "ucast x OR push_bit 4 (ucast (y AND 0xF0)) = a"
    and "ucast (y AND 0x0F) OR push_bit 4 (ucast z) = b"
proof -
  have "ucast x OR push_bit 4 (ucast (y AND 0xF0)) = take_bit 12 a"
    by (rule bit_word_eqI) (auto simp: x_def y_def mask_facts nibble_bits bit_shift_back)
  then show "ucast x OR push_bit 4 (ucast (y AND 0xF0)) = a" using small_word [OF assms(4)] by simp
  have "ucast (y AND 0x0F) OR push_bit 4 (ucast z) = take_bit 12 b"
    by (rule bit_word_eqI) (auto simp: y_def z_def mask_facts nibble_bits bit_shift_back)
  then show "ucast (y AND 0x0F) OR push_bit 4 (ucast z) = b" using small_word [OF assms(5)] by simp
qed

lemmas sb_reads = be_u8.read_enc be_u16.read_enc be_u32.read_enc be_u64.read_enc be_i8.read_enc
  be_i16.read_enc be_i32.read_enc be_i64.read_enc be_float.read_enc be_double.read_enc
lemmas sl_reads = le_u8.read_enc le_u16.read_enc le_u32.read_enc le_u64.read_enc le_i8.read_enc
  le_i16.read_enc le_i32.read_enc le_i64.read_enc le_float.read_enc le_double.read_enc

lemma sb_get_law:
  assumes "field_ok f" and "dzBuffer d + length (sb_bytes f) \<le> length (dzMemory d)"
    and "take (length (sb_bytes f)) (drop (dzBuffer d) (dzMemory d)) = sb_bytes f"
  shows "db_get (kind_of f) d = Some (f, d\<lparr>dzBuffer := dzBuffer d + length (sb_bytes f)\<rparr>)"
proof (cases f)
  case (FU24 v)
  with assms have "dzBuffer d + 3 \<le> length (dzMemory d)" and "v < 2 ^ 24"
    and "take 3 (drop (dzBuffer d) (dzMemory d)) =
      [ucast (drop_bit 16 v), ucast (drop_bit 8 v), ucast (drop_bit 0 v)]"
    by (simp_all add: numeral_3_eq_3)
  from three_bytes [OF this(1,3)]
  show ?thesis unfolding FU24 kind_of.simps db_get.simps db_readUnsigned24_def
    by (simp only: Option.bind.bind_lunit value24 [OF \<open>v < 2 ^ 24\<close>] sb_bytes.simps) simp
next
  case (FPacked12 a b)
  let ?y = "ucast ((push_bit 4 a AND 0xF0) OR (drop_bit 8 b AND 0x0F)) :: u8"
  from FPacked12 assms have "dzBuffer d + 3 \<le> length (dzMemory d)" and ab: "a < 2 ^ 12" "b < 2 ^ 12"
    and "take 3 (drop (dzBuffer d) (dzMemory d)) = [ucast (drop_bit 4 a), ?y, ucast (drop_bit 0 b)]"
    by (simp_all add: numeral_3_eq_3)
  from three_bytes [OF this(1,4)]
  show ?thesis unfolding FPacked12 kind_of.simps db_get.simps db_readPacked12_def
    by (simp only: Option.bind.bind_lunit Let_def packed12_be [OF ab] sb_bytes.simps) simp
qed (use assms in \<open>auto simp: db_read_def sb_reads sb_lengths be_bool.read_enc db_readBytes_def\<close>)

lemma sl_get_law:
  assumes "field_ok f" and "dzBuffer d + length (sl_bytes f) \<le> length (dzMemory d)"
    and "take (length (sl_bytes f)) (drop (dzBuffer d) (dzMemory d)) = sl_bytes f"
  shows "dl_get (kind_of f) d = Some (f, d\<lparr>dzBuffer := dzBuffer d + length (sl_bytes f)\<rparr>)"
proof (cases f)
  case (FU24 v)
  with assms have "dzBuffer d + 3 \<le> length (dzMemory d)" and "v < 2 ^ 24"
    and "take 3 (drop (dzBuffer d) (dzMemory d)) =
      [ucast (drop_bit 0 v), ucast (drop_bit 8 v), ucast (drop_bit 16 v)]"
    by (simp_all add: numeral_3_eq_3)
  from three_bytes [OF this(1,3)]
  show ?thesis unfolding FU24 kind_of.simps dl_get.simps dl_read24_def
    by (simp only: Option.bind.bind_lunit value24 [OF \<open>v < 2 ^ 24\<close>] sl_bytes.simps) simp
next
  case (FPacked12 a b)
  let ?y = "ucast ((drop_bit 4 a AND 0xF0) OR (b AND 0x0F)) :: u8"
  from FPacked12 assms have "dzBuffer d + 3 \<le> length (dzMemory d)" and ab: "a < 2 ^ 12" "b < 2 ^ 12"
    and "take 3 (drop (dzBuffer d) (dzMemory d)) = [ucast (drop_bit 0 a), ?y, ucast (drop_bit 4 b)]"
    by (simp_all add: numeral_3_eq_3)
  from three_bytes [OF this(1,4)]
  show ?thesis unfolding FPacked12 kind_of.simps dl_get.simps dl_readPacked12_def
    by (simp only: Option.bind.bind_lunit Let_def packed12_le [OF ab] sl_bytes.simps) simp
qed (use assms in \<open>auto simp: dl_read_def sl_reads sl_lengths le_bool.read_enc dl_readBuffer_def\<close>)

interpretation mb: message_codec sb_bytes sb_put db_get
  by unfold_locales (rule sb_bytes_length, erule sb_put_law, erule (2) sb_get_law)

interpretation ml: message_codec sl_bytes sl_put dl_get
  by unfold_locales (rule sl_bytes_length, erule sl_put_law, erule (2) sl_get_law)

text \<open>
  C23. Big endian: a message of any fields (all integer types, bool, floating point representations,
  24 bit and packed 12 bit values, byte buffers) that is written with \<open>Serialize\<close> into enough space
  is written inside of that space only, and \<open>Deserialize\<close> reads exactly its fields back and ends
  at the same position.\<close>

theorem serialize_roundtrip_big_endian:
  assumes "list_all field_ok fs" and "p + message_size fs \<le> length m"
  shows "\<exists>s. put_all sb_put fs (sb_new m p) = Some s \<and>
    sb_getPosition s = int (message_size fs) \<and>
    (\<forall>i<length m. i < p \<or> p + message_size fs \<le> i \<longrightarrow> szMemory s ! i = m ! i) \<and>
    (\<exists>d. get_all db_get (map kind_of fs) (db_new (szMemory s) p) = Some (fs, d) \<and>
       db_getPosition d = sb_getPosition s)"
proof -
  from mb.message_roundtrip [OF assms] mb.put_all_copy [of "sb_new m p" fs] assms(2)
  show ?thesis by (auto simp: sb_new_def db_new_def sb_getPosition_def db_getPosition_def)
qed

definition sample_message :: "field list" where
  "sample_message = [FU16 0x1234, FBool True, FPacked12 0xABC 0x123, FU24 0x654321, FI32 (- 5), FBytes [1, 2]]"

definition sample_space :: "u8 list" where
  "sample_space = replicate 16 0"

lemma sample_message_ok: "list_all field_ok sample_message" "1 + message_size sample_message \<le> length sample_space"
  by (simp_all add: sample_message_def message_size_def sample_space_def)

lemma serialize_roundtrip_big_endian_witness:
  "\<exists>s. put_all sb_put sample_message (sb_new sample_space 1) = Some s \<and>
    sb_getPosition s = int (message_size sample_message) \<and>
    (\<forall>i<length sample_space. i < 1 \<or> 1 + message_size sample_message \<le> i \<longrightarrow>
       szMemory s ! i = sample_space ! i) \<and>
    (\<exists>d. get_all db_get (map kind_of sample_message) (db_new (szMemory s) 1) = Some (sample_message, d) \<and>
       db_getPosition d = sb_getPosition s)"
  by (rule serialize_roundtrip_big_endian [OF sample_message_ok])

text \<open>
  C25. Little endian: the same for \<open>SerializeLittleEndian\<close> and \<open>DeserializeLittleEndian\<close>.\<close>

theorem serialize_roundtrip_little_endian:
  assumes "list_all field_ok fs" and "p + message_size fs \<le> length m"
  shows "\<exists>s. put_all sl_put fs (sl_new m p) = Some s \<and>
    sl_getPosition s = int (message_size fs) \<and>
    (\<forall>i<length m. i < p \<or> p + message_size fs \<le> i \<longrightarrow> szMemory s ! i = m ! i) \<and>
    (\<exists>d. get_all dl_get (map kind_of fs) (dl_new (szMemory s) p) = Some (fs, d) \<and>
       dl_getPosition d = sl_getPosition s)"
proof -
  from ml.message_roundtrip [OF assms] ml.put_all_copy [of "sl_new m p" fs] assms(2)
  show ?thesis by (auto simp: sl_new_def dl_new_def sl_getPosition_def dl_getPosition_def)
qed

lemma serialize_roundtrip_little_endian_witness:
  "\<exists>s. put_all sl_put sample_message (sl_new sample_space 1) = Some s \<and>
    sl_getPosition s = int (message_size sample_message) \<and>
    (\<forall>i<length sample_space. i < 1 \<or> 1 + message_size sample_message \<le> i \<longrightarrow>
       szMemory s ! i = sample_space ! i) \<and>
    (\<exists>d. get_all dl_get (map kind_of sample_message) (dl_new (szMemory s) 1) = Some (sample_message, d) \<and>
       dl_getPosition d = sl_getPosition s)"
  by (rule serialize_roundtrip_little_endian [OF sample_message_ok])

text \<open>
  Note. \<open>readSigned24\<close> sign-extends: for the three bytes of \<open>store24\<close> of any 32 bit word, the value
  read is the signed value of the low 24 bits.\<close>

theorem readSigned24_sign_extends:
  assumes "sb_store24 data s = Some s'"
  shows "\<exists>v d. db_readSigned24 (db_new (szMemory s') (szBuffer s)) = Some (v, d) \<and>
    sint v = signed_take_bit 23 (uint data)"
proof -
  have c: "acopy (szMemory s) (szBuffer s)
      [ucast (drop_bit 16 data), ucast (drop_bit 8 data), ucast (drop_bit 0 data)] = Some (szMemory s')"
    using assms by (auto simp: sb_store24_def awrites_acopy bind_eq_Some_conv simp del: awrites.simps)
  have len: "szBuffer s + 3 \<le> length (szMemory s')"
    using length_acopy [OF c] c by (simp add: acopy_eq_Some)
  have "take 3 (drop (szBuffer s) (szMemory s')) =
      [ucast (drop_bit 16 data), ucast (drop_bit 8 data), ucast (drop_bit 0 data)]"
    using acopy_view [OF c] by (simp add: numeral_3_eq_3)
  note rd = three_bytes [OF len this]
  let ?v = "take_bit 24 data"
  have v: "push_bit 16 (ucast (ucast (drop_bit 16 data) :: u8)) OR push_bit 8 (ucast (ucast (drop_bit 8 data) :: u8)) OR
      push_bit 0 (ucast (ucast (drop_bit 0 data) :: u8)) = ?v"
    unfolding byte_merge_0 byte_merge ..
  have read: "db_readSigned24 (db_new (szMemory s') (szBuffer s)) =
      Some (if 0x00800000 AND ?v \<noteq> 0 then ?v OR 0xFF000000 else ?v,
        (db_new (szMemory s') (szBuffer s))\<lparr>dzBuffer := szBuffer s + 3\<rparr>)"
    unfolding db_readSigned24_def db_new_def deserializer.simps
    by (simp only: rd Option.bind.bind_lunit Let_def v)
  have "(if 0x00800000 AND ?v \<noteq> 0 then ?v OR 0xFF000000 else ?v) = signed_take_bit 23 data"
  proof (rule bit_word_eqI)
    fix n assume n: "n < LENGTH(32)"
    have e: "(0x00800000 :: u32) = push_bit 23 1" "(0xFF000000 :: u32) = push_bit 24 (mask 8)"
      by (simp_all add: mask_eq_exp_minus_1)
    have t: "0x00800000 AND ?v \<noteq> 0 \<longleftrightarrow> bit data 23"
      by (simp only: e(1) and.commute [of "push_bit 23 1"] bit_iff_and_push_bit_not_eq_0 [symmetric])
        (simp add: bit_take_bit_iff)
    show "bit (if 0x00800000 AND ?v \<noteq> 0 then ?v OR 0xFF000000 else ?v) n = bit (signed_take_bit 23 data) n"
      unfolding t using n by (cases "n = 23") (auto simp: e bit_simps min_def)
  qed
  moreover have "sint (signed_take_bit 23 data) = signed_take_bit 23 (uint data)"
    by (rule bit_eqI) (auto simp: bit_simps min_def not_less)
  ultimately show ?thesis using read by simp
qed

lemma readSigned24_sign_extends_witness:
  "\<exists>s' v d. sb_store24 0xFFFFFE \<lparr>szMemory = [0, 0, 0], szBuffer = 0, szBegin = 0\<rparr> = Some s' \<and>
     db_readSigned24 (db_new (szMemory s') 0) = Some (v, d) \<and> sint v = - 2"
proof -
  let ?s = "\<lparr>szMemory = [0, 0, 0], szBuffer = 0, szBegin = 0\<rparr>"
  obtain s' where s': "sb_store24 0xFFFFFE ?s = Some s'"
    by (simp add: sb_store24_def awrite_def)
  from readSigned24_sign_extends [OF this] s' show ?thesis
    by (auto simp: signed_take_bit_eq_take_bit_minus)
qed


end
