(* ===== verification/Crc.thy ===== *)
theory Crc
  imports Prelude
begin

text \<open>
  \<open>Crc8Ccitt\<close>, \<open>Crc8CcittReversed\<close>, \<open>Crc16Ccitt\<close> and \<open>Crc32Reversed\<close> (utils/coding/crc8, crc16,
  crc32): checksum generators whose state is the member \<open>mCrc\<close>, driven by tables of 256 entries.

  The reference is the division by the polynomial bit by bit. \<open>crc_bitwise\<close> is the contract between
  the two: one step per bit that is one-to-one, and a table-driven update that is eight of them. Its
  lemmas: the checksum of a message changes with any change of one byte.
\<close>

subsection \<open>The generators\<close>

definition crc8_table :: "u8 list" where
  "crc8_table = [
     0x00, 0x07, 0x0E, 0x09, 0x1C, 0x1B, 0x12, 0x15,
     0x38, 0x3F, 0x36, 0x31, 0x24, 0x23, 0x2A, 0x2D,
     0x70, 0x77, 0x7E, 0x79, 0x6C, 0x6B, 0x62, 0x65,
     0x48, 0x4F, 0x46, 0x41, 0x54, 0x53, 0x5A, 0x5D,
     0xE0, 0xE7, 0xEE, 0xE9, 0xFC, 0xFB, 0xF2, 0xF5,
     0xD8, 0xDF, 0xD6, 0xD1, 0xC4, 0xC3, 0xCA, 0xCD,
     0x90, 0x97, 0x9E, 0x99, 0x8C, 0x8B, 0x82, 0x85,
     0xA8, 0xAF, 0xA6, 0xA1, 0xB4, 0xB3, 0xBA, 0xBD,
     0xC7, 0xC0, 0xC9, 0xCE, 0xDB, 0xDC, 0xD5, 0xD2,
     0xFF, 0xF8, 0xF1, 0xF6, 0xE3, 0xE4, 0xED, 0xEA,
     0xB7, 0xB0, 0xB9, 0xBE, 0xAB, 0xAC, 0xA5, 0xA2,
     0x8F, 0x88, 0x81, 0x86, 0x93, 0x94, 0x9D, 0x9A,
     0x27, 0x20, 0x29, 0x2E, 0x3B, 0x3C, 0x35, 0x32,
     0x1F, 0x18, 0x11, 0x16, 0x03, 0x04, 0x0D, 0x0A,
     0x57, 0x50, 0x59, 0x5E, 0x4B, 0x4C, 0x45, 0x42,
     0x6F, 0x68, 0x61, 0x66, 0x73, 0x74, 0x7D, 0x7A,
     0x89, 0x8E, 0x87, 0x80, 0x95, 0x92, 0x9B, 0x9C,
     0xB1, 0xB6, 0xBF, 0xB8, 0xAD, 0xAA, 0xA3, 0xA4,
     0xF9, 0xFE, 0xF7, 0xF0, 0xE5, 0xE2, 0xEB, 0xEC,
     0xC1, 0xC6, 0xCF, 0xC8, 0xDD, 0xDA, 0xD3, 0xD4,
     0x69, 0x6E, 0x67, 0x60, 0x75, 0x72, 0x7B, 0x7C,
     0x51, 0x56, 0x5F, 0x58, 0x4D, 0x4A, 0x43, 0x44,
     0x19, 0x1E, 0x17, 0x10, 0x05, 0x02, 0x0B, 0x0C,
     0x21, 0x26, 0x2F, 0x28, 0x3D, 0x3A, 0x33, 0x34,
     0x4E, 0x49, 0x40, 0x47, 0x52, 0x55, 0x5C, 0x5B,
     0x76, 0x71, 0x78, 0x7F, 0x6A, 0x6D, 0x64, 0x63,
     0x3E, 0x39, 0x30, 0x37, 0x22, 0x25, 0x2C, 0x2B,
     0x06, 0x01, 0x08, 0x0F, 0x1A, 0x1D, 0x14, 0x13,
     0xAE, 0xA9, 0xA0, 0xA7, 0xB2, 0xB5, 0xBC, 0xBB,
     0x96, 0x91, 0x98, 0x9F, 0x8A, 0x8D, 0x84, 0x83,
     0xDE, 0xD9, 0xD0, 0xD7, 0xC2, 0xC5, 0xCC, 0xCB,
     0xE6, 0xE1, 0xE8, 0xEF, 0xFA, 0xFD, 0xF4, 0xF3]"

definition crc8r_table :: "u8 list" where
  "crc8r_table = [
     0x00, 0x91, 0xE3, 0x72, 0x07, 0x96, 0xE4, 0x75,
     0x0E, 0x9F, 0xED, 0x7C, 0x09, 0x98, 0xEA, 0x7B,
     0x1C, 0x8D, 0xFF, 0x6E, 0x1B, 0x8A, 0xF8, 0x69,
     0x12, 0x83, 0xF1, 0x60, 0x15, 0x84, 0xF6, 0x67,
     0x38, 0xA9, 0xDB, 0x4A, 0x3F, 0xAE, 0xDC, 0x4D,
     0x36, 0xA7, 0xD5, 0x44, 0x31, 0xA0, 0xD2, 0x43,
     0x24, 0xB5, 0xC7, 0x56, 0x23, 0xB2, 0xC0, 0x51,
     0x2A, 0xBB, 0xC9, 0x58, 0x2D, 0xBC, 0xCE, 0x5F,
     0x70, 0xE1, 0x93, 0x02, 0x77, 0xE6, 0x94, 0x05,
     0x7E, 0xEF, 0x9D, 0x0C, 0x79, 0xE8, 0x9A, 0x0B,
     0x6C, 0xFD, 0x8F, 0x1E, 0x6B, 0xFA, 0x88, 0x19,
     0x62, 0xF3, 0x81, 0x10, 0x65, 0xF4, 0x86, 0x17,
     0x48, 0xD9, 0xAB, 0x3A, 0x4F, 0xDE, 0xAC, 0x3D,
     0x46, 0xD7, 0xA5, 0x34, 0x41, 0xD0, 0xA2, 0x33,
     0x54, 0xC5, 0xB7, 0x26, 0x53, 0xC2, 0xB0, 0x21,
     0x5A, 0xCB, 0xB9, 0x28, 0x5D, 0xCC, 0xBE, 0x2F,
     0xE0, 0x71, 0x03, 0x92, 0xE7, 0x76, 0x04, 0x95,
     0xEE, 0x7F, 0x0D, 0x9C, 0xE9, 0x78, 0x0A, 0x9B,
     0xFC, 0x6D, 0x1F, 0x8E, 0xFB, 0x6A, 0x18, 0x89,
     0xF2, 0x63, 0x11, 0x80, 0xF5, 0x64, 0x16, 0x87,
     0xD8, 0x49, 0x3B, 0xAA, 0xDF, 0x4E, 0x3C, 0xAD,
     0xD6, 0x47, 0x35, 0xA4, 0xD1, 0x40, 0x32, 0xA3,
     0xC4, 0x55, 0x27, 0xB6, 0xC3, 0x52, 0x20, 0xB1,
     0xCA, 0x5B, 0x29, 0xB8, 0xCD, 0x5C, 0x2E, 0xBF,
     0x90, 0x01, 0x73, 0xE2, 0x97, 0x06, 0x74, 0xE5,
     0x9E, 0x0F, 0x7D, 0xEC, 0x99, 0x08, 0x7A, 0xEB,
     0x8C, 0x1D, 0x6F, 0xFE, 0x8B, 0x1A, 0x68, 0xF9,
     0x82, 0x13, 0x61, 0xF0, 0x85, 0x14, 0x66, 0xF7,
     0xA8, 0x39, 0x4B, 0xDA, 0xAF, 0x3E, 0x4C, 0xDD,
     0xA6, 0x37, 0x45, 0xD4, 0xA1, 0x30, 0x42, 0xD3,
     0xB4, 0x25, 0x57, 0xC6, 0xB3, 0x22, 0x50, 0xC1,
     0xBA, 0x2B, 0x59, 0xC8, 0xBD, 0x2C, 0x5E, 0xCF]"

definition crc16_table :: "u16 list" where
  "crc16_table = [
     0x0000, 0x1021, 0x2042, 0x3063, 0x4084, 0x50A5, 0x60C6, 0x70E7,
     0x8108, 0x9129, 0xA14A, 0xB16B, 0xC18C, 0xD1AD, 0xE1CE, 0xF1EF,
     0x1231, 0x0210, 0x3273, 0x2252, 0x52B5, 0x4294, 0x72F7, 0x62D6,
     0x9339, 0x8318, 0xB37B, 0xA35A, 0xD3BD, 0xC39C, 0xF3FF, 0xE3DE,
     0x2462, 0x3443, 0x0420, 0x1401, 0x64E6, 0x74C7, 0x44A4, 0x5485,
     0xA56A, 0xB54B, 0x8528, 0x9509, 0xE5EE, 0xF5CF, 0xC5AC, 0xD58D,
     0x3653, 0x2672, 0x1611, 0x0630, 0x76D7, 0x66F6, 0x5695, 0x46B4,
     0xB75B, 0xA77A, 0x9719, 0x8738, 0xF7DF, 0xE7FE, 0xD79D, 0xC7BC,
     0x48C4, 0x58E5, 0x6886, 0x78A7, 0x0840, 0x1861, 0x2802, 0x3823,
     0xC9CC, 0xD9ED, 0xE98E, 0xF9AF, 0x8948, 0x9969, 0xA90A, 0xB92B,
     0x5AF5, 0x4AD4, 0x7AB7, 0x6A96, 0x1A71, 0x0A50, 0x3A33, 0x2A12,
     0xDBFD, 0xCBDC, 0xFBBF, 0xEB9E, 0x9B79, 0x8B58, 0xBB3B, 0xAB1A,
     0x6CA6, 0x7C87, 0x4CE4, 0x5CC5, 0x2C22, 0x3C03, 0x0C60, 0x1C41,
     0xEDAE, 0xFD8F, 0xCDEC, 0xDDCD, 0xAD2A, 0xBD0B, 0x8D68, 0x9D49,
     0x7E97, 0x6EB6, 0x5ED5, 0x4EF4, 0x3E13, 0x2E32, 0x1E51, 0x0E70,
     0xFF9F, 0xEFBE, 0xDFDD, 0xCFFC, 0xBF1B, 0xAF3A, 0x9F59, 0x8F78,
     0x9188, 0x81A9, 0xB1CA, 0xA1EB, 0xD10C, 0xC12D, 0xF14E, 0xE16F,
     0x1080, 0x00A1, 0x30C2, 0x20E3, 0x5004, 0x4025, 0x7046, 0x6067,
     0x83B9, 0x9398, 0xA3FB, 0xB3DA, 0xC33D, 0xD31C, 0xE37F, 0xF35E,
     0x02B1, 0x1290, 0x22F3, 0x32D2, 0x4235, 0x5214, 0x6277, 0x7256,
     0xB5EA, 0xA5CB, 0x95A8, 0x8589, 0xF56E, 0xE54F, 0xD52C, 0xC50D,
     0x34E2, 0x24C3, 0x14A0, 0x0481, 0x7466, 0x6447, 0x5424, 0x4405,
     0xA7DB, 0xB7FA, 0x8799, 0x97B8, 0xE75F, 0xF77E, 0xC71D, 0xD73C,
     0x26D3, 0x36F2, 0x0691, 0x16B0, 0x6657, 0x7676, 0x4615, 0x5634,
     0xD94C, 0xC96D, 0xF90E, 0xE92F, 0x99C8, 0x89E9, 0xB98A, 0xA9AB,
     0x5844, 0x4865, 0x7806, 0x6827, 0x18C0, 0x08E1, 0x3882, 0x28A3,
     0xCB7D, 0xDB5C, 0xEB3F, 0xFB1E, 0x8BF9, 0x9BD8, 0xABBB, 0xBB9A,
     0x4A75, 0x5A54, 0x6A37, 0x7A16, 0x0AF1, 0x1AD0, 0x2AB3, 0x3A92,
     0xFD2E, 0xED0F, 0xDD6C, 0xCD4D, 0xBDAA, 0xAD8B, 0x9DE8, 0x8DC9,
     0x7C26, 0x6C07, 0x5C64, 0x4C45, 0x3CA2, 0x2C83, 0x1CE0, 0x0CC1,
     0xEF1F, 0xFF3E, 0xCF5D, 0xDF7C, 0xAF9B, 0xBFBA, 0x8FD9, 0x9FF8,
     0x6E17, 0x7E36, 0x4E55, 0x5E74, 0x2E93, 0x3EB2, 0x0ED1, 0x1EF0]"

definition crc32_table :: "u32 list" where
  "crc32_table = [
     0x00000000, 0x77073096, 0xEE0E612C, 0x990951BA, 0x076DC419, 0x706AF48F, 0xE963A535, 0x9E6495A3,
     0x0EDB8832, 0x79DCB8A4, 0xE0D5E91E, 0x97D2D988, 0x09B64C2B, 0x7EB17CBD, 0xE7B82D07, 0x90BF1D91,
     0x1DB71064, 0x6AB020F2, 0xF3B97148, 0x84BE41DE, 0x1ADAD47D, 0x6DDDE4EB, 0xF4D4B551, 0x83D385C7,
     0x136C9856, 0x646BA8C0, 0xFD62F97A, 0x8A65C9EC, 0x14015C4F, 0x63066CD9, 0xFA0F3D63, 0x8D080DF5,
     0x3B6E20C8, 0x4C69105E, 0xD56041E4, 0xA2677172, 0x3C03E4D1, 0x4B04D447, 0xD20D85FD, 0xA50AB56B,
     0x35B5A8FA, 0x42B2986C, 0xDBBBC9D6, 0xACBCF940, 0x32D86CE3, 0x45DF5C75, 0xDCD60DCF, 0xABD13D59,
     0x26D930AC, 0x51DE003A, 0xC8D75180, 0xBFD06116, 0x21B4F4B5, 0x56B3C423, 0xCFBA9599, 0xB8BDA50F,
     0x2802B89E, 0x5F058808, 0xC60CD9B2, 0xB10BE924, 0x2F6F7C87, 0x58684C11, 0xC1611DAB, 0xB6662D3D,
     0x76DC4190, 0x01DB7106, 0x98D220BC, 0xEFD5102A, 0x71B18589, 0x06B6B51F, 0x9FBFE4A5, 0xE8B8D433,
     0x7807C9A2, 0x0F00F934, 0x9609A88E, 0xE10E9818, 0x7F6A0DBB, 0x086D3D2D, 0x91646C97, 0xE6635C01,
     0x6B6B51F4, 0x1C6C6162, 0x856530D8, 0xF262004E, 0x6C0695ED, 0x1B01A57B, 0x8208F4C1, 0xF50FC457,
     0x65B0D9C6, 0x12B7E950, 0x8BBEB8EA, 0xFCB9887C, 0x62DD1DDF, 0x15DA2D49, 0x8CD37CF3, 0xFBD44C65,
     0x4DB26158, 0x3AB551CE, 0xA3BC0074, 0xD4BB30E2, 0x4ADFA541, 0x3DD895D7, 0xA4D1C46D, 0xD3D6F4FB,
     0x4369E96A, 0x346ED9FC, 0xAD678846, 0xDA60B8D0, 0x44042D73, 0x33031DE5, 0xAA0A4C5F, 0xDD0D7CC9,
     0x5005713C, 0x270241AA, 0xBE0B1010, 0xC90C2086, 0x5768B525, 0x206F85B3, 0xB966D409, 0xCE61E49F,
     0x5EDEF90E, 0x29D9C998, 0xB0D09822, 0xC7D7A8B4, 0x59B33D17, 0x2EB40D81, 0xB7BD5C3B, 0xC0BA6CAD,
     0xEDB88320, 0x9ABFB3B6, 0x03B6E20C, 0x74B1D29A, 0xEAD54739, 0x9DD277AF, 0x04DB2615, 0x73DC1683,
     0xE3630B12, 0x94643B84, 0x0D6D6A3E, 0x7A6A5AA8, 0xE40ECF0B, 0x9309FF9D, 0x0A00AE27, 0x7D079EB1,
     0xF00F9344, 0x8708A3D2, 0x1E01F268, 0x6906C2FE, 0xF762575D, 0x806567CB, 0x196C3671, 0x6E6B06E7,
     0xFED41B76, 0x89D32BE0, 0x10DA7A5A, 0x67DD4ACC, 0xF9B9DF6F, 0x8EBEEFF9, 0x17B7BE43, 0x60B08ED5,
     0xD6D6A3E8, 0xA1D1937E, 0x38D8C2C4, 0x4FDFF252, 0xD1BB67F1, 0xA6BC5767, 0x3FB506DD, 0x48B2364B,
     0xD80D2BDA, 0xAF0A1B4C, 0x36034AF6, 0x41047A60, 0xDF60EFC3, 0xA867DF55, 0x316E8EEF, 0x4669BE79,
     0xCB61B38C, 0xBC66831A, 0x256FD2A0, 0x5268E236, 0xCC0C7795, 0xBB0B4703, 0x220216B9, 0x5505262F,
     0xC5BA3BBE, 0xB2BD0B28, 0x2BB45A92, 0x5CB36A04, 0xC2D7FFA7, 0xB5D0CF31, 0x2CD99E8B, 0x5BDEAE1D,
     0x9B64C2B0, 0xEC63F226, 0x756AA39C, 0x026D930A, 0x9C0906A9, 0xEB0E363F, 0x72076785, 0x05005713,
     0x95BF4A82, 0xE2B87A14, 0x7BB12BAE, 0x0CB61B38, 0x92D28E9B, 0xE5D5BE0D, 0x7CDCEFB7, 0x0BDBDF21,
     0x86D3D2D4, 0xF1D4E242, 0x68DDB3F8, 0x1FDA836E, 0x81BE16CD, 0xF6B9265B, 0x6FB077E1, 0x18B74777,
     0x88085AE6, 0xFF0F6A70, 0x66063BCA, 0x11010B5C, 0x8F659EFF, 0xF862AE69, 0x616BFFD3, 0x166CCF45,
     0xA00AE278, 0xD70DD2EE, 0x4E048354, 0x3903B3C2, 0xA7672661, 0xD06016F7, 0x4969474D, 0x3E6E77DB,
     0xAED16A4A, 0xD9D65ADC, 0x40DF0B66, 0x37D83BF0, 0xA9BCAE53, 0xDEBB9EC5, 0x47B2CF7F, 0x30B5FFE9,
     0xBDBDF21C, 0xCABAC28A, 0x53B39330, 0x24B4A3A6, 0xBAD03605, 0xCDD70693, 0x54DE5729, 0x23D967BF,
     0xB3667A2E, 0xC4614AB8, 0x5D681B02, 0x2A6F2B94, 0xB40BBE37, 0xC30C8EA1, 0x5A05DF1B, 0x2D02EF8D]"

definition crc8_reset :: u8 where
  "crc8_reset = 0"

definition crc8_update :: "u8 \<Rightarrow> u8 \<Rightarrow> u8" where
  "crc8_update data mCrc = crc8_table ! unat (mCrc XOR data)"

definition crc8_getValue :: "u8 \<Rightarrow> u8" where
  "crc8_getValue mCrc = mCrc"

definition crc8_calculate :: "u8 list \<Rightarrow> u8" where
  "crc8_calculate data = crc8_getValue (fold crc8_update data crc8_reset)"

definition crc8r_reset :: u8 where
  "crc8r_reset = 0"

definition crc8r_update :: "u8 \<Rightarrow> u8 \<Rightarrow> u8" where
  "crc8r_update data mCrc = crc8r_table ! unat (mCrc XOR data)"

definition crc8r_getValue :: "u8 \<Rightarrow> u8" where
  "crc8r_getValue mCrc = mCrc"

definition crc8r_calculate :: "u8 list \<Rightarrow> u8" where
  "crc8r_calculate data = crc8r_getValue (fold crc8r_update data crc8r_reset)"

definition crc16_reset :: u16 where
  "crc16_reset = 0xFFFF"

definition crc16_update :: "u8 \<Rightarrow> u16 \<Rightarrow> u16" where
  "crc16_update data mCrc =
     push_bit 8 mCrc XOR crc16_table ! unat (drop_bit 8 mCrc XOR ucast data)"

definition crc16_getValue :: "u16 \<Rightarrow> u16" where
  "crc16_getValue mCrc = mCrc"

definition crc16_calculate :: "u8 list \<Rightarrow> u16" where
  "crc16_calculate data = crc16_getValue (fold crc16_update data crc16_reset)"

definition crc32_reset :: u32 where
  "crc32_reset = 0xFFFFFFFF"

definition crc32_update :: "u8 \<Rightarrow> u32 \<Rightarrow> u32" where
  "crc32_update data mCrc =
     drop_bit 8 mCrc XOR crc32_table ! unat ((mCrc XOR ucast data) AND 0xFF)"

definition crc32_getValue :: "u32 \<Rightarrow> u32" where
  "crc32_getValue mCrc = mCrc XOR 0xFFFFFFFF"

definition crc32_calculate :: "u8 list \<Rightarrow> u32" where
  "crc32_calculate data = crc32_getValue (fold crc32_update data crc32_reset)"

subsection \<open>Division by the polynomial, bit by bit\<close>

text \<open>Most significant bit first: the register is shifted to the left.\<close>

definition div_step :: "'a :: len word \<Rightarrow> 'a word \<Rightarrow> 'a word" where
  "div_step poly c = (if bit c (LENGTH('a) - 1) then push_bit 1 c XOR poly else push_bit 1 c)"

text \<open>Least significant bit first (the reversed generators).\<close>

definition div_step_rev :: "'a :: len word \<Rightarrow> 'a word \<Rightarrow> 'a word" where
  "div_step_rev poly c = (if bit c 0 then drop_bit 1 c XOR poly else drop_bit 1 c)"

lemma div_step_xor: "div_step p (c XOR d) = div_step p c XOR div_step p d"
  by (auto simp: div_step_def bit_xor_iff push_bit_xor ac_simps)

lemma div_step_rev_xor: "div_step_rev p (c XOR d) = div_step_rev p c XOR div_step_rev p d"
  by (auto simp: div_step_rev_def bit_xor_iff drop_bit_xor ac_simps)

lemma funpow_xor:
  fixes f :: "'a :: len word \<Rightarrow> 'a word"
  assumes "\<And>c d. f (c XOR d) = f c XOR f d"
  shows "(f ^^ n) (c XOR d) = (f ^^ n) c XOR (f ^^ n) d"
  by (induction n) (simp_all add: assms)

subsection \<open>Tables of linear functions\<close>

text \<open>All sums of the entries of a list, ordered as the bits of the index.\<close>

fun xor_sums :: "'a :: len word list \<Rightarrow> 'a word list" where
  "xor_sums [] = [0]"
| "xor_sums (f # fs) = (let L = xor_sums fs in L @ map (\<lambda>x. f XOR x) L)"

lemma length_xor_sums: "length (xor_sums fs) = 2 ^ length fs"
  by (induction fs) (simp_all add: Let_def)

lemma top_bit_split:
  fixes x :: u8
  assumes "unat x < 2 ^ Suc n" and "2 ^ n \<le> unat x"
  shows "x = push_bit n 1 XOR take_bit n x" and "unat (take_bit n x) = unat x - 2 ^ n"
proof -
  have t: "take_bit (Suc n) x = x" and nt: "take_bit n x \<noteq> x"
    using assms by (auto simp: word_unat_eq_iff unsigned_take_bit_eq take_bit_nat_eq_self_iff)
  have "bit x n"
  proof (rule ccontr)
    assume "\<not> bit x n"
    then have "take_bit (Suc n) x = take_bit n x"
      by (intro bit_word_eqI) (auto simp: bit_take_bit_iff less_Suc_eq)
    with t nt show False by simp
  qed
  then have "n < 8" using bit_imp_le_length [of x n] by simp
  have "x = take_bit (Suc n) x" using t by simp
  also have "\<dots> = push_bit n 1 XOR take_bit n x"
    using \<open>bit x n\<close> \<open>n < 8\<close>
    by (intro bit_word_eqI) (auto simp: bit_take_bit_iff bit_xor_iff bit_push_bit_iff bit_1_iff bit_exp_iff less_Suc_eq)
  finally show "x = push_bit n 1 XOR take_bit n x" .
  have "unat (take_bit n x) = unat x mod 2 ^ n" by (simp only: unsigned_take_bit_eq take_bit_eq_mod [of n "unat x"])
  also have "\<dots> = unat x - 2 ^ n" using assms by (simp add: mod_if mod_less)
  finally show "unat (take_bit n x) = unat x - 2 ^ n" .
qed

lemma xor_sums_nth:
  fixes G :: "u8 \<Rightarrow> 'a :: len word"
  assumes G: "\<And>x y. G (x XOR y) = G x XOR G y"
  shows "unat x < 2 ^ n \<Longrightarrow> xor_sums (map (\<lambda>k. G (push_bit k 1)) (rev [0..<n])) ! unat x = G x"
proof (induction n arbitrary: x)
  case 0
  have "G 0 = 0" using G [of 0 0] by simp
  with 0 show ?case by (simp add: unat_eq_0)
next
  case (Suc n)
  let ?L = "xor_sums (map (\<lambda>k. G (push_bit k 1)) (rev [0..<n]))"
  have len: "length ?L = 2 ^ n" by (simp add: length_xor_sums)
  show ?case
  proof (cases "unat x < 2 ^ n")
    case True
    with Suc.IH [OF True] len show ?thesis by (simp add: Let_def nth_append)
  next
    case False
    then have le: "2 ^ n \<le> unat x" by simp
    note sp = top_bit_split [OF Suc.prems le]
    have lt: "unat (take_bit n x) < 2 ^ n" using sp(2) Suc.prems by simp
    have "xor_sums (map (\<lambda>k. G (push_bit k 1)) (rev [0..<Suc n])) ! unat x =
        G (push_bit n 1) XOR ?L ! (unat x - 2 ^ n)"
      using len le Suc.prems by (simp add: Let_def nth_append)
    also have "\<dots> = G (push_bit n 1) XOR G (take_bit n x)"
      using Suc.IH [OF lt] sp(2) by simp
    also have "\<dots> = G x" using G [of "push_bit n 1" "take_bit n x"] sp(1) by simp
    finally show ?thesis .
  qed
qed

lemma xor_sums_table:
  fixes G :: "u8 \<Rightarrow> 'a :: len word"
  assumes "\<And>x y. G (x XOR y) = G x XOR G y"
    and "table = xor_sums [G 0x80, G 0x40, G 0x20, G 0x10, G 8, G 4, G 2, G 1]"
  shows "table ! unat x = G x"
proof -
  have "unat x < 2 ^ 8" using unsigned_less [of x, where 'a = nat] by simp
  from xor_sums_nth [OF assms(1) this] assms(2) show ?thesis by (simp add: upt_rec)
qed

text \<open>Eight steps for one byte, at the end of the register where it enters.\<close>

definition byte8 :: "u8 \<Rightarrow> u8" where
  "byte8 x = (div_step 0x07 ^^ 8) x"

definition byte8r :: "u8 \<Rightarrow> u8" where
  "byte8r x = (div_step_rev 0xE0 ^^ 8) x"

definition byte16 :: "u8 \<Rightarrow> u16" where
  "byte16 x = (div_step 0x1021 ^^ 8) (push_bit 8 (ucast x))"

definition byte32 :: "u8 \<Rightarrow> u32" where
  "byte32 x = (div_step_rev 0xEDB88320 ^^ 8) (ucast x)"

lemma ucast_xor: "(ucast (x XOR y :: u8) :: 'a :: len word) = ucast x XOR ucast y"
  by (rule bit_word_eqI) (auto simp: bit_unsigned_iff bit_xor_iff)

lemma byte_xor:
  "byte8 (x XOR y) = byte8 x XOR byte8 y" "byte8r (x XOR y) = byte8r x XOR byte8r y"
  "byte16 (x XOR y) = byte16 x XOR byte16 y" "byte32 (x XOR y) = byte32 x XOR byte32 y"
  unfolding byte8_def byte8r_def byte16_def byte32_def ucast_xor push_bit_xor
  by (rule funpow_xor, rule div_step_xor div_step_rev_xor)+

lemma byte8_values: "[byte8 0x80, byte8 0x40, byte8 0x20, byte8 0x10, byte8 8, byte8 4, byte8 2, byte8 1] =
    [0x89, 0xC7, 0xE0, 0x70, 0x38, 0x1C, 0x0E, 0x07]"
  by code_simp

lemma byte8r_values: "[byte8r 0x80, byte8r 0x40, byte8r 0x20, byte8r 0x10, byte8r 8, byte8r 4, byte8r 2, byte8r 1] =
    [0xE0, 0x70, 0x38, 0x1C, 0x0E, 0x07, 0xE3, 0x91]"
  by code_simp

lemma byte16_values: "[byte16 0x80, byte16 0x40, byte16 0x20, byte16 0x10, byte16 8, byte16 4, byte16 2, byte16 1] =
    [0x9188, 0x48C4, 0x2462, 0x1231, 0x8108, 0x4084, 0x2042, 0x1021]"
  by code_simp

lemma byte32_values: "[byte32 0x80, byte32 0x40, byte32 0x20, byte32 0x10, byte32 8, byte32 4, byte32 2, byte32 1] =
    [0xEDB88320, 0x76DC4190, 0x3B6E20C8, 0x1DB71064, 0x0EDB8832, 0x076DC419, 0xEE0E612C, 0x77073096]"
  by code_simp

lemma crc8_table_byte: "crc8_table ! unat x = byte8 x"
  by (rule xor_sums_table [OF byte_xor(1)], unfold byte8_values) (simp add: crc8_table_def)

lemma crc8r_table_byte: "crc8r_table ! unat x = byte8r x"
  by (rule xor_sums_table [OF byte_xor(2)], unfold byte8r_values) (simp add: crc8r_table_def)

lemma crc16_table_byte: "crc16_table ! unat x = byte16 x"
  by (rule xor_sums_table [OF byte_xor(3)], unfold byte16_values) (simp add: crc16_table_def)

lemma crc32_table_byte: "crc32_table ! unat x = byte32 x"
  by (rule xor_sums_table [OF byte_xor(4)], unfold byte32_values) (simp add: crc32_table_def)

subsection \<open>The table-driven updates are eight division steps\<close>

lemma div_step_low:
  fixes c :: "'a :: len word"
  shows "k + m \<le> LENGTH('a) \<Longrightarrow> (div_step p ^^ k) (take_bit m c) = push_bit k (take_bit m c)"
proof (induction k)
  case (Suc k)
  have "\<not> bit (push_bit k (take_bit m c)) (LENGTH('a) - 1)"
    using Suc.prems by (auto simp: bit_push_bit_iff bit_take_bit_iff)
  with Suc show ?case by (simp add: div_step_def)
qed simp

lemma div_step_rev_high:
  fixes c :: "'a :: len word"
  shows "k \<le> 8 \<Longrightarrow> (div_step_rev p ^^ k) (push_bit 8 (drop_bit 8 c)) = push_bit (8 - k) (drop_bit 8 c)"
proof (induction k)
  case (Suc k)
  have "\<not> bit (push_bit (8 - k) (drop_bit 8 c)) 0"
    using Suc.prems by (auto simp: bit_push_bit_iff)
  moreover have "drop_bit 1 (push_bit (8 - k) (drop_bit 8 c)) = push_bit (8 - Suc k) (drop_bit 8 c)"
    using Suc.prems by (intro bit_word_eqI)
      (auto simp: bit_push_bit_iff bit_drop_bit_eq Suc_diff_le dest: bit_imp_le_length)
  ultimately show ?case using Suc by (simp add: div_step_rev_def)
qed simp

lemma crc8_update_division: "crc8_update b c = (div_step 0x07 ^^ 8) (c XOR b)"
  unfolding crc8_update_def crc8_table_byte byte8_def ..

lemma crc8r_update_division: "crc8r_update b c = (div_step_rev 0xE0 ^^ 8) (c XOR b)"
  unfolding crc8r_update_def crc8r_table_byte byte8r_def ..

lemma unat_ucast_u8: "unat (ucast (x :: u8) :: u16) = unat x" "unat (ucast (x :: u8) :: u32) = unat x"
  using unsigned_less [of x, where 'a = nat]
  by (simp_all add: unsigned_ucast_eq take_bit_nat_eq_self)

lemma crc16_update_division:
  "crc16_update b c = (div_step 0x1021 ^^ 8) (c XOR push_bit 8 (ucast b))"
proof -
  let ?i = "ucast (drop_bit 8 c) XOR b :: u8"
  have i: "drop_bit 8 c XOR ucast b = (ucast ?i :: u16)"
    by (rule bit_word_eqI) (auto simp: bit_unsigned_iff bit_xor_iff bit_drop_bit_eq dest: bit_imp_le_length)
  have "unat (ucast ?i :: u16) = unat ?i" by (rule unat_ucast_u8)
  with i have "crc16_update b c = push_bit 8 c XOR byte16 ?i"
    by (simp only: crc16_update_def crc16_table_byte)
  also have "\<dots> = push_bit 8 (take_bit 8 c) XOR (div_step 0x1021 ^^ 8) (push_bit 8 (ucast ?i))"
  proof -
    have "push_bit 8 c = push_bit 8 (take_bit 8 c)"
      by (rule bit_word_eqI) (auto simp: bit_push_bit_iff bit_take_bit_iff)
    then show ?thesis by (simp only: byte16_def)
  qed
  also have "\<dots> = (div_step 0x1021 ^^ 8) (take_bit 8 c XOR push_bit 8 (ucast ?i))"
    using div_step_low [of 8 8 "0x1021" c] by (simp add: funpow_xor [OF div_step_xor])
  also have "take_bit 8 c XOR push_bit 8 (ucast ?i) = c XOR push_bit 8 (ucast b)"
    by (rule bit_word_eqI)
      (auto simp: bit_unsigned_iff bit_xor_iff bit_push_bit_iff bit_take_bit_iff bit_drop_bit_eq)
  finally show ?thesis .
qed

lemma mask_ff: "(0xFF :: u32) = mask 8"
  by (simp add: mask_eq_exp_minus_1)

lemma crc32_update_division: "crc32_update b c = (div_step_rev 0xEDB88320 ^^ 8) (c XOR ucast b)"
proof -
  let ?i = "ucast c XOR b :: u8"
  have i: "(c XOR ucast b) AND 0xFF = (ucast ?i :: u32)"
    by (intro bit_word_eqI) (auto simp: bit_unsigned_iff bit_xor_iff bit_and_iff mask_ff bit_mask_iff
        dest: bit_imp_le_length)
  have "unat (ucast ?i :: u32) = unat ?i" by (rule unat_ucast_u8)
  with i have "crc32_update b c = drop_bit 8 c XOR byte32 ?i"
    by (simp only: crc32_update_def crc32_table_byte)
  also have "\<dots> = (div_step_rev 0xEDB88320 ^^ 8) (push_bit 8 (drop_bit 8 c) XOR ucast ?i)"
    using div_step_rev_high [of 8 "0xEDB88320" c] by (simp add: funpow_xor [OF div_step_rev_xor] byte32_def)
  also have "push_bit 8 (drop_bit 8 c) XOR ucast ?i = c XOR ucast b"
    by (rule bit_word_eqI)
      (auto simp: bit_unsigned_iff bit_xor_iff bit_push_bit_iff bit_drop_bit_eq dest: bit_imp_le_length)
  finally show ?thesis .
qed

text \<open>
  C29. All four generators compute what they are named after: for every message the table-driven
  checksum is the remainder of the bit-by-bit division by the polynomial (\<open>0x07\<close> for CRC-8,
  \<open>0x1021\<close> for CRC-16, and for the reversed CRC-8 and CRC-32 the reflected polynomials \<open>0xE0\<close> and
  \<open>0xEDB88320\<close>) with the documented initial and final values; every one of the 4 x 256 table
  entries takes part.\<close>

theorem crc_tables_divide_by_polynomial:
  "crc8_calculate data = fold (\<lambda>b c. (div_step 0x07 ^^ 8) (c XOR b)) data 0 \<and>
   crc8r_calculate data = fold (\<lambda>b c. (div_step_rev 0xE0 ^^ 8) (c XOR b)) data 0 \<and>
   crc16_calculate data =
     fold (\<lambda>b c. (div_step 0x1021 ^^ 8) (c XOR push_bit 8 (ucast b))) data 0xFFFF \<and>
   crc32_calculate data =
     fold (\<lambda>b c. (div_step_rev 0xEDB88320 ^^ 8) (c XOR ucast b)) data 0xFFFFFFFF XOR 0xFFFFFFFF"
  unfolding crc8_calculate_def crc8r_calculate_def crc16_calculate_def crc32_calculate_def
    crc8_getValue_def crc8r_getValue_def crc16_getValue_def crc32_getValue_def
    crc8_reset_def crc8r_reset_def crc16_reset_def crc32_reset_def
  by (simp only: crc8_update_division [abs_def] crc8r_update_division [abs_def]
      crc16_update_division [abs_def] crc32_update_division [abs_def])

subsection \<open>Error detection\<close>

locale crc_engine =
  fixes update :: "u8 \<Rightarrow> 'c \<Rightarrow> 'c"
  assumes inj_state: "update b c = update b d \<Longrightarrow> c = d"
    and inj_byte: "update a c = update b c \<Longrightarrow> a = b"
begin

lemma fold_inj: "fold update bs c = fold update bs d \<Longrightarrow> c = d"
  by (induction bs arbitrary: c d) (auto dest: inj_state)

lemma one_byte_error:
  assumes "fold update (xs @ a # ys) c = fold update (xs @ b # ys) c"
  shows "a = b"
proof -
  from assms have "update a (fold update xs c) = update b (fold update xs c)"
    by (simp add: fold_inj)
  then show ?thesis by (rule inj_byte)
qed

end

lemma div_step_inj:
  fixes c d :: "'a :: len word"
  assumes p: "bit p 0" and eq: "div_step p c = div_step p d"
  shows "c = d"
proof -
  let ?t = "LENGTH('a) - 1"
  have "bit (div_step p c) 0 \<longleftrightarrow> bit c ?t" "bit (div_step p d) 0 \<longleftrightarrow> bit d ?t"
    using p by (auto simp: div_step_def bit_xor_iff bit_0 even_xor_iff)
  with eq have t: "bit c ?t \<longleftrightarrow> bit d ?t" by simp
  with eq have s: "push_bit 1 c = push_bit 1 d"
    by (auto simp: div_step_def split: if_splits) (metis xor.right_neutral xor_self_eq xor.assoc)
  show ?thesis
  proof (rule bit_word_eqI)
    fix n assume n: "n < LENGTH('a)"
    show "bit c n = bit d n"
    proof (cases "n = ?t")
      case True
      with t show ?thesis by simp
    next
      case False
      with n have "bit (push_bit 1 c) (Suc n) = bit c n" "bit (push_bit 1 d) (Suc n) = bit d n"
        unfolding bit_push_bit_iff by auto
      with s show ?thesis by simp
    qed
  qed
qed

lemma div_step_rev_inj:
  fixes c d :: "'a :: len word"
  assumes p: "bit p (LENGTH('a) - 1)" and eq: "div_step_rev p c = div_step_rev p d"
  shows "c = d"
proof -
  let ?t = "LENGTH('a) - 1"
  have "bit (div_step_rev p c) ?t \<longleftrightarrow> bit c 0" "bit (div_step_rev p d) ?t \<longleftrightarrow> bit d 0"
    using p by (auto simp: div_step_rev_def bit_xor_iff bit_drop_bit_eq dest: bit_imp_le_length)
  with eq have t: "bit c 0 \<longleftrightarrow> bit d 0" by simp
  with eq have s: "drop_bit 1 c = drop_bit 1 d"
    by (auto simp: div_step_rev_def split: if_splits) (metis xor.right_neutral xor_self_eq xor.assoc)
  show ?thesis
  proof (rule bit_word_eqI)
    fix n
    show "bit c n = bit d n"
    proof (cases n)
      case (Suc m)
      with s show ?thesis by (metis bit_drop_bit_eq comp_apply plus_1_eq_Suc)
    qed (use t in simp)
  qed
qed

lemma funpow_inj:
  fixes f :: "'a \<Rightarrow> 'a"
  assumes "\<And>c d. f c = f d \<Longrightarrow> c = d"
  shows "(f ^^ n) c = (f ^^ n) d \<Longrightarrow> c = d"
  by (induction n) (auto dest: assms)

lemma xor_cancel: "(x :: 'a :: len word) XOR z = y XOR z \<Longrightarrow> x = y" "z XOR x = z XOR y \<Longrightarrow> x = y"
  by (metis xor.assoc xor.right_neutral xor_self_eq, metis xor.assoc xor.left_neutral xor_self_eq)

lemma place_inj:
  "push_bit 8 (ucast a :: u16) = push_bit 8 (ucast (b :: u8)) \<Longrightarrow> a = b"
  "(ucast a :: u32) = ucast (b :: u8) \<Longrightarrow> a = b"
proof -
  have "ucast (drop_bit 8 (push_bit 8 (ucast x :: u16))) = x" for x :: u8
    by (rule bit_word_eqI) (auto simp: bit_unsigned_iff bit_push_bit_iff bit_drop_bit_eq)
  then show "push_bit 8 (ucast a :: u16) = push_bit 8 (ucast (b :: u8)) \<Longrightarrow> a = b" by metis
  have "ucast (ucast x :: u32) = x" for x :: u8
    by (rule bit_word_eqI) (auto simp: bit_unsigned_iff)
  then show "(ucast a :: u32) = ucast (b :: u8) \<Longrightarrow> a = b" by metis
qed

interpretation c8: crc_engine crc8_update
proof
  have inj: "\<And>c d. (div_step 0x07 ^^ 8) c = (div_step 0x07 ^^ 8) d \<Longrightarrow> c = (d :: u8)"
    by (rule funpow_inj [OF div_step_inj]) simp_all
  show "crc8_update b c = crc8_update b d \<Longrightarrow> c = d" for b c d
    unfolding crc8_update_division by (drule inj, erule xor_cancel)
  show "crc8_update a c = crc8_update b c \<Longrightarrow> a = b" for a b c
    unfolding crc8_update_division by (drule inj, erule xor_cancel)
qed

interpretation c8r: crc_engine crc8r_update
proof
  have inj: "\<And>c d. (div_step_rev 0xE0 ^^ 8) c = (div_step_rev 0xE0 ^^ 8) d \<Longrightarrow> c = (d :: u8)"
    by (rule funpow_inj [OF div_step_rev_inj]) simp_all
  show "crc8r_update b c = crc8r_update b d \<Longrightarrow> c = d" for b c d
    unfolding crc8r_update_division by (drule inj, erule xor_cancel)
  show "crc8r_update a c = crc8r_update b c \<Longrightarrow> a = b" for a b c
    unfolding crc8r_update_division by (drule inj, erule xor_cancel)
qed

interpretation c16: crc_engine crc16_update
proof
  have inj: "\<And>c d. (div_step 0x1021 ^^ 8) c = (div_step 0x1021 ^^ 8) d \<Longrightarrow> c = (d :: u16)"
    by (rule funpow_inj [OF div_step_inj]) simp_all
  show "crc16_update b c = crc16_update b d \<Longrightarrow> c = d" for b c d
    unfolding crc16_update_division by (drule inj, erule xor_cancel)
  show "crc16_update a c = crc16_update b c \<Longrightarrow> a = b" for a b c
    unfolding crc16_update_division by (drule inj, drule xor_cancel(2), erule place_inj)
qed

interpretation c32: crc_engine crc32_update
proof
  have inj: "\<And>c d. (div_step_rev 0xEDB88320 ^^ 8) c = (div_step_rev 0xEDB88320 ^^ 8) d \<Longrightarrow> c = (d :: u32)"
    by (rule funpow_inj [OF div_step_rev_inj]) simp_all
  show "crc32_update b c = crc32_update b d \<Longrightarrow> c = d" for b c d
    unfolding crc32_update_division by (drule inj, erule xor_cancel)
  show "crc32_update a c = crc32_update b c \<Longrightarrow> a = b" for a b c
    unfolding crc32_update_division by (drule inj, drule xor_cancel(2), erule place_inj)
qed

text \<open>
  C30. Each of the four checksums detects every corruption of a single byte, wherever it is in a
  message of any length.\<close>

theorem crc_detects_byte_error:
  assumes "a \<noteq> b"
  shows "crc8_calculate (xs @ a # ys) \<noteq> crc8_calculate (xs @ b # ys) \<and>
    crc8r_calculate (xs @ a # ys) \<noteq> crc8r_calculate (xs @ b # ys) \<and>
    crc16_calculate (xs @ a # ys) \<noteq> crc16_calculate (xs @ b # ys) \<and>
    crc32_calculate (xs @ a # ys) \<noteq> crc32_calculate (xs @ b # ys)"
proof (intro conjI notI)
  assume "crc8_calculate (xs @ a # ys) = crc8_calculate (xs @ b # ys)"
  then show False using assms c8.one_byte_error [of xs a ys _ b]
    unfolding crc8_calculate_def crc8_getValue_def by blast
next
  assume "crc8r_calculate (xs @ a # ys) = crc8r_calculate (xs @ b # ys)"
  then show False using assms c8r.one_byte_error [of xs a ys _ b]
    unfolding crc8r_calculate_def crc8r_getValue_def by blast
next
  assume "crc16_calculate (xs @ a # ys) = crc16_calculate (xs @ b # ys)"
  then show False using assms c16.one_byte_error [of xs a ys _ b]
    unfolding crc16_calculate_def crc16_getValue_def by blast
next
  assume "crc32_calculate (xs @ a # ys) = crc32_calculate (xs @ b # ys)"
  then have "fold crc32_update (xs @ a # ys) crc32_reset = fold crc32_update (xs @ b # ys) crc32_reset"
    unfolding crc32_calculate_def crc32_getValue_def by (rule xor_cancel)
  then show False using assms c32.one_byte_error [of xs a ys _ b] by blast
qed

lemma crc_detects_byte_error_witness:
  "crc16_calculate ([1, 2] @ 3 # [4]) \<noteq> crc16_calculate ([1, 2] @ 7 # [4])"
  using crc_detects_byte_error [of 3 7 "[1, 2]" "[4]"] by simp

text \<open>
  The residue of a protected message: with the CRC-16 appended in big endian order, the generator
  ends at zero.
\<close>

lemma crc16_residue:
  "crc16_calculate (data @ [ucast (drop_bit 8 (crc16_calculate data)), ucast (crc16_calculate data)]) = 0"
proof -
  have z: "crc16_table ! 0 = 0" by (simp add: crc16_table_def)
  define c where "c = crc16_calculate data"
  have "drop_bit 8 c XOR ucast (ucast (drop_bit 8 c) :: u8) = 0"
    by (rule bit_word_eqI) (auto simp: bit_unsigned_iff bit_xor_iff bit_drop_bit_eq dest: bit_imp_le_length)
  then have 1: "crc16_update (ucast (drop_bit 8 c)) c = push_bit 8 c"
    by (simp add: crc16_update_def z)
  have "drop_bit 8 (push_bit 8 c) XOR ucast (ucast c :: u8) = 0"
    by (rule bit_word_eqI)
      (auto simp: bit_unsigned_iff bit_xor_iff bit_drop_bit_eq bit_push_bit_iff dest: bit_imp_le_length)
  moreover have "push_bit 8 (push_bit 8 c) = 0"
    by (rule bit_word_eqI) (auto simp: bit_push_bit_iff dest: bit_imp_le_length)
  ultimately have 2: "crc16_update (ucast c) (push_bit 8 c) = 0"
    by (simp add: crc16_update_def z)
  from 1 2 show ?thesis by (simp add: crc16_calculate_def crc16_getValue_def c_def)
qed

end
