(* ===== verification/Hdlc.thy ===== *)
theory Hdlc
  imports Prelude
begin

text \<open>
  \<open>HdlcStuffing\<close> (utils/coding/hdlc.h, hdlc.cpp): byte stuffing with frame markers. Input and
  output are ranges of one memory (begin and end positions), so that decoding in place is a case
  like any other. The iterators advance by one from the begin of their range, so that \<open>it != end\<close>
  is \<open>it < end\<close>. The result holds the memory, the number of elements of the output slice after the
  call (it is an in-out argument) and the returned number.
\<close>

definition boundary_byte :: u8 where
  "boundary_byte = 0x7E"

definition escape_byte :: u8 where
  "escape_byte = 0x7D"

definition hdlc_mask :: u8 where
  "hdlc_mask = 0x20"

text \<open>The loop of \<open>encode\<close>; \<open>None\<close> as the second component is its early return.\<close>

function hdlc_encode_loop ::
    "u8 list \<Rightarrow> nat \<Rightarrow> nat \<Rightarrow> nat \<Rightarrow> nat \<Rightarrow> (u8 list \<times> nat option) option" where
  "hdlc_encode_loop mem input inputEnd out outEnd =
     (if input < inputEnd \<and> out < outEnd then do {
        data \<leftarrow> aread mem input;
        if data = boundary_byte \<or> data = escape_byte then do {
          mem \<leftarrow> awrite mem out escape_byte;
          if out + 1 = outEnd then Some (mem, None)
          else do {
            mem \<leftarrow> awrite mem (out + 1) (data XOR hdlc_mask);
            hdlc_encode_loop mem (input + 1) inputEnd (out + 2) outEnd } }
        else do {
          mem \<leftarrow> awrite mem out data;
          hdlc_encode_loop mem (input + 1) inputEnd (out + 1) outEnd } }
      else Some (mem, Some out))"
  by pat_completeness auto

termination
  by (relation "measure (\<lambda>(m, i, e, out, oe). e - i)") auto

declare hdlc_encode_loop.simps [simp del]

definition hdlc_encode ::
    "u8 list \<Rightarrow> nat \<Rightarrow> size_t \<Rightarrow> nat \<Rightarrow> size_t \<Rightarrow> (u8 list \<times> size_t \<times> size_t) option" where
  "hdlc_encode mem input n out m =
     (if m < n + 2 then Some (mem, m, 0)
      else if input = out then Some (mem, m, 0)
      else do {
        mem \<leftarrow> awrite mem out boundary_byte;
        (mem, r) \<leftarrow> hdlc_encode_loop mem input (input + n) (out + 1) (out + m);
        case r of
          None \<Rightarrow> Some (mem, m, 0)
        | Some p \<Rightarrow>
            if p = out + m then Some (mem, m, 0)
            else do {
              mem \<leftarrow> awrite mem p boundary_byte;
              Some (mem, p + 1 - out, p + 1 - out) } })"

text \<open>The loop of \<open>decode\<close>, with everything that follows it.\<close>

function hdlc_decode_loop ::
    "u8 list \<Rightarrow> nat \<Rightarrow> nat \<Rightarrow> nat \<Rightarrow> nat \<Rightarrow> nat \<Rightarrow> nat \<Rightarrow> bool \<Rightarrow> bool \<Rightarrow> nat \<Rightarrow>
     (u8 list \<times> size_t \<times> size_t) option" where
  "hdlc_decode_loop mem begin input inputEnd out pos outEnd escaped inframe frameStart =
     (if input < inputEnd then do {
        data \<leftarrow> aread mem input;
        if data = boundary_byte then
          if inframe then
            if escaped then Some (mem, 0, input - begin)
            else Some (mem, pos - out, input - begin)
          else hdlc_decode_loop mem begin (input + 1) inputEnd out out outEnd escaped True input
        else if data = escape_byte then
          if escaped then Some (mem, 0, input - begin)
          else hdlc_decode_loop mem begin (input + 1) inputEnd out pos outEnd (escaped \<or> inframe)
                 inframe frameStart
        else if inframe then
          if pos \<noteq> outEnd then do {
            mem \<leftarrow> awrite mem pos (if \<not> escaped then data else data XOR hdlc_mask);
            hdlc_decode_loop mem begin (input + 1) inputEnd out (pos + 1) outEnd False inframe frameStart }
          else Some (mem, 0, frameStart - begin)
        else hdlc_decode_loop mem begin (input + 1) inputEnd out pos outEnd False inframe frameStart }
      else Some (mem, 0, frameStart - begin))"
  by pat_completeness auto

termination
  by (relation "measure (\<lambda>(m, b, i, e, x). e - i)") auto

declare hdlc_decode_loop.simps [simp del]

definition hdlc_decode ::
    "u8 list \<Rightarrow> nat \<Rightarrow> size_t \<Rightarrow> nat \<Rightarrow> size_t \<Rightarrow> (u8 list \<times> size_t \<times> size_t) option" where
  "hdlc_decode mem input n out m =
     hdlc_decode_loop mem input input (input + n) out out (out + m) False False input"

subsection \<open>Frames\<close>

definition hdlc_stuff :: "u8 list \<Rightarrow> u8 list" where
  "hdlc_stuff xs = concat (map (\<lambda>x. if x = boundary_byte \<or> x = escape_byte
     then [escape_byte, x XOR hdlc_mask] else [x]) xs)"

definition hdlc_frame :: "u8 list \<Rightarrow> u8 list" where
  "hdlc_frame xs = boundary_byte # hdlc_stuff xs @ [boundary_byte]"

lemmas hdlc_bytes = boundary_byte_def escape_byte_def hdlc_mask_def

lemma hdlc_stuff_Cons:
  "hdlc_stuff (x # xs) = (if x = boundary_byte \<or> x = escape_byte
     then escape_byte # (x XOR hdlc_mask) # hdlc_stuff xs else x # hdlc_stuff xs)"
  by (simp add: hdlc_stuff_def)

lemma hdlc_stuff_Nil [simp]: "hdlc_stuff [] = []"
  by (simp add: hdlc_stuff_def)

lemma length_hdlc_stuff: "length xs \<le> length (hdlc_stuff xs)" "length (hdlc_stuff xs) \<le> 2 * length xs"
  by (induction xs) (auto simp: hdlc_stuff_Cons)

lemma hdlc_encode_loop_fits:
  assumes "take (e - i) (drop i mem) = xs" and "i \<le> e" and "e \<le> length mem" and "oe \<le> length mem"
    and "out + length (hdlc_stuff xs) \<le> oe" and "oe \<le> i \<or> e \<le> out"
    and "out + length (hdlc_stuff xs) < oe"
  shows "\<exists>mem'. hdlc_encode_loop mem i e out oe = Some (mem', Some (out + length (hdlc_stuff xs))) \<and>
    acopy mem out (hdlc_stuff xs) = Some mem'"
  using assms
proof (induction xs arbitrary: mem i out)
  case Nil
  then have "i = e" by auto
  with Nil show ?case by (simp add: hdlc_encode_loop.simps)
next
  case (Cons x xs)
  have ie: "i < e" using Cons.prems(1,2) by (cases "i = e") auto
  have x: "mem ! i = x" and rest: "take (e - Suc i) (drop (Suc i) mem) = xs"
    using Cons.prems(1,3) ie take_Suc_drop_nth [of i mem "e - Suc i"] by (simp_all add: Suc_diff_Suc)
  have rd: "aread mem i = Some x" using x ie Cons.prems(3) by (simp add: aread_def)
  have keep: "take (e - Suc i) (drop (Suc i) m) = xs"
    if "acopy mem out ys = Some m" "length ys \<le> 2" "out + length ys \<le> oe" for m ys
    using rest nth_acopy [OF that(1)] length_acopy [OF that(1)] that(3) Cons.prems(6)
    by (subst rest [symmetric], intro take_drop_cong) auto
  show ?case
  proof (cases "x = boundary_byte \<or> x = escape_byte")
    case True
    then have st: "hdlc_stuff (x # xs) = [escape_byte, x XOR hdlc_mask] @ hdlc_stuff xs"
      by (simp add: hdlc_stuff_Cons)
    obtain m1 where m1: "awrite mem out escape_byte = Some m1"
      using Cons.prems(4,5) st by (simp add: awrite_def)
    obtain m2 where m2: "awrite m1 (out + 1) (x XOR hdlc_mask) = Some m2"
      using Cons.prems(4,5) st m1 by (auto simp: awrite_def split: if_splits)
    have c: "acopy mem out [escape_byte, x XOR hdlc_mask] = Some m2"
      using m1 m2 by (simp add: acopy_Cons)
    have "\<exists>m'. hdlc_encode_loop m2 (Suc i) e (out + 2) oe =
        Some (m', Some (out + 2 + length (hdlc_stuff xs))) \<and> acopy m2 (out + 2) (hdlc_stuff xs) = Some m'"
      using Cons.IH [of "Suc i" m2 "out + 2"] keep [OF c] ie Cons.prems(3-7) st length_acopy [OF c]
      by auto
    then obtain m' where m': "hdlc_encode_loop m2 (Suc i) e (out + 2) oe =
        Some (m', Some (out + 2 + length (hdlc_stuff xs)))" "acopy m2 (out + 2) (hdlc_stuff xs) = Some m'"
      by blast
    have "acopy mem out (hdlc_stuff (x # xs)) = Some m'"
      using c m'(2) by (simp add: st acopy_eq_Some ac_simps) auto
    with m' rd True m1 m2 ie Cons.prems(5,7) st show ?thesis
      by (subst hdlc_encode_loop.simps) simp
  next
    case False
    then have st: "hdlc_stuff (x # xs) = [x] @ hdlc_stuff xs" by (simp add: hdlc_stuff_Cons)
    obtain m1 where m1: "awrite mem out x = Some m1" using Cons.prems(4,5) st by (simp add: awrite_def)
    then have c: "acopy mem out [x] = Some m1" by (simp add: acopy_Cons)
    have "\<exists>m'. hdlc_encode_loop m1 (Suc i) e (out + 1) oe =
        Some (m', Some (out + 1 + length (hdlc_stuff xs))) \<and> acopy m1 (out + 1) (hdlc_stuff xs) = Some m'"
      using Cons.IH [of "Suc i" m1 "out + 1"] keep [OF c] ie Cons.prems(3-7) st length_acopy [OF c]
      by auto
    then obtain m' where m': "hdlc_encode_loop m1 (Suc i) e (out + 1) oe =
        Some (m', Some (out + 1 + length (hdlc_stuff xs)))" "acopy m1 (out + 1) (hdlc_stuff xs) = Some m'"
      by blast
    have "acopy mem out (hdlc_stuff (x # xs)) = Some m'"
      using c m'(2) by (simp add: st acopy_eq_Some ac_simps) auto
    with m' rd False m1 ie Cons.prems(5,7) st show ?thesis
      by (subst hdlc_encode_loop.simps) simp
  qed
qed

text \<open>What happens when the output is too small: the loop ends at its end, or earlier.\<close>

lemma hdlc_encode_loop_short:
  assumes "take (e - i) (drop i mem) = xs" and "i \<le> e" and "e \<le> length mem" and "oe \<le> length mem"
    and "oe \<le> out + length (hdlc_stuff xs)" and "out \<le> oe" and "oe \<le> i \<or> e \<le> out"
  shows "\<exists>mem' r. hdlc_encode_loop mem i e out oe = Some (mem', r) \<and> (r = None \<or> r = Some oe)"
  using assms
proof (induction xs arbitrary: mem i out)
  case Nil
  then have "out = oe" by simp
  then show ?case by (simp add: hdlc_encode_loop.simps)
next
  case (Cons x xs)
  show ?case
  proof (cases "out = oe")
    case True
    then show ?thesis by (simp add: hdlc_encode_loop.simps)
  next
    case False
    then have oo: "out < oe" using Cons.prems(6) by simp
    have ie: "i < e" using Cons.prems(1,2) by (cases "i = e") auto
    have x: "mem ! i = x" and rest: "take (e - Suc i) (drop (Suc i) mem) = xs"
      using Cons.prems(1,3) ie take_Suc_drop_nth [of i mem "e - Suc i"] by (simp_all add: Suc_diff_Suc)
    have rd: "aread mem i = Some x" using x ie Cons.prems(3) by (simp add: aread_def)
    have keep: "take (e - Suc i) (drop (Suc i) m) = xs"
      if "acopy mem out ys = Some m" "out + length ys \<le> oe" for m ys
      using rest nth_acopy [OF that(1)] length_acopy [OF that(1)] that(2) Cons.prems(7)
      by (subst rest [symmetric], intro take_drop_cong) auto
    show ?thesis
    proof (cases "x = boundary_byte \<or> x = escape_byte")
      case True
      then have st: "length (hdlc_stuff (x # xs)) = 2 + length (hdlc_stuff xs)"
        by (simp add: hdlc_stuff_Cons)
      obtain m1 where m1: "awrite mem out escape_byte = Some m1"
        using Cons.prems(4) oo by (simp add: awrite_def)
      show ?thesis
      proof (cases "out + 1 = oe")
        case last: True
        with rd True m1 ie oo show ?thesis by (subst hdlc_encode_loop.simps) auto
      next
        case no: False
        then have oo2: "out + 2 \<le> oe" using oo by simp
        obtain m2 where m2: "awrite m1 (out + 1) (x XOR hdlc_mask) = Some m2"
          using Cons.prems(4) oo2 m1 by (auto simp: awrite_def split: if_splits)
        have c: "acopy mem out [escape_byte, x XOR hdlc_mask] = Some m2"
          using m1 m2 by (simp add: acopy_Cons)
        have "\<exists>mem' r. hdlc_encode_loop m2 (Suc i) e (out + 2) oe = Some (mem', r) \<and> (r = None \<or> r = Some oe)"
          using Cons.IH [of "Suc i" m2 "out + 2"] keep [OF c] ie Cons.prems(3-7) st length_acopy [OF c] oo2
          by auto
        with rd True m1 m2 ie oo no show ?thesis by (subst hdlc_encode_loop.simps) auto
      qed
    next
      case False
      then have st: "length (hdlc_stuff (x # xs)) = 1 + length (hdlc_stuff xs)"
        by (simp add: hdlc_stuff_Cons)
      obtain m1 where m1: "awrite mem out x = Some m1" using Cons.prems(4) oo by (simp add: awrite_def)
      then have c: "acopy mem out [x] = Some m1" by (simp add: acopy_Cons)
      have "\<exists>mem' r. hdlc_encode_loop m1 (Suc i) e (out + 1) oe = Some (mem', r) \<and> (r = None \<or> r = Some oe)"
        using Cons.IH [of "Suc i" m1 "out + 1"] keep [OF c] ie Cons.prems(3-7) st length_acopy [OF c] oo
        by auto
      with rd False m1 ie oo show ?thesis by (subst hdlc_encode_loop.simps) auto
    qed
  qed
qed

text \<open>
  C32. With input and output in separate ranges, \<open>encode\<close> writes exactly the frame of the input
  (marker, escaped bytes, marker) when it fits and returns its length, and returns 0 when it does
  not fit, for every size of the output; it never leaves the memory.\<close>

theorem hdlc_encode_frames:
  assumes xs: "take n (drop ip mem) = xs" and "ip + n \<le> length mem" and "op + m \<le> length mem"
    and apart: "op + m \<le> ip \<or> ip + n \<le> op" and ne: "ip \<noteq> op"
  shows "if length (hdlc_frame xs) \<le> m
    then \<exists>mem'. hdlc_encode mem ip n op m = Some (mem', length (hdlc_frame xs), length (hdlc_frame xs)) \<and>
      acopy mem op (hdlc_frame xs) = Some mem'
    else \<exists>mem'. hdlc_encode mem ip n op m = Some (mem', m, 0)"
proof (cases "m < n + 2")
  case True
  have "n \<le> length (hdlc_stuff xs)" using length_hdlc_stuff(1) [of xs] xs assms(2) by auto
  with True show ?thesis by (simp add: hdlc_encode_def hdlc_frame_def)
next
  case False
  obtain m1 where m1: "awrite mem op boundary_byte = Some m1" using False assms(3) by (simp add: awrite_def)
  then have c1: "acopy mem op [boundary_byte] = Some m1" by (simp add: acopy_Cons)
  have l1: "length m1 = length mem" by (rule length_acopy [OF c1])
  have xs1: "take (ip + n - ip) (drop ip m1) = xs"
    using nth_acopy [OF c1] l1 apart False by (subst xs [symmetric], simp, intro take_drop_cong) auto
  have side: "ip \<le> ip + n" "ip + n \<le> length m1" "op + m \<le> length m1" "op + m \<le> ip \<or> ip + n \<le> op + 1"
    using assms(2,3) l1 apart by auto
  show ?thesis
  proof (cases "length (hdlc_frame xs) \<le> m")
    case True
    then have room: "op + 1 + length (hdlc_stuff xs) < op + m" by (simp add: hdlc_frame_def)
    then have "op + 1 + length (hdlc_stuff xs) \<le> op + m" by simp
    from hdlc_encode_loop_fits [OF xs1 side(1-3) this side(4) room] obtain m2 where
      m2: "hdlc_encode_loop m1 ip (ip + n) (op + 1) (op + m) =
          Some (m2, Some (op + 1 + length (hdlc_stuff xs)))" "acopy m1 (op + 1) (hdlc_stuff xs) = Some m2"
      by blast
    obtain m3 where m3: "awrite m2 (op + 1 + length (hdlc_stuff xs)) boundary_byte = Some m3"
      using room side(3) length_acopy [OF m2(2)] by (simp add: awrite_def)
    then have "acopy m2 (op + 1 + length (hdlc_stuff xs)) [boundary_byte] = Some m3"
      by (simp add: acopy_Cons)
    then have "acopy m1 (op + 1) (hdlc_stuff xs @ [boundary_byte]) = Some m3"
      using m2(2) by (simp add: acopy_eq_Some ac_simps) auto
    with m1 have "acopy mem op (hdlc_frame xs) = Some m3"
      unfolding hdlc_frame_def by (intro awrite_bind_acopy) simp_all
    with True False ne m1 m2 m3 room show ?thesis
      by (simp add: hdlc_encode_def hdlc_frame_def)
  next
    case no: False
    then have "op + m \<le> op + 1 + length (hdlc_stuff xs)" by (simp add: hdlc_frame_def)
    from hdlc_encode_loop_short [OF xs1 side(1-3) this _ side(4)] False
    obtain m2 r where "hdlc_encode_loop m1 ip (ip + n) (op + 1) (op + m) = Some (m2, r)"
      "r = None \<or> r = Some (op + m)" by auto
    with no False ne m1 show ?thesis by (auto simp: hdlc_encode_def)
  qed
qed

lemma special_unescaped:
  "x = boundary_byte \<or> x = escape_byte \<Longrightarrow>
     x XOR hdlc_mask \<noteq> boundary_byte \<and> x XOR hdlc_mask \<noteq> escape_byte \<and> (x XOR hdlc_mask) XOR hdlc_mask = x"
  by (auto simp: hdlc_bytes)

lemma hdlc_decode_loop_frame:
  assumes "take (Suc (length (hdlc_stuff xs))) (drop i mem) = hdlc_stuff xs @ [boundary_byte]"
    and "i + length (hdlc_stuff xs) < e" and "e \<le> length mem" and "pos \<le> i \<or> e \<le> pos"
    and "pos + length xs \<le> oe" and "oe \<le> length mem" and "out \<le> pos" and "b \<le> i"
  shows "\<exists>mem'. hdlc_decode_loop mem b i e out pos oe False True fs =
      Some (mem', pos + length xs - out, i + length (hdlc_stuff xs) - b) \<and>
    (if xs = [] then mem' = mem else acopy mem pos xs = Some mem')"
  using assms
proof (induction xs arbitrary: mem i pos)
  case Nil
  then have "i < e" by simp
  then have "aread mem i = Some boundary_byte"
    using Nil take_Suc_drop_nth [of i mem 0] by (simp add: aread_def)
  with Nil \<open>i < e\<close> show ?case by (subst hdlc_decode_loop.simps) simp
next
  case (Cons x xs)
  let ?k = "length (hdlc_stuff xs)"
  have step: "\<exists>mem'. hdlc_decode_loop m1 b (Suc j) e out (pos + 1) oe False True fs =
      Some (mem', pos + length (x # xs) - out, Suc j + ?k - b) \<and> acopy mem pos (x # xs) = Some mem'"
    if w: "awrite mem pos x = Some m1" and tk: "take (Suc ?k) (drop (Suc j) mem) = hdlc_stuff xs @ [boundary_byte]"
      and j: "i \<le> j" "Suc j + ?k < e" for m1 j
  proof -
    have c: "acopy mem pos [x] = Some m1" using w by (simp add: acopy_Cons)
    have "take (Suc ?k) (drop (Suc j) m1) = take (Suc ?k) (drop (Suc j) mem)"
      using nth_acopy [OF c] length_acopy [OF c] Cons.prems(4) j by (intro take_drop_cong) auto
    with tk have "take (Suc ?k) (drop (Suc j) m1) = hdlc_stuff xs @ [boundary_byte]" by simp
    from Cons.IH [OF this, of "pos + 1"] j Cons.prems(3-8) length_acopy [OF c]
    obtain mem' where m': "hdlc_decode_loop m1 b (Suc j) e out (pos + 1) oe False True fs =
        Some (mem', pos + 1 + length xs - out, Suc j + ?k - b)"
      "if xs = [] then mem' = m1 else acopy m1 (pos + 1) xs = Some mem'" by auto
    from m'(2) w have "acopy mem pos (x # xs) = Some mem'"
      by (auto simp: acopy_Cons [of mem pos x xs] split: if_splits)
    with m'(1) show ?thesis by auto
  qed
  have wr: "\<exists>m1. awrite mem pos x = Some m1" "pos \<noteq> oe"
    using Cons.prems(5,6) by (simp_all add: awrite_def)
  then obtain m1 where m1: "awrite mem pos x = Some m1" by blast
  have ie: "i < e" using Cons.prems(2) by simp
  have i: "i < length mem" using ie Cons.prems(3) by simp
  show ?case
  proof (cases "x = boundary_byte \<or> x = escape_byte")
    case True
    then have st: "hdlc_stuff (x # xs) = escape_byte # (x XOR hdlc_mask) # hdlc_stuff xs"
      by (simp add: hdlc_stuff_Cons)
    have i1: "Suc i < length mem" using st Cons.prems(2,3) by simp
    have "mem ! i = escape_byte" "mem ! Suc i = x XOR hdlc_mask"
      and tk: "take (Suc ?k) (drop (Suc (Suc i)) mem) = hdlc_stuff xs @ [boundary_byte]"
      using Cons.prems(1) st take_Suc_drop_nth [OF i] take_Suc_drop_nth [OF i1] by simp_all
    then have rd: "aread mem i = Some escape_byte" "aread mem (Suc i) = Some (x XOR hdlc_mask)"
      using i i1 by (simp_all add: aread_def)
    note sp = special_unescaped [OF True]
    have "escape_byte \<noteq> boundary_byte" by (simp add: hdlc_bytes)
    then have "hdlc_decode_loop mem b i e out pos oe False True fs =
        hdlc_decode_loop mem b (Suc i) e out pos oe True True fs"
      using rd(1) ie by (subst hdlc_decode_loop.simps) simp
    also have "\<dots> = hdlc_decode_loop m1 b (Suc (Suc i)) e out (pos + 1) oe False True fs"
      using rd(2) sp wr(2) m1 st Cons.prems(2) by (subst hdlc_decode_loop.simps) simp
    finally show ?thesis using step [OF m1 tk] Cons.prems(2) st by simp
  next
    case False
    then have st: "hdlc_stuff (x # xs) = x # hdlc_stuff xs" by (simp add: hdlc_stuff_Cons)
    have "mem ! i = x" and tk: "take (Suc ?k) (drop (Suc i) mem) = hdlc_stuff xs @ [boundary_byte]"
      using Cons.prems(1) st take_Suc_drop_nth [OF i] by simp_all
    then have rd: "aread mem i = Some x" using i by (simp add: aread_def)
    have "hdlc_decode_loop mem b i e out pos oe False True fs =
        hdlc_decode_loop m1 b (Suc i) e out (pos + 1) oe False True fs"
      using rd False wr(2) m1 ie by (subst hdlc_decode_loop.simps) simp
    with step [OF m1 tk] Cons.prems(2) st show ?thesis by simp
  qed
qed

text \<open>Bytes before the first marker are skipped.\<close>

lemma hdlc_decode_loop_noise:
  assumes "boundary_byte \<notin> set noise" and "take (length noise) (drop i mem) = noise"
    and "i + length noise \<le> e" and "e \<le> length mem"
  shows "hdlc_decode_loop mem b i e out pos oe False False fs =
    hdlc_decode_loop mem b (i + length noise) e out pos oe False False fs"
  using assms
proof (induction noise arbitrary: i)
  case (Cons x noise)
  then have i: "i < length mem" "i < e" by simp_all
  have "mem ! i = x" "take (length noise) (drop (Suc i) mem) = noise"
    using Cons.prems(2) take_Suc_drop_nth [OF i(1)] by simp_all
  with Cons i show ?case by (subst hdlc_decode_loop.simps) (auto simp: aread_def)
qed simp

text \<open>
  C31. \<open>decode\<close> finds a frame: when the input is bytes without a marker, then the frame of a message,
  then anything, it leaves exactly the message in the output, in place or to a lower address or to
  a separate range of at least the message's size, and returns the position of the end marker.\<close>

theorem hdlc_decode_recovers:
  assumes input: "take n (drop ip mem) = noise @ hdlc_frame xs @ rest" and noise: "boundary_byte \<notin> set noise"
    and fits: "ip + n \<le> length mem" "op + m \<le> length mem" "length xs \<le> m"
    and apart: "op \<le> ip \<or> ip + n \<le> op"
  shows "\<exists>mem'. hdlc_decode mem ip n op m =
      Some (mem', length xs, length noise + length (hdlc_frame xs) - 1) \<and>
    take (length xs) (drop op mem') = xs"
proof -
  let ?k = "length (hdlc_stuff xs)"
  let ?i = "ip + length noise"
  have n: "length noise + (?k + 2) + length rest = n"
    using arg_cong [OF input, of length] fits(1) by (simp add: hdlc_frame_def)
  have tk: "take k (drop (ip + j) mem) = take k (drop j (noise @ hdlc_frame xs @ rest))"
    if "j + k \<le> n" for j k
    using that by (simp only: input [symmetric] drop_take take_take min_def drop_drop add.commute) auto
  have t1: "take (length noise) (drop ip mem) = noise" using tk [of 0 "length noise"] n by simp
  have "take 1 (drop ?i mem) = [boundary_byte]"
    using tk [of "length noise" 1] n by (simp add: hdlc_frame_def)
  moreover have il: "?i < length mem" "?i < ip + n" using n fits(1) by simp_all
  ultimately have rd: "aread mem ?i = Some boundary_byte"
    using take_Suc_drop_nth [OF il(1), of 0] by (simp add: aread_def)
  have t2: "take (Suc ?k) (drop (Suc ?i) mem) = hdlc_stuff xs @ [boundary_byte]"
    using tk [of "Suc (length noise)" "Suc ?k"] n by (simp add: hdlc_frame_def)
  have "hdlc_decode mem ip n op m = hdlc_decode_loop mem ip ?i (ip + n) op op (op + m) False False ip"
    unfolding hdlc_decode_def using hdlc_decode_loop_noise [OF noise t1] n fits(1) by simp
  also have "\<dots> = hdlc_decode_loop mem ip (Suc ?i) (ip + n) op op (op + m) False True ?i"
    using rd il by (subst hdlc_decode_loop.simps) simp
  finally have eq: "hdlc_decode mem ip n op m = \<dots>" .
  obtain mem' where m': "hdlc_decode_loop mem ip (Suc ?i) (ip + n) op op (op + m) False True ?i =
      Some (mem', op + length xs - op, Suc ?i + ?k - ip)"
    "if xs = [] then mem' = mem else acopy mem op xs = Some mem'"
    using hdlc_decode_loop_frame [OF t2, of "ip + n" op "op + m" op ip ?i] n fits apart by auto
  have "take (length xs) (drop op mem') = xs"
    using m'(2) acopy_view by (auto split: if_splits)
  with eq m'(1) show ?thesis by (simp add: hdlc_frame_def)
qed

definition hdlc_sample :: "u8 list" where
  "hdlc_sample = [0x55, 0x7E, 0x7D, 0x5E, 0x10, 0x7E, 0x99]"

lemma hdlc_decode_recovers_witness:
  "\<exists>mem'. hdlc_decode hdlc_sample 0 7 0 7 =
      Some (mem', length [0x7E, 0x10 :: u8], length [0x55 :: u8] + length (hdlc_frame [0x7E, 0x10]) - 1) \<and>
    take (length [0x7E, 0x10 :: u8]) (drop 0 mem') = [0x7E, 0x10]"
  by (rule hdlc_decode_recovers [where rest = "[0x99]"])
    (simp_all add: hdlc_sample_def hdlc_frame_def hdlc_stuff_def hdlc_bytes)

lemma hdlc_encode_frames_witness:
  "if length (hdlc_frame [0x7E]) \<le> 4
    then \<exists>mem'. hdlc_encode [0x7E, 0, 0, 0, 0] 0 1 1 4 =
        Some (mem', length (hdlc_frame [0x7E]), length (hdlc_frame [0x7E])) \<and>
      acopy [0x7E, 0, 0, 0, 0] 1 (hdlc_frame [0x7E]) = Some mem'
    else \<exists>mem'. hdlc_encode [0x7E, 0, 0, 0, 0] 0 1 1 4 = Some (mem', 4, 0)"
  by (rule hdlc_encode_frames) simp_all

text \<open>
  Note. Whatever the input bytes are, \<open>decode\<close> stays inside of its two ranges, ends, and returns a
  position in the input and an output length within the output.\<close>

theorem hdlc_decode_safe:
  assumes "ip + n \<le> length mem" and "op + m \<le> length mem"
  shows "\<exists>mem' k r. hdlc_decode mem ip n op m = Some (mem', k, r) \<and> k \<le> m \<and> r \<le> n \<and>
    length mem' = length mem \<and> (\<forall>i<length mem. i < op \<or> op + m \<le> i \<longrightarrow> mem' ! i = mem ! i)"
proof -
  have "\<exists>mem' k r. hdlc_decode_loop mem b i e out pos oe esc inf fs = Some (mem', k, r) \<and>
      k \<le> oe - out \<and> r \<le> e - b \<and> length mem' = length mem \<and>
      (\<forall>i<length mem. i < out \<or> oe \<le> i \<longrightarrow> mem' ! i = mem ! i)"
    if "b \<le> i" "e \<le> length mem" "oe \<le> length mem" "out \<le> pos" "pos \<le> oe" "b \<le> fs" "fs \<le> e" "i \<le> e"
    for mem b i e out pos oe esc inf fs
    using that
  proof (induction mem b i e out pos oe esc inf fs rule: hdlc_decode_loop.induct)
    case (1 mem b i e out pos oe esc inf fs)
    show ?case
    proof (cases "i < e")
      case False
      with "1.prems" show ?thesis by (subst hdlc_decode_loop.simps) auto
    next
      case True
      then have rd: "aread mem i = Some (mem ! i)" using "1.prems" by (simp add: aread_def)
      show ?thesis
      proof (cases "mem ! i \<noteq> boundary_byte \<and> mem ! i \<noteq> escape_byte \<and> inf \<and> pos \<noteq> oe")
        case out: True
        let ?v = "if \<not> esc then mem ! i else mem ! i XOR hdlc_mask"
        have w: "awrite mem pos ?v = Some (mem[pos := ?v])" using out "1.prems" by (simp add: awrite_def)
        have "\<exists>mem' k r. hdlc_decode_loop (mem[pos := ?v]) b (i + 1) e out (pos + 1) oe False inf fs =
            Some (mem', k, r) \<and> k \<le> oe - out \<and> r \<le> e - b \<and> length mem' = length (mem[pos := ?v]) \<and>
            (\<forall>j<length (mem[pos := ?v]). j < out \<or> oe \<le> j \<longrightarrow> mem' ! j = mem[pos := ?v] ! j)"
          using "1.IH"(3) [OF True rd _ _ _ _ w] out "1.prems" True by simp
        then obtain mem' k r where "hdlc_decode_loop (mem[pos := ?v]) b (i + 1) e out (pos + 1) oe False inf fs =
            Some (mem', k, r)" "k \<le> oe - out" "r \<le> e - b" "length mem' = length mem"
            "\<forall>j<length mem. j < out \<or> oe \<le> j \<longrightarrow> mem' ! j = mem[pos := ?v] ! j" by auto
        moreover have "mem[pos := ?v] ! j = mem ! j" if "j < out \<or> oe \<le> j" for j
          using that out "1.prems" by (subst nth_list_update_neq) auto
        ultimately show ?thesis using True rd out w by (subst hdlc_decode_loop.simps) auto
      next
        case False
        with "1.IH"(1,2,4) [OF True rd] "1.prems" True rd show ?thesis
          by (subst hdlc_decode_loop.simps) (auto simp: diff_le_mono split: if_splits)
      qed
    qed
  qed
  from this [of ip ip "ip + n" mem "op + m" op op ip False False] assms show ?thesis
    by (simp add: hdlc_decode_def)
qed

lemma hdlc_decode_safe_witness:
  "\<exists>mem' k r. hdlc_decode hdlc_sample 0 4 5 2 = Some (mem', k, r) \<and> k \<le> 2 \<and> r \<le> 4 \<and>
    length mem' = length hdlc_sample \<and>
    (\<forall>i<length hdlc_sample. i < 5 \<or> 5 + 2 \<le> i \<longrightarrow> mem' ! i = hdlc_sample ! i)"
  by (rule hdlc_decode_safe) (simp_all add: hdlc_sample_def)

end
