(* ===== verification/Bit_Access.thy ===== *)
theory Bit_Access
  imports Prelude
begin

text \<open>
  \<open>BitAccess\<close> (utils/storage/bit_access.h, bit_access_impl.h): single bits and bit ranges of a
  register of 8, 16 or 32 bits (the type \<open>'t word\<close>). Template parameters are arguments.

  An operand narrower than \<open>int\<close> is promoted to 32 bits before it is shifted; the model computes
  in \<open>u32\<close> and converts back where the code assigns to a \<open>T\<close>. A shift by the width of its operand
  is undefined: \<open>getMask\<close> is \<open>None\<close> there, which is why the code has specializations for full
  32 bit registers.
\<close>

definition ba_getMask :: "size_t \<Rightarrow> 't::len word option" where
  "ba_getMask width = (if width < 32 then Some (ucast (push_bit width (1 :: u32) - 1)) else None)"

definition ba_getBit :: "nat \<Rightarrow> 't::len word \<Rightarrow> bool" where
  "ba_getBit offset data = ((ucast data :: u32) AND push_bit offset 1 \<noteq> 0)"

definition ba_get :: "nat \<Rightarrow> nat \<Rightarrow> 't::len word \<Rightarrow> 't word option" where
  "ba_get end start data = do {
     mask \<leftarrow> (ba_getMask (end - start + 1) :: 't word option);
     Some (ucast (drop_bit start (ucast data :: u32) AND ucast mask)) }"

definition ba_setBit :: "nat \<Rightarrow> 't::len word \<Rightarrow> bool \<Rightarrow> 't word" where
  "ba_setBit offset data v =
     (let mask = ucast (push_bit offset (1 :: u32)) :: 't word;
          reg = data AND NOT mask
      in reg OR (if v then mask else 0))"

definition ba_set :: "nat \<Rightarrow> nat \<Rightarrow> 't::len word \<Rightarrow> 't word \<Rightarrow> 't word option" where
  "ba_set end start data v = do {
     m \<leftarrow> (ba_getMask (end - start + 1) :: 't word option);
     let mask = (ucast (push_bit start (ucast m :: u32)) :: 't word);
     let reg = data AND NOT mask;
     Some (reg OR ucast (push_bit start (ucast v :: u32) AND ucast mask)) }"

subsection \<open>Specializations\<close>

definition ba_get_31_0 :: "u32 \<Rightarrow> u32" where
  "ba_get_31_0 data = data"

definition ba_get_31_24 :: "u32 \<Rightarrow> u32" where
  "ba_get_31_24 data = (let mask = 0xFF000000 in drop_bit 24 (data AND mask))"

definition ba_set_31_0 :: "u32 \<Rightarrow> u32 \<Rightarrow> u32" where
  "ba_set_31_0 data v = v"

definition ba_set_31_24 :: "u32 \<Rightarrow> u32 \<Rightarrow> u32" where
  "ba_set_31_24 data v =
     (let maskValue = 0xFF000000; maskClear = 0x00FFFFFF
      in (data AND maskClear) OR (push_bit 24 v AND maskValue))"

text \<open>The overload that the compiler selects for \<open>T = uint32_t\<close>.\<close>

definition ba_get32 :: "nat \<Rightarrow> nat \<Rightarrow> u32 \<Rightarrow> u32 option" where
  "ba_get32 end start data =
     (if end = 31 \<and> start = 0 then Some (ba_get_31_0 data)
      else if end = 31 \<and> start = 24 then Some (ba_get_31_24 data)
      else ba_get end start data)"

definition ba_set32 :: "nat \<Rightarrow> nat \<Rightarrow> u32 \<Rightarrow> u32 \<Rightarrow> u32 option" where
  "ba_set32 end start data v =
     (if end = 31 \<and> start = 0 then Some (ba_set_31_0 data v)
      else if end = 31 \<and> start = 24 then Some (ba_set_31_24 data v)
      else ba_set end start data v)"

subsection \<open>Bits\<close>

lemma bit_low_mask: "k < 32 \<Longrightarrow> bit (2 ^ k - 1 :: u32) n \<longleftrightarrow> n < k"
  by (simp only: mask_eq_exp_minus_1 [symmetric] bit_mask_iff) auto

lemma bit_one_bit: "bit (2 ^ k :: 't::len word) n \<longleftrightarrow> n < LENGTH('t) \<and> n = k"
  by (simp add: bit_exp_iff possible_bit_word)

lemma ba_getMask_bit:
  "k < 32 \<Longrightarrow> \<exists>m. ba_getMask k = Some m \<and> (\<forall>n. bit (m :: 't::len word) n \<longleftrightarrow> n < k \<and> n < LENGTH('t))"
  by (auto simp: ba_getMask_def bit_unsigned_iff bit_low_mask)

lemma bit_top_byte:
  "bit (0xFF000000 :: u32) n \<longleftrightarrow> 24 \<le> n \<and> n < 32" "bit (0x00FFFFFF :: u32) n \<longleftrightarrow> n < 24"
  "bit (0xFF :: u32) n \<longleftrightarrow> n < 8"
proof -
  have "(0xFF000000 :: u32) = push_bit 24 (mask 8)" "(0x00FFFFFF :: u32) = mask 24" "(0xFF :: u32) = mask 8"
    by (simp_all add: mask_eq_exp_minus_1 push_bit_eq_mult)
  from this [THEN arg_cong [where f = "\<lambda>w. bit w n"]] show "bit (0xFF000000 :: u32) n \<longleftrightarrow> 24 \<le> n \<and> n < 32" "bit (0x00FFFFFF :: u32) n \<longleftrightarrow> n < 24"
    "bit (0xFF :: u32) n \<longleftrightarrow> n < 8"
    by (auto simp: bit_push_bit_iff bit_mask_iff)
qed

lemma ba_getBit_bit:
  fixes data :: "'t::len word"
  assumes "offset < LENGTH('t)" "LENGTH('t) \<le> 32"
  shows "ba_getBit offset data \<longleftrightarrow> bit data offset"
proof -
  have "(ucast data :: u32) AND push_bit offset 1 = (if bit data offset then push_bit offset 1 else 0)"
    using assms by (intro bit_word_eqI) (auto simp: bit_and_iff bit_push_bit_iff bit_unsigned_iff bit_one_bit)
  moreover have "push_bit offset (1 :: u32) \<noteq> 0" using assms by (simp add: push_bit_of_1)
  ultimately show ?thesis by (simp add: ba_getBit_def)
qed

lemma ba_setBit_bit:
  fixes data :: "'t::len word"
  assumes "offset < LENGTH('t)" "LENGTH('t) \<le> 32" "n < LENGTH('t)"
  shows "bit (ba_setBit offset data v) n \<longleftrightarrow> (if n = offset then v else bit data n)"
  unfolding ba_setBit_def Let_def using assms
  by (auto simp: bit_or_iff bit_and_iff bit_not_iff bit_unsigned_iff bit_push_bit_iff bit_one_bit)

lemma ba_get_generic:
  fixes data :: "'t::len word"
  assumes "start \<le> end" "end < LENGTH('t)" "LENGTH('t) \<le> 32" "end - start < 31"
  shows "ba_get end start data = Some (take_bit (end - start + 1) (drop_bit start data))"
proof -
  obtain m where m: "ba_getMask (end - start + 1) = Some (m :: 't word)"
    "\<And>n. bit m n \<longleftrightarrow> n < end - start + 1 \<and> n < LENGTH('t)"
    using ba_getMask_bit [of "end - start + 1", where 't = 't] assms by auto
  have "ucast (drop_bit start (ucast data :: u32) AND ucast m) = take_bit (end - start + 1) (drop_bit start data)"
    using assms by (intro bit_word_eqI)
      (auto simp: bit_and_iff bit_unsigned_iff bit_drop_bit_eq bit_take_bit_iff m(2) dest: bit_imp_le_length)
  with m(1) show ?thesis by (simp add: ba_get_def)
qed

lemma ba_set_generic:
  fixes data v :: "'t::len word"
  assumes "start \<le> end" "end < LENGTH('t)" "LENGTH('t) \<le> 32" "end - start < 31"
  shows "\<exists>r. ba_set end start data v = Some r \<and>
    (\<forall>n<LENGTH('t). bit r n \<longleftrightarrow> (if start \<le> n \<and> n \<le> end then bit v (n - start) else bit data n))"
proof -
  obtain m where m: "ba_getMask (end - start + 1) = Some (m :: 't word)"
    "\<And>n. bit m n \<longleftrightarrow> n < end - start + 1 \<and> n < LENGTH('t)"
    using ba_getMask_bit [of "end - start + 1", where 't = 't] assms by auto
  let ?mask = "ucast (push_bit start (ucast m :: u32)) :: 't word"
  let ?r = "(data AND NOT ?mask) OR ucast (push_bit start (ucast v :: u32) AND ucast ?mask)"
  have mask: "bit ?mask n \<longleftrightarrow> start \<le> n \<and> n \<le> end" if "n < LENGTH('t)" for n
    using that assms by (auto simp: bit_unsigned_iff bit_push_bit_iff m(2))
  have "bit ?r n \<longleftrightarrow> (if start \<le> n \<and> n \<le> end then bit v (n - start) else bit data n)"
    if "n < LENGTH('t)" for n
  proof -
    have "bit ?r n \<longleftrightarrow> (bit data n \<and> \<not> bit ?mask n) \<or>
        (start \<le> n \<and> bit v (n - start) \<and> bit ?mask n)"
      using that assms
      by (auto simp: bit_or_iff bit_and_iff bit_not_iff bit_unsigned_iff bit_push_bit_iff
          simp del: ucast_id)
    with mask [OF that] show ?thesis by auto
  qed
  moreover have "ba_set end start data v = Some ?r" using m(1) by (simp add: ba_set_def Let_def)
  ultimately show ?thesis by blast
qed

text \<open>The generic version alone does not cover a full 32 bit register.\<close>

lemma ba_get_full_width_undefined: "ba_get 31 0 (data :: u32) = None"
  by (simp add: ba_get_def ba_getMask_def)

text \<open>
  C33. For every range of a 32 bit register, specialized or not, \<open>set\<close> replaces the bits of the
  range by the low bits of the value, keeps all other bits and is defined, and \<open>get\<close> then reads the
  low bits of the value back.\<close>

theorem bitaccess_set_get:
  assumes "start \<le> end" and "end < 32"
  shows "\<exists>r. ba_set32 end start data v = Some r \<and>
    (\<forall>n<32. bit r n \<longleftrightarrow> (if start \<le> n \<and> n \<le> end then bit v (n - start) else bit data n)) \<and>
    ba_get32 end start r = Some (take_bit (end - start + 1) v)"
proof -
  have get: "ba_get32 end start r = Some (take_bit (end - start + 1) (drop_bit start r))" for r
  proof (cases "end = 31 \<and> (start = 0 \<or> start = 24)")
    case True
    have "drop_bit 24 (r AND 0xFF000000) = take_bit 8 (drop_bit 24 r)"
      by (rule bit_word_eqI)
        (simp only: bit_drop_bit_eq comp_apply bit_and_iff bit_take_bit_iff bit_top_byte, auto dest: bit_imp_le_length)
    with True show ?thesis
      by (auto simp: ba_get32_def ba_get_31_0_def ba_get_31_24_def take_bit_word_eq_self)
  next
    case False
    then have "ba_get32 end start r = ba_get end start r" by (auto simp: ba_get32_def)
    with False assms ba_get_generic [of start "end" r] show ?thesis by auto
  qed
  have "\<exists>r. ba_set32 end start data v = Some r \<and>
    (\<forall>n<32. bit r n \<longleftrightarrow> (if start \<le> n \<and> n \<le> end then bit v (n - start) else bit data n))"
  proof (cases "end = 31 \<and> (start = 0 \<or> start = 24)")
    case True
    then show ?thesis
      by (auto simp: ba_set32_def ba_set_31_0_def ba_set_31_24_def bit_or_iff bit_and_iff
          bit_push_bit_iff bit_top_byte simp del: bit_numeral_word_iff)
  next
    case False
    then have "ba_set32 end start data v = ba_set end start data v" by (auto simp: ba_set32_def)
    moreover have "end - start < 31" using False assms by auto
    ultimately show ?thesis using assms ba_set_generic [of start "end" data v] by simp
  qed
  then obtain r where r: "ba_set32 end start data v = Some r"
    "\<And>n. n < 32 \<Longrightarrow> bit r n \<longleftrightarrow> (if start \<le> n \<and> n \<le> end then bit v (n - start) else bit data n)"
    by blast
  have "take_bit (end - start + 1) (drop_bit start r) = take_bit (end - start + 1) v"
    using assms by (intro bit_word_eqI) (auto simp: bit_take_bit_iff bit_drop_bit_eq r(2) split: if_splits)
  with get r show ?thesis by auto
qed

lemma bitaccess_set_get_witness:
  "\<exists>r. ba_set32 7 4 0xAB 0xC = Some r \<and>
    (\<forall>n<32. bit r n \<longleftrightarrow> (if (4::nat) \<le> n \<and> n \<le> 7 then bit (0xC :: u32) (n - 4) else bit (0xAB :: u32) n)) \<and>
    ba_get32 7 4 r = Some (take_bit (7 - 4 + 1) 0xC)"
  by (rule bitaccess_set_get) simp_all

end
