(* ===== verification/Bitfields.thy ===== *)
theory Bitfields
  imports Bit_Access
begin

text \<open>
  \<open>Bitfield\<close> and \<open>BitfieldLittleEndian\<close> (utils/storage/bitfield.h, bitfield_impl.h): single bits
  and ranges of up to 64 bits of a byte array, bit 0 being the most significant bit of byte 0.

  The template parameters \<open>start\<close> and \<open>end\<close> are arguments; the value type \<open>UInteger<start, end>\<close>
  is \<open>'t word\<close>, and the theorems ask for the length that \<open>integerFromBitSize\<close> gives. The compile
  time constants of \<open>read\<close> and \<open>write\<close> are definitions of their own. The code promotes values of 8
  and 16 bits to \<open>int\<close> before it shifts them and cuts the result when it assigns it; no shift
  amount reaches the width of the value type (\<open>bf_shift_bounds\<close>), so the model shifts in it.
\<close>

definition integerFromBitSize :: "nat \<Rightarrow> nat" where
  "integerFromBitSize n = (if n \<le> 8 then 8 else if n \<le> 16 then 16 else if n \<le> 32 then 32 else 64)"

definition affectedBytes :: "nat \<Rightarrow> nat \<Rightarrow> nat" where
  "affectedBytes start end = end div 8 - start div 8 + 1"

definition bf_getMask :: "nat \<Rightarrow> 't::len word" where
  "bf_getMask numBits = drop_bit (LENGTH('t) - numBits) (- 1)"

definition difference :: "nat \<Rightarrow> nat \<Rightarrow> nat" where
  "difference a b = (if a > b then a - b else b - a)"

definition bf_readBit :: "nat \<Rightarrow> u8 list \<Rightarrow> bool option" where
  "bf_readBit offset byteArray = do {
     let index = offset div 8;
     let offsetByte = offset mod 8;
     b \<leftarrow> aread byteArray index;
     Some (ba_getBit (7 - offsetByte) b) }"

definition bf_writeBit :: "nat \<Rightarrow> u8 list \<Rightarrow> bool \<Rightarrow> u8 list option" where
  "bf_writeBit offset byteArray v = do {
     let index = offset div 8;
     let bitpos = offset mod 8;
     let mask = (push_bit (7 - bitpos) 1 :: u8);
     b \<leftarrow> aread byteArray index;
     byteArray \<leftarrow> awrite byteArray index (b AND NOT mask);
     b \<leftarrow> aread byteArray index;
     awrite byteArray index (b OR push_bit (7 - bitpos) (of_bool v)) }"

text \<open>The loop of \<open>read\<close>; the arguments after the array are the constants it uses.\<close>

fun bf_read_loop ::
    "u8 list \<Rightarrow> nat \<Rightarrow> nat \<Rightarrow> nat \<Rightarrow> nat \<Rightarrow> 't::len word \<Rightarrow> nat \<Rightarrow> nat \<Rightarrow> 't word \<Rightarrow> 't word option" where
  "bf_read_loop byteArray index maxByte bitOffset bitpos msk i 0 acc = Some acc"
| "bf_read_loop byteArray index maxByte bitOffset bitpos msk i (Suc k) acc = do {
     let shift = bitOffset + (maxByte - i) * 8;
     b \<leftarrow> aread byteArray (i + index);
     let byte = ucast b AND drop_bit (shift - bitpos) msk;
     bf_read_loop byteArray index maxByte bitOffset bitpos msk (i + 1) k
       (acc OR push_bit (shift - bitpos) byte) }"

definition bf_read :: "nat \<Rightarrow> nat \<Rightarrow> u8 list \<Rightarrow> 't::len word option" where
  "bf_read start end byteArray = do {
     let numberOfBits = end - start + 1;
     let index = start div 8;
     let numAffectedBytes = affectedBytes start end;
     let bitOffset = difference (LENGTH('t) div 8) numAffectedBytes * 8;
     let pos = start mod 8;
     let bitpos = numAffectedBytes * 8 + bitOffset - (pos + numberOfBits);
     let mask = (bf_getMask numberOfBits :: 't word);
     let maxByte = numAffectedBytes - 1;
     let lastShift = bitpos - bitOffset;
     v \<leftarrow> bf_read_loop byteArray index maxByte bitOffset bitpos mask 0 maxByte 0;
     b \<leftarrow> aread byteArray (maxByte + index);
     let byte = (ucast (ucast b AND push_bit lastShift mask) :: u8);
     Some (v OR ucast (drop_bit lastShift byte)) }"

fun bf_write_loop ::
    "nat \<Rightarrow> nat \<Rightarrow> nat \<Rightarrow> 't::len word \<Rightarrow> 't word \<Rightarrow> nat \<Rightarrow> nat \<Rightarrow> u8 list \<Rightarrow> u8 list option" where
  "bf_write_loop index maxByte bitpos msk v i 0 byteArray = Some byteArray"
| "bf_write_loop index maxByte bitpos msk v i (Suc k) byteArray = do {
     let shift = (maxByte - i) * 8 - bitpos;
     b \<leftarrow> aread byteArray (index + i);
     byteArray \<leftarrow> awrite byteArray (index + i) (b AND ucast (NOT (drop_bit shift msk)));
     b \<leftarrow> aread byteArray (index + i);
     byteArray \<leftarrow> awrite byteArray (index + i) (b OR ucast (drop_bit shift v AND 0xff));
     bf_write_loop index maxByte bitpos msk v (i + 1) k byteArray }"

text \<open>\<open>index\<close> is a \<open>uint16_t\<close> here (and a \<open>uint32_t\<close> in \<open>read\<close>).\<close>

definition bf_write :: "nat \<Rightarrow> nat \<Rightarrow> u8 list \<Rightarrow> 't::len word \<Rightarrow> u8 list option" where
  "bf_write start end byteArray v = do {
     let numberOfBits = end - start + 1;
     let numAffectedBytes = affectedBytes start end;
     let pos = start mod 8;
     let index = start div 8 mod 2 ^ 16;
     let bitpos = numAffectedBytes * 8 - (pos + numberOfBits);
     let maxByte = numAffectedBytes - 1;
     let mask = (bf_getMask numberOfBits :: 't word);
     byteArray \<leftarrow> bf_write_loop index maxByte bitpos mask v 0 maxByte byteArray;
     b \<leftarrow> aread byteArray (index + maxByte);
     byteArray \<leftarrow> awrite byteArray (index + maxByte) (b AND ucast (NOT (push_bit bitpos mask)));
     b \<leftarrow> aread byteArray (index + maxByte);
     awrite byteArray (index + maxByte) (b OR ucast (push_bit bitpos v AND 0xff)) }"

subsection \<open>Little endian\<close>

fun byteSwap_loop :: "'t::len word \<Rightarrow> 't word \<Rightarrow> nat \<Rightarrow> 't word" where
  "byteSwap_loop i j 0 = j"
| "byteSwap_loop i j (Suc k) = byteSwap_loop (drop_bit 8 i) (push_bit 8 j OR (i AND 0xFF)) k"

text \<open>The recursion counts \<open>n\<close> from 0 to \<open>sizeof(T)\<close>; the model counts the steps that are left.\<close>

definition byteSwap :: "'t::len word \<Rightarrow> 't word" where
  "byteSwap i = byteSwap_loop i 0 (LENGTH('t) div 8)"

definition bl_readBit :: "nat \<Rightarrow> u8 list \<Rightarrow> bool option" where
  "bl_readBit offset byteArray = bf_readBit offset byteArray"

definition bl_writeBit :: "nat \<Rightarrow> u8 list \<Rightarrow> bool \<Rightarrow> u8 list option" where
  "bl_writeBit offset byteArray v = bf_writeBit offset byteArray v"

definition bl_read :: "nat \<Rightarrow> nat \<Rightarrow> u8 list \<Rightarrow> 't::len word option" where
  "bl_read start end byteArray = do { v \<leftarrow> bf_read start end byteArray; Some (byteSwap v) }"

definition bl_write :: "nat \<Rightarrow> nat \<Rightarrow> u8 list \<Rightarrow> 't::len word \<Rightarrow> u8 list option" where
  "bl_write start end byteArray v = bf_write start end byteArray (byteSwap v)"

subsection \<open>Bits of a byte array\<close>

text \<open>Bit \<open>k\<close> of the array, most significant bit of each byte first.\<close>

definition msb_bit :: "u8 list \<Rightarrow> nat \<Rightarrow> bool" where
  "msb_bit m k = bit (m ! (k div 8)) (7 - k mod 8)"

lemma bf_getMask_bit: "k \<le> LENGTH('t) \<Longrightarrow> bit (bf_getMask k :: 't::len word) n \<longleftrightarrow> n < k"
  by (auto simp: bf_getMask_def bit_drop_bit_eq bit_mask_iff)

lemma bit_byte_mask: "bit (0xff :: 't::len word) n \<longleftrightarrow> n < 8 \<and> n < LENGTH('t)"
proof -
  have "(0xff :: 't word) = mask 8" by (simp add: mask_eq_exp_minus_1)
  then show ?thesis by (simp only: bit_mask_iff) auto
qed

text \<open>The constants: with \<open>tail\<close> bits behind the field, byte \<open>i\<close> is shifted by \<open>8 (maxByte - i) - tail\<close>.\<close>

lemma bf_layout_arith:
  fixes a b r s st en :: nat
  assumes "a \<le> b" "st = 8 * a + r" "en = 8 * b + s" "s < 8" "st \<le> en"
  shows "(b - a + 1) * 8 = r + (en - st + 1) + (7 - s)" "a + (b - a + 1 - 1) = b"
  using assms by (simp_all add: diff_mult_distrib)

lemma bf_layout:
  assumes "start \<le> end"
  shows "affectedBytes start end * 8 = start mod 8 + (end - start + 1) + (7 - end mod 8)"
    and "start div 8 + (affectedBytes start end - 1) = end div 8"
proof -
  note arith = bf_layout_arith [of "start div 8" "end div 8" start "start mod 8" "end" "end mod 8"]
  show "affectedBytes start end * 8 = start mod 8 + (end - start + 1) + (7 - end mod 8)"
    unfolding affectedBytes_def using assms by (intro arith(1)) (simp_all add: div_le_mono)
  show "start div 8 + (affectedBytes start end - 1) = end div 8"
    unfolding affectedBytes_def using assms by (intro arith(2)) (simp_all add: div_le_mono)
qed

lemma integerFromBitSize_ge: "n \<le> 64 \<Longrightarrow> n \<le> integerFromBitSize n" "8 \<le> integerFromBitSize n"
  by (auto simp: integerFromBitSize_def)

text \<open>Every shift amount is smaller than the width of the value type.\<close>

lemma bf_shift_bounds:
  assumes "start < end" "end - start + 1 \<le> 64" "i < affectedBytes start end - 1"
  shows "(affectedBytes start end - 1 - i) * 8 - (7 - end mod 8) < integerFromBitSize (end - start + 1)"
    and "7 - end mod 8 < 8"
proof -
  have "(affectedBytes start end - 1 - i) * 8 \<le> affectedBytes start end * 8 - 8" by simp
  moreover have "affectedBytes start end * 8 \<le> (end - start + 1) + (7 - end mod 8) + 7"
    using bf_layout(1) [of start "end"] assms(1) mod_less_divisor [of 8 start] by simp
  ultimately have "(affectedBytes start end - 1 - i) * 8 - (7 - end mod 8) < end - start + 1" by simp
  also have "\<dots> \<le> integerFromBitSize (end - start + 1)" by (rule integerFromBitSize_ge) (rule assms(2))
  finally show "(affectedBytes start end - 1 - i) * 8 - (7 - end mod 8) < integerFromBitSize (end - start + 1)" .
qed simp

subsection \<open>Reading\<close>

lemma bf_read_loop_bits:
  fixes msk acc :: "'t::len word" and bitOffset bitpos :: nat
  assumes "i + k = maxByte" and "maxByte + index \<le> length m"
    and "\<And>n. bit msk n \<longleftrightarrow> n < nb" and "nb \<le> LENGTH('t)"
  defines "sh \<equiv> \<lambda>j. bitOffset + (maxByte - j) * 8 - bitpos"
  shows "\<exists>v. bf_read_loop m index maxByte bitOffset bitpos msk i k acc = Some v \<and>
    (\<forall>n. bit v n \<longleftrightarrow> bit acc n \<or>
      (n < nb \<and> (\<exists>j. i \<le> j \<and> j < maxByte \<and> sh j \<le> n \<and> bit (m ! (j + index)) (n - sh j))))"
  using assms(1)
proof (induction k arbitrary: i acc)
  case 0
  then show ?case by auto
next
  case (Suc k)
  have rd: "aread m (i + index) = Some (m ! (i + index))" using Suc.prems assms(2) by (simp add: aread_def)
  let ?acc = "acc OR push_bit (sh i) (ucast (m ! (i + index)) AND drop_bit (sh i) msk)"
  from Suc.IH [of "i + 1" ?acc] Suc.prems obtain v where
    v: "bf_read_loop m index maxByte bitOffset bitpos msk (i + 1) k ?acc = Some v"
    "\<And>n. bit v n \<longleftrightarrow> bit ?acc n \<or>
      (n < nb \<and> (\<exists>j. i + 1 \<le> j \<and> j < maxByte \<and> sh j \<le> n \<and> bit (m ! (j + index)) (n - sh j)))"
    by auto
  have acc: "bit ?acc n \<longleftrightarrow> bit acc n \<or> (n < nb \<and> sh i \<le> n \<and> bit (m ! (i + index)) (n - sh i))" for n
    using assms(3) [of n] assms(4)
    by (auto simp: bit_or_iff bit_and_iff bit_push_bit_iff bit_unsigned_iff bit_drop_bit_eq)
  have ex: "(\<exists>j. i \<le> j \<and> j < maxByte \<and> P j) \<longleftrightarrow> P i \<or> (\<exists>j. i + 1 \<le> j \<and> j < maxByte \<and> P j)" for P
  proof -
    have split: "i \<le> j \<longleftrightarrow> j = i \<or> i + 1 \<le> j" for j by auto
    have "i < maxByte" using Suc.prems by simp
    then show ?thesis by (simp only: split conj_disj_distribR ex_disj_distrib) simp
  qed
  have "bit v n \<longleftrightarrow> bit acc n \<or>
      (n < nb \<and> (\<exists>j. i \<le> j \<and> j < maxByte \<and> sh j \<le> n \<and> bit (m ! (j + index)) (n - sh j)))" for n
    unfolding v(2) acc ex [of "\<lambda>j. sh j \<le> n \<and> bit (m ! (j + index)) (n - sh j)"] by blast
  moreover have "bf_read_loop m index maxByte bitOffset bitpos msk i (Suc k) acc = Some v"
    using rd v(1) by (simp add: sh_def Let_def)
  ultimately show ?case by blast
qed

text \<open>Where bit \<open>n\<close> of the value, counted from the last bit of the field, is in the array.\<close>

lemma field_bit_place:
  fixes E e n J tl R q :: nat
  assumes "e = 8 * E + (7 - tl)" and "tl < 8" and "n + tl = 8 * (E - J) + q" and "q < 8" and "J \<le> E"
  shows "(e - n) div 8 = J" and "7 - (e - n) mod 8 = q"
proof -
  have "e - n = 8 * J + (7 - q)" using assms by (simp add: algebra_simps)
  moreover have "7 - q < 8" by simp
  ultimately show "(e - n) div 8 = J" "7 - (e - n) mod 8 = q" using assms(4)
    by (simp_all only: div_mult_self4 mod_mult_self4) simp_all
qed

lemma field_bit_arith:
  fixes E n tl J :: nat
  assumes "J < E" and "(E - J) * 8 - tl \<le> n" and "n - ((E - J) * 8 - tl) < 8" and "tl < 8"
  shows "n + tl = 8 * (E - J) + (n - ((E - J) * 8 - tl))"
  using assms by linarith

lemma field_bit_split:
  fixes E n tl :: nat
  assumes "8 - tl \<le> n" and "n + tl < 8 * (E + 1 - index)" and "tl < 8" and "index \<le> E"
  obtains J where "index \<le> J" "J < E" "(E - J) * 8 - tl \<le> n" "n - ((E - J) * 8 - tl) = (n + tl) mod 8"
proof
  let ?d = "(n + tl) div 8"
  have d: "8 * ?d \<le> n + tl" "n + tl < 8 * ?d + 8" by (simp_all add: dividend_less_times_div)
  have "0 < ?d" using assms(1,3) by (simp add: div_greater_zero_iff)
  moreover have "?d < E + 1 - index" using assms(2) d(1) by linarith
  ultimately have e: "E - (E - ?d) = ?d" "index \<le> E - ?d" "E - ?d < E" using assms(4) by auto
  show "index \<le> E - ?d" "E - ?d < E" by fact+
  show "(E - (E - ?d)) * 8 - tl \<le> n" using d(1) unfolding e(1) by simp
  show "n - ((E - (E - ?d)) * 8 - tl) = (n + tl) mod 8"
    using d assms(3) \<open>0 < ?d\<close> unfolding e(1) by (simp add: modulo_nat_def)
qed

lemma bf_read_bits:
  assumes "start < end" and "end - start + 1 \<le> 64"
    and t: "LENGTH('t::len) = integerFromBitSize (end - start + 1)" and "end < 8 * length m"
  shows "\<exists>v :: 't word. bf_read start end m = Some v \<and>
    (\<forall>n. bit v n \<longleftrightarrow> n < end - start + 1 \<and> msb_bit m (end - n))"
proof -
  let ?nb = "end - start + 1" and ?mb = "affectedBytes start end - 1" and ?ix = "start div 8"
  let ?tl = "7 - end mod 8" and ?E = "end div 8"
  let ?msk = "bf_getMask ?nb :: 't word"
  let ?bo = "difference (LENGTH('t) div 8) (affectedBytes start end) * 8"
  let ?sh = "\<lambda>j. (?mb - j) * 8 - ?tl"
  have nb: "?nb \<le> LENGTH('t)" "8 \<le> LENGTH('t)" using t assms(2) integerFromBitSize_ge [of ?nb] by simp_all
  have E: "?mb + ?ix = ?E" using bf_layout(2) [of start "end"] assms(1) by simp
  have lay: "affectedBytes start end * 8 = start mod 8 + ?nb + ?tl" by (rule bf_layout(1)) (use assms(1) in simp)
  have bp: "affectedBytes start end * 8 + ?bo - (start mod 8 + ?nb) = ?tl + ?bo" using lay by simp
  have Elen: "?E < length m" using assms(4) by (simp add: less_mult_imp_div_less mult.commute)
  have mask: "bit ?msk n \<longleftrightarrow> n < ?nb" for n using bf_getMask_bit [OF nb(1)] .
  obtain w where w: "bf_read_loop m ?ix ?mb ?bo (?tl + ?bo) ?msk 0 ?mb 0 = Some w"
    "\<And>n. bit w n \<longleftrightarrow> n < ?nb \<and> (\<exists>j<?mb. ?sh j \<le> n \<and> bit (m ! (j + ?ix)) (n - ?sh j))"
    using bf_read_loop_bits [where i = 0 and k = ?mb and maxByte = ?mb and index = ?ix and m = m and
        msk = ?msk and nb = ?nb and bitOffset = ?bo and bitpos = "?tl + ?bo" and acc = 0] mask nb(1) Elen E
    by auto
  let ?b = "ucast (ucast (m ! ?E) AND push_bit ?tl ?msk) :: u8"
  let ?v = "w OR ucast (drop_bit ?tl ?b)"
  have "bf_read start end m = Some ?v"
    unfolding bf_read_def Let_def bp using w(1) Elen E by (simp add: aread_def)
  moreover have "bit ?v n \<longleftrightarrow> n < ?nb \<and> msb_bit m (end - n)" for n
  proof -
    have ev: "end = 8 * ?E + (7 - ?tl)" and tl8: "?tl < 8" by simp_all
    have last: "bit (ucast (drop_bit ?tl ?b) :: 't word) n \<longleftrightarrow> n + ?tl < 8 \<and> n < ?nb \<and> bit (m ! ?E) (n + ?tl)"
      using nb by (auto simp: bit_unsigned_iff bit_drop_bit_eq bit_and_iff bit_push_bit_iff mask mask [simplified] add.commute
          dest: bit_imp_le_length)
    have fin: "bit (m ! ?E) (n + ?tl) \<longleftrightarrow> msb_bit m (end - n)" if "n + ?tl < 8"
    proof -
      have "n + ?tl = 8 * (?E - ?E) + (n + ?tl)" by simp
      from field_bit_place [OF ev _ this that] have "(end - n) div 8 = ?E" "7 - (end - n) mod 8 = n + ?tl"
        by simp_all
      then show ?thesis by (simp only: msb_bit_def)
    qed
    have loop: "(\<exists>j<?mb. ?sh j \<le> n \<and> bit (m ! (j + ?ix)) (n - ?sh j)) \<longleftrightarrow> msb_bit m (end - n)"
      if n: "n < ?nb" "\<not> n + ?tl < 8"
    proof
      assume "\<exists>j<?mb. ?sh j \<le> n \<and> bit (m ! (j + ?ix)) (n - ?sh j)"
      then obtain j where j: "j < ?mb" "?sh j \<le> n" "bit (m ! (j + ?ix)) (n - ?sh j)" by blast
      have mj: "?mb - j = ?E - (j + ?ix)" "j + ?ix < ?E" using E j(1) by auto
      have "n - ?sh j < 8" using j(3) by (auto dest: bit_imp_le_length)
      note q = this
      have sh: "?sh j = (?E - (j + ?ix)) * 8 - ?tl" by (simp only: mj(1))
      have "n + ?tl = 8 * (?E - (j + ?ix)) + (n - ?sh j)"
        unfolding sh by (rule field_bit_arith [OF mj(2) j(2) [unfolded sh] q [unfolded sh] tl8])
      note p = field_bit_place [OF ev tl8 this q less_imp_le [OF mj(2)]]
      from j(3) show "msb_bit m (end - n)" unfolding msb_bit_def p .
    next
      assume msb: "msb_bit m (end - n)"
      have s1: "8 - ?tl \<le> n" using n(2) by linarith
      have s2: "n + ?tl < 8 * (?E + 1 - ?ix)"
      proof -
        have "?E + 1 - ?ix = affectedBytes start end"
          unfolding affectedBytes_def using assms(1) div_le_mono [of start "end" 8] by simp
        moreover have "n + ?tl < affectedBytes start end * 8" unfolding lay using n(1) by linarith
        ultimately show ?thesis by (simp only: mult.commute)
      qed
      have ixE: "?ix \<le> ?E" using assms(1) by (intro div_le_mono) simp
      obtain J where J: "?ix \<le> J" "J < ?E" "(?E - J) * 8 - ?tl \<le> n"
        "n - ((?E - J) * 8 - ?tl) = (n + ?tl) mod 8"
        by (rule field_bit_split [OF s1 s2 tl8 ixE])
      have q: "(n + ?tl) mod 8 < 8" by simp
      have "n + ?tl = 8 * (?E - J) + (n + ?tl) mod 8"
        by (rule field_bit_arith [OF J(2,3) _ tl8, unfolded J(4), OF q])
      note p = field_bit_place [OF ev tl8 this q less_imp_le [OF J(2)]]
      from msb have bm: "bit (m ! J) (n - ((?E - J) * 8 - ?tl))" unfolding msb_bit_def p J(4) .
      have idx: "?mb - (J - ?ix) = ?E - J" "J - ?ix < ?mb" "J - ?ix + ?ix = J" using J(1,2) E by auto
      have "?sh (J - ?ix) \<le> n \<and> bit (m ! (J - ?ix + ?ix)) (n - ?sh (J - ?ix))"
        unfolding idx by (rule conjI [OF J(3) bm])
      with idx(2) show "\<exists>j<?mb. ?sh j \<le> n \<and> bit (m ! (j + ?ix)) (n - ?sh j)" by blast
    qed
    show ?thesis
    proof (cases "n + ?tl < 8")
      case True
      have "\<not> bit w n"
      proof
        assume "bit w n"
        then obtain j where "j < ?mb" "?sh j \<le> n" unfolding w(2) by blast
        then have "8 \<le> (?mb - j) * 8" "(?mb - j) * 8 \<le> n + ?tl" by auto
        with True show False by simp
      qed
      with last fin True show ?thesis by (auto simp: bit_or_iff)
    next
      case False
      with last loop show ?thesis by (auto simp: bit_or_iff w(2))
    qed
  qed
  ultimately show ?thesis by blast
qed

text \<open>
  Note. For every range of at most 64 bits, wherever it starts in a byte, \<open>read\<close> returns exactly the
  bits of the range, the last bit as the lowest, with nothing above them, and does not leave the
  array when the range lies in it.\<close>

theorem bitfield_read_bits:
  assumes "start < end" and "end - start + 1 \<le> 64"
    and "LENGTH('t::len) = integerFromBitSize (end - start + 1)" and "end < 8 * length m"
  shows "\<exists>v :: 't word. bf_read start end m = Some v \<and>
    (\<forall>n. bit v n \<longleftrightarrow> n < end - start + 1 \<and> msb_bit m (end - n))"
  using assms by (rule bf_read_bits)

lemma bitfield_read_bits_witness:
  "\<exists>v :: 16 word. bf_read 5 17 [0x12, 0x34, 0x56] = Some v \<and>
    (\<forall>n. bit v n \<longleftrightarrow> n < 17 - 5 + 1 \<and> msb_bit [0x12, 0x34, 0x56] (17 - n))"
  by (rule bitfield_read_bits) (simp_all add: integerFromBitSize_def)

subsection \<open>Writing\<close>

definition bf_merge :: "'t::len word \<Rightarrow> 't word \<Rightarrow> u8 \<Rightarrow> u8" where
  "bf_merge msk v b = (b AND ucast (NOT msk)) OR ucast (v AND 0xff)"

lemma bf_merge_bit:
  fixes msk v :: "'t::len word"
  assumes "8 \<le> LENGTH('t)" and "n < 8"
  shows "bit (bf_merge msk v b) n \<longleftrightarrow> (bit b n \<and> \<not> bit msk n) \<or> bit v n"
  unfolding bf_merge_def using assms
  by (auto simp: bit_or_iff bit_and_iff bit_not_iff bit_unsigned_iff bit_byte_mask
      simp del: bit_numeral_word_iff)

lemma bf_merge_shifted_bit:
  fixes msk v :: "'t::len word"
  assumes "8 \<le> LENGTH('t)" and "n < 8"
  shows "bit (bf_merge (push_bit j msk) (push_bit j v) b) n \<longleftrightarrow>
    (bit b n \<and> (j \<le> n \<longrightarrow> \<not> bit msk (n - j))) \<or> (j \<le> n \<and> bit v (n - j))"
  using assms by (auto simp: bf_merge_bit bit_push_bit_iff)

lemma bf_write_loop_bytes:
  assumes "i + k = maxByte" and "maxByte + index \<le> length m"
  shows "\<exists>m'. bf_write_loop index maxByte bitpos msk v i k m = Some m' \<and> length m' = length m \<and>
    (\<forall>x<length m. m' ! x = (if index + i \<le> x \<and> x < index + maxByte
       then bf_merge (drop_bit ((maxByte - (x - index)) * 8 - bitpos) msk)
         (drop_bit ((maxByte - (x - index)) * 8 - bitpos) v) (m ! x)
       else m ! x))"
  using assms
proof (induction k arbitrary: i m)
  case 0
  then show ?case by auto
next
  case (Suc k)
  let ?s = "(maxByte - i) * 8 - bitpos"
  let ?m = "m[index + i := bf_merge (drop_bit ?s msk) (drop_bit ?s v) (m ! (index + i))]"
  have len: "index + i < length m" using Suc.prems by simp
  have step: "bf_write_loop index maxByte bitpos msk v i (Suc k) m =
      bf_write_loop index maxByte bitpos msk v (i + 1) k ?m"
    using len by (simp add: aread_def awrite_def Let_def bf_merge_def)
  from Suc.IH [of "i + 1" ?m] Suc.prems obtain m' where m':
    "bf_write_loop index maxByte bitpos msk v (i + 1) k ?m = Some m'" "length m' = length m"
    "\<And>x. x < length m \<Longrightarrow> m' ! x = (if index + (i + 1) \<le> x \<and> x < index + maxByte
       then bf_merge (drop_bit ((maxByte - (x - index)) * 8 - bitpos) msk)
         (drop_bit ((maxByte - (x - index)) * 8 - bitpos) v) (?m ! x)
       else ?m ! x)" by auto
  have "m' ! x = (if index + i \<le> x \<and> x < index + maxByte
       then bf_merge (drop_bit ((maxByte - (x - index)) * 8 - bitpos) msk)
         (drop_bit ((maxByte - (x - index)) * 8 - bitpos) v) (m ! x)
       else m ! x)" if "x < length m" for x
  proof (cases "x = index + i")
    case True
    with m'(3) [OF that] len Suc.prems show ?thesis by simp
  next
    case False
    then have "index + i \<le> x \<longleftrightarrow> index + (i + 1) \<le> x" by auto
    with m'(3) [OF that] False show ?thesis by simp
  qed
  with step m'(1,2) show ?case by auto
qed

lemma diff_diff_shift: "i + d = e \<Longrightarrow> i \<le> x \<Longrightarrow> d - (x - i) = e - (x :: nat)"
  by simp

lemma bf_place_arith:
  fixes k x n e E tl ix :: nat
  assumes "k = 8 * x + (7 - n)" "n < 8" "e = 8 * E + (7 - tl)" "tl < 8" "ix \<le> x"
  shows "8 * ix \<le> k" and "x = E \<Longrightarrow> k \<le> e \<longleftrightarrow> tl \<le> n" and "x = E \<Longrightarrow> tl \<le> n \<Longrightarrow> e - k = n - tl"
    and "x < E \<Longrightarrow> k \<le> e" and "x < E \<Longrightarrow> e - k = (E - x) * 8 - tl + n"
  using assms by (simp_all add: diff_mult_distrib) linarith+

text \<open>One bit of the array after \<open>write\<close>: also bits in front of the field change when the value has
  bits above its range.\<close>

lemma bf_write_bits:
  fixes v :: "'t::len word"
  assumes "start < end" and "end - start + 1 \<le> 64" and "start < 2 ^ 19"
    and t: "LENGTH('t) = integerFromBitSize (end - start + 1)" and "end < 8 * length m"
  shows "\<exists>m'. bf_write start end m v = Some m' \<and> length m' = length m \<and>
    (\<forall>k<8 * length m. msb_bit m' k \<longleftrightarrow>
      (if 8 * (start div 8) \<le> k \<and> k \<le> end
       then (msb_bit m k \<and> k < start) \<or> bit v (end - k) else msb_bit m k))"
proof -
  let ?nb = "end - start + 1" and ?mb = "affectedBytes start end - 1" and ?ix = "start div 8"
  let ?tl = "7 - end mod 8" and ?E = "end div 8"
  let ?msk = "bf_getMask ?nb :: 't word"
  let ?s = "\<lambda>x. (?E - x) * 8 - ?tl"
  have nb: "?nb \<le> LENGTH('t)" "8 \<le> LENGTH('t)" using t assms(2) integerFromBitSize_ge [of ?nb] by simp_all
  have E: "?ix + ?mb = ?E" by (rule bf_layout(2)) (use assms(1) in simp)
  have lay: "affectedBytes start end * 8 = start mod 8 + ?nb + ?tl" by (rule bf_layout(1)) (use assms(1) in simp)
  have bp: "affectedBytes start end * 8 - (start mod 8 + ?nb) = ?tl" unfolding lay by simp
  have ix: "?ix mod 2 ^ 16 = ?ix" using assms(3) by (intro mod_less) simp
  have Elen: "?E < length m" using assms(5) by (simp add: less_mult_imp_div_less mult.commute)
  have mask: "bit ?msk n \<longleftrightarrow> n < ?nb" for n using bf_getMask_bit [OF nb(1)] .
  obtain m1 where m1: "bf_write_loop ?ix ?mb ?tl ?msk v 0 ?mb m = Some m1" "length m1 = length m"
    "\<And>x. x < length m \<Longrightarrow> m1 ! x = (if ?ix + 0 \<le> x \<and> x < ?ix + ?mb
       then bf_merge (drop_bit ((?mb - (x - ?ix)) * 8 - ?tl) ?msk)
         (drop_bit ((?mb - (x - ?ix)) * 8 - ?tl) v) (m ! x) else m ! x)"
    using bf_write_loop_bytes [of 0 ?mb ?mb ?ix m ?tl ?msk v] E Elen by auto
  let ?m' = "m1[?E := bf_merge (push_bit ?tl ?msk) (push_bit ?tl v) (m ! ?E)]"
  have mE: "m1 ! ?E = m ! ?E" using m1(3) [OF Elen] E by simp
  have "bf_write start end m v = Some ?m'"
    unfolding bf_write_def Let_def bp ix using m1(1,2) Elen E mE
    by (simp add: aread_def awrite_def bf_merge_def)
  moreover have "length ?m' = length m" using m1(2) by simp
  moreover have "msb_bit ?m' k \<longleftrightarrow> (if 8 * ?ix \<le> k \<and> k \<le> end
       then (msb_bit m k \<and> k < start) \<or> bit v (end - k) else msb_bit m k)" if k: "k < 8 * length m" for k
  proof -
    let ?x = "k div 8" and ?n = "7 - k mod 8"
    have kx: "k = 8 * ?x + (7 - ?n)" and n8: "?n < 8" and xlen: "?x < length m"
      using k by (simp_all add: less_mult_imp_div_less mult.commute)
    have ev: "end = 8 * ?E + (7 - ?tl)" and tl8: "?tl < 8" by simp_all
    have ixE: "?ix \<le> ?E" using assms(1) by (intro div_le_mono) simp
    consider (before) "?x < ?ix" | (loop) "?ix \<le> ?x" "?x < ?E" | (final) "?x = ?E" | (after) "?E < ?x"
      by linarith
    then show ?thesis
    proof cases
      case before
      have "?m' ! ?x = m ! ?x" using before E m1(3) [OF xlen] by simp
      moreover have "\<not> 8 * ?ix \<le> k" using before kx n8 by linarith
      ultimately show ?thesis by (simp add: msb_bit_def)
    next
      case after
      have "?m' ! ?x = m ! ?x" using after E m1(3) [OF xlen] by simp
      moreover have "\<not> k \<le> end" using after kx ev n8 tl8 by linarith
      ultimately show ?thesis by (simp add: msb_bit_def)
    next
      case final
      have mm: "?m' ! ?E = bf_merge (push_bit ?tl ?msk) (push_bit ?tl v) (m ! ?E)"
        using Elen m1(2) by simp
      have place: "k \<le> end \<longleftrightarrow> ?tl \<le> ?n" "?tl \<le> ?n \<Longrightarrow> end - k = ?n - ?tl" "8 * ?ix \<le> k"
        using bf_place_arith(1-3) [OF kx n8 ev tl8 _] ixE final by simp_all
      have cmp: "end - k < ?nb \<longleftrightarrow> \<not> k < start" if "k \<le> end" using that assms(1) by linarith
      have g: "msb_bit ?m' k \<longleftrightarrow>
          (msb_bit m k \<and> (?tl \<le> ?n \<longrightarrow> \<not> ?n - ?tl < ?nb)) \<or> (?tl \<le> ?n \<and> bit v (?n - ?tl))"
        unfolding msb_bit_def final mm bf_merge_shifted_bit [OF nb(2) n8] mask by (rule refl)
      show ?thesis
      proof (cases "?tl \<le> ?n")
        case True
        with place have in_field: "k \<le> end" "end - k = ?n - ?tl" by blast+
        from cmp [OF in_field(1)] in_field(1) place(3) True show ?thesis
          unfolding g in_field(2) [symmetric] by metis
      next
        case False
        with place(1) show ?thesis unfolding g by metis
      qed
    next
      case loop
      have sh: "(?mb - (?x - ?ix)) = ?E - ?x" by (rule diff_diff_shift [OF E loop(1)])
      have cond: "(?ix + 0 \<le> ?x \<and> ?x < ?ix + ?mb) = True" using loop unfolding E by (simp only: add_0_right simp_thms)
      have "?m' ! ?x = m1 ! ?x" by (rule nth_list_update_neq) (use loop(2) in linarith)
      then have mm: "?m' ! ?x = bf_merge (drop_bit (?s ?x) ?msk) (drop_bit (?s ?x) v) (m ! ?x)"
        by (simp only: m1(3) [OF xlen] cond if_True sh)
      have place: "k \<le> end" "end - k = ?s ?x + ?n" "8 * ?ix \<le> k"
        by (rule bf_place_arith [OF kx n8 ev tl8 loop(1)], (rule loop(2))?)+
      have "end - k < ?nb \<longleftrightarrow> \<not> k < start" using place(1) assms(1) by linarith
      then show ?thesis
        unfolding msb_bit_def mm bf_merge_bit [OF nb(2) n8] bit_drop_bit_eq comp_apply mask place(2)
        using place(1,3) by simp
    qed
  qed
  ultimately show ?thesis by blast
qed

lemma bf_write_read:
  fixes v :: "'t::len word"
  assumes "start < end" and "end - start + 1 \<le> 64" and "start < 2 ^ 19"
    and t: "LENGTH('t) = integerFromBitSize (end - start + 1)" and "end < 8 * length m"
    and small: "take_bit (end - start + 1) v = v"
  shows "\<exists>m'. bf_write start end m v = Some m' \<and> length m' = length m \<and>
    (\<forall>k<8 * length m. msb_bit m' k \<longleftrightarrow> (if start \<le> k \<and> k \<le> end then bit v (end - k) else msb_bit m k)) \<and>
    bf_read start end m' = Some v"
proof -
  have v: "bit v n \<Longrightarrow> n < end - start + 1" for n
    using arg_cong [OF small, of "\<lambda>w. bit w n"] by (simp add: bit_take_bit_iff)
  obtain m' where m': "bf_write start end m v = Some m'" "length m' = length m"
    "\<And>k. k < 8 * length m \<Longrightarrow> msb_bit m' k \<longleftrightarrow> (if 8 * (start div 8) \<le> k \<and> k \<le> end
       then (msb_bit m k \<and> k < start) \<or> bit v (end - k) else msb_bit m k)"
    using bf_write_bits [OF assms(1-5), of v] by blast
  have field: "msb_bit m' k \<longleftrightarrow> (if start \<le> k \<and> k \<le> end then bit v (end - k) else msb_bit m k)"
    if "k < 8 * length m" for k
  proof -
    have "8 * (start div 8) \<le> start" by simp
    moreover have "k < start \<Longrightarrow> \<not> bit v (end - k)" using v [of "end - k"] assms(1) by auto
    ultimately show ?thesis using m'(3) [OF that] by (auto simp: not_le)
  qed
  obtain w :: "'t word" where w: "bf_read start end m' = Some w"
    "\<And>n. bit w n \<longleftrightarrow> n < end - start + 1 \<and> msb_bit m' (end - n)"
    using bf_read_bits [OF assms(1,2) t, of m'] m'(2) assms(5) by auto
  have "bit w n \<longleftrightarrow> bit v n" for n
    unfolding w(2) using field [of "end - n"] v [of n] assms(1,5) by auto
  then have "w = v" by (intro bit_word_eqI)
  with m'(1,2) field w(1) show ?thesis by blast
qed

text \<open>
  C22. \<open>write\<close> of a value that fits into its range is defined when the range lies in the array (and
  starts below bit 2^19), sets exactly the bits of the range, keeps every other bit of the array,
  and \<open>read\<close> then returns the value.\<close>

theorem bitfield_write_read:
  fixes v :: "'t::len word"
  assumes "start < end" and "end - start + 1 \<le> 64" and "start < 2 ^ 19"
    and "LENGTH('t) = integerFromBitSize (end - start + 1)" and "end < 8 * length m"
    and "take_bit (end - start + 1) v = v"
  shows "\<exists>m'. bf_write start end m v = Some m' \<and> length m' = length m \<and>
    (\<forall>k<8 * length m. msb_bit m' k \<longleftrightarrow> (if start \<le> k \<and> k \<le> end then bit v (end - k) else msb_bit m k)) \<and>
    bf_read start end m' = Some v"
  using assms by (rule bf_write_read)

definition bf_sample :: "u8 list" where
  "bf_sample = [0xFF, 0x12, 0x34, 0x56]"

lemma bitfield_write_read_witness:
  "\<exists>m'. bf_write 5 17 bf_sample (0x1ABC :: 16 word) = Some m' \<and> length m' = length bf_sample \<and>
    (\<forall>k<8 * length bf_sample. msb_bit m' k \<longleftrightarrow>
      (if 5 \<le> k \<and> k \<le> 17 then bit (0x1ABC :: 16 word) (17 - k) else msb_bit bf_sample k)) \<and>
    bf_read 5 17 m' = Some (0x1ABC :: 16 word)"
  by (rule bitfield_write_read) (simp_all add: integerFromBitSize_def bf_sample_def)

text \<open>A value that does not fit overwrites bits in front of the field.\<close>

lemma bf_write_oversized_value: "bf_write 4 8 [0, 0] (0xFF :: 8 word) = Some [0x7F, 0x80]"
  by (simp add: bf_write_def affectedBytes_def bf_getMask_def aread_def awrite_def)

text \<open>The 16 bit index wraps: a write of bits 524288 to 524295 changes byte 0.\<close>

lemma bf_write_index_wraps: "bf_write 524288 524295 m v = bf_write 0 7 m v"
  by (simp add: bf_write_def affectedBytes_def)

subsection \<open>Little endian\<close>

lemma byteSwap_loop_bit:
  fixes i j :: "'t::len word"
  shows "n < LENGTH('t) \<Longrightarrow> bit (byteSwap_loop i j k) n \<longleftrightarrow>
    (if n < 8 * k then bit i (8 * (k - 1 - n div 8) + n mod 8) else bit j (n - 8 * k))"
proof (induction k arbitrary: i j)
  case (Suc k)
  consider (low) "n < 8 * k" | (mid) "8 * k \<le> n" "n < 8 * k + 8" | (high) "8 * k + 8 \<le> n" by linarith
  then show ?case
  proof cases
    case low
    then have "n div 8 < k" by (simp add: less_mult_imp_div_less mult.commute)
    then have "8 + (8 * (k - 1 - n div 8) + n mod 8) = 8 * (k - n div 8) + n mod 8" by simp
    with low Suc show ?thesis by (simp add: bit_drop_bit_eq add.assoc [symmetric] del: add_mult_distrib2)
  next
    case mid
    then have "n div 8 = k" by (simp add: div_nat_eqI)
    moreover from this have "n - 8 * k = n mod 8" by (simp add: minus_mult_div_eq_mod [symmetric])
    moreover have "\<not> 8 \<le> n mod 8" by (simp add: not_le)
    moreover from this mid Suc.prems have "n mod 8 < LENGTH('t)" by (meson le_less_trans mod_less_eq_dividend)
    ultimately show ?thesis using mid Suc
      by (simp add: bit_or_iff bit_and_iff bit_push_bit_iff bit_byte_mask del: bit_numeral_word_iff)
  next
    case high
    then have "bit (0xFF :: 't word) (n - 8 * k) = False" by (simp add: bit_byte_mask del: bit_numeral_word_iff)
    with high Suc show ?thesis
      by (auto simp: bit_or_iff bit_and_iff bit_push_bit_iff diff_diff_add add.commute
          simp del: bit_numeral_word_iff)
  qed
qed simp

lemma byteSwap_byteSwap:
  fixes v :: "'t::len word"
  assumes "8 dvd LENGTH('t)"
  shows "byteSwap (byteSwap v) = v"
proof (rule bit_word_eqI)
  fix n assume n: "n < LENGTH('t)"
  let ?B = "LENGTH('t) div 8"
  have B: "8 * ?B = LENGTH('t)" using assms by simp
  let ?m = "8 * (?B - 1 - n div 8) + n mod 8"
  have q: "n div 8 < ?B" using n B by (simp add: less_mult_imp_div_less mult.commute)
  have m: "?m < LENGTH('t)" "?m div 8 = ?B - 1 - n div 8" "?m mod 8 = n mod 8"
    using q B mod_less_divisor [of 8 n] by simp_all
  have mm: "8 * (?B - 1 - ?m div 8) + ?m mod 8 = n" unfolding m(2,3) using q by simp
  show "bit (byteSwap (byteSwap v)) n \<longleftrightarrow> bit v n"
    unfolding byteSwap_def byteSwap_loop_bit [OF n] byteSwap_loop_bit [OF m(1)] B mm
    using n m(1) by simp
qed

lemma bl_write_read:
  fixes v :: "'t::len word"
  assumes "start < end" and "end - start + 1 \<le> 64" and "start < 2 ^ 19"
    and t: "LENGTH('t) = integerFromBitSize (end - start + 1)" and "end < 8 * length m"
    and "take_bit (end - start + 1) (byteSwap v) = byteSwap v"
  shows "\<exists>m'. bl_write start end m v = Some m' \<and> bl_read start end m' = Some v"
proof -
  have "8 dvd LENGTH('t)" unfolding t integerFromBitSize_def by simp
  with bf_write_read [OF assms] show ?thesis
    by (auto simp: bl_write_def bl_read_def byteSwap_byteSwap)
qed

text \<open>A range of three bytes is not read as its little endian value: it is the value times 256.\<close>

lemma bl_read_three_bytes: "bl_read 0 23 [1, 2, 3] = Some (0x03020100 :: 32 word)"
  by code_simp

end
