(* ===== verification/Bit_Stream.thy ===== *)
theory Bit_Stream
  imports Bitfields Serializer
begin

text \<open>
  \<open>Bitstream\<close> (utils/storage/bitstream.h): bits pushed one by one behind a header of three bytes.

  The slice of the stream, the memory of a \<open>Serialize\<close> and that of a \<open>Deserialize\<close> are the same
  memory, so the test whether a stream is written over itself is a comparison of positions.
  \<open>bytePointer\<close> is a 16 bit word; \<open>bitPointer\<close> is an \<open>int8_t\<close>, kept as an integer. Shifting by a
  negative bit pointer is undefined (\<open>None\<close>). \<open>bits_of\<close> is the abstract stream.
\<close>

record bitstream =
  bsData :: slice
  bytePointer :: u16
  bitPointer :: int

definition headerSize :: nat where
  "headerSize = 3"

definition bs_new :: "slice \<Rightarrow> bitstream" where
  "bs_new byteArray = \<lparr>bsData = byteArray, bytePointer = of_nat headerSize, bitPointer = 7\<rparr>"

definition bs_isFull :: "bitstream \<Rightarrow> bool" where
  "bs_isFull s \<longleftrightarrow> mNumberOfElements (bsData s) \<le> unat (bytePointer s)"

definition bs_isEmpty :: "bitstream \<Rightarrow> bool" where
  "bs_isEmpty s \<longleftrightarrow> bytePointer s = of_nat headerSize \<and> bitPointer s = 7"

text \<open>\<open>1 << bitPointer\<close>, as far as it reaches a byte\<close>

definition bs_bit :: "int \<Rightarrow> u8 option" where
  "bs_bit p = (if 0 \<le> p \<and> p < 32 then Some (ucast (push_bit (nat p) (1 :: u32))) else None)"

definition bs_pushBit :: "u8 list \<Rightarrow> bitstream \<Rightarrow> bool \<Rightarrow> (u8 list \<times> bitstream) option" where
  "bs_pushBit m s b =
     (if \<not> bs_isFull s then do {
        m \<leftarrow> (if bs_isEmpty s then slice_set m (bsData s) (unat (bytePointer s)) 0 else Some m);
        one \<leftarrow> bs_bit (bitPointer s);
        old \<leftarrow> slice_get m (bsData s) (unat (bytePointer s));
        m \<leftarrow> slice_set m (bsData s) (unat (bytePointer s)) (if b then old OR one else old AND NOT one);
        let s = s\<lparr>bitPointer := bitPointer s - 1\<rparr>;
        if bitPointer s = -1 then do {
          let s = s\<lparr>bitPointer := 7, bytePointer := bytePointer s + 1\<rparr>;
          m \<leftarrow> (if \<not> bs_isFull s then slice_set m (bsData s) (unat (bytePointer s)) 0 else Some m);
          Some (m, s) }
        else Some (m, s) }
      else Some (m, s))"

definition bs_getBit :: "u8 list \<Rightarrow> bitstream \<Rightarrow> u32 \<Rightarrow> bool option" where
  "bs_getBit m s n = do {
     let offsetBytePointer = (ucast (bytePointer s) - of_nat headerSize :: u32);
     if n < push_bit 3 offsetBytePointer + of_int (7 - bitPointer s) then do {
       v \<leftarrow> slice_get m (bsData s) (unat (drop_bit 3 n + of_nat headerSize));
       Some (0 < unat ((ucast v :: u32) AND push_bit (7 - unat (n AND 7)) 1)) }
     else Some False }"

definition bs_getByte :: "u8 list \<Rightarrow> bitstream \<Rightarrow> u16 \<Rightarrow> u8 option" where
  "bs_getByte m s n =
     (if uint n \<le> uint (bytePointer s) - int headerSize
      then slice_get m (bsData s) (unat n + headerSize) else Some 0)"

definition bs_reset :: "u8 list \<Rightarrow> bitstream \<Rightarrow> (u8 list \<times> bitstream) option" where
  "bs_reset m s = do {
     let s = s\<lparr>bytePointer := of_nat headerSize, bitPointer := 7\<rparr>;
     m \<leftarrow> slice_set m (bsData s) (unat (bytePointer s)) 0;
     Some (m, s) }"

definition bs_getSize :: "bitstream \<Rightarrow> u16" where
  "bs_getSize s = bytePointer s + of_bool (bitPointer s < 7) - of_nat headerSize"

definition bs_getSerializedSize :: "bitstream \<Rightarrow> size_t" where
  "bs_getSerializedSize s = unat (bs_getSize s) + headerSize"

text \<open>The loop of \<open>Serialize::store\<close> over the slice of the stream: element by element, so that what was
  stored before is seen when the two ranges overlap.\<close>

fun bs_store_loop :: "slice \<Rightarrow> size_t \<Rightarrow> nat \<Rightarrow> serializer \<Rightarrow> serializer option" where
  "bs_store_loop array i 0 stream = Some stream"
| "bs_store_loop array i (Suc k) stream = do {
     v \<leftarrow> slice_get (szMemory stream) array i;
     stream \<leftarrow> sb_store be_u8_store v stream;
     bs_store_loop array (i + 1) k stream }"

text \<open>\<open>serialize(stream, maxLength)\<close>: the memory of the stream is \<open>szMemory\<close>.\<close>

definition bs_serialize_max :: "bitstream \<Rightarrow> serializer \<Rightarrow> u16 \<Rightarrow> serializer option" where
  "bs_serialize_max s stream maxLength =
     (if headerSize \<le> unat maxLength then do {
        let tmpBytePointer = bs_getSize s;
        let tmpBitPointer = (of_int (bitPointer s) :: u8);
        let (tmpBytePointer, tmpBitPointer) =
          (if maxLength < bytePointer s then (maxLength - of_nat headerSize, 7)
           else (tmpBytePointer, tmpBitPointer));
        stream \<leftarrow> sb_store be_u8_store tmpBitPointer stream;
        stream \<leftarrow> sb_store be_u16_store tmpBytePointer stream;
        if Some (sb_getPointer stream) \<noteq> mData (bsData s)
        then do {
          let array = slice_first (slice_skipFirst (bsData s) headerSize) (unat tmpBytePointer);
          bs_store_loop array 0 (mNumberOfElements array) stream }
        else Some (sb_skip (unat tmpBytePointer) stream) }
      else Some stream)"

definition bs_serialize :: "bitstream \<Rightarrow> serializer \<Rightarrow> serializer option" where
  "bs_serialize s stream = bs_serialize_max s stream (of_nat (bs_getSerializedSize s))"

text \<open>The result also holds the value that \<open>deserialize\<close> returns.\<close>

definition bs_deserialize ::
    "bitstream \<Rightarrow> deserializer \<Rightarrow> (bool \<times> bitstream \<times> deserializer) option" where
  "bs_deserialize s stream = do {
     (b, stream) \<leftarrow> db_read be_i8_read stream;
     let bitPointer_tmp = (scast b :: u16);
     (n, stream) \<leftarrow> db_read be_u16_read stream;
     let bytePointer_tmp = n + of_nat headerSize;
     let bytePointer_tmp = (if bitPointer_tmp < 7 then bytePointer_tmp - 1 else bytePointer_tmp);
     if unat bytePointer_tmp < mNumberOfElements (bsData s) then do {
       let s = s\<lparr>bytePointer := bytePointer_tmp, bitPointer := sint (ucast bitPointer_tmp :: i8)\<rparr>;
       if Some (db_getPointer stream) \<noteq> mData (bsData s) then do {
         base \<leftarrow> mData (bsData s);
         (bytes, stream) \<leftarrow> db_readBuffer (unat (bytePointer s)) stream;
         m \<leftarrow> acopy (dzMemory stream) (base + headerSize) bytes;
         Some (True, s, stream\<lparr>dzMemory := m\<rparr>) }
       else Some (True, s, db_skip (unat (bytePointer s)) stream) }
     else Some (False, s, stream) }"

subsection \<open>The abstract stream\<close>

definition bs_length :: "bitstream \<Rightarrow> nat" where
  "bs_length s = 8 * (unat (bytePointer s) - headerSize) + nat (7 - bitPointer s)"

text \<open>The bits behind the header, in the order they were pushed.\<close>

definition bits_of :: "u8 list \<Rightarrow> nat \<Rightarrow> nat \<Rightarrow> bool list" where
  "bits_of m base k = map (msb_bit (drop (base + headerSize) m)) [0..<k]"

definition bs_wf :: "u8 list \<Rightarrow> nat \<Rightarrow> bitstream \<Rightarrow> bool" where
  "bs_wf m base s \<longleftrightarrow> mData (bsData s) = Some base \<and>
     base + mNumberOfElements (bsData s) \<le> length m \<and> mNumberOfElements (bsData s) < 2 ^ 16 \<and>
     headerSize \<le> unat (bytePointer s) \<and> unat (bytePointer s) \<le> mNumberOfElements (bsData s) \<and>
     0 \<le> bitPointer s \<and> bitPointer s \<le> 7 \<and>
     (unat (bytePointer s) = mNumberOfElements (bsData s) \<longrightarrow> bitPointer s = 7)"

definition bs_capacity :: "bitstream \<Rightarrow> nat" where
  "bs_capacity s = 8 * (mNumberOfElements (bsData s) - headerSize)"

fun bs_pushAll :: "u8 list \<Rightarrow> bitstream \<Rightarrow> bool list \<Rightarrow> (u8 list \<times> bitstream) option" where
  "bs_pushAll m s [] = Some (m, s)"
| "bs_pushAll m s (b # bs) = do { (m, s) \<leftarrow> bs_pushBit m s b; bs_pushAll m s bs }"

lemma bs_bit_eq:
  assumes "0 \<le> p" "p \<le> 7"
  shows "\<exists>w. bs_bit p = Some w \<and> (\<forall>n<8. bit w n \<longleftrightarrow> n = nat p)"
  using assms by (auto simp: bs_bit_def bit_unsigned_iff bit_one_bit)

lemma msb_bit_update:
  "x < length m \<Longrightarrow> msb_bit (m[x := v]) k = (if k div 8 = x then bit v (7 - k mod 8) else msb_bit m k)"
  by (simp add: msb_bit_def nth_list_update)

lemma drop_update_payload:
  "base + h \<le> x \<Longrightarrow> drop (base + h) (m[x := v]) = (drop (base + h) m)[x - (base + h) := v]"
  by (simp add: drop_update_swap)

lemma bits_of_cong:
  "(\<And>i. base + headerSize \<le> i \<Longrightarrow> i < base + headerSize + (k + 7) div 8 \<Longrightarrow> m' ! i = m ! i) \<Longrightarrow>
   base + headerSize \<le> length m \<Longrightarrow> length m' = length m \<Longrightarrow>
   bits_of m' base k = bits_of m base k"
  unfolding bits_of_def msb_bit_def by (intro map_cong) (auto simp: Suc_le_eq nth_drop)

lemma length_bits_of [simp]: "length (bits_of m base k) = k"
  by (simp add: bits_of_def)

lemma nth_bits_of: "n < k \<Longrightarrow> bits_of m base k ! n = msb_bit (drop (base + headerSize) m) n"
  by (simp add: bits_of_def)

lemma bs_isFull_iff: "bs_wf m base s \<Longrightarrow> bs_isFull s \<longleftrightarrow> bs_length s = bs_capacity s"
  by (auto simp: bs_wf_def bs_isFull_def bs_length_def bs_capacity_def headerSize_def)

lemma bits_of_push:
  assumes "base + headerSize + k div 8 < length m" and "i = base + headerSize + k div 8"
    and w: "\<forall>n<8. bit w n \<longleftrightarrow> (if n = 7 - k mod 8 then b else bit (m ! i) n)"
  shows "bits_of (m[i := w]) base (Suc k) = bits_of m base k @ [b]"
proof (rule nth_equalityI)
  let ?p = "drop (base + headerSize) m"
  have p: "drop (base + headerSize) (m[i := w]) = ?p[k div 8 := w]"
    using assms(2) by (simp add: drop_update_swap)
  have kl: "k div 8 < length ?p" using assms(1) by simp
  have at: "?p ! (k div 8) = m ! i" using assms(1,2) by simp
  fix n assume "n < length (bits_of (m[i := w]) base (Suc k))"
  then have n: "n < Suc k" by simp
  have "msb_bit (?p[k div 8 := w]) n \<longleftrightarrow> (if n = k then b else msb_bit ?p n)"
  proof (cases "n div 8 = k div 8")
    case True
    have "7 - n mod 8 = 7 - k mod 8 \<longleftrightarrow> n = k"
    proof
      assume "7 - n mod 8 = 7 - k mod 8"
      then have "n mod 8 = k mod 8" using mod_less_divisor [of 8 n] mod_less_divisor [of 8 k] by linarith
      with True show "n = k" by (metis div_mult_mod_eq)
    qed simp
    moreover have "bit w (7 - n mod 8) \<longleftrightarrow> (if 7 - n mod 8 = 7 - k mod 8 then b else bit (m ! i) (7 - n mod 8))"
      using w [rule_format, of "7 - n mod 8"] by simp
    ultimately show ?thesis using True kl at by (simp add: msb_bit_update) (simp add: msb_bit_def)
  next
    case False
    with kl show ?thesis by (auto simp: msb_bit_update)
  qed
  with n show "bits_of (m[i := w]) base (Suc k) ! n = (bits_of m base k @ [b]) ! n"
    by (simp add: nth_bits_of nth_append p)
qed simp

lemma slice_set_at: "mData sl = Some base \<Longrightarrow> base + i < length m \<Longrightarrow> slice_set m sl i v = Some (m[base + i := v])"
  by (simp add: slice_set_def awrite_def)

lemma slice_get_at: "mData sl = Some base \<Longrightarrow> base + i < length m \<Longrightarrow> slice_get m sl i = Some (m ! (base + i))"
  by (simp add: slice_get_def aread_def)

lemma bs_length_place:
  assumes "headerSize \<le> unat (bytePointer s)" "0 \<le> bitPointer s" "bitPointer s \<le> 7"
  shows "bs_length s div 8 = unat (bytePointer s) - headerSize" and "7 - bs_length s mod 8 = nat (bitPointer s)"
proof -
  have "bs_length s = nat (7 - bitPointer s) + 8 * (unat (bytePointer s) - headerSize)"
    by (simp add: bs_length_def)
  moreover have "nat (7 - bitPointer s) < 8" using assms(2) by linarith
  moreover have "7 - nat (7 - bitPointer s) = nat (bitPointer s)" using assms(2,3) by linarith
  ultimately show "bs_length s div 8 = unat (bytePointer s) - headerSize"
    "7 - bs_length s mod 8 = nat (bitPointer s)" by simp_all
qed

text \<open>The byte with one bit replaced.\<close>

lemma bs_merge_bit:
  assumes "\<forall>n<8. bit one n \<longleftrightarrow> n = p" and "n < 8"
  shows "bit (if b then old OR one else old AND NOT one :: u8) n \<longleftrightarrow> (if n = p then b else bit old n)"
  using assms by (auto simp: bit_or_iff bit_and_iff bit_not_iff)

text \<open>What one \<open>pushBit\<close> does: everything the theorems below need.\<close>

definition bs_pushed :: "u8 list \<Rightarrow> nat \<Rightarrow> bitstream \<Rightarrow> bool \<Rightarrow> u8 list \<Rightarrow> bitstream \<Rightarrow> bool" where
  "bs_pushed m base s b m' s' \<longleftrightarrow> bs_wf m' base s' \<and> bsData s' = bsData s \<and> length m' = length m \<and>
     bs_length s' = Suc (bs_length s) \<and>
     bits_of m' base (Suc (bs_length s)) = bits_of m base (bs_length s) @ [b] \<and>
     (\<forall>i<length m. i < base + headerSize \<or> base + mNumberOfElements (bsData s) \<le> i \<longrightarrow> m' ! i = m ! i)"

lemma bs_pushBit_step:
  assumes wf: "bs_wf m base s" and room: "\<not> bs_isFull s"
  shows "\<exists>m' s'. bs_pushBit m s b = Some (m', s') \<and> bs_pushed m base s b m' s'"
proof -
  let ?u = "unat (bytePointer s)" and ?N = "mNumberOfElements (bsData s)" and ?L = "bs_length s"
  have N: "mData (bsData s) = Some base" "base + ?N \<le> length m" "?N < 2 ^ 16" "headerSize \<le> ?u" "?u < ?N"
    and bp: "0 \<le> bitPointer s" "bitPointer s \<le> 7"
    using wf room by (auto simp: bs_wf_def bs_isFull_def)
  note place = bs_length_place [OF N(4) bp]
  have x: "base + headerSize + ?L div 8 = base + ?u" "base + ?u < length m" using N place by simp_all
  obtain one where one: "bs_bit (bitPointer s) = Some one" "\<forall>n<8. bit one n \<longleftrightarrow> n = nat (bitPointer s)"
    using bs_bit_eq [OF bp] by blast
  define m0 where "m0 = (if bs_isEmpty s then m[base + ?u := 0] else m)"
  have m0: "length m0 = length m" "bits_of m0 base ?L = bits_of m base ?L" "\<And>i. i \<noteq> base + ?u \<Longrightarrow> m0 ! i = m ! i"
    by (auto simp: m0_def bs_isEmpty_def bs_length_def bits_of_def headerSize_def)
  define w where "w = (if b then m0 ! (base + ?u) OR one else m0 ! (base + ?u) AND NOT one)"
  let ?m1 = "m0[base + ?u := w]"
  have bits1: "bits_of ?m1 base (Suc ?L) = bits_of m base ?L @ [b]"
    unfolding m0(2) [symmetric] using x m0(1) bs_merge_bit [OF one(2)]
    by (intro bits_of_push) (simp_all add: w_def place)
  have frame1: "?m1 ! i = m ! i" if "i < base + headerSize \<or> base + ?N \<le> i" for i
    using that N m0(3) [of i] by auto
  let ?s1 = "s\<lparr>bitPointer := bitPointer s - 1\<rparr>"
  let ?s2 = "?s1\<lparr>bitPointer := 7, bytePointer := bytePointer s + 1\<rparr>"
  have "(if bs_isEmpty s then slice_set m (bsData s) ?u 0 else Some m) = Some m0"
    using x(2) N(1) by (simp add: m0_def slice_set_at)
  then have run: "bs_pushBit m s b = (if bitPointer s = 0 then do {
      m \<leftarrow> (if \<not> bs_isFull ?s2 then slice_set ?m1 (bsData s) (unat (bytePointer s + 1)) 0 else Some ?m1);
      Some (m, ?s2) } else Some (?m1, ?s1))"
    using room one(1) x(2) N(1) m0(1)
    by (simp add: bs_pushBit_def slice_get_at slice_set_at w_def Let_def)
  show ?thesis
  proof (cases "bitPointer s = 0")
    case False
    have "bs_pushed m base s b ?m1 ?s1"
      using False wf N bp bits1 frame1 m0(1)
      by (auto simp: bs_pushed_def bs_wf_def bs_length_def)
    with run False show ?thesis by auto
  next
    case True
    have u1: "unat (bytePointer s + 1) = Suc ?u" using N(3,5) by (simp add: unat_word_ariths)
    define m2 where "m2 = (if \<not> bs_isFull ?s2 then ?m1[base + Suc ?u := 0] else ?m1)"
    have full2: "bs_isFull ?s2 \<longleftrightarrow> ?N \<le> Suc ?u" by (simp add: bs_isFull_def u1)
    have r2: "bs_pushBit m s b = Some (m2, ?s2)"
      using run True N full2 m0(1) by (auto simp: m2_def u1 slice_set_at)
    have "Suc ?L = 8 * (Suc ?u - headerSize)" using True N(4) by (simp add: bs_length_def)
    then have "bits_of m2 base (Suc ?L) = bits_of ?m1 base (Suc ?L)"
      using N x m0(1) by (intro bits_of_cong) (auto simp: m2_def nth_list_update)
    moreover have "m2 ! i = m ! i" if i: "i < base + headerSize \<or> base + ?N \<le> i" for i
    proof -
      have "m2 ! i = ?m1 ! i" using i N full2 by (auto simp: m2_def nth_list_update)
      with frame1 [OF i] show ?thesis by simp
    qed
    moreover have "bs_wf m2 base ?s2" using wf N m0(1) u1 by (auto simp: bs_wf_def m2_def)
    moreover have "length m2 = length m" "bs_length ?s2 = Suc ?L"
      using m0(1) u1 N(4) True by (simp_all add: m2_def bs_length_def)
    ultimately have "bs_pushed m base s b m2 ?s2"
      unfolding bs_pushed_def bits1 by simp
    with r2 show ?thesis by auto
  qed
qed

subsection \<open>Reading bits\<close>

lemma bs_length_bound: "bs_wf m base s \<Longrightarrow> bs_length s \<le> bs_capacity s" "bs_wf m base s \<Longrightarrow> bs_capacity s < 2 ^ 19"
  by (auto simp: bs_wf_def bs_length_def bs_capacity_def headerSize_def)

lemma bs_length_word:
  assumes "headerSize \<le> unat (bytePointer s)" "bitPointer s \<le> 7"
  shows "push_bit 3 (ucast (bytePointer s) - of_nat headerSize :: u32) + of_int (7 - bitPointer s) =
    of_nat (bs_length s)"
proof -
  have "(of_nat (bs_length s) :: u32) =
      8 * (of_nat (unat (bytePointer s)) - of_nat headerSize) + of_int (int (nat (7 - bitPointer s)))"
    using assms(1) by (simp add: bs_length_def of_nat_diff)
  also have "(of_nat (unat (bytePointer s)) :: u32) = ucast (bytePointer s)" by (simp add: unsigned_ucast_eq)
  finally show ?thesis using assms(2) by (simp add: push_bit_eq_mult mult.commute)
qed

lemma byte_bit_test:
  fixes v :: u8
  assumes "p < 8"
  shows "0 < unat ((ucast v :: u32) AND push_bit p 1) \<longleftrightarrow> bit v p"
  using ba_getBit_bit [of p v] assms by (simp add: ba_getBit_def unat_gt_0)

lemma bs_getBit_bits:
  assumes wf: "bs_wf m base s"
  shows "bs_getBit m s n = Some (unat n < bs_length s \<and> bits_of m base (bs_length s) ! unat n)"
proof -
  let ?k = "unat n"
  have N: "mData (bsData s) = Some base" "base + mNumberOfElements (bsData s) \<le> length m"
    "headerSize \<le> unat (bytePointer s)" "bitPointer s \<le> 7" using wf by (auto simp: bs_wf_def)
  have L: "bs_length s < 2 ^ 32" using bs_length_bound [OF wf] by simp
  have cond: "n < push_bit 3 (ucast (bytePointer s) - of_nat headerSize) + of_int (7 - bitPointer s) \<longleftrightarrow> ?k < bs_length s"
    unfolding bs_length_word [OF N(3,4)] using L by (simp add: word_less_nat_alt unat_of_nat)
  show ?thesis
  proof (cases "?k < bs_length s")
    case False
    with cond show ?thesis by (simp add: bs_getBit_def)
  next
    case True
    have "n AND 7 = take_bit 3 n" by (simp add: take_bit_eq_mask mask_eq_exp_minus_1)
    then have low: "unat (n AND 7) = ?k mod 8" by (simp add: take_bit_eq_mod unat_mod)
    have "?k < bs_capacity s" using True bs_length_bound(1) [OF wf] by simp
    then have k: "headerSize + ?k div 8 < mNumberOfElements (bsData s)"
      by (auto simp: bs_capacity_def)
    have "unat (drop_bit 3 n + of_nat headerSize) = ?k div 8 + headerSize"
      using True bs_length_bound [OF wf]
      by (simp add: unat_word_ariths unsigned_drop_bit_eq drop_bit_eq_div headerSize_def)
    with cond True k low N(1,2) byte_bit_test [of "7 - ?k mod 8" "m ! (base + (?k div 8 + headerSize))"]
    show ?thesis by (simp add: bs_getBit_def slice_get_at nth_bits_of msb_bit_def ac_simps)
  qed
qed

lemma bs_getSize_bytes:
  assumes "bs_wf m base s"
  shows "unat (bs_getSize s) = (bs_length s + 7) div 8"
proof -
  have u: "headerSize \<le> unat (bytePointer s)" "unat (bytePointer s) + of_bool (bitPointer s < 7) < 2 ^ 16"
    and bp: "0 \<le> bitPointer s" "bitPointer s \<le> 7"
    using assms by (auto simp: bs_wf_def)
  have "bs_getSize s = of_nat (unat (bytePointer s) + of_bool (bitPointer s < 7) - headerSize)"
    using u(1) by (simp add: bs_getSize_def of_nat_diff)
  then have "unat (bs_getSize s) = unat (bytePointer s) + of_bool (bitPointer s < 7) - headerSize"
    using u(2) by (simp add: unat_of_nat)
  also have "\<dots> = (bs_length s + 7) div 8"
  proof (cases "bitPointer s = 7")
    case False
    define r where "r = nat (7 - bitPointer s)"
    have r: "1 \<le> r" "r \<le> 7" using bp False by (auto simp: r_def)
    then have "(8 * (unat (bytePointer s) - headerSize) + r + 7) div 8 = unat (bytePointer s) - headerSize + 1"
      by (intro div_nat_eqI) simp_all
    with False bp u(1) show ?thesis by (simp add: bs_length_def r_def)
  qed (use u(1) in \<open>simp add: bs_length_def\<close>)
  finally show ?thesis .
qed

lemma bs_new_wf:
  assumes "mData sl = Some base" "base + mNumberOfElements sl \<le> length m"
    and "headerSize \<le> mNumberOfElements sl" "mNumberOfElements sl < 2 ^ 16"
  shows "bs_wf m base (bs_new sl)" and "bs_length (bs_new sl) = 0"
    and "bs_capacity (bs_new sl) = 8 * (mNumberOfElements sl - headerSize)" and "bsData (bs_new sl) = sl"
  using assms by (auto simp: bs_wf_def bs_new_def bs_length_def bs_capacity_def headerSize_def)

lemma bs_pushAll_appends:
  assumes "bs_wf m base s" and "bs_length s + length xs \<le> bs_capacity s"
  shows "\<exists>m' s'. bs_pushAll m s xs = Some (m', s') \<and> bs_wf m' base s' \<and> bsData s' = bsData s \<and>
    length m' = length m \<and> bs_length s' = bs_length s + length xs \<and>
    bits_of m' base (bs_length s') = bits_of m base (bs_length s) @ xs \<and>
    (\<forall>i<length m. i < base + headerSize \<or> base + mNumberOfElements (bsData s) \<le> i \<longrightarrow> m' ! i = m ! i)"
  using assms
proof (induction xs arbitrary: m s)
  case (Cons b xs)
  have "\<not> bs_isFull s" using Cons.prems bs_isFull_iff [OF Cons.prems(1)] by simp
  from bs_pushBit_step [OF Cons.prems(1) this, of b] obtain m1 s1 where
    s1: "bs_pushBit m s b = Some (m1, s1)" "bs_pushed m base s b m1 s1" by blast
  have "bs_wf m1 base s1" "bs_length s1 + length xs \<le> bs_capacity s1"
    using s1(2) Cons.prems(2) by (simp_all add: bs_pushed_def bs_capacity_def)
  from Cons.IH [OF this] obtain m' s' where "bs_pushAll m1 s1 xs = Some (m', s')" "bs_wf m' base s'"
    "bsData s' = bsData s1" "length m' = length m1" "bs_length s' = bs_length s1 + length xs"
    "bits_of m' base (bs_length s') = bits_of m1 base (bs_length s1) @ xs"
    "\<forall>i<length m1. i < base + headerSize \<or> base + mNumberOfElements (bsData s1) \<le> i \<longrightarrow> m' ! i = m1 ! i"
    by blast
  with s1 show ?case by (auto simp: bs_pushed_def)
qed simp

text \<open>
  C27. Bits pushed to a new stream, as many as its buffer holds, stay in order: \<open>getBit\<close> returns
  exactly them and false behind them, \<open>getSize\<close> is the number of started bytes, the stream is full
  exactly when the buffer is used up, and nothing outside of the buffer (and not its header) is
  written.\<close>

theorem bitstream_keeps_bits:
  assumes "mData sl = Some base" "base + mNumberOfElements sl \<le> length m"
    and "headerSize \<le> mNumberOfElements sl" "mNumberOfElements sl < 2 ^ 16"
    and "length xs \<le> 8 * (mNumberOfElements sl - headerSize)"
  shows "\<exists>m' s'. bs_pushAll m (bs_new sl) xs = Some (m', s') \<and>
    (\<forall>n. bs_getBit m' s' n = Some (unat n < length xs \<and> xs ! unat n)) \<and>
    unat (bs_getSize s') = (length xs + 7) div 8 \<and>
    (bs_isFull s' \<longleftrightarrow> length xs = 8 * (mNumberOfElements sl - headerSize)) \<and>
    length m' = length m \<and>
    (\<forall>i<length m. i < base + headerSize \<or> base + mNumberOfElements sl \<le> i \<longrightarrow> m' ! i = m ! i)"
proof -
  note n = bs_new_wf [OF assms(1-4)]
  have "bs_length (bs_new sl) + length xs \<le> bs_capacity (bs_new sl)" using n(2,3) assms(5) by simp
  from bs_pushAll_appends [OF n(1) this] obtain m' s' where
    r: "bs_pushAll m (bs_new sl) xs = Some (m', s')" "bs_wf m' base s'" "bsData s' = sl" "length m' = length m"
      "bs_length s' = length xs" "bits_of m' base (length xs) = xs"
      "\<forall>i<length m. i < base + headerSize \<or> base + mNumberOfElements sl \<le> i \<longrightarrow> m' ! i = m ! i"
    using n by (auto simp: bits_of_def)
  moreover have "bs_getBit m' s' k = Some (unat k < length xs \<and> xs ! unat k)" for k
    using bs_getBit_bits [OF r(2)] r(5,6) by simp
  moreover have "bs_isFull s' \<longleftrightarrow> length xs = 8 * (mNumberOfElements sl - headerSize)"
    using bs_isFull_iff [OF r(2)] r(3,5) by (simp add: bs_capacity_def)
  ultimately show ?thesis using bs_getSize_bytes [OF r(2)] by auto
qed

definition bs_sample :: slice where
  "bs_sample = \<lparr>mData = Some 1, mNumberOfElements = 5\<rparr>"

lemma bitstream_keeps_bits_witness:
  "\<exists>m' s'. bs_pushAll [9, 9, 9, 9, 9, 9, 9] (bs_new bs_sample) [True, False, True] = Some (m', s') \<and>
    (\<forall>n. bs_getBit m' s' n = Some (unat n < length [True, False, True] \<and> [True, False, True] ! unat n)) \<and>
    unat (bs_getSize s') = (length [True, False, True] + 7) div 8 \<and>
    (bs_isFull s' \<longleftrightarrow> length [True, False, True] = 8 * (mNumberOfElements bs_sample - headerSize)) \<and>
    length m' = length [9, 9, 9, 9, 9, 9, 9 :: u8] \<and>
    (\<forall>i<length [9, 9, 9, 9, 9, 9, 9 :: u8]. i < 1 + headerSize \<or> 1 + mNumberOfElements bs_sample \<le> i \<longrightarrow>
      m' ! i = [9, 9, 9, 9, 9, 9, 9] ! i)"
  by (rule bitstream_keeps_bits) (simp_all add: bs_sample_def headerSize_def)

lemma bs_pushBit_full: "bs_isFull s \<Longrightarrow> bs_pushBit m s b = Some (m, s)"
  by (simp add: bs_pushBit_def)

subsection \<open>Serialization\<close>

lemma bs_store_loop_copy:
  assumes "k = 0 \<or> mData array = Some a" and "a + i + k \<le> length (szMemory z)"
    and "szBuffer z + k \<le> length (szMemory z)"
    and "szBuffer z + k \<le> a + i \<or> a + i + k \<le> szBuffer z"
  shows "bs_store_loop array i k z = map_option (\<lambda>m. z\<lparr>szMemory := m, szBuffer := szBuffer z + k\<rparr>)
    (acopy (szMemory z) (szBuffer z) (take k (drop (a + i) (szMemory z))))"
  using assms
proof (induction k arbitrary: i z)
  case 0
  then show ?case by simp
next
  case (Suc k)
  let ?m = "szMemory z" and ?p = "szBuffer z"
  let ?m1 = "?m[?p := ?m ! (a + i)]"
  let ?z1 = "z\<lparr>szMemory := ?m1, szBuffer := ?p + 1\<rparr>"
  have side: "?p + 1 + k \<le> a + (i + 1) \<or> a + (i + 1) + k \<le> ?p + 1" using Suc.prems(4) by linarith
  have "bs_store_loop array i (Suc k) z = bs_store_loop array (i + 1) k ?z1"
    using Suc.prems
    by (simp add: slice_get_at sb_store_def be_u8_store_def awrite_def)
  also have "\<dots> = map_option (\<lambda>m. z\<lparr>szMemory := m, szBuffer := ?p + Suc k\<rparr>)
      (acopy ?m1 (?p + 1) (take k (drop (a + (i + 1)) ?m1)))"
    using Suc.prems(1-3) Suc.IH [of "i + 1" ?z1] side by simp
  also have "take k (drop (a + (i + 1)) ?m1) = take k (drop (a + Suc i) ?m)"
    using Suc.prems by (subst take_drop_update_other) auto
  also have "acopy ?m1 (?p + 1) (take k (drop (a + Suc i) ?m)) =
      acopy ?m ?p (?m ! (a + i) # take k (drop (a + Suc i) ?m))"
    using Suc.prems by (auto simp: acopy_Cons awrite_def)
  also have "?m ! (a + i) # take k (drop (a + Suc i) ?m) = take (Suc k) (drop (a + i) ?m)"
    using Suc.prems by (simp add: take_Suc_drop_nth)
  finally show ?case .
qed

text \<open>The bytes of a serialized stream.\<close>

definition bs_bytes :: "u8 list \<Rightarrow> nat \<Rightarrow> bitstream \<Rightarrow> u8 list" where
  "bs_bytes m base s = be_u8_bytes (of_int (bitPointer s)) @ be_u16_bytes (bs_getSize s) @
     take (unat (bs_getSize s)) (drop (base + headerSize) m)"

lemma bs_size_facts:
  assumes "bs_wf m base s"
  shows "unat (bs_getSize s) + headerSize \<le> mNumberOfElements (bsData s)"
    and "unat (bs_getSize s) + headerSize = unat (bytePointer s) + of_bool (bitPointer s < 7)"
    and "unat (of_nat (bs_getSerializedSize s) :: u16) = unat (bs_getSize s) + headerSize"
    and "\<not> (of_nat (bs_getSerializedSize s) :: u16) < bytePointer s"
proof -
  have w: "headerSize \<le> unat (bytePointer s)" "unat (bytePointer s) + of_bool (bitPointer s < 7) < 2 ^ 16"
    "unat (bytePointer s) + of_bool (bitPointer s < 7) \<le> mNumberOfElements (bsData s)"
    using assms by (auto simp: bs_wf_def)
  have "bs_getSize s = of_nat (unat (bytePointer s) + of_bool (bitPointer s < 7) - headerSize)"
    using w(1) by (simp add: bs_getSize_def of_nat_diff)
  then have g: "unat (bs_getSize s) = unat (bytePointer s) + of_bool (bitPointer s < 7) - headerSize"
    using w(2) by (simp add: unat_of_nat)
  then show e: "unat (bs_getSize s) + headerSize = unat (bytePointer s) + of_bool (bitPointer s < 7)"
    using w(1) by simp
  with w(3) show "unat (bs_getSize s) + headerSize \<le> mNumberOfElements (bsData s)" by simp
  have small: "unat (of_nat k :: u16) = k" if "k < 2 ^ 16" for k using that by (simp add: unat_of_nat)
  show t: "unat (of_nat (bs_getSerializedSize s) :: u16) = unat (bs_getSize s) + headerSize"
    unfolding bs_getSerializedSize_def by (rule small) (use e w(2) in simp)
  show "\<not> (of_nat (bs_getSerializedSize s) :: u16) < bytePointer s"
    using e by (simp add: word_less_nat_alt t)
qed

lemma bs_serialize_bytes:
  assumes wf: "bs_wf m base s" and z: "szMemory z = m" "szBegin z \<noteq> base"
    and room: "szBuffer z + bs_getSerializedSize s \<le> length m"
    and apart: "szBuffer z + bs_getSerializedSize s \<le> base \<or> base + mNumberOfElements (bsData s) \<le> szBuffer z"
  shows "\<exists>m'. acopy m (szBuffer z) (bs_bytes m base s) = Some m' \<and>
    bs_serialize s z = Some (z\<lparr>szMemory := m', szBuffer := szBuffer z + bs_getSerializedSize s\<rparr>)"
proof -
  let ?k = "unat (bs_getSize s)" and ?q = "szBuffer z"
  let ?hd = "be_u8_bytes (of_int (bitPointer s)) @ be_u16_bytes (bs_getSize s)"
  note sz = bs_size_facts [OF wf]
  have N: "mData (bsData s) = Some base" "base + mNumberOfElements (bsData s) \<le> length m"
    using wf by (auto simp: bs_wf_def)
  have hl: "length ?hd = headerSize" by (simp add: be_u8_bytes_def be_u16_bytes_def headerSize_def)
  have room': "?q + headerSize + ?k \<le> length m" using room by (simp add: bs_getSerializedSize_def)
  then obtain m1 where m1: "acopy m ?q ?hd = Some m1" using hl by (simp add: acopy_def)
  have l1: "length m1 = length m" by (rule length_acopy [OF m1])
  let ?arr = "slice_first (slice_skipFirst (bsData s) headerSize) ?k"
  have arr: "?k = 0 \<or> mData ?arr = Some (base + headerSize)" "mNumberOfElements ?arr = ?k"
    using sz(1) N(1) by (auto simp: slice_first_def slice_skipFirst_def ptr_add_def)
  let ?z1 = "z\<lparr>szMemory := m1, szBuffer := ?q + headerSize\<rparr>"
  have sep: "?q + headerSize + ?k \<le> base \<or> base + headerSize + ?k \<le> ?q"
    using apart sz(1) by (auto simp: bs_getSerializedSize_def)
  obtain ma where ma: "acopy m ?q (be_u8_bytes (of_int (bitPointer s))) = Some ma"
    "acopy ma (?q + 1) (be_u16_bytes (bs_getSize s)) = Some m1"
    using m1 by (auto simp: acopy_append be_u8.enc_length bind_eq_Some_conv)
  let ?za = "z\<lparr>szMemory := ma, szBuffer := ?q + 1\<rparr>"
  have "sb_store be_u8_store (of_int (bitPointer s)) z = Some ?za"
    using ma(1) z(1) by (simp add: sb_store_def be_u8.store_law)
  moreover have "sb_store be_u16_store (bs_getSize s) ?za = Some ?z1"
    using ma(2) by (simp add: sb_store_def be_u16.store_law headerSize_def)
  moreover have "headerSize \<le> unat (of_nat (bs_getSerializedSize s) :: u16)" unfolding sz(3) by simp
  ultimately have "bs_serialize s z = bs_store_loop ?arr 0 ?k ?z1"
    using z(2) sz(4) N(1) arr(2) by (simp add: bs_serialize_def bs_serialize_max_def sb_getPointer_def Let_def)
  also have "\<dots> = map_option (\<lambda>m. ?z1\<lparr>szMemory := m, szBuffer := szBuffer ?z1 + ?k\<rparr>)
      (acopy (szMemory ?z1) (szBuffer ?z1) (take ?k (drop (base + headerSize + 0) (szMemory ?z1))))"
    by (rule bs_store_loop_copy) (use arr sep N(2) sz(1) l1 room' in auto)
  also have "take ?k (drop (base + headerSize + 0) (szMemory ?z1)) = take ?k (drop (base + headerSize) m)"
    using nth_acopy [OF m1] l1 sep hl by (simp, intro take_drop_cong) auto
  also have "acopy (szMemory ?z1) (szBuffer ?z1) (take ?k (drop (base + headerSize) m)) =
      acopy m ?q (bs_bytes m base s)"
    unfolding bs_bytes_def append_assoc [symmetric] acopy_append [of m ?q ?hd] m1 using hl by simp
  finally show ?thesis
    using room' N(2) sz(1) hl
    by (auto simp: bs_bytes_def acopy_def bs_getSerializedSize_def add.assoc simp del: append_assoc)
qed

lemma bs_bytes_length: "bs_wf m base s \<Longrightarrow> length (bs_bytes m base s) = bs_getSerializedSize s"
  using bs_size_facts(1) [of m base s]
  by (auto simp: bs_wf_def bs_bytes_def be_u8_bytes_def be_u16_bytes_def bs_getSerializedSize_def
      headerSize_def)

text \<open>The bit pointer survives its conversions.\<close>

lemma bs_pointer_conversion:
  assumes "0 \<le> p" "p \<le> 7"
  shows "unat (scast (of_int p :: i8) :: u16) = nat p" and "sint (ucast (scast (of_int p :: i8) :: u16) :: i8) = p"
proof -
  have "p \<in> {0, 1, 2, 3, 4, 5, 6, 7}" using assms by auto
  then show "unat (scast (of_int p :: i8) :: u16) = nat p" "sint (ucast (scast (of_int p :: i8) :: u16) :: i8) = p"
    by auto
qed

text \<open>
  \<open>deserialize\<close> of serialized bytes; it copies \<open>bytePointer\<close> bytes, which is more than the stream
  has, so both ranges need room for them.\<close>

lemma bs_deserialize_bytes:
  assumes wf: "bs_wf m0 base s" and bytes: "take (bs_getSerializedSize s) (drop (dzBuffer d) (dzMemory d)) = bs_bytes m0 base s"
    and target: "mData (bsData t) = Some tb" "tb \<noteq> dzBegin d" "unat (bytePointer s) < mNumberOfElements (bsData t)"
    and room: "dzBuffer d + headerSize + unat (bytePointer s) \<le> length (dzMemory d)"
      "tb + headerSize + unat (bytePointer s) \<le> length (dzMemory d)"
  shows "\<exists>t' d'. bs_deserialize t d = Some (True, t', d') \<and> bsData t' = bsData t \<and>
    bytePointer t' = bytePointer s \<and> bitPointer t' = bitPointer s \<and>
    length (dzMemory d') = length (dzMemory d) \<and>
    bits_of (dzMemory d') tb (bs_length s) = bits_of m0 base (bs_length s)"
proof -
  let ?m = "dzMemory d" and ?q = "dzBuffer d" and ?u = "unat (bytePointer s)" and ?k = "unat (bs_getSize s)"
  note sz = bs_size_facts [OF wf] and len = bs_bytes_length [OF wf]
  have w: "headerSize \<le> ?u" "0 \<le> bitPointer s" "bitPointer s \<le> 7"
    "base + mNumberOfElements (bsData s) \<le> length m0" using wf by (auto simp: bs_wf_def)
  note conv = bs_pointer_conversion [OF w(2,3)]
  have part: "take k (drop (?q + j) ?m) = take k (drop j (bs_bytes m0 base s))"
    if "j + k \<le> bs_getSerializedSize s" for j k
    using that by (simp add: bytes [symmetric] drop_take ac_simps min_def)
  have b8: "take 1 (drop ?q ?m) = be_u8_bytes (of_int (bitPointer s))"
    using part [of 0 1] by (simp add: bs_bytes_def be_u8_bytes_def bs_getSerializedSize_def headerSize_def)
  have b16: "take 2 (drop (?q + 1) ?m) = be_u16_bytes (bs_getSize s)"
    using part [of 1 2] by (simp add: bs_bytes_def be_u8_bytes_def be_u16_bytes_def
        bs_getSerializedSize_def headerSize_def)
  have pay: "take ?k (drop (?q + 3) ?m) = take ?k (drop (base + headerSize) m0)"
    using part [of 3 ?k] by (simp add: bs_bytes_def be_u8_bytes_def be_u16_bytes_def
        bs_getSerializedSize_def headerSize_def)
  have n: "(if (scast (of_int (bitPointer s) :: i8) :: u16) < 7 then bs_getSize s + of_nat headerSize - 1
      else bs_getSize s + of_nat headerSize) = bytePointer s"
    using w(3) by (auto simp: word_less_nat_alt conv bs_getSize_def)
  let ?d1 = "d\<lparr>dzBuffer := ?q + 1\<rparr>" and ?d3 = "d\<lparr>dzBuffer := ?q + 3\<rparr>"
  have r8: "db_read be_i8_read d = Some (of_int (bitPointer s), ?d1)"
    using be_i8.read_enc [OF b8] by (simp add: db_read_def)
  have r16: "db_read be_u16_read ?d1 = Some (bs_getSize s, ?d3)"
    using be_u16.read_enc [of "?q + 1" ?m "bs_getSize s"] b16 by (simp add: db_read_def)
  let ?bytes = "take ?u (drop (?q + 3) ?m)"
  have rb: "db_readBuffer ?u ?d3 = Some (?bytes, d\<lparr>dzBuffer := ?q + 3 + ?u\<rparr>)"
    using room(1) by (simp add: db_readBuffer_def headerSize_def)
  obtain m' where m': "acopy ?m (tb + headerSize) ?bytes = Some m'"
    using room by (simp add: acopy_def headerSize_def)
  let ?t = "t\<lparr>bytePointer := bytePointer s, bitPointer := bitPointer s\<rparr>"
  have "bs_deserialize t d = Some (True, ?t, d\<lparr>dzBuffer := ?q + 3 + ?u, dzMemory := m'\<rparr>)"
    using target r16 rb m' conv(2) n
    by (simp add: bs_deserialize_def r8 db_getPointer_def Let_def)
  moreover have "bits_of m' tb (bs_length s) = bits_of m0 base (bs_length s)"
  proof (rule nth_equalityI)
    fix j assume "j < length (bits_of m' tb (bs_length s))"
    then have j: "j < bs_length s" by simp
    have jk: "j div 8 < ?k" using j bs_getSize_bytes [OF wf] by (simp add: div_less_iff_less_mult)
    have ku: "?k \<le> ?u" using sz(2) by (cases "bitPointer s < 7") (auto simp: headerSize_def)
    have "m' ! (tb + headerSize + j div 8) = ?bytes ! (j div 8)"
      using nth_acopy [OF m'] jk ku room by (simp add: headerSize_def)
    also have "\<dots> = take ?k (drop (?q + 3) ?m) ! (j div 8)" using jk ku by simp
    also have "\<dots> = m0 ! (base + headerSize + j div 8)"
      unfolding pay using jk sz(1) w(4) by simp
    finally show "bits_of m' tb (bs_length s) ! j = bits_of m0 base (bs_length s) ! j"
      using j jk ku room sz(1) w(4) length_acopy [OF m'] by (simp add: nth_bits_of msb_bit_def)
  qed simp
  ultimately show ?thesis using length_acopy [OF m'] by auto
qed

lemma bs_transport:
  assumes wf: "bs_wf m base s" and z: "szMemory z = m" "szBegin z \<noteq> base"
    and room: "szBuffer z + headerSize + unat (bytePointer s) \<le> length m"
    and apart: "szBuffer z + bs_getSerializedSize s \<le> base \<or> base + mNumberOfElements (bsData s) \<le> szBuffer z"
    and target: "mData (bsData t) = Some tb" "tb \<noteq> szBuffer z" "tb + mNumberOfElements (bsData t) \<le> length m"
      "unat (bytePointer s) < mNumberOfElements (bsData t)" "mNumberOfElements (bsData t) < 2 ^ 16"
      "tb + headerSize + unat (bytePointer s) \<le> length m"
  shows "\<exists>z' t' d'. bs_serialize s z = Some z' \<and>
    bs_deserialize t (db_new (szMemory z') (szBuffer z)) = Some (True, t', d') \<and>
    bs_wf (dzMemory d') tb t' \<and> bs_length t' = bs_length s \<and>
    bits_of (dzMemory d') tb (bs_length s) = bits_of m base (bs_length s)"
proof -
  note sz = bs_size_facts [OF wf]
  have "szBuffer z + bs_getSerializedSize s \<le> length m"
    using room sz(2) by (auto simp: bs_getSerializedSize_def headerSize_def split: if_splits)
  from bs_serialize_bytes [OF wf z this apart] obtain m' where
    m': "acopy m (szBuffer z) (bs_bytes m base s) = Some m'"
      "bs_serialize s z = Some (z\<lparr>szMemory := m', szBuffer := szBuffer z + bs_getSerializedSize s\<rparr>)" by blast
  let ?d = "db_new m' (szBuffer z)"
  have l: "length m' = length m" by (rule length_acopy [OF m'(1)])
  have "take (bs_getSerializedSize s) (drop (dzBuffer ?d) (dzMemory ?d)) = bs_bytes m base s"
    using acopy_view [OF m'(1)] bs_bytes_length [OF wf] by (simp add: db_new_def)
  from bs_deserialize_bytes [OF wf this target(1) _ target(4)] obtain t' d' where
    t': "bs_deserialize t ?d = Some (True, t', d')" "bsData t' = bsData t" "bytePointer t' = bytePointer s"
      "bitPointer t' = bitPointer s" "length (dzMemory d') = length m"
      "bits_of (dzMemory d') tb (bs_length s) = bits_of m base (bs_length s)"
    using target(2,6) room l by (auto simp: db_new_def)
  have wf': "bs_wf (dzMemory d') tb t'" using wf target t' by (simp add: bs_wf_def)
  have "bs_length t' = bs_length s" using t'(3,4) by (simp add: bs_length_def)
  with m'(2) t'(1,6) wf' show ?thesis by auto
qed

text \<open>
  C28. A stream that is serialized behind or in front of its buffer and deserialized into another
  buffer with room for it returns the same bits.\<close>

theorem bitstream_roundtrip:
  assumes wf: "bs_wf m base s" and z: "szMemory z = m" "szBegin z \<noteq> base"
    and room: "szBuffer z + headerSize + unat (bytePointer s) \<le> length m"
    and apart: "szBuffer z + bs_getSerializedSize s \<le> base \<or> base + mNumberOfElements (bsData s) \<le> szBuffer z"
    and target: "mData (bsData t) = Some tb" "tb \<noteq> szBuffer z" "tb + mNumberOfElements (bsData t) \<le> length m"
      "unat (bytePointer s) < mNumberOfElements (bsData t)" "mNumberOfElements (bsData t) < 2 ^ 16"
      "tb + headerSize + unat (bytePointer s) \<le> length m"
  shows "\<exists>z' t' d'. bs_serialize s z = Some z' \<and>
    bs_deserialize t (db_new (szMemory z') (szBuffer z)) = Some (True, t', d') \<and>
    (\<forall>n. bs_getBit (dzMemory d') t' n = bs_getBit m s n)"
proof -
  from bs_transport [OF assms] obtain z' t' d' where l: "bs_serialize s z = Some z'"
      "bs_deserialize t (db_new (szMemory z') (szBuffer z)) = Some (True, t', d')" "bs_wf (dzMemory d') tb t'"
      "bs_length t' = bs_length s" "bits_of (dzMemory d') tb (bs_length s) = bits_of m base (bs_length s)" by blast
  have "bs_getBit (dzMemory d') t' n = bs_getBit m s n" for n
    unfolding bs_getBit_bits [OF wf] bs_getBit_bits [OF l(3)] l(4,5) ..
  with l(1,2) show ?thesis by auto
qed

definition bs_sample_memory :: "u8 list" where
  "bs_sample_memory = [0, 0, 0, 0xB5, 0xC0] @ replicate 23 0"

definition bs_sample_stream :: bitstream where
  "bs_sample_stream = \<lparr>bsData = \<lparr>mData = Some 0, mNumberOfElements = 6\<rparr>, bytePointer = 4, bitPointer = 5\<rparr>"

definition bs_sample_target :: bitstream where
  "bs_sample_target = bs_new \<lparr>mData = Some 16, mNumberOfElements = 6\<rparr>"

lemma bitstream_roundtrip_witness:
  "\<exists>z' t' d'. bs_serialize bs_sample_stream (sb_new bs_sample_memory 6) = Some z' \<and>
    bs_deserialize bs_sample_target (db_new (szMemory z') (szBuffer (sb_new bs_sample_memory 6))) =
      Some (True, t', d') \<and>
    (\<forall>n. bs_getBit (dzMemory d') t' n = bs_getBit bs_sample_memory bs_sample_stream n)"
  by (rule bitstream_roundtrip [where base = 0 and tb = 16])
    (simp_all add: bs_wf_def bs_sample_memory_def bs_sample_stream_def bs_sample_target_def bs_new_def
      sb_new_def headerSize_def bs_getSerializedSize_def bs_getSize_def)

subsection \<open>Streams that do not come back\<close>

text \<open>A stream that fills its buffer is refused by a buffer of the same size.\<close>

lemma bs_full_stream_refused:
  "map_option fst (bs_serialize \<lparr>bsData = \<lparr>mData = Some 0, mNumberOfElements = 4\<rparr>, bytePointer = 4, bitPointer = 7\<rparr>
      (sb_new [0, 0, 0, 0xAA, 0, 0, 0, 0, 0, 0, 0, 0] 4) \<bind>
    (\<lambda>z. bs_deserialize (bs_new \<lparr>mData = Some 8, mNumberOfElements = 4\<rparr>) (db_new (szMemory z) 4))) = Some False"
  by code_simp

text \<open>\<open>deserialize\<close> copies \<open>bytePointer\<close> bytes instead of \<open>getSize\<close> bytes: here 6 for a stream of 3, the
  last of them behind the buffer of 7 bytes at position 0.\<close>

lemma bs_deserialize_writes_behind:
  "map_option (\<lambda>(b, t, d). (b, bs_getSize t, dzMemory d))
     (bs_deserialize (bs_new \<lparr>mData = Some 0, mNumberOfElements = 7\<rparr>)
       (db_new ([0, 0, 0, 0, 0, 0, 0, 0, 0, 0] @ [7, 0, 3, 1, 2, 3, 4, 5, 6]) 10)) =
   Some (True, 3, [0, 0, 0, 1, 2, 3, 4, 5, 6, 0] @ [7, 0, 3, 1, 2, 3, 4, 5, 6])"
  by code_simp

end
