(* ===== verification/Time_Core.thy ===== *)
theory Time_Core
  imports Prelude "HOL-Library.Signed_Division"
begin

text \<open>
  \<open>Duration\<close> (time/duration.h) and \<open>TimePoint\<close> (time_point.h). A duration is a number of
  microseconds in an \<open>int64_t\<close>. It is kept as an integer and every operation whose result can leave
  the range of the type is partial: signed overflow and division by zero are undefined in C++, and
  are \<open>None\<close> here. Division and remainder truncate towards zero (\<open>sdiv\<close>, \<open>smod\<close>).

  The reference epoch of a time point is a type parameter, as in the code. Durations and time points
  are instances of \<open>linorder\<close> by the comparison operators of the code.
\<close>

definition int64_ok :: "int \<Rightarrow> bool" where
  "int64_ok x \<longleftrightarrow> - (2 ^ 63) \<le> x \<and> x < 2 ^ 63"

definition int64 :: "int \<Rightarrow> int option" where
  "int64 x = (if int64_ok x then Some x else None)"

lemma int64_Some [simp]: "int64 x = Some y \<longleftrightarrow> int64_ok x \<and> y = x"
  by (auto simp: int64_def)

lemma int64_eq: "int64_ok x \<Longrightarrow> int64 x = Some x"
  by simp

subsection \<open>Duration\<close>

datatype duration = Duration (mTicks: int)

definition nanosecondsPerMicrosecond :: int where "nanosecondsPerMicrosecond = 1000"
definition microsecondsPerMillisecond :: int where "microsecondsPerMillisecond = 1000"
definition millisecondsPerSecond :: int where "millisecondsPerSecond = 1000"
definition secondsPerMinute :: int where "secondsPerMinute = 60"
definition minutesPerHour :: int where "minutesPerHour = 60"
definition secondsPerDay :: int where "secondsPerDay = 86400"

lemmas time_units = microsecondsPerMillisecond_def millisecondsPerSecond_def secondsPerMinute_def
  minutesPerHour_def secondsPerDay_def

definition dur_new :: duration where
  "dur_new = Duration 0"

definition dur_hours :: "duration \<Rightarrow> int" where
  "dur_hours d = mTicks d sdiv
     (microsecondsPerMillisecond * millisecondsPerSecond * secondsPerMinute * minutesPerHour)"

definition dur_minutes :: "duration \<Rightarrow> int" where
  "dur_minutes d = mTicks d sdiv (microsecondsPerMillisecond * millisecondsPerSecond * secondsPerMinute)"

definition dur_seconds :: "duration \<Rightarrow> int" where
  "dur_seconds d = mTicks d sdiv (microsecondsPerMillisecond * millisecondsPerSecond)"

definition dur_milliseconds :: "duration \<Rightarrow> int" where
  "dur_milliseconds d = mTicks d sdiv microsecondsPerMillisecond"

definition dur_microseconds :: "duration \<Rightarrow> int" where
  "dur_microseconds d = mTicks d"

definition maximumValue :: int where "maximumValue = 9223372036854775807"
definition minimalValue :: int where "minimalValue = - maximumValue - 1"

definition dur_maximum :: duration where
  "dur_maximum = Duration maximumValue"

definition dur_infinity :: duration where
  "dur_infinity = Duration maximumValue"

definition dur_myriad :: duration where
  "dur_myriad = Duration (10000 * 365 * 24 * minutesPerHour * secondsPerMinute * millisecondsPerSecond
     * microsecondsPerMillisecond)"

definition dur_zero :: duration where
  "dur_zero = Duration 0"

definition dur_negate :: "duration \<Rightarrow> duration option" where
  "dur_negate d = map_option Duration (int64 (- mTicks d))"

definition dur_minus :: "duration \<Rightarrow> duration \<Rightarrow> duration option" where
  "dur_minus d other = map_option Duration (int64 (mTicks d - mTicks other))"

definition dur_plus :: "duration \<Rightarrow> duration \<Rightarrow> duration option" where
  "dur_plus d other = map_option Duration (int64 (mTicks d + mTicks other))"

definition dur_divide :: "duration \<Rightarrow> int \<Rightarrow> duration option" where
  "dur_divide d divisor =
     (if divisor = 0 then None else map_option Duration (int64 (mTicks d sdiv divisor)))"

definition dur_ratio :: "duration \<Rightarrow> duration \<Rightarrow> int option" where
  "dur_ratio d divisor = (if mTicks divisor = 0 then None else int64 (mTicks d sdiv mTicks divisor))"

text \<open>The remainder is undefined where the quotient is.\<close>

definition dur_modulo :: "duration \<Rightarrow> duration \<Rightarrow> duration option" where
  "dur_modulo d divisor =
     (if mTicks divisor = 0 \<or> \<not> int64_ok (mTicks d sdiv mTicks divisor) then None
      else Some (Duration (mTicks d smod mTicks divisor)))"

text \<open>The assigning operators return the new value of the object.\<close>

definition dur_sub_assign :: "duration \<Rightarrow> duration \<Rightarrow> duration option" where
  "dur_sub_assign d other = map_option Duration (int64 (mTicks d - mTicks other))"

definition dur_add_assign :: "duration \<Rightarrow> duration \<Rightarrow> duration option" where
  "dur_add_assign d other = map_option Duration (int64 (mTicks d + mTicks other))"

definition dur_div_assign :: "duration \<Rightarrow> int \<Rightarrow> duration option" where
  "dur_div_assign d divisor =
     (if divisor = 0 then None else map_option Duration (int64 (mTicks d sdiv divisor)))"

definition dur_times :: "duration \<Rightarrow> int \<Rightarrow> duration option" where
  "dur_times d rhs = map_option Duration (int64 (mTicks d * rhs))"

definition dur_mul_assign :: "duration \<Rightarrow> int \<Rightarrow> duration option" where
  "dur_mul_assign d divisor = map_option Duration (int64 (mTicks d * divisor))"

definition dur_lt :: "duration \<Rightarrow> duration \<Rightarrow> bool" where "dur_lt d rhs \<longleftrightarrow> mTicks d < mTicks rhs"
definition dur_gt :: "duration \<Rightarrow> duration \<Rightarrow> bool" where "dur_gt d rhs \<longleftrightarrow> mTicks d > mTicks rhs"
definition dur_le :: "duration \<Rightarrow> duration \<Rightarrow> bool" where "dur_le d rhs \<longleftrightarrow> mTicks d \<le> mTicks rhs"
definition dur_ge :: "duration \<Rightarrow> duration \<Rightarrow> bool" where "dur_ge d rhs \<longleftrightarrow> mTicks d \<ge> mTicks rhs"
definition dur_eq :: "duration \<Rightarrow> duration \<Rightarrow> bool" where "dur_eq d rhs \<longleftrightarrow> mTicks d = mTicks rhs"
definition dur_ne :: "duration \<Rightarrow> duration \<Rightarrow> bool" where "dur_ne d rhs \<longleftrightarrow> mTicks d \<noteq> mTicks rhs"

definition dur_abs :: "duration \<Rightarrow> duration option" where
  "dur_abs d = (if mTicks d < 0 then map_option Duration (int64 (- mTicks d)) else Some (Duration (mTicks d)))"

definition dur_scale :: "int \<Rightarrow> duration \<Rightarrow> duration option" where
  "dur_scale muliplier d = map_option Duration (int64 (mTicks d * muliplier))"

text \<open>The factors are positive, so that a partial product leaves the range only if the product does.\<close>

definition Hours :: "int \<Rightarrow> duration option" where
  "Hours v = map_option Duration (int64 (v * minutesPerHour * secondsPerMinute * millisecondsPerSecond
     * microsecondsPerMillisecond))"

definition Minutes :: "int \<Rightarrow> duration option" where
  "Minutes v = map_option Duration (int64 (v * secondsPerMinute * millisecondsPerSecond
     * microsecondsPerMillisecond))"

definition Seconds :: "int \<Rightarrow> duration option" where
  "Seconds v = map_option Duration (int64 (v * millisecondsPerSecond * microsecondsPerMillisecond))"

definition Milliseconds :: "int \<Rightarrow> duration option" where
  "Milliseconds v = map_option Duration (int64 (v * microsecondsPerMillisecond))"

definition Microseconds :: "int \<Rightarrow> duration" where
  "Microseconds v = Duration v"

definition dur_limits_max :: duration where "dur_limits_max = Duration (2 ^ 63 - 1)"
definition dur_limits_min :: duration where "dur_limits_min = Duration (- (2 ^ 63))"
definition dur_limits_epsilon :: duration where "dur_limits_epsilon = dur_zero"

lemmas dur_ops = dur_negate_def dur_minus_def dur_plus_def dur_divide_def dur_ratio_def dur_times_def
  dur_scale_def dur_abs_def dur_modulo_def

instantiation duration :: linorder
begin

definition less_eq_duration :: "duration \<Rightarrow> duration \<Rightarrow> bool" where
  "less_eq_duration = dur_le"

definition less_duration :: "duration \<Rightarrow> duration \<Rightarrow> bool" where
  "less_duration = dur_lt"

instance
  by standard (auto simp: less_eq_duration_def less_duration_def dur_le_def dur_lt_def duration.expand)

end

lemma duration_le: "d \<le> e \<longleftrightarrow> mTicks d \<le> mTicks e" and duration_less: "d < e \<longleftrightarrow> mTicks d < mTicks e"
  by (simp_all add: less_eq_duration_def less_duration_def dur_le_def dur_lt_def)

lemma dur_operators_agree:
  "dur_gt d e \<longleftrightarrow> e < d" "dur_ge d e \<longleftrightarrow> e \<le> d" "dur_eq d e \<longleftrightarrow> d = e" "dur_ne d e \<longleftrightarrow> d \<noteq> e"
  by (auto simp: dur_gt_def dur_ge_def dur_eq_def dur_ne_def duration_le duration_less duration.expand)

subsection \<open>TimePoint\<close>

datatype 'epoch time_point = TimePoint (mDuration: duration)

definition tp_new :: "'e time_point" where
  "tp_new = TimePoint dur_zero"

definition tp_diff :: "'e time_point \<Rightarrow> 'e time_point \<Rightarrow> duration option" where
  "tp_diff t other = dur_minus (mDuration t) (mDuration other)"

definition tp_minus :: "'e time_point \<Rightarrow> duration \<Rightarrow> 'e time_point option" where
  "tp_minus t d = map_option TimePoint (dur_minus (mDuration t) d)"

definition tp_sub_assign :: "'e time_point \<Rightarrow> duration \<Rightarrow> 'e time_point option" where
  "tp_sub_assign t d = map_option TimePoint (dur_minus (mDuration t) d)"

definition tp_plus :: "'e time_point \<Rightarrow> duration \<Rightarrow> 'e time_point option" where
  "tp_plus t d = map_option TimePoint (dur_plus (mDuration t) d)"

definition tp_add_assign :: "'e time_point \<Rightarrow> duration \<Rightarrow> 'e time_point option" where
  "tp_add_assign t d = map_option TimePoint (dur_plus (mDuration t) d)"

definition tp_eq :: "'e time_point \<Rightarrow> 'e time_point \<Rightarrow> bool" where "tp_eq t other \<longleftrightarrow> dur_eq (mDuration t) (mDuration other)"
definition tp_ne :: "'e time_point \<Rightarrow> 'e time_point \<Rightarrow> bool" where "tp_ne t other \<longleftrightarrow> dur_ne (mDuration t) (mDuration other)"
definition tp_lt :: "'e time_point \<Rightarrow> 'e time_point \<Rightarrow> bool" where "tp_lt t other \<longleftrightarrow> dur_lt (mDuration t) (mDuration other)"
definition tp_gt :: "'e time_point \<Rightarrow> 'e time_point \<Rightarrow> bool" where "tp_gt t other \<longleftrightarrow> dur_gt (mDuration t) (mDuration other)"
definition tp_le :: "'e time_point \<Rightarrow> 'e time_point \<Rightarrow> bool" where "tp_le t other \<longleftrightarrow> dur_le (mDuration t) (mDuration other)"
definition tp_ge :: "'e time_point \<Rightarrow> 'e time_point \<Rightarrow> bool" where "tp_ge t other \<longleftrightarrow> dur_ge (mDuration t) (mDuration other)"

definition timeSinceEpoch :: "'e time_point \<Rightarrow> duration" where
  "timeSinceEpoch t = mDuration t"

definition afterEpoch :: "duration \<Rightarrow> 'e time_point" where
  "afterEpoch d = TimePoint d"

definition startOfEpoch :: "'e time_point" where
  "startOfEpoch = TimePoint dur_zero"

definition endOfEpoch :: "'e time_point" where
  "endOfEpoch = TimePoint dur_myriad"

instantiation time_point :: (type) linorder
begin

definition less_eq_time_point :: "'a time_point \<Rightarrow> 'a time_point \<Rightarrow> bool" where
  "less_eq_time_point = tp_le"

definition less_time_point :: "'a time_point \<Rightarrow> 'a time_point \<Rightarrow> bool" where
  "less_time_point = tp_lt"

instance
  by standard (auto simp: less_eq_time_point_def less_time_point_def tp_le_def tp_lt_def dur_le_def
      dur_lt_def time_point.expand duration.expand)

end

text \<open>The microseconds of a time point.\<close>

definition ticks :: "'e time_point \<Rightarrow> int" where
  "ticks t = mTicks (mDuration t)"

lemma time_point_le: "s \<le> t \<longleftrightarrow> ticks s \<le> ticks t" and time_point_less: "s < t \<longleftrightarrow> ticks s < ticks t"
  by (simp_all add: less_eq_time_point_def less_time_point_def tp_le_def tp_lt_def dur_le_def dur_lt_def ticks_def)

lemma ticks_eq: "ticks s = ticks t \<longleftrightarrow> s = t"
  by (auto simp: ticks_def time_point.expand duration.expand)

lemma tp_operators_agree:
  "tp_gt s t \<longleftrightarrow> t < s" "tp_ge s t \<longleftrightarrow> t \<le> s" "tp_eq s t \<longleftrightarrow> s = t" "tp_ne s t \<longleftrightarrow> s \<noteq> t"
  by (auto simp: tp_gt_def tp_ge_def tp_eq_def tp_ne_def dur_operators_agree time_point_le time_point_less
      duration_le duration_less ticks_def time_point.expand)

lemma ticks_TimePoint [simp]: "ticks (TimePoint (Duration x)) = x"
  by (simp add: ticks_def)

lemma tp_plus_ticks: "int64_ok (ticks t + mTicks d) \<Longrightarrow> tp_plus t d = Some (TimePoint (Duration (ticks t + mTicks d)))"
  by (simp add: tp_plus_def dur_plus_def ticks_def int64_eq)

lemma tp_minus_ticks: "int64_ok (ticks t - mTicks d) \<Longrightarrow> tp_minus t d = Some (TimePoint (Duration (ticks t - mTicks d)))"
  by (simp add: tp_minus_def dur_minus_def ticks_def int64_eq)

lemma Seconds_ticks: "int64_ok (v * 1000000) \<Longrightarrow> Seconds v = Some (Duration (v * 1000000))"
  by (simp add: Seconds_def time_units int64_eq mult.assoc)

text \<open>Adding a duration and taking it away, and differences, agree where they are defined.\<close>

lemma tp_plus_minus: "int64_ok (ticks t) \<Longrightarrow> tp_plus t d = Some u \<Longrightarrow> tp_minus u d = Some t \<and> tp_diff u t = Some d"
  if "int64_ok (mTicks d)"
  using that by (cases t; cases d) (auto simp: tp_plus_def tp_minus_def tp_diff_def dur_plus_def dur_minus_def ticks_def int64_eq)

text \<open>Truncation towards zero, in terms of the floor division of HOL.\<close>

lemma sdiv_pos: "0 \<le> a \<Longrightarrow> 0 < b \<Longrightarrow> a sdiv b = (a :: int) div b"
  by (simp add: signed_divide_int_def sgn_if)

lemma sdiv_neg: "a < 0 \<Longrightarrow> 0 < b \<Longrightarrow> a sdiv b = - ((- a :: int) div b)"
  by (simp add: signed_divide_int_def sgn_if)

lemma smod_pos: "0 \<le> a \<Longrightarrow> 0 < b \<Longrightarrow> a smod b = (a :: int) mod b"
  by (cases "a = 0") (simp_all add: signed_modulo_int_def)

end
