(* ===== verification/Dates.thy ===== *)
theory Dates
  imports Time_Core
begin

text \<open>
  \<open>DateUtils\<close>, \<open>Date\<close> and \<open>GpsDate\<close> (time/date.h, date.cpp). The fields are words of the widths of
  the struct, the arithmetic is the \<open>int32_t\<close> and \<open>int64_t\<close> arithmetic of the code: overflow is
  \<open>None\<close>, and a value assigned to a narrower type is cut.
\<close>

datatype unix_epoch = UnixEpoch
datatype tai_epoch = TaiEpoch
datatype gps_epoch = GpsEpoch
datatype scet_epoch = SpacecraftElapsedTimeEpoch

type_synonym unix_time = "unix_epoch time_point"
type_synonym atomic_time = "tai_epoch time_point"
type_synonym gps_time = "gps_epoch time_point"
type_synonym spacecraft_elapsed_time = "scet_epoch time_point"

definition int32 :: "int \<Rightarrow> int option" where
  "int32 x = (if - (2 ^ 31) \<le> x \<and> x < 2 ^ 31 then Some x else None)"

definition narrow32 :: "int \<Rightarrow> int" where
  "narrow32 x = sint (word_of_int x :: 32 word)"

record date =
  year :: u16
  month :: u8
  day :: u8
  hour :: u8
  minute :: u8
  second :: u8

record gps_date =
  weekNumber :: u16
  timeOfWeek :: u32

definition secondsPerHour :: int where "secondsPerHour = 60 * secondsPerMinute"
definition secondsPerWeek :: int where "secondsPerWeek = 7 * secondsPerDay"
definition unixEpochStartDayCount :: int where "unixEpochStartDayCount = 719468"

definition getDaysBeforeYear :: "int \<Rightarrow> int" where
  "getDaysBeforeYear y = 365 * y + ((y sdiv 4 - y sdiv 100) + y sdiv 400)"

definition getDaysBeforeMonth :: "int \<Rightarrow> int" where
  "getDaysBeforeMonth m = (m * 306 + 5) sdiv 10"

definition getMonthFromDayOfYear :: "int \<Rightarrow> int option" where
  "getMonthFromDayOfYear d = do { x \<leftarrow> int32 (100 * d); x \<leftarrow> int32 (x + 52); Some (x sdiv 3060) }"

definition getDay :: "date \<Rightarrow> int" where
  "getDay d =
     (let m = (uint (month d) + 9) smod 12;
          y = uint (year d) - m sdiv 10
      in getDaysBeforeYear y + getDaysBeforeMonth m + (uint (day d) - 1))"

definition getDate :: "int \<Rightarrow> date option" where
  "getDate dayCount = do {
     x \<leftarrow> int64 (10000 * dayCount);
     x \<leftarrow> int64 (x + 14780);
     let y = narrow32 (x sdiv 3652425);
     let daysInYear = narrow32 (dayCount - getDaysBeforeYear y);
     let (y, daysInYear) =
       (if daysInYear < 0 then (y - 1, narrow32 (dayCount - getDaysBeforeYear (y - 1)))
        else (y, daysInYear));
     mi \<leftarrow> getMonthFromDayOfYear daysInYear;
     Some \<lparr>year = word_of_int (y + (mi + 2) sdiv 12), month = word_of_int ((mi + 2) smod 12 + 1),
       day = word_of_int (daysInYear - getDaysBeforeMonth mi + 1), hour = 0, minute = 0, second = 0\<rparr> }"

definition toUnixTime :: "date \<Rightarrow> unix_time option" where
  "toUnixTime d = do {
     let days = getDay d - unixEpochStartDayCount;
     let seconds = uint (second d) + 60 * (uint (minute d) + 60 * (uint (hour d) + 24 * days));
     s \<leftarrow> Seconds seconds;
     Some (afterEpoch s) }"

definition fromUnixTime :: "unix_time \<Rightarrow> date option" where
  "fromUnixTime t = do {
     let secondsSinceEpoch = dur_seconds (timeSinceEpoch t);
     let days = secondsSinceEpoch sdiv secondsPerDay;
     let seconds = secondsSinceEpoch - days * secondsPerDay;
     d \<leftarrow> getDate (days + unixEpochStartDayCount);
     let m = narrow32 (seconds smod secondsPerHour);
     Some (d\<lparr>hour := word_of_int (seconds sdiv secondsPerHour), minute := word_of_int (m sdiv secondsPerMinute),
       second := word_of_int (m smod secondsPerMinute)\<rparr>) }"

definition isLeapYear :: "int \<Rightarrow> bool" where
  "isLeapYear y \<longleftrightarrow> (y smod 4 = 0 \<and> y smod 100 \<noteq> 0) \<or> y smod 400 = 0"

definition daysPerMonth :: "int list" where
  "daysPerMonth = [31, 28, 31, 30, 31, 30, 31, 31, 30, 31, 30, 31]"

definition isValid :: "date \<Rightarrow> bool" where
  "isValid d =
     (if uint (year d) < 1 \<or> month d = 0 \<or> month d > 12 then False
      else if day d = 0 \<or> (isLeapYear (uint (year d)) \<and> month d = 2 \<and> day d > 29) \<or>
        (\<not> isLeapYear (uint (year d)) \<and> month d \<noteq> 2 \<and> uint (day d) > daysPerMonth ! (unat (month d) - 1)) then False
      else if hour d > 23 \<or> minute d > 59 \<or> second d > 60 then False
      else True)"

definition date_eq :: "date \<Rightarrow> date \<Rightarrow> bool" where
  "date_eq d other \<longleftrightarrow> year d = year other \<and> month d = month other \<and> day d = day other \<and>
     hour d = hour other \<and> minute d = minute other \<and> second d = second other"

definition date_ne :: "date \<Rightarrow> date \<Rightarrow> bool" where
  "date_ne d other \<longleftrightarrow> \<not> date_eq d other"

definition fromGpsTime :: "gps_time \<Rightarrow> gps_date" where
  "fromGpsTime t =
     (let seconds = dur_seconds (timeSinceEpoch t);
          week = (word_of_int (seconds sdiv secondsPerWeek) :: u16)
      in \<lparr>weekNumber = week, timeOfWeek = word_of_int (seconds - uint week * secondsPerWeek)\<rparr>)"

definition toGpsTime :: "gps_date \<Rightarrow> gps_time option" where
  "toGpsTime d = do {
     let seconds = 0 + uint (weekNumber d) * secondsPerWeek;
     let seconds = seconds + uint (timeOfWeek d);
     s \<leftarrow> Seconds seconds;
     Some (afterEpoch s) }"

subsection \<open>The calendar\<close>

text \<open>The Gregorian calendar, stated without the tables of the code.\<close>

definition leap :: "int \<Rightarrow> bool" where
  "leap y \<longleftrightarrow> (4 dvd y \<and> \<not> 100 dvd y) \<or> 400 dvd y"

definition days_in_month :: "int \<Rightarrow> int \<Rightarrow> int" where
  "days_in_month y m = (if m = 2 then (if leap y then 29 else 28)
     else if m = 4 \<or> m = 6 \<or> m = 9 \<or> m = 11 then 30 else 31)"

definition calendar_date :: "date \<Rightarrow> bool" where
  "calendar_date d \<longleftrightarrow> 1 \<le> uint (year d) \<and> 1 \<le> uint (month d) \<and> uint (month d) \<le> 12 \<and>
     1 \<le> uint (day d) \<and> uint (day d) \<le> days_in_month (uint (year d)) (uint (month d)) \<and>
     uint (hour d) < 24 \<and> uint (minute d) < 60 \<and> uint (second d) < 60"

lemma narrow32_id: "- (2 ^ 31) \<le> x \<Longrightarrow> x < 2 ^ 31 \<Longrightarrow> narrow32 x = x"
  by (simp add: narrow32_def int_word_sint)

text \<open>Days before a year for years from 0 on.\<close>

definition year_days :: "int \<Rightarrow> int" where
  "year_days y = 365 * y + y div 4 - y div 100 + y div 400"

lemma getDaysBeforeYear_eq: "0 \<le> y \<Longrightarrow> getDaysBeforeYear y = year_days y"
  by (simp add: getDaysBeforeYear_def year_days_def sdiv_pos)

lemma div_succ:
  fixes k y :: int
  assumes "0 < k"
  shows "(y + 1) div k = y div k + of_bool (k dvd y + 1)"
proof -
  let ?q = "y div k" and ?r = "y mod k"
  have y: "y = k * ?q + ?r" and r: "0 \<le> ?r" "?r < k" using assms by simp_all
  show ?thesis
  proof (cases "?r + 1 = k")
    case True
    have "k * (?q + 1) = k * ?q + k" by (simp add: distrib_left)
    with True y have "y + 1 = k * (?q + 1)" by linarith
    then show ?thesis using assms by (metis dvd_triv_left nonzero_mult_div_cancel_left of_bool_eq(2) less_irrefl)
  next
    case False
    then have *: "y + 1 = k * ?q + (?r + 1)" "0 \<le> ?r + 1" "?r + 1 < k" using y r by linarith+
    have "(y + 1) div k = ?q" by (rule int_div_pos_eq [OF *])
    moreover have "(y + 1) mod k = ?r + 1" by (rule int_mod_pos_eq [OF *])
    ultimately show ?thesis using r(1) by (simp add: dvd_eq_mod_eq_0)
  qed
qed

lemma year_days_step: "year_days (y + 1) = year_days y + 365 + of_bool (leap (y + 1))"
proof -
  note div = div_succ [of _ y]
  have "400 dvd y + 1 \<Longrightarrow> 100 dvd y + 1" "100 dvd y + 1 \<Longrightarrow> 4 dvd y + 1"
    by (auto intro: dvd_trans [of 100 400] dvd_trans [of 4 100])
  then show ?thesis unfolding year_days_def div [of 4, simplified] div [of 100, simplified] div [of 400, simplified] leap_def
    by auto
qed

lemma year_days_period: "year_days (400 * q + c) = 146097 * q + year_days c"
proof -
  have "400 * q + c = c + (100 * q) * 4" "400 * q + c = c + (4 * q) * 100" "400 * q + c = c + q * 400" by simp_all
  then have "(400 * q + c) div 4 = c div 4 + 100 * q" "(400 * q + c) div 100 = c div 100 + 4 * q"
    "(400 * q + c) div 400 = c div 400 + q"
    by (metis div_mult_self1 zero_neq_numeral add.commute)+
  then show ?thesis by (simp add: year_days_def)
qed

lemma year_guess_table:
  "list_all (\<lambda>c. c * 3652425 \<le> 10000 * year_days c + 14780 \<and>
     10000 * (year_days (c + 1) - 1) + 14780 < (c + 2) * 3652425) [0..399]"
  by code_simp

lemma div_two_values:
  fixes y x k :: int
  assumes "y * k \<le> x" and "x < (y + 2) * k" and k: "0 < k"
  shows "x div k \<in> {y, y + 1}"
proof -
  have "y \<le> x div k" using zdiv_mono1 [OF assms(1) k] k by simp
  moreover have "x div k \<le> ((k - 1) + (y + 1) * k) div k"
    using assms(2) k by (intro zdiv_mono1) (simp_all add: algebra_simps)
  then have "x div k \<le> y + 1" using k by (simp add: div_pos_pos_trivial)
  ultimately show ?thesis by auto
qed

text \<open>The guess of \<open>getDate\<close> is the year or the next one.\<close>

lemma year_guess:
  assumes "0 \<le> y" and "year_days y \<le> dd" and "dd < year_days (y + 1)"
  shows "(10000 * dd + 14780) div 3652425 \<in> {y, y + 1}"
proof -
  obtain q c where y: "y = 400 * q + c" and c: "0 \<le> c" "c < 400"
    by (rule that [of "y div 400" "y mod 400"]) simp_all
  then have "c \<in> set [0..399]" by simp
  with year_guess_table have t: "c * 3652425 \<le> 10000 * year_days c + 14780"
    "10000 * (year_days (c + 1) - 1) + 14780 < (c + 2) * 3652425"
    unfolding list_all_iff by blast+
  have "year_days y = 146097 * q + year_days c" "year_days (y + 1) = 146097 * q + year_days (c + 1)"
    using year_days_period [of q c] year_days_period [of q "c + 1"] unfolding y by (simp_all add: add.assoc)
  with assms(2,3) t y have "y * 3652425 \<le> 10000 * dd + 14780" "10000 * dd + 14780 < (y + 2) * 3652425"
    by (simp_all add: algebra_simps)
  then show ?thesis by (rule div_two_values) simp
qed

text \<open>Months numbered from March: first day and length.\<close>

lemma month_days:
  assumes "0 \<le> m" "m \<le> 11" "getDaysBeforeMonth m \<le> d" "d < getDaysBeforeMonth (m + 1)" "d \<le> 365"
  shows "getMonthFromDayOfYear d = Some m"
proof -
  have "m \<in> {0, 1, 2, 3, 4, 5, 6, 7, 8, 9, 10, 11}" using assms(1,2) by (simp, arith)
  then have "(100 * d + 52) div 3060 = m" "0 \<le> d"
    using assms(3-5) by (auto simp: getDaysBeforeMonth_def sdiv_pos intro!: int_div_pos_eq [of _ 3060 _ "100 * d + 52 - 3060 * m"])
  then show ?thesis using assms(5) by (simp add: getMonthFromDayOfYear_def int32_def sdiv_pos)
qed

text \<open>A day of the calendar as a March based year \<open>y\<close>, month \<open>m\<close> and day of the year \<open>dy\<close>.\<close>

definition march_date :: "int \<Rightarrow> int \<Rightarrow> int \<Rightarrow> bool" where
  "march_date y m dy \<longleftrightarrow> 0 \<le> y \<and> 0 \<le> m \<and> m \<le> 11 \<and> getDaysBeforeMonth m \<le> dy \<and>
     dy < getDaysBeforeMonth (m + 1) \<and> dy < 365 + of_bool (leap (y + 1))"

lemma twelve: "0 \<le> m \<Longrightarrow> m \<le> 11 \<Longrightarrow> m \<in> {0, 1, 2, 3, 4, 5, 6, 7, 8, 9, 10, 11 :: int}"
  by (simp, arith)

lemma getDate_march:
  assumes "march_date y m dy" and "y < 65536"
  shows "getDate (year_days y + dy) = Some \<lparr>year = word_of_int (y + (m + 2) div 12),
    month = word_of_int ((m + 2) mod 12 + 1), day = word_of_int (dy - getDaysBeforeMonth m + 1),
    hour = 0, minute = 0, second = 0\<rparr>"
proof -
  have m: "0 \<le> y" "0 \<le> m" "m \<le> 11" "getDaysBeforeMonth m \<le> dy" "dy < getDaysBeforeMonth (m + 1)"
    "dy < 365 + of_bool (leap (y + 1))" using assms(1) by (auto simp: march_date_def)
  have dy: "0 \<le> dy" "dy \<le> 365" using m by (cases "leap (y + 1)"; simp add: getDaysBeforeMonth_def sdiv_pos)+
  let ?dd = "year_days y + dy"
  have yd: "0 \<le> year_days y" "year_days y \<le> 366 * y" using m(1) by (auto simp: year_days_def)
  have g: "(10000 * ?dd + 14780) sdiv 3652425 \<in> {y, y + 1}"
    using year_guess [OF m(1), of ?dd] dy(1) m(6) year_days_step [of y] yd(1) by (simp add: sdiv_pos)
  have bounds: "int64_ok (10000 * ?dd)" "int64_ok (10000 * ?dd + 14780)"
    using yd dy assms(2) by (auto simp: int64_ok_def)
  have md: "getMonthFromDayOfYear dy = Some m" by (rule month_days) (use m dy in simp_all)
  have rest: "(m + 2) sdiv 12 = (m + 2) div 12" "(m + 2) smod 12 = (m + 2) mod 12"
    using m(2) by (simp_all add: sdiv_pos smod_pos)
  have n: "narrow32 y = y" "narrow32 (y + 1) = y + 1" "narrow32 dy = dy"
    using m(1) assms(2) dy by (simp_all add: narrow32_id)
  have d0: "?dd - getDaysBeforeYear y = dy" using m(1) by (simp add: getDaysBeforeYear_eq)
  have d1: "?dd - getDaysBeforeYear (y + 1) = dy - 365 - of_bool (leap (y + 1))"
    using m(1) year_days_step [of y] by (simp add: getDaysBeforeYear_eq)
  have n1: "narrow32 (dy - 365 - of_bool (leap (y + 1))) = dy - 365 - of_bool (leap (y + 1))"
    using dy by (intro narrow32_id) auto
  from g consider "(10000 * ?dd + 14780) sdiv 3652425 = y" | "(10000 * ?dd + 14780) sdiv 3652425 = y + 1" by blast
  then show ?thesis
  proof cases
    case 1
    with bounds dy(1) show ?thesis
      by (simp add: getDate_def Let_def int64_eq n d0 md rest not_less)
  next
    case 2
    have "dy - 365 - of_bool (leap (y + 1)) < 0" using m(6) by simp
    with 2 bounds show ?thesis
      by (simp add: getDate_def Let_def int64_eq n d1 n1 d0 md rest)
  qed
qed

lemma getDay_march:
  assumes "calendar_date d"
  shows "\<exists>y m dy. march_date y m dy \<and> getDay d = year_days y + dy \<and> y < 65536 \<and>
    uint (year d) = y + (m + 2) div 12 \<and> uint (month d) = (m + 2) mod 12 + 1 \<and>
    uint (day d) = dy - getDaysBeforeMonth m + 1"
proof -
  let ?Y = "uint (year d)" and ?M = "uint (month d)" and ?D = "uint (day d)"
  define m where "m = (?M + 9) mod 12"
  define y where "y = ?Y - m div 10"
  have c: "1 \<le> ?Y" "1 \<le> ?M" "?M \<le> 12" "1 \<le> ?D" "?D \<le> days_in_month ?Y ?M"
    using assms by (auto simp: calendar_date_def)
  have Y: "?Y < 65536" using uint_bounded [of "year d"] by simp
  let ?dy = "getDaysBeforeMonth m + ?D - 1"
  have ms: "(?M + 9) smod 12 = m" "m sdiv 10 = m div 10" using c(2) by (simp_all add: m_def smod_pos sdiv_pos)
  have y0: "0 \<le> y" "y < 65536" using c(1) Y by (auto simp: y_def m_def)
  have "getDay d = year_days y + ?dy"
    unfolding getDay_def Let_def ms y_def [symmetric] using y0(1) by (simp add: getDaysBeforeYear_eq)
  moreover have "?M \<in> {1, 2, 3, 4, 5, 6, 7, 8, 9, 10, 11, 12}" using c(2,3) by (simp, arith)
  then have "march_date y m ?dy \<and> ?Y = y + (m + 2) div 12 \<and> ?M = (m + 2) mod 12 + 1"
    using c(4,5) y0(1)
    by (elim insertE) (auto simp: m_def y_def march_date_def getDaysBeforeMonth_def sdiv_pos days_in_month_def
        split: if_splits)
  ultimately show ?thesis using y0(2) by (intro exI [of _ y] exI [of _ m] exI [of _ ?dy]) auto
qed

subsection \<open>Unix time\<close>

lemma year_days_mono: "a \<le> b \<Longrightarrow> year_days a \<le> year_days b"
proof (induction b rule: int_ge_induct)
  case (step b)
  then show ?case using year_days_step [of b] by simp
qed simp

lemma march_day_bounds:
  assumes "march_date y m dy" "y < 65536"
  shows "0 \<le> year_days y + dy" and "year_days y + dy < 366 * 65536"
    and "1970 \<le> y + (m + 2) div 12 \<Longrightarrow> unixEpochStartDayCount \<le> year_days y + dy"
proof -
  have m: "0 \<le> y" "0 \<le> m" "m \<le> 11" "getDaysBeforeMonth m \<le> dy" "dy < 365 + of_bool (leap (y + 1))"
    using assms(1) by (auto simp: march_date_def)
  have dy: "0 \<le> dy" "dy \<le> 365" using m by (cases "leap (y + 1)"; simp add: getDaysBeforeMonth_def sdiv_pos)+
  have yd: "0 \<le> year_days y" "year_days y \<le> 366 * y" using m(1) by (auto simp: year_days_def)
  show "0 \<le> year_days y + dy" using dy yd by simp
  show "year_days y + dy < 366 * 65536" using dy yd assms(2) by simp
  assume Y: "1970 \<le> y + (m + 2) div 12"
  show "unixEpochStartDayCount \<le> year_days y + dy"
  proof (cases "1970 \<le> y")
    case True
    then have "year_days 1970 \<le> year_days y" by (rule year_days_mono)
    with dy show ?thesis by (simp add: year_days_def unixEpochStartDayCount_def)
  next
    case False
    with Y m(2,3) have "(m + 2) div 12 = 1" "y = 1969" by auto
    then have "10 \<le> m" by simp
    then have "(306 * 10 + 5) div 10 \<le> (306 * m + 5) div 10" by (intro zdiv_mono1) simp_all
    then have "306 \<le> getDaysBeforeMonth m" by (simp add: getDaysBeforeMonth_def sdiv_pos mult.commute)
    with m(4) show ?thesis unfolding \<open>y = 1969\<close> by (simp add: year_days_def unixEpochStartDayCount_def)
  qed
qed

definition second_of_day :: "date \<Rightarrow> int" where
  "second_of_day d = uint (second d) + 60 * (uint (minute d) + 60 * uint (hour d))"

definition unix_seconds :: "date \<Rightarrow> int" where
  "unix_seconds d = second_of_day d + 86400 * (getDay d - unixEpochStartDayCount)"

lemma toUnixTime_seconds:
  assumes "calendar_date d" and "1970 \<le> uint (year d)"
  shows "toUnixTime d = Some (TimePoint (Duration (unix_seconds d * 1000000)))" and "0 \<le> unix_seconds d"
    and "int64_ok (unix_seconds d * 1000000)"
proof -
  obtain y m dy where march: "march_date y m dy" "getDay d = year_days y + dy" "y < 65536"
    "uint (year d) = y + (m + 2) div 12" using getDay_march [OF assms(1)] by blast
  note b = march_day_bounds [OF march(1,3)]
  have t: "0 \<le> second_of_day d" "second_of_day d < 86400"
    using assms(1) by (auto simp: calendar_date_def second_of_day_def)
  show nn: "0 \<le> unix_seconds d" using t b(3) assms(2) march(2,4) by (simp add: unix_seconds_def)
  show ok: "int64_ok (unix_seconds d * 1000000)"
    using nn t b(2) march(2) by (simp add: int64_ok_def unix_seconds_def unixEpochStartDayCount_def)
  have "uint (second d) + 60 * (uint (minute d) + 60 * (uint (hour d) + 24 * (getDay d - unixEpochStartDayCount))) =
      unix_seconds d" by (simp add: unix_seconds_def second_of_day_def)
  then show "toUnixTime d = Some (TimePoint (Duration (unix_seconds d * 1000000)))"
    using Seconds_ticks [OF ok] by (simp add: toUnixTime_def Let_def afterEpoch_def)
qed

lemma fromUnixTime_march:
  assumes "march_date y m dy" "y < 65536" and "0 \<le> ticks t"
    and "ticks t div 1000000 = 86400 * (year_days y + dy - unixEpochStartDayCount) + s" "0 \<le> s" "s < 86400"
    and "unixEpochStartDayCount \<le> year_days y + dy"
  shows "fromUnixTime t = Some \<lparr>year = word_of_int (y + (m + 2) div 12),
    month = word_of_int ((m + 2) mod 12 + 1), day = word_of_int (dy - getDaysBeforeMonth m + 1),
    hour = word_of_int (s div 3600), minute = word_of_int (s mod 3600 div 60),
    second = word_of_int (s mod 3600 mod 60)\<rparr>"
proof -
  let ?n = "year_days y + dy - unixEpochStartDayCount"
  have sec: "dur_seconds (timeSinceEpoch t) = 86400 * ?n + s"
    using assms(3,4) by (simp add: dur_seconds_def timeSinceEpoch_def ticks_def time_units sdiv_pos)
  have n: "(86400 * ?n + s) sdiv secondsPerDay = ?n"
    using assms(5-7) by (simp add: sdiv_pos secondsPerDay_def)
  have "0 \<le> s mod 3600" "s mod 3600 < 3600" by simp_all
  then have nar: "narrow32 (s mod 3600) = s mod 3600" by (simp add: narrow32_id)
  show ?thesis
    unfolding fromUnixTime_def Let_def sec n
    using getDate_march [OF assms(1,2)] assms(5,6) nar
    by (simp add: secondsPerDay_def secondsPerHour_def secondsPerMinute_def sdiv_pos smod_pos)
qed

text \<open>
  C20. Every date of the Gregorian calendar from 1970 to 65535 is converted to Unix time without
  overflow, and \<open>fromUnixTime\<close> gives the same date and time of day back.\<close>

theorem date_unix_roundtrip:
  assumes "calendar_date d" and "1970 \<le> uint (year d)"
  shows "\<exists>t. toUnixTime d = Some t \<and> fromUnixTime t = Some d"
proof -
  note u = toUnixTime_seconds [OF assms]
  obtain y m dy where march: "march_date y m dy" "getDay d = year_days y + dy" "y < 65536"
    "uint (year d) = y + (m + 2) div 12" "uint (month d) = (m + 2) mod 12 + 1"
    "uint (day d) = dy - getDaysBeforeMonth m + 1" using getDay_march [OF assms(1)] by blast
  have t: "0 \<le> second_of_day d" "second_of_day d < 86400" "uint (minute d) < 60" "uint (second d) < 60"
    using assms(1) by (auto simp: calendar_date_def second_of_day_def)
  let ?t = "TimePoint (Duration (unix_seconds d * 1000000)) :: unix_time"
  have "fromUnixTime ?t = Some \<lparr>year = word_of_int (y + (m + 2) div 12),
      month = word_of_int ((m + 2) mod 12 + 1), day = word_of_int (dy - getDaysBeforeMonth m + 1),
      hour = word_of_int (second_of_day d div 3600), minute = word_of_int (second_of_day d mod 3600 div 60),
      second = word_of_int (second_of_day d mod 3600 mod 60)\<rparr>"
    using u(2) march t(1,2) march_day_bounds(3) [OF march(1,3)] assms(2)
    by (intro fromUnixTime_march) (simp_all add: unix_seconds_def)
  also have "second_of_day d div 3600 = uint (hour d)"
    using t by (intro int_div_pos_eq [of _ _ _ "uint (second d) + 60 * uint (minute d)"]) (auto simp: second_of_day_def)
  also have "second_of_day d mod 3600 = uint (second d) + 60 * uint (minute d)"
    using t by (intro int_mod_pos_eq [of _ _ "uint (hour d)"]) (auto simp: second_of_day_def)
  also have "(uint (second d) + 60 * uint (minute d)) div 60 = uint (minute d)" using t by simp
  also have "(uint (second d) + 60 * uint (minute d)) mod 60 = uint (second d)" using t by simp
  finally have "fromUnixTime ?t = Some d"
    unfolding march(4-6) [symmetric] by simp
  with u(1) show ?thesis by blast
qed

definition sample_date :: date where
  "sample_date = \<lparr>year = 2024, month = 2, day = 29, hour = 23, minute = 59, second = 58\<rparr>"

lemma date_unix_roundtrip_witness: "\<exists>t. toUnixTime sample_date = Some t \<and> fromUnixTime t = Some sample_date"
  by (rule date_unix_roundtrip) (simp_all add: sample_date_def calendar_date_def days_in_month_def leap_def)

lemma year_exists: "0 \<le> dd \<Longrightarrow> \<exists>y\<ge>0. year_days y \<le> dd \<and> dd < year_days (y + 1)"
proof (induction dd rule: int_ge_induct)
  case base
  show ?case by (intro exI [of _ 0]) (simp add: year_days_def)
next
  case (step dd)
  then obtain y where y: "0 \<le> y" "year_days y \<le> dd" "dd < year_days (y + 1)" by blast
  show ?case
  proof (cases "dd + 1 < year_days (y + 1)")
    case True
    with y show ?thesis by (intro exI [of _ y]) simp
  next
    case False
    with y year_days_step [of "y + 1"] show ?thesis by (intro exI [of _ "y + 1"]) simp
  qed
qed

lemma march_exists:
  assumes "0 \<le> dd"
  shows "\<exists>y m dy. march_date y m dy \<and> dd = year_days y + dy"
proof -
  obtain y where y: "0 \<le> y" "year_days y \<le> dd" "dd < year_days (y + 1)" using year_exists [OF assms] by blast
  define dy where "dy = dd - year_days y"
  have dy: "0 \<le> dy" "dy < 365 + of_bool (leap (y + 1))" using y year_days_step [of y] by (simp_all add: dy_def)
  then have "dy \<le> 365" by (cases "leap (y + 1)") simp_all
  define m where "m = (100 * dy + 52) div 3060"
  have "0 \<le> m" "m \<le> 11" using dy(1) \<open>dy \<le> 365\<close> by (auto simp: m_def)
  moreover have "3060 * m \<le> 100 * dy + 52" "100 * dy + 52 < 3060 * m + 3060"
    using div_mult_mod_eq [of "100 * dy + 52" 3060] pos_mod_bound [of 3060 "100 * dy + 52"]
      pos_mod_sign [of 3060 "100 * dy + 52"] unfolding m_def [symmetric] by linarith+
  then have "getDaysBeforeMonth m \<le> dy \<and> dy < getDaysBeforeMonth (m + 1)"
    using twelve [OF calculation] dy(1) \<open>dy \<le> 365\<close> by (elim insertE) (auto simp: getDaysBeforeMonth_def sdiv_pos)
  ultimately have "march_date y m dy" using y(1) dy(2) by (simp add: march_date_def)
  then show ?thesis by (intro exI [of _ y] exI [of _ m] exI [of _ dy]) (simp add: dy_def)
qed

lemma uint_small: "0 \<le> x \<Longrightarrow> x < 2 ^ LENGTH('a) \<Longrightarrow> uint (word_of_int x :: 'a::len word) = x"
  by (simp add: uint_word_of_int)

lemma daysPerMonth_days:
  "M \<in> {1, 2, 3, 4, 5, 6, 7, 8, 9, 10, 11, 12} \<Longrightarrow> M \<noteq> 2 \<Longrightarrow> daysPerMonth ! (nat M - 1) = days_in_month Y M"
  by (elim insertE) (auto simp: daysPerMonth_def days_in_month_def)

lemma march_to_calendar:
  assumes "march_date y m dy" and "y < 65535" and "1 \<le> y"
    and d: "year d = word_of_int (y + (m + 2) div 12)" "month d = word_of_int ((m + 2) mod 12 + 1)"
      "day d = word_of_int (dy - getDaysBeforeMonth m + 1)"
  shows "getDay d = year_days y + dy" and "1 \<le> uint (year d)" and "1 \<le> uint (month d)" "uint (month d) \<le> 12"
    and "1 \<le> uint (day d)" "uint (day d) \<le> days_in_month (uint (year d)) (uint (month d))"
    and "uint (year d) = y + (m + 2) div 12"
proof -
  have m: "0 \<le> m" "m \<le> 11" "getDaysBeforeMonth m \<le> dy" "dy < getDaysBeforeMonth (m + 1)"
    "dy < 365 + of_bool (leap (y + 1))" using assms(1) by (auto simp: march_date_def)
  have carry: "(m + 2) div 12 \<in> {0, 1}" using m(1,2) by auto
  have len: "dy - getDaysBeforeMonth m + 1 \<le> 31"
    using twelve [OF m(1,2)] m(4,5) by (elim insertE) (auto simp: getDaysBeforeMonth_def sdiv_pos split: if_splits)
  have u: "uint (year d) = y + (m + 2) div 12" "uint (month d) = (m + 2) mod 12 + 1"
    "uint (day d) = dy - getDaysBeforeMonth m + 1"
    unfolding d by (rule uint_small; use carry assms(2,3) m(3) len in auto)+
  show "1 \<le> uint (year d)" "1 \<le> uint (month d)" "uint (month d) \<le> 12" "1 \<le> uint (day d)" "uint (year d) = y + (m + 2) div 12"
    using u carry assms(3) m(3) by auto
  show "uint (day d) \<le> days_in_month (uint (year d)) (uint (month d))"
    using twelve [OF m(1,2)] m(4,5) unfolding u
    by (elim insertE) (auto simp: days_in_month_def getDaysBeforeMonth_def sdiv_pos split: if_splits)
  have "(uint (month d) + 9) smod 12 = m \<and> uint (year d) - m sdiv 10 = y"
    using twelve [OF m(1,2)] unfolding u by (elim insertE) (auto simp: sdiv_pos smod_pos)
  then show "getDay d = year_days y + dy"
    using assms(3) unfolding getDay_def Let_def u(3) by (simp add: getDaysBeforeYear_eq)
qed

lemma isLeapYear_leap: "0 \<le> y \<Longrightarrow> isLeapYear y \<longleftrightarrow> leap y"
  by (simp add: isLeapYear_def leap_def smod_pos dvd_eq_mod_eq_0)

lemma calendar_date_isValid:
  assumes "calendar_date d"
  shows "isValid d"
proof -
  have c: "1 \<le> uint (year d)" "1 \<le> uint (month d)" "uint (month d) \<le> 12" "1 \<le> uint (day d)"
    "uint (day d) \<le> days_in_month (uint (year d)) (uint (month d))"
    "uint (hour d) < 24" "uint (minute d) < 60" "uint (second d) < 60"
    using assms by (auto simp: calendar_date_def)
  have month: "month d \<noteq> 0" "\<not> month d > 12" "day d \<noteq> 0" "month d = 2 \<longleftrightarrow> uint (month d) = 2"
    using c(2-4) by (auto simp: word_less_def word_uint_eq_iff)
  have "uint (month d) \<in> {1, 2, 3, 4, 5, 6, 7, 8, 9, 10, 11, 12}" using c(2,3) by (simp, arith)
  then have "uint (month d) \<noteq> 2 \<Longrightarrow> daysPerMonth ! (unat (month d) - 1) = days_in_month (uint (year d)) (uint (month d))"
    unfolding unat_eq_nat_uint by (rule daysPerMonth_days)
  moreover have "leap (uint (year d)) \<Longrightarrow> uint (month d) = 2 \<Longrightarrow> \<not> day d > 29"
    using c(5) by (simp add: days_in_month_def word_less_def not_less)
  moreover have "\<not> hour d > 23" "\<not> minute d > 59" "\<not> second d > 60"
    using c(6-8) by (auto simp: word_less_def)
  ultimately show ?thesis
    using c(1,5) month by (cases "uint (month d) = 2") (simp_all add: isValid_def isLeapYear_leap)
qed

text \<open>
  C21. Every Unix time from the epoch to the end of the year 65534 is converted to a valid date of the
  calendar, and \<open>toUnixTime\<close> gives the time back, rounded down to seconds.\<close>

theorem unix_date_roundtrip:
  assumes "0 \<le> ticks t" and "ticks t div 1000000 < (year_days 65535 - unixEpochStartDayCount) * 86400"
  shows "\<exists>d. fromUnixTime t = Some d \<and> calendar_date d \<and> isValid d \<and>
    toUnixTime d = Some (TimePoint (Duration (ticks t div 1000000 * 1000000)))"
proof -
  define sc where "sc = ticks t div 1000000"
  define n r where "n = sc div 86400" and "r = sc mod 86400"
  have s: "sc = 86400 * n + r" "0 \<le> r" "r < 86400" "0 \<le> n"
    using assms(1) by (simp_all add: sc_def n_def r_def pos_imp_zdiv_nonneg_iff)
  have k: "0 \<le> n + unixEpochStartDayCount" using s(4) by (simp add: unixEpochStartDayCount_def)
  obtain y m dy where march: "march_date y m dy" "n + unixEpochStartDayCount = year_days y + dy"
    using march_exists [OF k] by blast
  have dy: "0 \<le> dy" "0 \<le> y" using march(1) by (auto simp: march_date_def getDaysBeforeMonth_def sdiv_pos)
  have "n < year_days 65535 - unixEpochStartDayCount" using assms(2) s(1,2) unfolding sc_def [symmetric] by (simp add: algebra_simps)
  then have y: "y < 65535" using march(2) dy year_days_mono [of 65535 y] by linarith
  have y1: "1969 \<le> y"
  proof (rule ccontr)
    assume "\<not> 1969 \<le> y"
    then have "year_days (y + 1) \<le> year_days 1969" by (intro year_days_mono) simp
    moreover have "year_days y + dy < year_days (y + 1)"
      using march(1) year_days_step [of y] by (simp add: march_date_def)
    ultimately show False using march(2) s(4) by (simp add: year_days_def unixEpochStartDayCount_def)
  qed
  define d where "d = \<lparr>year = word_of_int (y + (m + 2) div 12), month = word_of_int ((m + 2) mod 12 + 1),
    day = word_of_int (dy - getDaysBeforeMonth m + 1), hour = word_of_int (r div 3600),
    minute = word_of_int (r mod 3600 div 60), second = word_of_int (r mod 3600 mod 60)\<rparr>"
  have from_d: "fromUnixTime t = Some d"
    unfolding d_def using march y s assms(1) by (intro fromUnixTime_march) (simp_all add: sc_def [symmetric])
  have "r div 3600 \<le> 86399 div 3600" "r mod 3600 div 60 \<le> 3599 div 60"
    using s(3) pos_mod_bound [of 3600 r] by (intro zdiv_mono1; simp)+
  then have h: "0 \<le> r div 3600" "r div 3600 < 24" "0 \<le> r mod 3600 div 60" "r mod 3600 div 60 < 60"
    using s(2) by (simp_all add: pos_imp_zdiv_nonneg_iff)
  have u: "uint (hour d) = r div 3600" "uint (minute d) = r mod 3600 div 60" "uint (second d) = r mod 3600 mod 60"
    using h by (simp_all add: d_def uint_word_of_int)
  have cal: "getDay d = year_days y + dy" "1 \<le> uint (year d)" "1 \<le> uint (month d)" "uint (month d) \<le> 12"
    "1 \<le> uint (day d)" "uint (day d) \<le> days_in_month (uint (year d)) (uint (month d))" "uint (year d) = y + (m + 2) div 12"
    using y y1 by (intro march_to_calendar [OF march(1)]; simp add: d_def)+
  have cd: "calendar_date d" using cal u h by (simp add: calendar_date_def)
  have "second_of_day d = r" unfolding second_of_day_def u by simp
  then have us: "unix_seconds d = sc" using cal(1) march(2) s(1) by (simp add: unix_seconds_def)
  have "1970 \<le> uint (year d)"
  proof (rule ccontr)
    assume "\<not> 1970 \<le> uint (year d)"
    moreover note cal(7)
    moreover have "0 \<le> m" "m \<le> 11" "dy < getDaysBeforeMonth (m + 1)" using march(1) by (auto simp: march_date_def)
    moreover from calculation y1 have "y = 1969" "(m + 2) div 12 = 0" by auto
    moreover from this(2) \<open>0 \<le> m\<close> have "m < 10" by auto
    moreover from this have "getDaysBeforeMonth (m + 1) \<le> 306"
      using zdiv_mono1 [of "(m + 1) * 306 + 5" "10 * 306 + 5" 10] \<open>0 \<le> m\<close>
      by (simp add: getDaysBeforeMonth_def sdiv_pos)
    ultimately show False using march(2) s(4) by (simp add: year_days_def unixEpochStartDayCount_def)
  qed
  with toUnixTime_seconds(1) [OF cd] from_d cd calendar_date_isValid [OF cd] us show ?thesis unfolding sc_def [symmetric] by auto
qed

lemma unix_date_roundtrip_witness:
  "\<exists>d. fromUnixTime (TimePoint (Duration 1709251198500000) :: unix_time) = Some d \<and> calendar_date d \<and> isValid d \<and>
    toUnixTime d = Some (TimePoint (Duration
      (ticks (TimePoint (Duration 1709251198500000) :: unix_time) div 1000000 * 1000000)))"
  by (rule unix_date_roundtrip) (simp_all add: year_days_def unixEpochStartDayCount_def)

subsection \<open>GPS dates\<close>

lemma gps_date_roundtrip:
  assumes "uint (timeOfWeek d) < secondsPerWeek"
  shows "\<exists>t. toGpsTime d = Some t \<and> fromGpsTime t = d"
proof -
  let ?w = "uint (weekNumber d)" and ?s = "uint (timeOfWeek d)"
  have b: "?w < 65536" "?s < 604800" "0 \<le> ?w" "0 \<le> ?s"
    using assms uint_bounded [of "weekNumber d"] by (simp_all add: secondsPerWeek_def secondsPerDay_def)
  let ?n = "?w * secondsPerWeek + ?s"
  have "0 \<le> ?n" using b by (simp add: secondsPerWeek_def secondsPerDay_def)
  moreover from this have "0 \<le> ?n * 1000000" by simp
  moreover have "?n * 1000000 < 2 ^ 63" using b by (simp add: secondsPerWeek_def secondsPerDay_def)
  ultimately have n: "0 \<le> ?n" "int64_ok (?n * 1000000)" unfolding int64_ok_def by linarith+
  then have "toGpsTime d = Some (TimePoint (Duration (?n * 1000000)))"
    by (simp add: toGpsTime_def Let_def Seconds_ticks afterEpoch_def)
  moreover have "?n sdiv secondsPerWeek = ?w" using b n(1) by (simp add: sdiv_pos secondsPerWeek_def secondsPerDay_def)
  then have "fromGpsTime (TimePoint (Duration (?n * 1000000))) = d"
    using n(1) by (simp add: fromGpsTime_def dur_seconds_def timeSinceEpoch_def time_units sdiv_pos Let_def)
  ultimately show ?thesis by blast
qed

subsection \<open>Where dates go wrong\<close>

text \<open>\<open>fromUnixTime\<close> truncates towards zero, so one second before the epoch is not a date.\<close>

lemma fromUnixTime_before_epoch:
  "fromUnixTime (TimePoint (Duration (- 1000000))) =
     Some \<lparr>year = 1970, month = 1, day = 1, hour = 0, minute = 0, second = 255\<rparr>"
  by code_simp

text \<open>\<open>isValid\<close> accepts February 31st outside of leap years, and April 31st in leap years.\<close>

lemma isValid_accepts_february_31: "isValid \<lparr>year = 2019, month = 2, day = 31, hour = 0, minute = 0, second = 0\<rparr>"
  by code_simp

lemma isValid_accepts_april_31: "isValid \<lparr>year = 2020, month = 4, day = 31, hour = 0, minute = 0, second = 0\<rparr>"
  by code_simp

end
