(* ===== verification/Epochs.thy ===== *)
theory Epochs
  imports Dates
begin

text \<open>
  Conversions between epochs (time/time_epoch.h, time_epoch_impl.h, time_epoch.cpp): TAI, GPS, Unix and
  spacecraft elapsed time (SCET). The offset between SCET and GPS time is a static member that
  \<open>setOffset\<close> changes; it is an argument of the conversions that read it. The locale \<open>reversible\<close>
  is what a pair of conversions promises: converting there and back gives the same time, on the
  times where nothing overflows.
\<close>

datatype leap_correction = RemoveLeapSeconds | AddLeapSeconds

definition leapSecondArray :: "int list" where
  "leapSecondArray =
    [1861920036, 1814400035, 1719792034, 1609459233, 1514764832, 1293840031, 1246406430,
     1199145629, 1151712028, 1120176027, 1088640026, 1041379225, 1009843224, 946684823,
     867715222, 804556821, 773020820, 741484819, 694224018, 662688017, 631152016,
     599616015, 567993614, 536457613, 504921612, 473385611, 457488010]"

definition offsetDaysFromTaiToUnix :: int where "offsetDaysFromTaiToUnix = 4383"
definition leapSecondsAtUnixEpoch :: int where "leapSecondsAtUnixEpoch = 10"

definition initialOffsetInSeconds :: int where
  "initialOffsetInSeconds = offsetDaysFromTaiToUnix * secondsPerDay + leapSecondsAtUnixEpoch"

definition offsetDaysTaiToGps :: int where "offsetDaysTaiToGps = 8040"
definition offsetLeapSecondsTaiToGps :: int where "offsetLeapSecondsTaiToGps = 19"

definition offsetInSeconds :: int where
  "offsetInSeconds = offsetDaysTaiToGps * secondsPerDay + offsetLeapSecondsTaiToGps"

function leap_loop :: "leap_correction \<Rightarrow> nat \<Rightarrow> int \<Rightarrow> int \<Rightarrow> int" where
  "leap_loop correction i seconds correctionFactor =
     (if i < length leapSecondArray \<and> correctionFactor = 0 then
        if seconds \<ge> leapSecondArray ! i then
          let correctionFactor = int (length leapSecondArray) - int i
          in if correction = AddLeapSeconds \<and> i \<noteq> 0 then
               let seconds = seconds + correctionFactor
               in leap_loop correction (i + 1) seconds
                    (if seconds \<ge> leapSecondArray ! (i - 1) then correctionFactor + 1 else correctionFactor)
             else leap_loop correction (i + 1) seconds correctionFactor
        else leap_loop correction (i + 1) seconds correctionFactor
      else correctionFactor)"
  by pat_completeness auto

termination
  by (relation "measure (\<lambda>(c, i, s, f). length leapSecondArray - i)") auto

declare leap_loop.simps [simp del]

definition getCorrectionFactorForLeapSeconds :: "int \<Rightarrow> leap_correction \<Rightarrow> int" where
  "getCorrectionFactorForLeapSeconds seconds correction = leap_loop correction 0 seconds 0"

definition taiToUnix :: "atomic_time \<Rightarrow> unix_time option" where
  "taiToUnix t = do {
     let correction = getCorrectionFactorForLeapSeconds (dur_seconds (timeSinceEpoch t)) RemoveLeapSeconds;
     s \<leftarrow> Seconds (initialOffsetInSeconds + correction);
     d \<leftarrow> dur_minus (timeSinceEpoch t) s;
     Some (afterEpoch d) }"

definition unixToTai :: "unix_time \<Rightarrow> atomic_time option" where
  "unixToTai t = do {
     let seconds = dur_seconds (timeSinceEpoch t) + initialOffsetInSeconds;
     let correction = getCorrectionFactorForLeapSeconds seconds AddLeapSeconds;
     s \<leftarrow> Seconds (initialOffsetInSeconds + correction);
     d \<leftarrow> dur_plus (timeSinceEpoch t) s;
     Some (afterEpoch d) }"

definition gpsToTai :: "gps_time \<Rightarrow> atomic_time option" where
  "gpsToTai t = do { s \<leftarrow> Seconds offsetInSeconds; d \<leftarrow> dur_plus (timeSinceEpoch t) s; Some (afterEpoch d) }"

definition taiToGps :: "atomic_time \<Rightarrow> gps_time option" where
  "taiToGps t = do { s \<leftarrow> Seconds offsetInSeconds; d \<leftarrow> dur_minus (timeSinceEpoch t) s; Some (afterEpoch d) }"

definition gpsToUnix :: "gps_time \<Rightarrow> unix_time option" where
  "gpsToUnix t = gpsToTai t \<bind> taiToUnix"

definition unixToGps :: "unix_time \<Rightarrow> gps_time option" where
  "unixToGps t = unixToTai t \<bind> taiToGps"

definition scetToGps :: "duration \<Rightarrow> spacecraft_elapsed_time \<Rightarrow> gps_time option" where
  "scetToGps offsetToGpsTime t = do { d \<leftarrow> dur_plus (timeSinceEpoch t) offsetToGpsTime; Some (afterEpoch d) }"

definition gpsToScet :: "duration \<Rightarrow> gps_time \<Rightarrow> spacecraft_elapsed_time option" where
  "gpsToScet offsetToGpsTime t = do { d \<leftarrow> dur_minus (timeSinceEpoch t) offsetToGpsTime; Some (afterEpoch d) }"

text \<open>The new value of the static offset.\<close>

definition setOffset_duration :: "duration \<Rightarrow> duration" where
  "setOffset_duration d = d"

definition setOffset :: "spacecraft_elapsed_time \<Rightarrow> gps_time \<Rightarrow> duration option" where
  "setOffset scet gps = dur_minus (timeSinceEpoch gps) (timeSinceEpoch scet)"

definition setOffsetBetweenScetAndGps :: "spacecraft_elapsed_time \<Rightarrow> gps_time \<Rightarrow> duration option" where
  "setOffsetBetweenScetAndGps scet gps = setOffset scet gps"

subsection \<open>The leap second table\<close>

definition leaps :: int where
  "leaps = 27"

lemma leap_table:
  "length leapSecondArray = 27" "list_all (\<lambda>i. leapSecondArray ! Suc i + 28 < leapSecondArray ! i) [0..<26]"
  "initialOffsetInSeconds + 28 < leapSecondArray ! 26"
  by (simp add: leapSecondArray_def, code_simp, code_simp)

lemma leap_gap: "Suc i < 27 \<Longrightarrow> leapSecondArray ! Suc i + 28 < leapSecondArray ! i"
  using leap_table(2) by (simp add: list_all_iff)

lemma leap_descending: "i < j \<Longrightarrow> j < 27 \<Longrightarrow> leapSecondArray ! j + 28 < leapSecondArray ! i"
proof (induction j)
  case (Suc j)
  show ?case
  proof (cases "i = j")
    case True
    with Suc.prems leap_gap show ?thesis by simp
  next
    case False
    with Suc have "leapSecondArray ! j + 28 < leapSecondArray ! i" by simp
    with leap_gap [of j] Suc.prems(2) show ?thesis by simp
  qed
qed simp

text \<open>\<open>s\<close> is in the \<open>i\<close>-th interval of the table; 27 stands for the times before the first leap second.\<close>

definition leap_interval :: "int \<Rightarrow> nat \<Rightarrow> bool" where
  "leap_interval s i \<longleftrightarrow> i \<le> 27 \<and> (i < 27 \<longrightarrow> leapSecondArray ! i \<le> s) \<and> (0 < i \<longrightarrow> s < leapSecondArray ! (i - 1))"

lemma leap_interval_exists: "\<exists>i. leap_interval s i"
proof -
  let ?P = "\<lambda>i. i = 27 \<or> (i < 27 \<and> leapSecondArray ! i \<le> s)"
  define i where "i = (LEAST i. ?P i)"
  have "?P i" unfolding i_def by (rule LeastI [of ?P 27]) simp
  moreover have "s < leapSecondArray ! (i - 1)" if "0 < i"
    using not_less_Least [of "i - 1" ?P] that \<open>?P i\<close> by (auto simp: i_def [symmetric])
  ultimately show ?thesis by (auto simp: leap_interval_def intro: exI [of _ i])
qed

lemma leap_loop_skip:
  "i \<le> 27 \<Longrightarrow> (\<And>j. j < i \<Longrightarrow> s < leapSecondArray ! j) \<Longrightarrow> k \<le> i \<Longrightarrow> leap_loop c k s 0 = leap_loop c i s 0"
proof (induction "i - k" arbitrary: k)
  case (Suc n)
  then have "k < i" by simp
  with Suc.prems(2) have "\<not> leapSecondArray ! k \<le> s" by (simp add: not_le)
  with Suc \<open>k < i\<close> have "leap_loop c k s 0 = leap_loop c (k + 1) s 0"
    by (subst leap_loop.simps) (simp add: leap_table(1))
  with Suc \<open>k < i\<close> show ?case by simp
qed simp

lemma leap_loop_done: "f \<noteq> 0 \<Longrightarrow> leap_loop c i s f = f"
  by (simp add: leap_loop.simps)

lemma leap_factor:
  assumes "leap_interval s i"
  shows "getCorrectionFactorForLeapSeconds s c =
    (if c = AddLeapSeconds \<and> 0 < i \<and> i < 27 \<and> leapSecondArray ! (i - 1) \<le> s + (leaps - int i)
     then leaps - int i + 1 else leaps - int i)"
proof -
  have i: "i \<le> 27" "i < 27 \<Longrightarrow> leapSecondArray ! i \<le> s" "0 < i \<Longrightarrow> s < leapSecondArray ! (i - 1)"
    using assms by (auto simp: leap_interval_def)
  have before: "s < leapSecondArray ! j" if "j < i" for j
  proof (cases "j = i - 1")
    case False
    with that have "j < i - 1" by simp
    then have "leapSecondArray ! (i - 1) + 28 < leapSecondArray ! j" using i(1) by (intro leap_descending) simp_all
    with i(3) that show ?thesis by simp
  qed (use i(3) that in auto)
  have "getCorrectionFactorForLeapSeconds s c = leap_loop c i s 0"
    unfolding getCorrectionFactorForLeapSeconds_def by (rule leap_loop_skip) (use i(1) before in auto)
  also have "\<dots> = (if c = AddLeapSeconds \<and> 0 < i \<and> i < 27 \<and> leapSecondArray ! (i - 1) \<le> s + (leaps - int i)
     then leaps - int i + 1 else leaps - int i)"
    using i by (subst leap_loop.simps) (auto simp: leap_table(1) leap_loop_done leaps_def Let_def)
  finally show ?thesis .
qed

subsection \<open>Unix time and TAI\<close>

text \<open>Adding the leap seconds and counting them again in the sum gives the same number.\<close>

lemma leap_add_remove:
  "getCorrectionFactorForLeapSeconds (s + getCorrectionFactorForLeapSeconds s AddLeapSeconds) RemoveLeapSeconds =
   getCorrectionFactorForLeapSeconds s AddLeapSeconds"
proof -
  obtain i where i: "leap_interval s i" using leap_interval_exists by blast
  note il = i [unfolded leap_interval_def]
  let ?c = "leaps - int i"
  have c: "0 \<le> ?c" "?c \<le> 27" using il by (simp_all add: leaps_def)
  show ?thesis
  proof (cases "0 < i \<and> i < 27 \<and> leapSecondArray ! (i - 1) \<le> s + ?c")
    case True
    have up: "s + (?c + 1) < leapSecondArray ! (i - 1 - 1)" if "1 < i"
    proof -
      have "leapSecondArray ! (i - 1) + 28 < leapSecondArray ! (i - 1 - 1)"
        using that True by (intro leap_descending) auto
      moreover have "s < leapSecondArray ! (i - 1)" using il that by simp
      ultimately show ?thesis using c(2) by linarith
    qed
    then have "leap_interval (s + (?c + 1)) (i - 1)"
      using True il by (auto simp: leap_interval_def)
    with True show ?thesis by (simp add: leap_factor [OF i] leap_factor [of _ "i - 1"] of_nat_diff leaps_def)
  next
    case False
    then have "leap_interval (s + ?c) i" using il c by (auto simp: leap_interval_def leaps_def)
    then have "getCorrectionFactorForLeapSeconds (s + ?c) RemoveLeapSeconds = ?c" by (simp add: leap_factor)
    moreover have "getCorrectionFactorForLeapSeconds s AddLeapSeconds = ?c" using False by (auto simp: leap_factor [OF i])
    ultimately show ?thesis by simp
  qed
qed

text \<open>Removing the leap seconds and adding them again, except in a leap second, which is lost.\<close>

lemma leap_remove_add:
  "getCorrectionFactorForLeapSeconds (s - getCorrectionFactorForLeapSeconds s RemoveLeapSeconds) AddLeapSeconds =
   getCorrectionFactorForLeapSeconds s RemoveLeapSeconds - of_bool (s \<in> set leapSecondArray)"
proof -
  obtain i where i: "leap_interval s i" using leap_interval_exists by blast
  note il = i [unfolded leap_interval_def]
  let ?c = "leaps - int i"
  have c: "0 \<le> ?c" "?c \<le> 27" "i < 27 \<Longrightarrow> 0 < ?c" using il by (simp_all add: leaps_def)
  have rem: "getCorrectionFactorForLeapSeconds s RemoveLeapSeconds = ?c" by (simp add: leap_factor [OF i])
  have mem: "s \<in> set leapSecondArray \<longleftrightarrow> i < 27 \<and> s = leapSecondArray ! i"
  proof
    assume "s \<in> set leapSecondArray"
    then obtain j where j: "j < 27" "s = leapSecondArray ! j" by (auto simp: in_set_conv_nth leap_table(1))
    have "\<not> j < i"
    proof
      assume "j < i"
      then have "j = i - 1 \<or> leapSecondArray ! (i - 1) + 28 < leapSecondArray ! j"
        using leap_descending [of j "i - 1"] il by (cases "j = i - 1") auto
      with il j(2) \<open>j < i\<close> show False by auto
    qed
    moreover have "\<not> i < j" using leap_descending [of i j] il j by auto
    ultimately show "i < 27 \<and> s = leapSecondArray ! i" using j by simp
  qed (auto simp: leap_table(1))
  show ?thesis
  proof (cases "i < 27 \<and> s - ?c < leapSecondArray ! i")
    case False
    then have "leap_interval (s - ?c) i" using il c by (auto simp: leap_interval_def)
    moreover have "s \<notin> set leapSecondArray" using False c mem by auto
    ultimately show ?thesis using il unfolding rem by (auto simp: leap_factor)
  next
    case True
    have "leapSecondArray ! Suc i \<le> s - ?c" if "Suc i < 27"
      using leap_gap [OF that] il c True by auto
    with True have "leap_interval (s - ?c) (Suc i)" using il by (auto simp: leap_interval_def)
    moreover have "leaps - int (Suc i) = ?c - 1" by simp
    ultimately show ?thesis using True il mem unfolding rem by (auto simp: leap_factor leaps_def)
  qed
qed

lemma leap_factor_bounds:
  "0 \<le> getCorrectionFactorForLeapSeconds s c" "getCorrectionFactorForLeapSeconds s c \<le> 27"
proof -
  obtain i where i: "leap_interval s i" using leap_interval_exists by blast
  then show "0 \<le> getCorrectionFactorForLeapSeconds s c" "getCorrectionFactorForLeapSeconds s c \<le> 27"
    by (auto simp: leap_factor [OF i] leaps_def leap_interval_def)
qed

lemma leap_early:
  assumes "s \<le> initialOffsetInSeconds + 28"
  shows "getCorrectionFactorForLeapSeconds s c = 0" and "s \<notin> set leapSecondArray"
proof -
  have *: "s < leapSecondArray ! j" if "j < 27" for j
    using assms leap_table(3) leap_descending [of j 26] that by (cases "j = 26") auto
  then have "leap_interval s 27" by (simp add: leap_interval_def)
  then show "getCorrectionFactorForLeapSeconds s c = 0" by (simp add: leap_factor leaps_def)
  show "s \<notin> set leapSecondArray" using * by (auto simp: in_set_conv_nth leap_table(1))
qed

lemma sdiv_million: "(x + k * 1000000) sdiv 1000000 = x sdiv 1000000 + (k :: int)" if "0 \<le> x" "0 \<le> x + k * 1000000"
  using that by (simp add: sdiv_pos)

lemma sdiv_million_le: "x < k * 1000000 \<Longrightarrow> 0 \<le> k \<Longrightarrow> x sdiv 1000000 \<le> (k :: int)"
proof (cases "0 \<le> x")
  case True
  then show "x < k * 1000000 \<Longrightarrow> 0 \<le> k \<Longrightarrow> x sdiv 1000000 \<le> k"
    using zdiv_mono1 [of x "k * 1000000" 1000000] by (simp add: sdiv_pos)
next
  case False
  then have "0 \<le> (- x) div 1000000" by (simp add: pos_imp_zdiv_nonneg_iff)
  with False show "0 \<le> k \<Longrightarrow> x sdiv 1000000 \<le> k" by (simp add: sdiv_neg)
qed

lemma dur_seconds_million: "dur_seconds (timeSinceEpoch t) = ticks t sdiv 1000000"
  by (simp add: dur_seconds_def timeSinceEpoch_def ticks_def time_units)

lemma taiToUnix_ticks:
  assumes "int64_ok (ticks t - (initialOffsetInSeconds + c) * 1000000)"
    and "c = getCorrectionFactorForLeapSeconds (ticks t sdiv 1000000) RemoveLeapSeconds"
  shows "taiToUnix t = Some (TimePoint (Duration (ticks t - (initialOffsetInSeconds + c) * 1000000)))"
proof -
  have ok: "int64_ok ((initialOffsetInSeconds + c) * 1000000)"
    using leap_factor_bounds [of "ticks t sdiv 1000000" RemoveLeapSeconds] unfolding assms(2)
    by (simp add: int64_ok_def initialOffsetInSeconds_def offsetDaysFromTaiToUnix_def secondsPerDay_def leapSecondsAtUnixEpoch_def)
  from assms(1) show ?thesis
    unfolding taiToUnix_def Let_def dur_seconds_million assms(2) [symmetric] Seconds_ticks [OF ok]
    by (simp add: dur_minus_def timeSinceEpoch_def ticks_def afterEpoch_def int64_eq)
qed

lemma unixToTai_ticks:
  assumes "int64_ok (ticks t + (initialOffsetInSeconds + c) * 1000000)"
    and "c = getCorrectionFactorForLeapSeconds (ticks t sdiv 1000000 + initialOffsetInSeconds) AddLeapSeconds"
  shows "unixToTai t = Some (TimePoint (Duration (ticks t + (initialOffsetInSeconds + c) * 1000000)))"
proof -
  have ok: "int64_ok ((initialOffsetInSeconds + c) * 1000000)"
    using leap_factor_bounds [of "ticks t sdiv 1000000 + initialOffsetInSeconds" AddLeapSeconds] unfolding assms(2)
    by (simp add: int64_ok_def initialOffsetInSeconds_def offsetDaysFromTaiToUnix_def secondsPerDay_def leapSecondsAtUnixEpoch_def)
  from assms(1) show ?thesis
    unfolding unixToTai_def Let_def dur_seconds_million assms(2) [symmetric] Seconds_ticks [OF ok]
    by (simp add: dur_plus_def timeSinceEpoch_def ticks_def afterEpoch_def int64_eq)
qed

definition unix_in_range :: "unix_time \<Rightarrow> bool" where
  "unix_in_range t \<longleftrightarrow> int64_ok (ticks t) \<and> int64_ok (ticks t + (initialOffsetInSeconds + 28) * 1000000)"

lemma offset_pos: "0 \<le> initialOffsetInSeconds"
  by (simp add: initialOffsetInSeconds_def offsetDaysFromTaiToUnix_def secondsPerDay_def leapSecondsAtUnixEpoch_def)

lemma unix_tai_unix:
  assumes "unix_in_range t"
  shows "\<exists>u. unixToTai t = Some u \<and> taiToUnix u = Some t"
proof -
  let ?x = "ticks t" and ?o = initialOffsetInSeconds
  define c where "c = getCorrectionFactorForLeapSeconds (?x sdiv 1000000 + ?o) AddLeapSeconds"
  let ?u = "?x + (?o + c) * 1000000"
  have c: "0 \<le> c" "c \<le> 27" using leap_factor_bounds by (simp_all add: c_def)
  have ok: "int64_ok ?u" "int64_ok ?x" using assms c offset_pos by (auto simp: int64_ok_def unix_in_range_def)
  have "getCorrectionFactorForLeapSeconds (?u sdiv 1000000) RemoveLeapSeconds = c"
  proof (cases "0 \<le> ?x")
    case True
    have "?u sdiv 1000000 = ?x sdiv 1000000 + (?o + c)"
      by (rule sdiv_million) (use True c offset_pos in auto)
    then show ?thesis using leap_add_remove [of "?x sdiv 1000000 + ?o"] by (simp add: c_def add.assoc)
  next
    case False
    then have "?x sdiv 1000000 \<le> 0" using sdiv_million_le [of ?x 0] by simp
    then have c0: "c = 0" by (simp add: c_def leap_early(1))
    then have "?u sdiv 1000000 \<le> ?o" using False offset_pos by (intro sdiv_million_le) simp_all
    then show ?thesis using c0 by (simp add: leap_early(1))
  qed
  then have "taiToUnix (TimePoint (Duration ?u)) = Some (TimePoint (Duration (?u - (?o + c) * 1000000)))"
    using ok taiToUnix_ticks [of "TimePoint (Duration ?u)" c] by simp
  moreover have "TimePoint (Duration ?x) = t" using ticks_eq by (metis ticks_TimePoint)
  ultimately show ?thesis using unixToTai_ticks [OF ok(1) c_def] by simp
qed

lemma tai_unix_tai:
  assumes "int64_ok (ticks t)" and "int64_ok (ticks t - (initialOffsetInSeconds + 28) * 1000000)"
  shows "\<exists>u t'. taiToUnix t = Some u \<and> unixToTai u = Some t' \<and>
    ticks t' = ticks t - (if ticks t sdiv 1000000 \<in> set leapSecondArray then 1000000 else 0)"
proof -
  let ?x = "ticks t" and ?o = initialOffsetInSeconds
  let ?s = "?x sdiv 1000000"
  define c where "c = getCorrectionFactorForLeapSeconds ?s RemoveLeapSeconds"
  define b :: int where "b = of_bool (?s \<in> set leapSecondArray)"
  let ?u = "?x - (?o + c) * 1000000"
  have c: "0 \<le> c" "c \<le> 27" "0 \<le> b" "b \<le> 1" using leap_factor_bounds by (simp_all add: c_def b_def)
  have ok: "int64_ok ?u" using assms c offset_pos by (auto simp: int64_ok_def)
  have bk: "getCorrectionFactorForLeapSeconds (?u sdiv 1000000 + ?o) AddLeapSeconds = c - b \<and> b \<le> c"
  proof (cases "0 \<le> ?u")
    case True
    have "?s = ?u sdiv 1000000 + (?o + c)"
      using sdiv_million [of ?u "?o + c"] True c offset_pos by simp
    then have eq: "?u sdiv 1000000 + ?o = ?s - c" by simp
    have "getCorrectionFactorForLeapSeconds (?s - c) AddLeapSeconds = c - b"
      using leap_remove_add [of ?s] by (simp add: c_def b_def)
    then show ?thesis unfolding eq using leap_factor_bounds(1) [of "?s - c" AddLeapSeconds] by simp
  next
    case False
    then have "?u sdiv 1000000 \<le> 0" using sdiv_million_le [of ?u 0] by simp
    then have u: "?u sdiv 1000000 + ?o \<le> ?o + 28" by simp
    have "?s \<le> ?o + c" using False c offset_pos by (intro sdiv_million_le) simp_all
    then have "?s \<le> ?o + 28" using c by simp
    then have "c = 0" "b = 0" unfolding c_def b_def using leap_early by simp_all
    with leap_early(1) [OF u] show ?thesis by simp
  qed
  have eq: "?u + (?o + (c - b)) * 1000000 = ?x - b * 1000000" by (simp add: algebra_simps)
  have "int64_ok (?x - b * 1000000)" using assms c offset_pos by (auto simp: int64_ok_def)
  then have "unixToTai (TimePoint (Duration ?u)) = Some (TimePoint (Duration (?x - b * 1000000)))"
    using unixToTai_ticks [of "TimePoint (Duration ?u)" "c - b", unfolded ticks_TimePoint eq] bk by metis
  with taiToUnix_ticks [OF ok c_def] show ?thesis by (auto simp: b_def)
qed

subsection \<open>Reversible conversions\<close>

locale reversible =
  fixes convert :: "'a time_point \<Rightarrow> 'b time_point option"
    and revert :: "'b time_point \<Rightarrow> 'a time_point option"
    and range :: "'a time_point \<Rightarrow> bool"
  assumes convert_revert: "range t \<Longrightarrow> \<exists>u. convert t = Some u \<and> revert u = Some t"
begin

lemma revert_convert: "range t \<Longrightarrow> convert t \<bind> revert = Some t"
  using convert_revert by force

lemma injective: "range s \<Longrightarrow> range t \<Longrightarrow> convert s = convert t \<Longrightarrow> s = t"
  using revert_convert by (metis option.inject)

end

lemma reversible_compose:
  assumes "reversible f g P" and "reversible f' g' P'"
  shows "reversible (\<lambda>t. f t \<bind> f') (\<lambda>u. g' u \<bind> g) (\<lambda>t. P t \<and> (\<forall>u. f t = Some u \<longrightarrow> P' u))"
  using assms by (fastforce simp: reversible_def)

definition scet_in_range :: "duration \<Rightarrow> spacecraft_elapsed_time \<Rightarrow> bool" where
  "scet_in_range d t \<longleftrightarrow> int64_ok (ticks t) \<and> int64_ok (ticks t + mTicks d)"

definition gps_in_range :: "gps_time \<Rightarrow> bool" where
  "gps_in_range t \<longleftrightarrow> int64_ok (ticks t) \<and> int64_ok (ticks t + offsetInSeconds * 1000000)"

definition tai_in_range :: "atomic_time \<Rightarrow> bool" where
  "tai_in_range t \<longleftrightarrow> int64_ok (ticks t) \<and> int64_ok (ticks t - offsetInSeconds * 1000000)"

lemma offset_ok: "Seconds offsetInSeconds = Some (Duration (offsetInSeconds * 1000000))"
  by (intro Seconds_ticks)
    (simp add: int64_ok_def offsetInSeconds_def offsetDaysTaiToGps_def secondsPerDay_def offsetLeapSecondsTaiToGps_def)

lemma time_point_cases: "\<exists>x. t = TimePoint (Duration x)"
  by (metis duration.exhaust time_point.exhaust)

interpretation unix_tai: reversible unixToTai taiToUnix unix_in_range
  by unfold_locales (rule unix_tai_unix)

interpretation gps_tai: reversible gpsToTai taiToGps gps_in_range
proof
  fix t assume "gps_in_range t"
  moreover obtain x where "t = TimePoint (Duration x)" using time_point_cases by blast
  ultimately show "\<exists>u. gpsToTai t = Some u \<and> taiToGps u = Some t"
    by (simp add: gps_in_range_def gpsToTai_def taiToGps_def offset_ok dur_plus_def dur_minus_def
        timeSinceEpoch_def afterEpoch_def int64_eq)
qed

interpretation tai_gps: reversible taiToGps gpsToTai tai_in_range
proof
  fix t assume "tai_in_range t"
  moreover obtain x where "t = TimePoint (Duration x)" using time_point_cases by blast
  ultimately show "\<exists>u. taiToGps t = Some u \<and> gpsToTai u = Some t"
    by (simp add: tai_in_range_def gpsToTai_def taiToGps_def offset_ok dur_plus_def dur_minus_def
        timeSinceEpoch_def afterEpoch_def int64_eq)
qed

interpretation scet_gps: reversible "scetToGps d" "gpsToScet d" "scet_in_range d"
proof
  fix t assume "scet_in_range d t"
  moreover obtain x where "t = TimePoint (Duration x)" using time_point_cases by blast
  ultimately show "\<exists>u. scetToGps d t = Some u \<and> gpsToScet d u = Some t"
    by (simp add: scet_in_range_def scetToGps_def gpsToScet_def dur_plus_def dur_minus_def
        timeSinceEpoch_def afterEpoch_def int64_eq)
qed

interpretation unix_gps: reversible unixToGps gpsToUnix
  "\<lambda>t. unix_in_range t \<and> (\<forall>u. unixToTai t = Some u \<longrightarrow> tai_in_range u)"
  using reversible_compose [OF unix_tai.reversible_axioms tai_gps.reversible_axioms]
  unfolding unixToGps_def [abs_def] gpsToUnix_def [abs_def] .

text \<open>
  C26. Four conversions are undone by their inverse as long as nothing overflows: Unix time to TAI and
  back, Unix time over TAI to GPS time and back, GPS time to TAI and back, and SCET to GPS time and
  back with any offset. The way from TAI or GPS time to Unix time and back is not among them: it
  loses the leap seconds (\<open>tai_unix_loses_leap_seconds\<close>).\<close>

theorem epoch_conversions_reversible:
  shows "(unix_in_range ut \<longrightarrow> unixToTai ut \<bind> taiToUnix = Some ut) \<and>
    (unix_in_range ut \<and> (\<forall>u. unixToTai ut = Some u \<longrightarrow> tai_in_range u) \<longrightarrow> unixToGps ut \<bind> gpsToUnix = Some ut) \<and>
    (gps_in_range gt \<longrightarrow> gpsToTai gt \<bind> taiToGps = Some gt) \<and>
    (scet_in_range d st \<longrightarrow> scetToGps d st \<bind> gpsToScet d = Some st)"
  using unix_tai.revert_convert unix_gps.revert_convert gps_tai.revert_convert scet_gps.revert_convert by blast

definition sample_unix :: unix_time where
  "sample_unix = TimePoint (Duration 1483228799500000)"

definition sample_gps :: gps_time where
  "sample_gps = TimePoint (Duration 1167264017000000)"

definition sample_scet :: spacecraft_elapsed_time where
  "sample_scet = TimePoint (Duration 5000000)"

lemma sample_unix_tai: "unixToTai sample_unix = Some (TimePoint (Duration 1861920035500000))"
  by code_simp

lemmas epoch_offsets = initialOffsetInSeconds_def offsetDaysFromTaiToUnix_def secondsPerDay_def
  leapSecondsAtUnixEpoch_def offsetInSeconds_def offsetDaysTaiToGps_def offsetLeapSecondsTaiToGps_def

lemma sample_times_in_range:
  "unix_in_range sample_unix" "\<forall>u. unixToTai sample_unix = Some u \<longrightarrow> tai_in_range u"
  "gps_in_range sample_gps" "scet_in_range (Duration 7000000) sample_scet"
  by (simp_all add: sample_unix_tai, simp_all add: sample_unix_def sample_gps_def sample_scet_def unix_in_range_def
      tai_in_range_def gps_in_range_def scet_in_range_def int64_ok_def epoch_offsets)

lemma epoch_conversions_reversible_witness:
  "unixToTai sample_unix \<bind> taiToUnix = Some sample_unix \<and>
    unixToGps sample_unix \<bind> gpsToUnix = Some sample_unix \<and>
    gpsToTai sample_gps \<bind> taiToGps = Some sample_gps \<and>
    scetToGps (Duration 7000000) sample_scet \<bind> gpsToScet (Duration 7000000) = Some sample_scet"
  using epoch_conversions_reversible [of sample_unix sample_gps "Duration 7000000" sample_scet]
    sample_times_in_range by blast

text \<open>
  Note. TAI to Unix time and back gives the same time outside of leap seconds, and one second less in a
  leap second, because Unix time repeats that second; for every time that does not overflow.\<close>

theorem tai_unix_loses_leap_seconds:
  assumes "int64_ok (ticks t)" and "int64_ok (ticks t - (initialOffsetInSeconds + 28) * 1000000)"
  shows "\<exists>u t'. taiToUnix t = Some u \<and> unixToTai u = Some t' \<and>
    ticks t' = ticks t - (if ticks t sdiv 1000000 \<in> set leapSecondArray then 1000000 else 0)"
  using assms by (rule tai_unix_tai)

definition sample_tai :: atomic_time where
  "sample_tai = TimePoint (Duration 1861920036500000)"

lemma tai_unix_loses_leap_seconds_witness:
  "\<exists>u t'. taiToUnix sample_tai = Some u \<and> unixToTai u = Some t' \<and>
    ticks t' = ticks sample_tai - (if ticks sample_tai sdiv 1000000 \<in> set leapSecondArray then 1000000 else 0)"
  by (rule tai_unix_loses_leap_seconds)
    (simp_all add: sample_tai_def int64_ok_def initialOffsetInSeconds_def offsetDaysFromTaiToUnix_def
      secondsPerDay_def leapSecondsAtUnixEpoch_def)

text \<open>\<open>setOffset\<close> makes the two times correspond.\<close>

lemma setOffset_corresponds:
  assumes "setOffset scet gps = Some d" and "int64_ok (ticks gps)"
  shows "scetToGps d scet = Some gps"
  using assms by (cases gps; cases scet)
    (auto simp: setOffset_def scetToGps_def dur_minus_def dur_plus_def timeSinceEpoch_def afterEpoch_def
      ticks_def int64_eq duration.expand)

end
