(* ===== verification/Quotas.thy ===== *)
theory Quotas
  imports Epochs
begin

text \<open>
  The access quotas (time/quota.h, quota_impl.h, quota.cpp) and \<open>Timeout\<close> (time/timeout.h,
  timeout.cpp). Times are spacecraft elapsed times; the clock is the time it returns. An operation is
  \<open>None\<close> where the \<open>int64_t\<close> arithmetic of its times overflows.

  The locale \<open>quota\<close> is the contract of the interface \<open>Quota\<close> for a fixed interval: an abstraction
  of the object to the times of the accesses that it granted, newest first, such that \<open>access\<close> adds
  the current time exactly when it grants the access, and grants it when the policy of the quota
  allows it. The lemma of the locale is what a client relies on: all grants of a run obey the policy.
\<close>

type_synonym scet = spacecraft_elapsed_time

subsection \<open>ContinuousIntervalQuota\<close>

record continuous_quota =
  cqInterval :: duration
  mCurrentIndex :: size_t
  mResources :: "scet list"

text \<open>\<open>startOfEpoch() - Duration::maximum()\<close>\<close>

definition long_ago :: scet where
  "long_ago = TimePoint (Duration (0 - maximumValue))"

lemma long_ago_code: "tp_minus startOfEpoch dur_maximum = Some long_ago"
  by (simp add: tp_minus_def startOfEpoch_def dur_zero_def dur_maximum_def dur_minus_def long_ago_def
      maximumValue_def int64_ok_def)

definition cq_new :: "size_t \<Rightarrow> duration \<Rightarrow> continuous_quota" where
  "cq_new resources interval =
     \<lparr>cqInterval = interval, mCurrentIndex = 0, mResources = replicate resources long_ago\<rparr>"

definition cq_setTimeInterval :: "duration \<Rightarrow> continuous_quota \<Rightarrow> continuous_quota" where
  "cq_setTimeInterval interval q = q\<lparr>cqInterval := interval\<rparr>"

definition cq_access :: "scet \<Rightarrow> continuous_quota \<Rightarrow> (bool \<times> continuous_quota) option" where
  "cq_access now q = do {
     let nxt = (mCurrentIndex q + 1) mod length (mResources q);
     t \<leftarrow> aread (mResources q) nxt;
     limit \<leftarrow> tp_plus t (cqInterval q);
     if now \<ge> limit then do {
       rs \<leftarrow> awrite (mResources q) nxt now;
       Some (True, q\<lparr>mResources := rs, mCurrentIndex := nxt\<rparr>) }
     else Some (False, q) }"

definition cq_reset :: "continuous_quota \<Rightarrow> continuous_quota" where
  "cq_reset q = q\<lparr>mCurrentIndex := 0, mResources := replicate (length (mResources q)) long_ago\<rparr>"

subsection \<open>NonDeterministicIntervalQuota and UnlimitedQuota\<close>

record interval_quota =
  mInterval :: duration
  mIntervalEnd :: scet
  mNumberOfResources :: size_t
  mUsedResources :: size_t

definition nq_new :: "duration \<Rightarrow> size_t \<Rightarrow> interval_quota" where
  "nq_new interval numberOfResources =
     \<lparr>mInterval = interval, mIntervalEnd = startOfEpoch, mNumberOfResources = numberOfResources, mUsedResources = 0\<rparr>"

definition nq_setTimeInterval :: "duration \<Rightarrow> interval_quota \<Rightarrow> interval_quota" where
  "nq_setTimeInterval interval q = q\<lparr>mInterval := interval\<rparr>"

definition nq_access :: "scet \<Rightarrow> interval_quota \<Rightarrow> (bool \<times> interval_quota) option" where
  "nq_access now q = do {
     q \<leftarrow> (if now \<ge> mIntervalEnd q then do {
            stop \<leftarrow> tp_plus now (mInterval q);
            Some (q\<lparr>mUsedResources := 0, mIntervalEnd := stop\<rparr>) }
          else Some q);
     if mUsedResources q < mNumberOfResources q
     then Some (True, q\<lparr>mUsedResources := mUsedResources q + 1\<rparr>)
     else Some (False, q) }"

definition nq_reset :: "interval_quota \<Rightarrow> interval_quota" where
  "nq_reset q = q\<lparr>mIntervalEnd := startOfEpoch\<rparr>"

definition uq_setTimeInterval :: "duration \<Rightarrow> unit \<Rightarrow> unit" where
  "uq_setTimeInterval interval q = q"

definition uq_access :: "scet \<Rightarrow> unit \<Rightarrow> (bool \<times> unit) option" where
  "uq_access now q = Some (True, q)"

definition uq_reset :: "unit \<Rightarrow> unit" where
  "uq_reset q = q"

subsection \<open>The contract of a quota\<close>

fun accesses :: "(scet \<Rightarrow> 'q \<Rightarrow> (bool \<times> 'q) option) \<Rightarrow> scet list \<Rightarrow> 'q \<Rightarrow> (bool list \<times> 'q) option" where
  "accesses access [] q = Some ([], q)"
| "accesses access (now # ts) q = do {
     (granted, q) \<leftarrow> access now q;
     (rs, q) \<leftarrow> accesses access ts q;
     Some (granted # rs, q) }"

text \<open>The granted times, oldest first.\<close>

definition granted :: "bool list \<Rightarrow> scet list \<Rightarrow> scet list" where
  "granted rs ts = map snd (filter fst (zip rs ts))"

lemma granted_Cons: "granted (r # rs) (t # ts) = (if r then t # granted rs ts else granted rs ts)"
  by (simp add: granted_def)

lemma granted_Nil [simp]: "granted [] ts = []" "granted rs [] = []"
  by (simp_all add: granted_def)

lemma granted_nth:
  "length rs = length ts \<Longrightarrow> j < length (granted rs ts) \<Longrightarrow>
   \<exists>k<length ts. rs ! k \<and> ts ! k = granted rs ts ! j \<and> granted (take k rs) (take k ts) = take j (granted rs ts)"
proof (induction rs ts arbitrary: j rule: list_induct2)
  case (Cons r rs t ts)
  show ?case
  proof (cases "r \<and> j = 0")
    case True
    then show ?thesis by (intro exI [of _ 0]) (simp add: granted_Cons)
  next
    case False
    let ?j = "if r then j - 1 else j"
    have "?j < length (granted rs ts)" using Cons.prems False by (auto simp: granted_Cons split: if_splits)
    from Cons.IH [OF this] obtain k where k: "k < length ts" "rs ! k" "ts ! k = granted rs ts ! ?j"
      "granted (take k rs) (take k ts) = take ?j (granted rs ts)" by blast
    with False show ?thesis by (intro exI [of _ "Suc k"]) (cases j; auto simp: granted_Cons)
  qed
qed simp

locale quota =
  fixes access :: "scet \<Rightarrow> 'q \<Rightarrow> (bool \<times> 'q) option"
    and history :: "'q \<Rightarrow> scet list \<Rightarrow> bool"
    and policy :: "scet list \<Rightarrow> scet \<Rightarrow> bool"
    and time_ok :: "scet \<Rightarrow> bool"
  assumes access_law: "history q gs \<Longrightarrow> \<forall>g\<in>set gs. time_ok g \<Longrightarrow> time_ok now \<Longrightarrow>
    \<exists>q'. access now q = Some (policy gs now, q') \<and> history q' (if policy gs now then now # gs else gs)"
begin

lemma run_policy:
  assumes "history q gs" and "\<forall>g\<in>set gs. time_ok g" and "\<forall>t\<in>set ts. time_ok t"
  shows "\<exists>rs q'. accesses access ts q = Some (rs, q') \<and> length rs = length ts \<and>
    history q' (rev (granted rs ts) @ gs) \<and>
    (\<forall>k<length ts. rs ! k = policy (rev (granted (take k rs) (take k ts)) @ gs) (ts ! k))"
  using assms
proof (induction ts arbitrary: q gs)
  case Nil
  then show ?case by simp
next
  case (Cons now ts)
  let ?r = "policy gs now" and ?gs = "if policy gs now then now # gs else gs"
  from Cons.prems access_law obtain q1 where q1: "access now q = Some (?r, q1)" "history q1 ?gs" by fastforce
  moreover have "\<forall>g\<in>set ?gs. time_ok g" using Cons.prems by auto
  ultimately obtain rs q' where r: "accesses access ts q1 = Some (rs, q')" "length rs = length ts"
    "history q' (rev (granted rs ts) @ ?gs)"
    "\<forall>k<length ts. rs ! k = policy (rev (granted (take k rs) (take k ts)) @ ?gs) (ts ! k)"
    using Cons.IH [of q1 ?gs] Cons.prems(3) by auto
  have "(?r # rs) ! k = policy (rev (granted (take k (?r # rs)) (take k (now # ts))) @ gs) ((now # ts) ! k)"
    if "k < length (now # ts)" for k
    using that r(4) by (cases k) (auto simp: granted_Cons)
  with q1 r show ?case by (auto simp: granted_Cons)
qed

end

subsection \<open>The sliding window\<close>

definition window_policy :: "nat \<Rightarrow> int \<Rightarrow> scet list \<Rightarrow> scet \<Rightarrow> bool" where
  "window_policy n d gs now \<longleftrightarrow> (length gs < n \<or> ticks (gs ! (n - 1)) + d \<le> ticks now)"

definition short_time :: "scet \<Rightarrow> bool" where
  "short_time t \<longleftrightarrow> 0 \<le> ticks t \<and> ticks t < 2 ^ 62"

text \<open>Entry \<open>k\<close> steps behind the current index is the \<open>k\<close>-th newest grant.\<close>

definition cq_history :: "nat \<Rightarrow> int \<Rightarrow> continuous_quota \<Rightarrow> scet list \<Rightarrow> bool" where
  "cq_history n d q gs \<longleftrightarrow> 0 < n \<and> length (mResources q) = n \<and> mCurrentIndex q < n \<and>
     mTicks (cqInterval q) = d \<and> 0 \<le> d \<and> d < 2 ^ 62 \<and>
     (\<forall>k<n. mResources q ! ((mCurrentIndex q + (n - k)) mod n) = (if k < length gs then gs ! k else long_ago))"

lemma ring_step:
  fixes n :: nat
  assumes "k < n" "i < n"
  shows "((i + 1) mod n + (n - Suc k)) mod n = (i + (n - k)) mod n"
proof -
  have "((i + 1) mod n + (n - Suc k)) mod n = (i + 1 + (n - Suc k)) mod n" by (simp only: mod_add_left_eq)
  also have "i + 1 + (n - Suc k) = i + (n - k)" using assms by simp
  finally show ?thesis .
qed

lemma ring_distinct:
  fixes n :: nat
  assumes "0 < k" "k < n" "i < n"
  shows "(i + (n - k)) mod n \<noteq> i"
proof (cases "i + (n - k) < n")
  case True
  with assms show ?thesis by simp
next
  case False
  then have "(i + (n - k)) mod n = i + (n - k) - n" using assms by (simp add: le_mod_geq)
  with assms False show ?thesis by simp
qed

lemma cq_access_law:
  assumes h: "cq_history n d q gs" and "\<forall>g\<in>set gs. short_time g" and now: "short_time now"
  shows "\<exists>q'. cq_access now q = Some (window_policy n d gs now, q') \<and>
    cq_history n d q' (if window_policy n d gs now then now # gs else gs)"
proof -
  let ?i = "mCurrentIndex q" and ?rs = "mResources q"
  have q: "0 < n" "length ?rs = n" "?i < n" "mTicks (cqInterval q) = d" "0 \<le> d" "d < 2 ^ 62"
    and ring: "\<And>k. k < n \<Longrightarrow> ?rs ! ((?i + (n - k)) mod n) = (if k < length gs then gs ! k else long_ago)"
    using h by (auto simp: cq_history_def)
  let ?nxt = "(?i + 1) mod n"
  have nxt: "?nxt < n" using q(1) by simp
  define t where "t = (if n - 1 < length gs then gs ! (n - 1) else long_ago)"
  have t: "?rs ! ?nxt = t" using ring [of "n - 1"] q(1) by (simp add: t_def)
  have tk: "n \<le> length gs \<Longrightarrow> 0 \<le> ticks t \<and> ticks t < 2 ^ 62"
    "length gs < n \<Longrightarrow> ticks t = - maximumValue"
    using assms(2) q(1) by (auto simp: t_def short_time_def long_ago_def ticks_def)
  have ok: "int64_ok (ticks t + d)"
    using tk q(5,6) by (cases "length gs < n") (auto simp: int64_ok_def maximumValue_def)
  have limit: "tp_plus t (cqInterval q) = Some (TimePoint (Duration (ticks t + d)))"
    using tp_plus_ticks [of t "cqInterval q"] ok q(4) by simp
  have grant: "TimePoint (Duration (ticks t + d)) \<le> now \<longleftrightarrow> window_policy n d gs now"
  proof (cases "length gs < n")
    case True
    have "ticks t + d \<le> ticks now" using tk(2) [OF True] q(6) now by (simp add: short_time_def maximumValue_def)
    with True show ?thesis by (simp add: window_policy_def time_point_le)
  next
    case False
    then show ?thesis using q(1) by (auto simp: window_policy_def time_point_le t_def)
  qed
  show ?thesis
  proof (cases "window_policy n d gs now")
    case False
    with h grant limit t nxt q(2) show ?thesis by (simp add: cq_access_def aread_def Let_def)
  next
    case True
    let ?q = "q\<lparr>mResources := ?rs[?nxt := now], mCurrentIndex := ?nxt\<rparr>"
    have "mResources ?q ! ((mCurrentIndex ?q + (n - k)) mod n) = (if k < length (now # gs) then (now # gs) ! k else long_ago)"
      if "k < n" for k
    proof (cases k)
      case 0
      with q(2) nxt show ?thesis by simp
    next
      case (Suc j)
      then have "(?nxt + (n - k)) mod n = (?i + (n - j)) mod n" using ring_step [of j n ?i] q(3) that by simp
      moreover have "(?nxt + (n - k)) mod n \<noteq> ?nxt" using ring_distinct [of k n ?nxt] Suc that nxt by simp
      ultimately show ?thesis using ring [of j] Suc that by simp
    qed
    then have "cq_history n d ?q (now # gs)" using q nxt by (simp add: cq_history_def)
    with True grant limit t nxt q(2) show ?thesis by (simp add: cq_access_def aread_def awrite_def Let_def)
  qed
qed

lemma cq_new_history: "0 < n \<Longrightarrow> 0 \<le> mTicks i \<Longrightarrow> mTicks i < 2 ^ 62 \<Longrightarrow> cq_history n (mTicks i) (cq_new n i) []"
  by (simp add: cq_history_def cq_new_def)

lemma cq_reset_history: "cq_history n d q gs \<Longrightarrow> cq_history n d (cq_reset q) []"
  by (simp add: cq_history_def cq_reset_def)

interpretation window: quota cq_access "cq_history n d" "window_policy n d" short_time
  by unfold_locales (rule cq_access_law)

text \<open>
  C16. A \<open>ContinuousIntervalQuota\<close> grants an access exactly when fewer than its number of resources
  have been granted or the oldest of that many latest grants is at least one interval ago; so any
  \<open>n + 1\<close> successive grants span at least the interval, for every sequence of access times.\<close>

theorem continuous_quota_limits:
  assumes "0 < n" and "0 \<le> mTicks d" and "mTicks d < 2 ^ 62" and "\<forall>t\<in>set ts. short_time t"
  shows "\<exists>rs q. accesses cq_access ts (cq_new n d) = Some (rs, q) \<and> length rs = length ts \<and>
    (\<forall>k<length ts. let g = granted (take k rs) (take k ts) in
       rs ! k = (length g < n \<or> ticks (g ! (length g - n)) + mTicks d \<le> ticks (ts ! k))) \<and>
    (let g = granted rs ts in \<forall>i. i + n < length g \<longrightarrow> ticks (g ! i) + mTicks d \<le> ticks (g ! (i + n)))"
proof -
  obtain rs q where r: "accesses cq_access ts (cq_new n d) = Some (rs, q)" "length rs = length ts"
    "\<forall>k<length ts. rs ! k = window_policy n (mTicks d) (rev (granted (take k rs) (take k ts))) (ts ! k)"
    using window.run_policy [OF cq_new_history [OF assms(1-3)], of ts] assms(4) by auto
  have policy: "rs ! k = (length g < n \<or> ticks (g ! (length g - n)) + mTicks d \<le> ticks (ts ! k))"
    if "k < length ts" "g = granted (take k rs) (take k ts)" for k g
  proof -
    have "rs ! k = window_policy n (mTicks d) (rev g) (ts ! k)" using r(3) that by simp
    then show ?thesis using assms(1) by (cases "length g < n") (simp_all add: window_policy_def rev_nth)
  qed
  moreover have "ticks (granted rs ts ! i) + mTicks d \<le> ticks (granted rs ts ! (i + n))"
    if i: "i + n < length (granted rs ts)" for i
  proof -
    obtain k where k: "k < length ts" "rs ! k" "ts ! k = granted rs ts ! (i + n)"
      "granted (take k rs) (take k ts) = take (i + n) (granted rs ts)"
      using granted_nth [OF r(2) i] by blast
    from policy [OF k(1) refl] k(2,3) i show ?thesis
      unfolding k(4) using assms(1) by (simp add: min_def)
  qed
  ultimately show ?thesis using r(1,2) unfolding Let_def by auto
qed

lemma continuous_quota_limits_witness:
  "\<exists>rs q. accesses cq_access (map (TimePoint \<circ> Duration) [0, 5, 7, 12, 13]) (cq_new 2 (Duration 10)) = Some (rs, q) \<and>
    length rs = length (map (TimePoint \<circ> Duration) [0, 5, 7, 12, 13] :: scet list) \<and>
    (\<forall>k<length (map (TimePoint \<circ> Duration) [0, 5, 7, 12, 13] :: scet list).
      let g = granted (take k rs) (take k (map (TimePoint \<circ> Duration) [0, 5, 7, 12, 13])) in
       rs ! k = (length g < 2 \<or> ticks (g ! (length g - 2)) + mTicks (Duration 10) \<le>
         ticks ((map (TimePoint \<circ> Duration) [0, 5, 7, 12, 13] :: scet list) ! k))) \<and>
    (let g = granted rs (map (TimePoint \<circ> Duration) [0, 5, 7, 12, 13]) in
      \<forall>i. i + 2 < length g \<longrightarrow> ticks (g ! i) + mTicks (Duration 10) \<le> ticks (g ! (i + 2)))"
  by (rule continuous_quota_limits) (simp_all add: short_time_def)

subsection \<open>Fixed intervals\<close>

text \<open>The interval that is running after a list of grants (newest first), with its number of grants.\<close>

fun running_interval :: "int \<Rightarrow> scet list \<Rightarrow> (int \<times> nat) option" where
  "running_interval d [] = None"
| "running_interval d (g # gs) = (case running_interval d gs of
     None \<Rightarrow> Some (ticks g, 1)
   | Some (s, k) \<Rightarrow> if s + d \<le> ticks g then Some (ticks g, 1) else Some (s, k + 1))"

definition interval_policy :: "nat \<Rightarrow> int \<Rightarrow> scet list \<Rightarrow> scet \<Rightarrow> bool" where
  "interval_policy n d gs now = (0 < n \<and> (case running_interval d gs of
     None \<Rightarrow> True | Some (s, k) \<Rightarrow> s + d \<le> ticks now \<or> k < n))"

definition nq_history :: "nat \<Rightarrow> int \<Rightarrow> interval_quota \<Rightarrow> scet list \<Rightarrow> bool" where
  "nq_history n d q gs \<longleftrightarrow> mTicks (mInterval q) = d \<and> 0 \<le> d \<and> d < 2 ^ 62 \<and> mNumberOfResources q = n \<and>
     (0 < n \<longrightarrow> (case running_interval d gs of
        None \<Rightarrow> ticks (mIntervalEnd q) = 0
      | Some (s, k) \<Rightarrow> ticks (mIntervalEnd q) = s + d \<and> mUsedResources q = k \<and> k \<le> n))"

lemma nq_access_law:
  assumes h: "nq_history n d q gs" and "\<forall>g\<in>set gs. short_time g" and now: "short_time now"
  shows "\<exists>q'. nq_access now q = Some (interval_policy n d gs now, q') \<and>
    nq_history n d q' (if interval_policy n d gs now then now # gs else gs)"
proof -
  have "int64_ok (ticks now + mTicks (mInterval q))"
    using h now by (simp add: nq_history_def short_time_def int64_ok_def)
  note limit = tp_plus_ticks [OF this]
  show ?thesis
  proof (cases "0 < n")
    case False
    with h limit show ?thesis
      by (cases "mIntervalEnd q \<le> now") (simp_all add: nq_access_def nq_history_def interval_policy_def)
  next
    case True
    show ?thesis
    proof (cases "running_interval d gs")
      case None
      with True h limit now show ?thesis
        by (simp add: nq_access_def nq_history_def interval_policy_def time_point_le short_time_def)
    next
      case (Some sk)
      then obtain s k where sk: "running_interval d gs = Some (s, k)" by (cases sk) auto
      with True h have q: "ticks (mIntervalEnd q) = s + d" "mUsedResources q = k" "k \<le> n"
        by (simp_all add: nq_history_def)
      show ?thesis
      proof (cases "s + d \<le> ticks now")
        case over: True
        with True h limit sk q show ?thesis
          by (simp add: nq_access_def nq_history_def interval_policy_def time_point_le)
      next
        case False
        with True h sk q show ?thesis
          by (cases "k < n") (simp_all add: nq_access_def nq_history_def interval_policy_def time_point_le)
      qed
    qed
  qed
qed

interpretation intervals: quota nq_access "nq_history n d" "interval_policy n d" short_time
  by unfold_locales (rule nq_access_law)

lemma nq_new_history: "0 \<le> mTicks d \<Longrightarrow> mTicks d < 2 ^ 62 \<Longrightarrow> nq_history n (mTicks d) (nq_new d n) []"
  by (simp add: nq_history_def nq_new_def startOfEpoch_def dur_zero_def)

lemma nq_reset_history: "nq_history n d q gs \<Longrightarrow> nq_history n d (nq_reset q) []"
  by (simp add: nq_history_def nq_reset_def startOfEpoch_def dur_zero_def)

interpretation unlimited: quota uq_access "\<lambda>q gs. True" "\<lambda>gs now. True" short_time
  by unfold_locales (simp add: uq_access_def)

subsection \<open>Timeout\<close>

datatype timeout_state = Stopped | Armed | Expired

record timeout =
  mStartTime :: scet
  mEndTime :: scet
  mState :: timeout_state

definition timeout_stopped :: timeout where
  "timeout_stopped = \<lparr>mStartTime = tp_new, mEndTime = tp_new, mState = Stopped\<rparr>"

definition timeout_new :: "scet \<Rightarrow> duration \<Rightarrow> timeout option" where
  "timeout_new now time = do {
     stop \<leftarrow> tp_plus now time;
     Some \<lparr>mStartTime = now, mEndTime = stop, mState = Armed\<rparr> }"

definition timeout_restart :: "scet \<Rightarrow> duration \<Rightarrow> timeout \<Rightarrow> timeout option" where
  "timeout_restart now time t = do {
     stop \<leftarrow> tp_plus now time;
     Some (t\<lparr>mStartTime := now, mEndTime := stop, mState := Armed\<rparr>) }"

definition timeout_getState :: "scet \<Rightarrow> timeout \<Rightarrow> timeout_state \<times> timeout" where
  "timeout_getState now t =
     (let t = (if mState t = Armed \<and> now \<ge> mEndTime t then t\<lparr>mState := Expired\<rparr> else t) in (mState t, t))"

definition timeout_changeDuration :: "scet \<Rightarrow> duration \<Rightarrow> timeout \<Rightarrow> timeout option" where
  "timeout_changeDuration now time t = do {
     let t = snd (timeout_getState now t);
     stop \<leftarrow> tp_plus (mStartTime t) time;
     Some (t\<lparr>mEndTime := stop\<rparr>) }"

definition timeout_stop :: "timeout \<Rightarrow> timeout" where
  "timeout_stop t = t\<lparr>mState := Stopped\<rparr>"

definition timeout_isStopped :: "timeout \<Rightarrow> bool" where
  "timeout_isStopped t \<longleftrightarrow> mState t = Stopped"

definition timeout_isExpired :: "scet \<Rightarrow> timeout \<Rightarrow> bool \<times> timeout" where
  "timeout_isExpired now t = (let (s, t) = timeout_getState now t in (s = Expired, t))"

definition timeout_isArmed :: "scet \<Rightarrow> timeout \<Rightarrow> bool \<times> timeout" where
  "timeout_isArmed now t = (let (s, t) = timeout_getState now t in (s = Armed, t))"

subsection \<open>Running timeouts\<close>

text \<open>Polling a timeout and changing its duration, with the time of the clock.\<close>

datatype timeout_event = Poll scet | Change scet duration

fun timeout_event_step :: "timeout_event \<Rightarrow> timeout \<Rightarrow> timeout option" where
  "timeout_event_step (Poll now) t = Some (snd (timeout_getState now t))"
| "timeout_event_step (Change now d) t = timeout_changeDuration now d t"

fun timeout_run :: "timeout_event list \<Rightarrow> timeout \<Rightarrow> timeout option" where
  "timeout_run [] t = Some t"
| "timeout_run (e # es) t = timeout_event_step e t \<bind> timeout_run es"

text \<open>Whether some event looked at the clock at or after the end time that was in force then.\<close>

fun overdue :: "scet \<Rightarrow> scet \<Rightarrow> timeout_event list \<Rightarrow> bool" where
  "overdue start stop [] = False"
| "overdue start stop (Poll now # es) = (stop \<le> now \<or> overdue start stop es)"
| "overdue start stop (Change now d # es) =
    (stop \<le> now \<or> overdue start (TimePoint (Duration (ticks start + mTicks d))) es)"

fun event_ok :: "scet \<Rightarrow> timeout_event \<Rightarrow> bool" where
  "event_ok start (Poll now) = True"
| "event_ok start (Change now d) = int64_ok (ticks start + mTicks d)"

lemma getState_cases:
  "mState t = Armed \<Longrightarrow> snd (timeout_getState now t) = t\<lparr>mState := if mEndTime t \<le> now then Expired else Armed\<rparr>"
  "mState t \<noteq> Armed \<Longrightarrow> timeout_getState now t = (mState t, t)"
  "fst (timeout_getState now t) = mState (snd (timeout_getState now t))"
  by (auto simp: timeout_getState_def Let_def)

lemma changeDuration_cases:
  assumes "int64_ok (ticks (mStartTime t) + mTicks d)"
  shows "timeout_changeDuration now d t = Some ((snd (timeout_getState now t))
    \<lparr>mEndTime := TimePoint (Duration (ticks (mStartTime t) + mTicks d))\<rparr>)"
proof -
  have "mStartTime (snd (timeout_getState now t)) = mStartTime t" by (simp add: timeout_getState_def Let_def)
  with tp_plus_ticks [OF assms] show ?thesis by (simp add: timeout_changeDuration_def Let_def)
qed

lemma timeout_run_append: "timeout_run (es @ es') t = timeout_run es t \<bind> timeout_run es'"
proof (induction es arbitrary: t)
  case (Cons e es)
  then show ?case by (cases "timeout_event_step e t") simp_all
qed simp

lemma timeout_run_expired:
  "mState t \<noteq> Armed \<Longrightarrow> \<forall>e\<in>set es. event_ok (mStartTime t) e \<Longrightarrow>
   \<exists>t'. timeout_run es t = Some t' \<and> mState t' = mState t"
proof (induction es arbitrary: t)
  case (Cons e es)
  show ?case
  proof (cases e)
    case (Poll now)
    with Cons show ?thesis by (auto simp: getState_cases)
  next
    case (Change now d)
    with Cons.prems Cons.IH [of "t\<lparr>mEndTime := TimePoint (Duration (ticks (mStartTime t) + mTicks d))\<rparr>"]
    show ?thesis by (simp add: getState_cases changeDuration_cases)
  qed
qed simp

lemma timeout_run_armed:
  "mState t = Armed \<Longrightarrow> \<forall>e\<in>set es. event_ok (mStartTime t) e \<Longrightarrow>
   \<exists>t'. timeout_run es t = Some t' \<and>
     mState t' = (if overdue (mStartTime t) (mEndTime t) es then Expired else Armed)"
proof (induction es arbitrary: t)
  case (Cons e es)
  let ?u = "\<lambda>st. t\<lparr>mState := st\<rparr>" and ?v = "\<lambda>st x. t\<lparr>mState := st, mEndTime := TimePoint (Duration x)\<rparr>"
  show ?case
  proof (cases e)
    case (Poll now)
    show ?thesis
    proof (cases "mEndTime t \<le> now")
      case True
      with Cons.prems Poll timeout_run_expired [of "?u Expired" es] show ?thesis by (simp add: getState_cases)
    next
      case False
      with Cons.prems Poll Cons.IH [of "?u Armed"] show ?thesis by (simp add: getState_cases)
    qed
  next
    case (Change now d)
    let ?x = "ticks (mStartTime t) + mTicks d"
    show ?thesis
    proof (cases "mEndTime t \<le> now")
      case True
      with Cons.prems Change timeout_run_expired [of "?v Expired ?x" es] show ?thesis
        by (simp add: getState_cases changeDuration_cases)
    next
      case False
      with Cons.prems Change Cons.IH [of "?v Armed ?x"] show ?thesis
        by (simp add: getState_cases changeDuration_cases)
    qed
  qed
qed simp

text \<open>
  C24. A timeout that was started expires exactly when it is polled, or its duration is changed, at or
  after the end time in force at that moment; it stays expired then, whatever its duration is changed
  to, and a stopped timeout never expires. No event is undefined as long as no end time overflows.\<close>

theorem timeout_expires_exactly:
  assumes "int64_ok (ticks start + mTicks d)" and "\<forall>e\<in>set es. event_ok start e"
  shows "\<exists>t t'. timeout_new start d = Some t \<and> timeout_run es t = Some t' \<and>
    fst (timeout_isExpired now t') =
      overdue start (TimePoint (Duration (ticks start + mTicks d))) (es @ [Poll now]) \<and>
    fst (timeout_isArmed now t') = (\<not> fst (timeout_isExpired now t')) \<and>
    (\<exists>t''. timeout_run es (timeout_stop t) = Some t'' \<and> \<not> fst (timeout_isExpired now t''))"
proof -
  let ?stop = "TimePoint (Duration (ticks start + mTicks d))"
  let ?t = "\<lparr>mStartTime = start, mEndTime = ?stop, mState = Armed\<rparr>"
  have new: "timeout_new start d = Some ?t" using tp_plus_ticks [OF assms(1)] by (simp add: timeout_new_def)
  have app: "overdue s e (es @ [Poll now]) \<longleftrightarrow> (\<exists>t'. timeout_run (es @ [Poll now]) t = Some t' \<and> mState t' = Expired)"
    if "mState t = Armed" "mStartTime t = s" "mEndTime t = e" "s = start" for s e t
    using timeout_run_armed [of t "es @ [Poll now]"] that assms(2) by (auto split: if_splits)
  obtain t' where t': "timeout_run es ?t = Some t'" "mState t' = Expired \<or> mState t' = Armed"
    using timeout_run_armed [of ?t es] assms(2) by auto
  have "overdue start ?stop (es @ [Poll now]) \<longleftrightarrow> mState (snd (timeout_getState now t')) = Expired"
    using app [of ?t start ?stop] t'(1) by (simp add: timeout_run_append)
  moreover have "fst (timeout_isExpired now t') \<longleftrightarrow> mState (snd (timeout_getState now t')) = Expired"
    "fst (timeout_isArmed now t') \<longleftrightarrow> mState (snd (timeout_getState now t')) = Armed"
    by (simp_all add: timeout_isExpired_def timeout_isArmed_def case_prod_unfold getState_cases(3) Let_def)
  moreover have "mState (snd (timeout_getState now t')) = Expired \<or> mState (snd (timeout_getState now t')) = Armed"
    using t'(2) by (auto simp: timeout_getState_def Let_def)
  moreover obtain t'' where "timeout_run es (timeout_stop ?t) = Some t''" "mState t'' = Stopped"
    using timeout_run_expired [of "timeout_stop ?t" es] assms(2) by (auto simp: timeout_stop_def)
  moreover from this(2) have "\<not> fst (timeout_isExpired now t'')"
    by (simp add: timeout_isExpired_def getState_cases(2))
  ultimately show ?thesis using new t'(1) by auto
qed

definition sample_events :: "timeout_event list" where
  "sample_events = [Poll (TimePoint (Duration 5)), Change (TimePoint (Duration 6)) (Duration 20)]"

lemma timeout_expires_exactly_witness:
  "\<exists>t t'. timeout_new (TimePoint (Duration 0)) (Duration 10) = Some t \<and> timeout_run sample_events t = Some t' \<and>
    fst (timeout_isExpired (TimePoint (Duration 15)) t') =
      overdue (TimePoint (Duration 0)) (TimePoint (Duration (ticks (TimePoint (Duration 0) :: scet) + mTicks (Duration 10))))
        (sample_events @ [Poll (TimePoint (Duration 15))]) \<and>
    fst (timeout_isArmed (TimePoint (Duration 15)) t') = (\<not> fst (timeout_isExpired (TimePoint (Duration 15)) t')) \<and>
    (\<exists>t''. timeout_run sample_events (timeout_stop t) = Some t'' \<and> \<not> fst (timeout_isExpired (TimePoint (Duration 15)) t''))"
  by (rule timeout_expires_exactly) (simp_all add: sample_events_def int64_ok_def)

end
