(* ===== verification/Shared_Buffers.thy ===== *)
theory Shared_Buffers
  imports Slices "HOL-Library.Multiset"
begin

text \<open>
  Reference counted buffers (modules/utils/src/outpost/utils/container/shared_buffer.h and
  shared_buffer.cpp).

  A \<open>SharedBuffer\<close> is an entry of a list, its address the index. The fields that every pointer
  class inherits from \<open>SharedBufferPointerBase\<close> are the record \<open>pointer\<close>; an object of the
  program is a \<open>BufferPointer\<close> or a \<open>ChildPointer\<close>, which also holds the counted pointer
  \<open>mParent\<close>. Constructors, assignments and destructors are functions that thread the list of
  buffers, because their effect outside of the object is on the counters; \<open>None\<close> is a pointer
  to a buffer that does not exist.

  \<open>counted P bs\<close> says that the counters of \<open>bs\<close> are right when \<open>P\<close> is the multiset of all
  pointers that live; each operation has a lemma that says how it changes \<open>P\<close>.
\<close>

subsection \<open>The buffer\<close>

record shared_buffer =
  mReferenceCounter :: size_t
  sbBuffer :: slice

definition sbuf_empty :: shared_buffer where
  "sbuf_empty = \<lparr>mReferenceCounter = 0, sbBuffer = slice_empty\<rparr>"

definition sbuf_new :: "slice \<Rightarrow> shared_buffer" where
  "sbuf_new s = \<lparr>mReferenceCounter = 0, sbBuffer = s\<rparr>"

definition sbuf_getPointer :: "shared_buffer \<Rightarrow> slice" where
  "sbuf_getPointer b = sbBuffer b"

definition isUsedAtomic :: "size_t \<Rightarrow> bool" where
  "isUsedAtomic ref \<longleftrightarrow> ref \<noteq> 0"

definition incrementCountAtomic :: "size_t \<Rightarrow> size_t" where
  "incrementCountAtomic ref = szadd ref 1"

definition decrementCountAtomic :: "size_t \<Rightarrow> size_t" where
  "decrementCountAtomic ref = (if ref > 0 then szsub ref 1 else ref)"

definition sbuf_isUsed :: "shared_buffer \<Rightarrow> bool" where
  "sbuf_isUsed b = isUsedAtomic (mReferenceCounter b)"

definition sbuf_setPointer :: "slice \<Rightarrow> shared_buffer \<Rightarrow> shared_buffer" where
  "sbuf_setPointer s b = (if \<not> sbuf_isUsed b then b\<lparr>sbBuffer := s\<rparr> else b)"

definition getReferenceCount :: "shared_buffer \<Rightarrow> size_t" where
  "getReferenceCount b = mReferenceCounter b"

definition sbuf_isValid :: "shared_buffer \<Rightarrow> bool" where
  "sbuf_isValid b \<longleftrightarrow> getNumberOfElements (sbBuffer b) > 0"

definition sbuf_incrementCount :: "shared_buffer \<Rightarrow> shared_buffer" where
  "sbuf_incrementCount b = b\<lparr>mReferenceCounter := incrementCountAtomic (mReferenceCounter b)\<rparr>"

definition sbuf_decrementCount :: "shared_buffer \<Rightarrow> shared_buffer" where
  "sbuf_decrementCount b = b\<lparr>mReferenceCounter := decrementCountAtomic (mReferenceCounter b)\<rparr>"

subsection \<open>The pointer base class\<close>

record pointer =
  mPtr :: "nat option"
  mType :: u16
  mOffset :: size_t
  mLength :: size_t

type_synonym buffers = "shared_buffer list"

definition ptr_isValid :: "buffers \<Rightarrow> pointer \<Rightarrow> bool option" where
  "ptr_isValid bs p = (case mPtr p of None \<Rightarrow> Some False
     | Some b \<Rightarrow> map_option sbuf_isValid (aread bs b))"

definition ptr_isUsed :: "buffers \<Rightarrow> pointer \<Rightarrow> bool option" where
  "ptr_isUsed bs p = (case mPtr p of None \<Rightarrow> Some False
     | Some b \<Rightarrow> map_option sbuf_isUsed (aread bs b))"

definition ptr_eq :: "pointer \<Rightarrow> pointer \<Rightarrow> bool" where
  "ptr_eq p q \<longleftrightarrow> mPtr p = mPtr q"

definition ptr_eq_void :: "pointer \<Rightarrow> nat option \<Rightarrow> bool" where
  "ptr_eq_void p a \<longleftrightarrow> mPtr p = a"

definition ptr_ne :: "pointer \<Rightarrow> pointer \<Rightarrow> bool" where
  "ptr_ne p q \<longleftrightarrow> mPtr p \<noteq> mPtr q"

definition ptr_ne_void :: "pointer \<Rightarrow> nat option \<Rightarrow> bool" where
  "ptr_ne_void p a \<longleftrightarrow> mPtr p \<noteq> a"

definition ptr_getLength :: "buffers \<Rightarrow> pointer \<Rightarrow> size_t option" where
  "ptr_getLength bs p = do { valid \<leftarrow> ptr_isValid bs p; Some (if valid then mLength p else 0) }"

definition ptr_setType :: "u16 \<Rightarrow> pointer \<Rightarrow> pointer" where
  "ptr_setType t p = p\<lparr>mType := t\<rparr>"

definition ptr_getType :: "pointer \<Rightarrow> u16" where
  "ptr_getType p = mType p"

definition ptr_incrementCount :: "pointer \<Rightarrow> buffers \<Rightarrow> buffers option" where
  "ptr_incrementCount p bs = (case mPtr p of None \<Rightarrow> Some bs
     | Some b \<Rightarrow> do { x \<leftarrow> aread bs b; awrite bs b (sbuf_incrementCount x) })"

definition ptr_decrementCount :: "pointer \<Rightarrow> buffers \<Rightarrow> buffers option" where
  "ptr_decrementCount p bs = (case mPtr p of None \<Rightarrow> Some bs
     | Some b \<Rightarrow> do { x \<leftarrow> aread bs b; awrite bs b (sbuf_decrementCount x) })"

definition ptr_null :: pointer where
  "ptr_null = \<lparr>mPtr = None, mType = 0, mOffset = 0, mLength = 0\<rparr>"

definition ptr_from :: "nat option \<Rightarrow> buffers \<Rightarrow> (pointer \<times> buffers) option" where
  "ptr_from pT bs = do {
     len \<leftarrow> (case pT of None \<Rightarrow> Some 0
             | Some b \<Rightarrow> map_option (\<lambda>x. getNumberOfElements (sbBuffer x)) (aread bs b));
     let p = \<lparr>mPtr = pT, mType = 0, mOffset = 0, mLength = len\<rparr>;
     bs \<leftarrow> ptr_incrementCount p bs;
     Some (p, bs) }"

definition ptr_copy :: "pointer \<Rightarrow> buffers \<Rightarrow> (pointer \<times> buffers) option" where
  "ptr_copy other bs = do {
     let p = \<lparr>mPtr = mPtr other, mType = mType other, mOffset = mOffset other, mLength = mLength other\<rparr>;
     bs \<leftarrow> ptr_incrementCount p bs;
     Some (p, bs) }"

definition ptr_destroy :: "pointer \<Rightarrow> buffers \<Rightarrow> buffers option" where
  "ptr_destroy p bs = ptr_decrementCount p bs"

text \<open>The first argument of an assignment is \<open>&other == this\<close>.\<close>

definition ptr_assign :: "bool \<Rightarrow> pointer \<Rightarrow> pointer \<Rightarrow> buffers \<Rightarrow> (pointer \<times> buffers) option" where
  "ptr_assign same this other bs =
     (if \<not> same
      then do {
        bs \<leftarrow> ptr_decrementCount this bs;
        let this = this\<lparr>mPtr := mPtr other, mType := mType other, mOffset := mOffset other,
                        mLength := mLength other\<rparr>;
        bs \<leftarrow> ptr_incrementCount this bs;
        Some (this, bs) }
      else Some (this, bs))"

definition ptr_asSlice :: "buffers \<Rightarrow> pointer \<Rightarrow> slice option" where
  "ptr_asSlice bs p = (case mPtr p of None \<Rightarrow> Some slice_empty
     | Some b \<Rightarrow> map_option (\<lambda>x. slice_subSlice (sbuf_getPointer x) (mOffset p) (mLength p)) (aread bs b))"

text \<open>\<open>operator uint8_t*\<close> and \<open>operator[]\<close> as addresses of the memory, \<open>None\<close> for \<open>nullptr\<close>.\<close>

definition ptr_address :: "buffers \<Rightarrow> pointer \<Rightarrow> nat option option" where
  "ptr_address bs p = (case mPtr p of None \<Rightarrow> Some None
     | Some b \<Rightarrow> do { x \<leftarrow> aread bs b;
         Some (if sbuf_isValid x then ptr_add (mData (sbBuffer x)) (mOffset p) else None) })"

definition ptr_index :: "'a list \<Rightarrow> buffers \<Rightarrow> pointer \<Rightarrow> size_t \<Rightarrow> 'a option" where
  "ptr_index m bs p index = do { b \<leftarrow> mPtr p; x \<leftarrow> aread bs b;
     slice_get m (sbBuffer x) (szadd index (mOffset p)) }"

subsection \<open>Child pointers\<close>

datatype pobject = BufferPointer pointer | ChildPointer pointer pointer

fun obj_base :: "pobject \<Rightarrow> pointer" where
  "obj_base (BufferPointer p) = p"
| "obj_base (ChildPointer p parent) = p"

fun obj_with_base :: "pobject \<Rightarrow> pointer \<Rightarrow> pobject" where
  "obj_with_base (BufferPointer p) q = BufferPointer q"
| "obj_with_base (ChildPointer p parent) q = ChildPointer q parent"

type_synonym child = "pointer \<times> pointer"

definition child_null :: child where
  "child_null = (ptr_null, ptr_null)"

definition child_new :: "nat option \<Rightarrow> pointer \<Rightarrow> buffers \<Rightarrow> (child \<times> buffers) option" where
  "child_new pT parent bs = do {
     (p, bs) \<leftarrow> ptr_from pT bs;
     (par, bs) \<leftarrow> ptr_copy parent bs;
     Some ((p, par), bs) }"

definition child_copy :: "child \<Rightarrow> buffers \<Rightarrow> (child \<times> buffers) option" where
  "child_copy other bs = do {
     (p, bs) \<leftarrow> ptr_copy (fst other) bs;
     (par, bs) \<leftarrow> ptr_copy (snd other) bs;
     Some ((p, par), bs) }"

definition child_assign :: "bool \<Rightarrow> child \<Rightarrow> child \<Rightarrow> buffers \<Rightarrow> (child \<times> buffers) option" where
  "child_assign same this other bs =
     (if \<not> same
      then do {
        bs \<leftarrow> ptr_decrementCount (fst this) bs;
        let p = (fst this)\<lparr>mPtr := mPtr (fst other), mType := mType (fst other),
                 mOffset := mOffset (fst other), mLength := mLength (fst other)\<rparr>;
        (par, bs) \<leftarrow> ptr_assign False (snd this) (snd other) bs;
        bs \<leftarrow> ptr_incrementCount p bs;
        Some ((p, par), bs) }
      else Some (this, bs))"

text \<open>A derived object is destroyed in the reverse order of its construction.\<close>

definition child_destroy :: "child \<Rightarrow> buffers \<Rightarrow> buffers option" where
  "child_destroy c bs = do { bs \<leftarrow> ptr_destroy (snd c) bs; ptr_destroy (fst c) bs }"

definition child_getParent :: "child \<Rightarrow> buffers \<Rightarrow> (pointer \<times> buffers) option" where
  "child_getParent c bs = ptr_copy (snd c) bs"

definition child_getOrigin :: "child \<Rightarrow> buffers \<Rightarrow> (pointer \<times> buffers) option" where
  "child_getOrigin c bs = ptr_from (mPtr (fst c)) bs"

fun isChild :: "buffers \<Rightarrow> pobject \<Rightarrow> bool option" where
  "isChild bs (BufferPointer p) = Some False"
| "isChild bs (ChildPointer p parent) = ptr_isUsed bs parent"

text \<open>
  \<open>getChild\<close>. The object \<open>ptr\<close> that receives the child may be the object the method is called
  on (\<open>alias\<close>); then the fields that the method reads after the assignment are the new ones.
  The result is the new value of \<open>ptr\<close>, the buffers and the returned \<open>bool\<close>.
\<close>

definition ptr_getChild ::
    "bool \<Rightarrow> pointer \<Rightarrow> child \<Rightarrow> u16 \<Rightarrow> size_t \<Rightarrow> size_t \<Rightarrow> buffers \<Rightarrow> (child \<times> buffers \<times> bool) option" where
  "ptr_getChild alias this ptr type pOffset len bs = do {
     used \<leftarrow> ptr_isUsed bs this;
     if used then
       if szadd (szadd (mOffset this) pOffset) len \<le> szadd (mOffset this) (mLength this) then do {
         (tmp, bs) \<leftarrow> child_new (mPtr this) this bs;
         (ptr, bs) \<leftarrow> child_assign False ptr tmp bs;
         bs \<leftarrow> child_destroy tmp bs;
         let p = (fst ptr)\<lparr>mType := type\<rparr>;
         let own = (if alias then p else this);
         let p = p\<lparr>mOffset := szadd (mOffset own) pOffset\<rparr>;
         let p = p\<lparr>mLength := len\<rparr>;
         Some ((p, snd ptr), bs, True) }
       else Some (ptr, bs, False)
     else Some (ptr, bs, False) }"


subsection \<open>The classes for read-only access\<close>

text \<open>
  \<open>ConstSharedBufferPointer\<close> and \<open>ConstSharedChildPointer\<close> repeat the code of the two classes
  above for buffers that may not be written; what differs is the assignment of a
  \<open>SharedChildPointer\<close>, which can not be the same object.
\<close>

definition cptr_asSlice :: "buffers \<Rightarrow> pointer \<Rightarrow> slice option" where
  "cptr_asSlice bs p = (case mPtr p of None \<Rightarrow> Some slice_empty
     | Some b \<Rightarrow> map_option (\<lambda>x. slice_subSlice (sbuf_getPointer x) (mOffset p) (mLength p)) (aread bs b))"

definition cchild_copy_from :: "child \<Rightarrow> buffers \<Rightarrow> (child \<times> buffers) option" where
  "cchild_copy_from other bs = do {
     (p, bs) \<leftarrow> ptr_copy (fst other) bs;
     (par, bs) \<leftarrow> ptr_copy (snd other) bs;
     Some ((p, par), bs) }"

definition cchild_assign_from :: "child \<Rightarrow> child \<Rightarrow> buffers \<Rightarrow> (child \<times> buffers) option" where
  "cchild_assign_from this other bs = do {
     bs \<leftarrow> ptr_decrementCount (fst this) bs;
     let p = (fst this)\<lparr>mPtr := mPtr (fst other), mType := mType (fst other),
              mOffset := mOffset (fst other), mLength := mLength (fst other)\<rparr>;
     (par, bs) \<leftarrow> ptr_assign False (snd this) (snd other) bs;
     bs \<leftarrow> ptr_incrementCount p bs;
     Some ((p, par), bs) }"

definition cptr_getChild ::
    "bool \<Rightarrow> pointer \<Rightarrow> child \<Rightarrow> u16 \<Rightarrow> size_t \<Rightarrow> size_t \<Rightarrow> buffers \<Rightarrow> (child \<times> buffers \<times> bool) option" where
  "cptr_getChild alias this ptr type pOffset len bs = do {
     used \<leftarrow> ptr_isUsed bs this;
     if used then
       if szadd (szadd (mOffset this) pOffset) len \<le> szadd (mOffset this) (mLength this) then do {
         (tmp, bs) \<leftarrow> child_new (mPtr this) this bs;
         (ptr, bs) \<leftarrow> child_assign False ptr tmp bs;
         bs \<leftarrow> child_destroy tmp bs;
         let p = (fst ptr)\<lparr>mType := type\<rparr>;
         let own = (if alias then p else this);
         let p = p\<lparr>mOffset := szadd (mOffset own) pOffset\<rparr>;
         let p = p\<lparr>mLength := len\<rparr>;
         Some ((p, snd ptr), bs, True) }
       else Some (ptr, bs, False)
     else Some (ptr, bs, False) }"

lemma const_classes_agree [simp]:
  "cptr_asSlice = ptr_asSlice" "cchild_copy_from = child_copy"
  "cchild_assign_from this other = child_assign False this other" "cptr_getChild = ptr_getChild"
  by (intro ext; simp add: cptr_asSlice_def ptr_asSlice_def cchild_copy_from_def child_copy_def
      cchild_assign_from_def child_assign_def cptr_getChild_def ptr_getChild_def)+

subsection \<open>Right counters\<close>

text \<open>
  No object is larger than half of the address space (\<open>PTRDIFF_MAX\<close>), so offsets and lengths
  inside a buffer never wrap when they are added.
\<close>

definition max_object :: size_t where
  "max_object = 2 ^ 63"

definition refs :: "nat \<Rightarrow> pointer multiset \<Rightarrow> nat" where
  "refs b P = size (filter_mset (\<lambda>p. mPtr p = Some b) P)"

definition in_range :: "buffers \<Rightarrow> pointer \<Rightarrow> bool" where
  "in_range bs p \<longleftrightarrow> (\<forall>b. mPtr p = Some b \<longrightarrow>
     b < length bs \<and> mOffset p + mLength p \<le> mNumberOfElements (sbBuffer (bs ! b)))"

definition counted :: "pointer multiset \<Rightarrow> buffers \<Rightarrow> bool" where
  "counted P bs \<longleftrightarrow>
     (\<forall>b < length bs. mReferenceCounter (bs ! b) = refs b P \<and>
        mNumberOfElements (sbBuffer (bs ! b)) < max_object) \<and>
     (\<forall>p \<in># P. in_range bs p)"

text \<open>The buffers show the same memory as before; only counters may have changed.\<close>

definition same_memory :: "buffers \<Rightarrow> buffers \<Rightarrow> bool" where
  "same_memory bs bs' \<longleftrightarrow> map sbBuffer bs' = map sbBuffer bs"

lemma same_memory_refl [simp]: "same_memory bs bs"
  by (simp add: same_memory_def)

lemma same_memory_trans: "same_memory a b \<Longrightarrow> same_memory b c \<Longrightarrow> same_memory a c"
  by (simp add: same_memory_def)

lemma same_memory_length: "same_memory bs bs' \<Longrightarrow> length bs' = length bs"
  by (metis length_map same_memory_def)

lemma same_memory_nth: "same_memory bs bs' \<Longrightarrow> b < length bs \<Longrightarrow> sbBuffer (bs' ! b) = sbBuffer (bs ! b)"
  by (metis length_map nth_map same_memory_def)

lemma same_memory_range: "same_memory bs bs' \<Longrightarrow> in_range bs' p \<longleftrightarrow> in_range bs p"
  by (auto simp: in_range_def same_memory_length same_memory_nth)

lemma refs_add_mset [simp]:
  "refs b (add_mset p P) = (if mPtr p = Some b then Suc (refs b P) else refs b P)"
  by (simp add: refs_def)

lemma refs_empty [simp]: "refs b {#} = 0"
  by (simp add: refs_def)

lemma refs_le_size: "refs b P \<le> size P"
  unfolding refs_def by (rule size_mset_mono) simp

lemma refs_zero_iff: "refs b P = 0 \<longleftrightarrow> (\<forall>p \<in># P. mPtr p \<noteq> Some b)"
  by (induction P) auto

lemma in_range_upd [simp]:
  "in_range (bs[b := x\<lparr>mReferenceCounter := n\<rparr>]) p \<longleftrightarrow> in_range (bs[b := x]) p"
  by (cases "b < length bs") (auto simp: in_range_def nth_list_update)

lemma same_memory_upd:
  "b < length bs \<Longrightarrow> same_memory bs (bs[b := (bs ! b)\<lparr>mReferenceCounter := n\<rparr>])"
  by (simp add: same_memory_def map_update) (metis length_map list_update_id nth_map)

lemma ptr_incrementCount_counted:
  assumes "counted P bs" and "in_range bs p" and "size P + 1 < 2 ^ size_bits"
  shows "\<exists>bs'. ptr_incrementCount p bs = Some bs' \<and> counted (add_mset p P) bs' \<and> same_memory bs bs'"
proof (cases "mPtr p")
  case None
  with assms show ?thesis by (auto simp: ptr_incrementCount_def counted_def)
next
  case (Some b)
  with assms(2) have b: "b < length bs" by (simp add: in_range_def)
  let ?bs = "bs[b := (bs ! b)\<lparr>mReferenceCounter := Suc (refs b P)\<rparr>]"
  have "szadd (refs b P) 1 = Suc (refs b P)"
    using refs_le_size [of b P] assms(3) by (simp add: szadd_exact)
  with b Some assms(1) have "ptr_incrementCount p bs = Some ?bs"
    by (simp add: ptr_incrementCount_def mem_simps sbuf_incrementCount_def incrementCountAtomic_def
        counted_def)
  moreover have "counted (add_mset p P) ?bs"
    using assms(1,2) b Some by (auto simp: counted_def nth_list_update)
  ultimately show ?thesis using same_memory_upd [OF b] by blast
qed

lemma ptr_decrementCount_counted:
  assumes "counted (add_mset p P) bs" and "size P + 1 < 2 ^ size_bits"
  shows "\<exists>bs'. ptr_decrementCount p bs = Some bs' \<and> counted P bs' \<and> same_memory bs bs'"
proof (cases "mPtr p")
  case None
  with assms show ?thesis by (auto simp: ptr_decrementCount_def counted_def)
next
  case (Some b)
  with assms(1) have b: "b < length bs" by (simp add: counted_def in_range_def)
  let ?bs = "bs[b := (bs ! b)\<lparr>mReferenceCounter := refs b P\<rparr>]"
  have "szsub (Suc (refs b P)) 1 = refs b P"
    using refs_le_size [of b P] assms(2) by (simp add: szsub_exact)
  with b Some assms(1) have "ptr_decrementCount p bs = Some ?bs"
    by (simp add: ptr_decrementCount_def mem_simps sbuf_decrementCount_def decrementCountAtomic_def
        counted_def)
  moreover have "counted P ?bs"
    using assms(1) b Some by (auto simp: counted_def nth_list_update split: if_splits)
  ultimately show ?thesis using same_memory_upd [OF b] by blast
qed

lemma counted_change:
  assumes "counted (add_mset p P) bs" and "mPtr q = mPtr p" and "in_range bs q"
  shows "counted (add_mset q P) bs"
  using assms by (simp add: counted_def)


lemma null_pointers: "counted P bs \<Longrightarrow> counted (add_mset ptr_null P) bs"
  by (simp add: counted_def in_range_def ptr_null_def)

lemma pointer_all_fields [simp]:
  "p\<lparr>mPtr := mPtr q, mType := mType q, mOffset := mOffset q, mLength := mLength q\<rparr> = (q :: pointer)"
  "\<lparr>mPtr = mPtr q, mType = mType q, mOffset = mOffset q, mLength = mLength q\<rparr> = (q :: pointer)"
  by simp_all

lemma counted_ranges: "counted P bs \<Longrightarrow> p \<in># P \<Longrightarrow> in_range bs p"
  by (simp add: counted_def)

lemma ptr_from_counted:
  assumes "counted P bs" and "\<forall>b. pT = Some b \<longrightarrow> b < length bs" and "size P + 1 < 2 ^ size_bits"
  shows "\<exists>p bs'. ptr_from pT bs = Some (p, bs') \<and> counted (add_mset p P) bs' \<and> same_memory bs bs' \<and>
    in_range bs p \<and> p = \<lparr>mPtr = pT, mType = 0, mOffset = 0, mLength = (case pT of None \<Rightarrow> 0
      | Some b \<Rightarrow> mNumberOfElements (sbBuffer (bs ! b)))\<rparr>"
proof -
  let ?p = "\<lparr>mPtr = pT, mType = 0, mOffset = 0, mLength = (case pT of None \<Rightarrow> 0
      | Some b \<Rightarrow> mNumberOfElements (sbBuffer (bs ! b)))\<rparr>"
  have "in_range bs ?p" using assms(2) by (simp add: in_range_def)
  moreover from ptr_incrementCount_counted [OF assms(1) this assms(3)]
  obtain bs' where "ptr_incrementCount ?p bs = Some bs'" "counted (add_mset ?p P) bs'" "same_memory bs bs'"
    by blast
  moreover from this(1) assms(2) have "ptr_from pT bs = Some (?p, bs')"
    by (cases pT) (simp_all add: ptr_from_def mem_simps getNumberOfElements_def)
  ultimately show ?thesis by blast
qed

lemma ptr_copy_counted:
  assumes "counted P bs" and "in_range bs p" and "size P + 1 < 2 ^ size_bits"
  shows "\<exists>bs'. ptr_copy p bs = Some (p, bs') \<and> counted (add_mset p P) bs' \<and> same_memory bs bs'"
  using ptr_incrementCount_counted [OF assms] by (auto simp: ptr_copy_def Let_def)

lemma ptr_assign_counted:
  assumes "counted (add_mset this P) bs" and "in_range bs other" and "size P + 1 < 2 ^ size_bits"
  shows "\<exists>bs'. ptr_assign False this other bs = Some (other, bs') \<and> counted (add_mset other P) bs' \<and>
    same_memory bs bs'"
proof -
  from ptr_decrementCount_counted [OF assms(1,3)] obtain bs1 where
    1: "ptr_decrementCount this bs = Some bs1" "counted P bs1" "same_memory bs bs1" by blast
  with assms(2) have "in_range bs1 other" by (simp add: same_memory_range)
  from ptr_incrementCount_counted [OF 1(2) this assms(3)] obtain bs2 where
    2: "ptr_incrementCount other bs1 = Some bs2" "counted (add_mset other P) bs2" "same_memory bs1 bs2" by blast
  from 1(1,2) 2(1,2) same_memory_trans [OF 1(3) 2(3)] show ?thesis by (auto simp: ptr_assign_def Let_def)
qed

lemma child_copy_counted:
  assumes "counted P bs" and "in_range bs (fst c)" and "in_range bs (snd c)"
    and "size P + 2 < 2 ^ size_bits"
  shows "\<exists>bs'. child_copy c bs = Some (c, bs') \<and>
    counted (add_mset (fst c) (add_mset (snd c) P)) bs' \<and> same_memory bs bs'"
proof -
  from assms(1,2,4) ptr_copy_counted [of P bs "fst c"] obtain bs1 where
    1: "ptr_copy (fst c) bs = Some (fst c, bs1)" "counted (add_mset (fst c) P) bs1" "same_memory bs bs1"
    by auto
  with assms(3) have "in_range bs1 (snd c)" by (simp add: same_memory_range)
  with 1(2) assms(4) ptr_copy_counted [of "add_mset (fst c) P" bs1 "snd c"] obtain bs2 where
    2: "ptr_copy (snd c) bs1 = Some (snd c, bs2)"
       "counted (add_mset (snd c) (add_mset (fst c) P)) bs2" "same_memory bs1 bs2"
    by auto
  from 1(1,2) 2(1,2) same_memory_trans [OF 1(3) 2(3)] show ?thesis by (auto simp: child_copy_def add_mset_commute)
qed

lemma child_new_counted:
  assumes "counted P bs" and "\<forall>b. pT = Some b \<longrightarrow> b < length bs" and "in_range bs parent"
    and "size P + 2 < 2 ^ size_bits"
  shows "\<exists>p bs'. child_new pT parent bs = Some ((p, parent), bs') \<and>
    counted (add_mset p (add_mset parent P)) bs' \<and> same_memory bs bs' \<and> in_range bs p \<and>
    p = \<lparr>mPtr = pT, mType = 0, mOffset = 0, mLength = (case pT of None \<Rightarrow> 0
      | Some b \<Rightarrow> mNumberOfElements (sbBuffer (bs ! b)))\<rparr>"
proof -
  from assms(1,2,4) ptr_from_counted [of P bs pT] obtain p bs1 where
    1: "ptr_from pT bs = Some (p, bs1)" "counted (add_mset p P) bs1" "same_memory bs bs1" "in_range bs p"
      "p = \<lparr>mPtr = pT, mType = 0, mOffset = 0, mLength = (case pT of None \<Rightarrow> 0
        | Some b \<Rightarrow> mNumberOfElements (sbBuffer (bs ! b)))\<rparr>"
    by auto
  with assms(3) have "in_range bs1 parent" by (simp add: same_memory_range)
  with 1(2) assms(4) ptr_copy_counted [of "add_mset p P" bs1 parent] obtain bs2 where
    2: "ptr_copy parent bs1 = Some (parent, bs2)"
       "counted (add_mset parent (add_mset p P)) bs2" "same_memory bs1 bs2"
    by auto
  from 1(1) 2(1) have "child_new pT parent bs = Some ((p, parent), bs2)"
    by (simp add: child_new_def)
  with 1(3-5) 2(2,3) show ?thesis
    by (metis add_mset_commute same_memory_trans)
qed

lemma child_assign_counted:
  assumes "counted (add_mset (fst this) (add_mset (snd this) P)) bs"
    and "in_range bs (fst other)" and "in_range bs (snd other)" and "size P + 2 < 2 ^ size_bits"
  shows "\<exists>bs'. child_assign False this other bs = Some (other, bs') \<and>
    counted (add_mset (fst other) (add_mset (snd other) P)) bs' \<and> same_memory bs bs'"
proof -
  from assms(1,4) ptr_decrementCount_counted [of "fst this" "add_mset (snd this) P" bs] obtain bs1 where
    1: "ptr_decrementCount (fst this) bs = Some bs1" "counted (add_mset (snd this) P) bs1" "same_memory bs bs1"
    by auto
  with assms(3) have "in_range bs1 (snd other)" by (simp add: same_memory_range)
  with 1(2) assms(4) ptr_assign_counted [of "snd this" P bs1 "snd other"] obtain bs2 where
    2: "ptr_assign False (snd this) (snd other) bs1 = Some (snd other, bs2)"
       "counted (add_mset (snd other) P) bs2" "same_memory bs1 bs2"
    by auto
  from 1(3) 2(3) assms(2) have "in_range bs2 (fst other)" by (simp add: same_memory_range)
  with 2(2) assms(4) ptr_incrementCount_counted [of "add_mset (snd other) P" bs2 "fst other"] obtain bs3 where
    3: "ptr_incrementCount (fst other) bs2 = Some bs3"
       "counted (add_mset (fst other) (add_mset (snd other) P)) bs3" "same_memory bs2 bs3"
    by auto
  have "child_assign False this other bs = Some (other, bs3)"
    using 1(1) 2(1) 3(1) by (simp add: child_assign_def Let_def)
  with 1(3) 2(3) 3(2,3) show ?thesis by (metis same_memory_trans)
qed

lemma child_destroy_counted:
  assumes "counted (add_mset (fst c) (add_mset (snd c) P)) bs" and "size P + 2 < 2 ^ size_bits"
  shows "\<exists>bs'. child_destroy c bs = Some bs' \<and> counted P bs' \<and> same_memory bs bs'"
proof -
  from assms ptr_decrementCount_counted [of "snd c" "add_mset (fst c) P" bs] obtain bs1 where
    1: "ptr_decrementCount (snd c) bs = Some bs1" "counted (add_mset (fst c) P) bs1" "same_memory bs bs1"
    by (auto simp: add_mset_commute)
  with assms(2) ptr_decrementCount_counted [of "fst c" P bs1] obtain bs2 where
    2: "ptr_decrementCount (fst c) bs1 = Some bs2" "counted P bs2" "same_memory bs1 bs2"
    by auto
  from 1(1,2) 2(1,2) same_memory_trans [OF 1(3) 2(3)] show ?thesis by (auto simp: child_destroy_def ptr_destroy_def)
qed

lemma ptr_isUsed_iff:
  assumes "counted P bs" and "in_range bs p"
  shows "ptr_isUsed bs p = Some (\<exists>b. mPtr p = Some b \<and> 0 < refs b P)"
  using assms by (auto simp: ptr_isUsed_def in_range_def counted_def mem_simps sbuf_isUsed_def
      isUsedAtomic_def split: option.splits)

subsection \<open>Children\<close>

text \<open>The test of \<open>getChild\<close>, for arguments that do not wrap.\<close>

definition child_fits :: "pointer \<Rightarrow> size_t \<Rightarrow> size_t \<Rightarrow> bool" where
  "child_fits p pOffset len \<longleftrightarrow> pOffset + len \<le> mLength p"

lemma child_test:
  assumes "counted P bs" and "in_range bs p" and "mPtr p = Some b" and "pOffset + len < max_object"
  shows "szadd (szadd (mOffset p) pOffset) len \<le> szadd (mOffset p) (mLength p) \<longleftrightarrow>
      child_fits p pOffset len"
    and "szadd (mOffset p) pOffset = mOffset p + pOffset"
    and "mOffset p + mLength p < max_object"
proof -
  from assms show r: "mOffset p + mLength p < max_object"
    by (fastforce simp: counted_def in_range_def)
  have "(2::nat) ^ 64 = max_object + max_object" by (simp add: max_object_def)
  with r assms(4) have "mOffset p + pOffset + len < 2 ^ size_bits" "mOffset p + mLength p < 2 ^ size_bits"
    unfolding size_bits_def by linarith+
  then show "szadd (szadd (mOffset p) pOffset) len \<le> szadd (mOffset p) (mLength p) \<longleftrightarrow> child_fits p pOffset len"
    and "szadd (mOffset p) pOffset = mOffset p + pOffset"
    by (simp_all add: szadd_exact child_fits_def)
qed

text \<open>
  What \<open>getChild\<close> does, in both cases. When the receiver is another object than the one the
  method is called on, the new child starts at \<open>pOffset\<close> from the start of its parent.
\<close>

lemma ptr_getChild_refused:
  assumes "counted P bs" and "in_range bs this" and "pOffset + len < max_object"
    and "\<not> ((\<exists>b. mPtr this = Some b \<and> 0 < refs b P) \<and> child_fits this pOffset len)"
  shows "ptr_getChild alias this ptr type pOffset len bs = Some (ptr, bs, False)"
proof (cases "mPtr this")
  case None
  then show ?thesis using assms ptr_isUsed_iff [OF assms(1,2)] by (simp add: ptr_getChild_def)
next
  case (Some b)
  with assms ptr_isUsed_iff [OF assms(1,2)] child_test(1) [OF assms(1,2) Some assms(3)]
  show ?thesis by (auto simp: ptr_getChild_def)
qed

definition child_fields :: "bool \<Rightarrow> pointer \<Rightarrow> u16 \<Rightarrow> size_t \<Rightarrow> size_t \<Rightarrow> pointer" where
  "child_fields alias this type pOffset len = \<lparr>mPtr = mPtr this, mType = type,
     mOffset = (if alias then 0 else mOffset this) + pOffset, mLength = len\<rparr>"

lemma child_fields_range:
  assumes "in_range bs this" and "child_fits this pOffset len"
  shows "in_range bs (child_fields alias this type pOffset len)"
  using assms by (fastforce simp: in_range_def child_fields_def child_fits_def)

lemma ptr_getChild_counted:
  assumes c: "counted (add_mset (fst ptr) (add_mset (snd ptr) P)) bs"
    and ok: "in_range bs this" "mPtr this = Some b" "0 < refs b (add_mset (fst ptr) (add_mset (snd ptr) P))"
    and fits: "child_fits this pOffset len" "pOffset + len < max_object"
    and size: "size P + 4 < 2 ^ size_bits"
  shows "\<exists>bs'. ptr_getChild alias this ptr type pOffset len bs =
      Some ((child_fields alias this type pOffset len, this), bs', True) \<and>
    counted (add_mset (child_fields alias this type pOffset len) (add_mset this P)) bs' \<and> same_memory bs bs'"
proof -
  let ?P = "add_mset (fst ptr) (add_mset (snd ptr) P)"
  have b: "\<forall>b. mPtr this = Some b \<longrightarrow> b < length bs" using ok(1) by (auto simp: in_range_def)
  from child_new_counted [OF c b ok(1)] size obtain p bs1 where
    1: "child_new (mPtr this) this bs = Some ((p, this), bs1)"
       "counted (add_mset p (add_mset this ?P)) bs1" "same_memory bs bs1" "in_range bs p"
       "p = \<lparr>mPtr = mPtr this, mType = 0, mOffset = 0,
         mLength = mNumberOfElements (sbBuffer (bs ! b))\<rparr>"
    using ok(2) by auto
  have c1: "counted (add_mset (fst ptr) (add_mset (snd ptr) (add_mset p (add_mset this P)))) bs1"
    using 1(2) by (simp add: add_mset_commute)
  have "in_range bs1 p" "in_range bs1 this" using 1(3,4) ok(1) by (simp_all add: same_memory_range)
  with child_assign_counted [OF c1, of "(p, this)"] size obtain bs2 where
    2: "child_assign False ptr (p, this) bs1 = Some ((p, this), bs2)"
       "counted (add_mset p (add_mset this (add_mset p (add_mset this P)))) bs2" "same_memory bs1 bs2"
    by auto
  from 2(2) child_destroy_counted [of "(p, this)" "add_mset p (add_mset this P)" bs2] size obtain bs3 where
    3: "child_destroy (p, this) bs2 = Some bs3" "counted (add_mset p (add_mset this P)) bs3" "same_memory bs2 bs3"
    by auto
  have m: "same_memory bs bs3" using 1(3) 2(3) 3(3) by (metis same_memory_trans)
  let ?q = "child_fields alias this type pOffset len"
  have "szadd 0 pOffset = pOffset"
    using fits(2) by (simp add: szadd_def size_bits_def max_object_def)
  then have "ptr_getChild alias this ptr type pOffset len bs = Some ((?q, this), bs3, True)"
    using 1(1,5) 2(1) 3(1) ptr_isUsed_iff [OF c ok(1)] ok(2,3) fits(1)
      child_test [OF c ok(1,2) fits(2)]
    by (simp add: ptr_getChild_def child_fields_def)
  moreover have "counted (add_mset ?q (add_mset this P)) bs3"
    using counted_change [OF 3(2), of ?q] 1(5) child_fields_range [OF ok(1) fits(1)] m
    by (simp add: child_fields_def same_memory_range)
  ultimately show ?thesis using m by blast
qed

end
