(* ===== verification/Buffer_Pool.thy ===== *)
theory Buffer_Pool
  imports Shared_Buffers Ring_Index
begin

text \<open>
  The pool of shared buffers (modules/utils/src/outpost/utils/container/shared_object_pool.h) and
  programs that use it.

  The buffers of the pool are the entries \<open>poolFirst\<close>, ..., \<open>poolFirst + poolCount - 1\<close> of the
  list of all buffers. A program is a sequence of calls on numbered variables, each of which
  holds a pointer object while it is alive; \<open>system_ok\<close> is the invariant of such a program.
  A call runs with the mutex of the pool or of the buffers held, so calls of different threads
  are steps of one sequence.
\<close>

subsection \<open>The pool\<close>

record pool =
  poolFirst :: nat
  poolCount :: size_t
  mLastIndex :: size_t

definition pool_buffer :: "pool \<Rightarrow> buffers \<Rightarrow> size_t \<Rightarrow> shared_buffer option" where
  "pool_buffer pl bs i = (if i < poolCount pl then aread bs (poolFirst pl + i) else None)"

text \<open>The branch of the loop that has found an unused buffer: \<open>pointer = SharedBufferPointer(&mBuffer[i])\<close>.\<close>

definition pool_take :: "pool \<Rightarrow> pointer \<Rightarrow> size_t \<Rightarrow> buffers \<Rightarrow> (pointer \<times> pool \<times> buffers \<times> bool) option" where
  "pool_take pl ptr i bs = do {
     (tmp, bs) \<leftarrow> ptr_from (Some (poolFirst pl + i)) bs;
     (ptr, bs) \<leftarrow> ptr_assign False ptr tmp bs;
     bs \<leftarrow> ptr_destroy tmp bs;
     Some (ptr, pl\<lparr>mLastIndex := szadd i 1 mod poolCount pl\<rparr>, bs, True) }"

text \<open>The \<open>do\<close> loop; the first argument bounds the number of rounds, \<open>None\<close> also if they run out.\<close>

fun pool_search ::
    "nat \<Rightarrow> pool \<Rightarrow> pointer \<Rightarrow> size_t \<Rightarrow> buffers \<Rightarrow> (pointer \<times> pool \<times> buffers \<times> bool) option" where
  "pool_search 0 pl ptr i bs = None"
| "pool_search (Suc n) pl ptr i bs = do {
     x \<leftarrow> pool_buffer pl bs i;
     (ptr, pl, bs, res) \<leftarrow> (if \<not> sbuf_isUsed x then pool_take pl ptr i bs else Some (ptr, pl, bs, False));
     let i = szadd i 1 mod poolCount pl;
     if i \<noteq> mLastIndex pl \<and> \<not> res then pool_search n pl ptr i bs else Some (ptr, pl, bs, res) }"

definition pool_allocate :: "pool \<Rightarrow> pointer \<Rightarrow> buffers \<Rightarrow> (pointer \<times> pool \<times> buffers \<times> bool) option" where
  "pool_allocate pl ptr bs = pool_search (poolCount pl) pl ptr (mLastIndex pl) bs"

definition pool_allocate_const ::
    "pool \<Rightarrow> pointer \<Rightarrow> buffers \<Rightarrow> (pointer \<times> pool \<times> buffers \<times> bool) option" where
  "pool_allocate_const pl ptr bs = pool_search (poolCount pl) pl ptr (mLastIndex pl) bs"

definition pool_numberOfElements :: "pool \<Rightarrow> size_t" where
  "pool_numberOfElements pl = poolCount pl"

fun pool_free_loop :: "pool \<Rightarrow> buffers \<Rightarrow> size_t \<Rightarrow> size_t \<Rightarrow> nat \<Rightarrow> size_t option" where
  "pool_free_loop pl bs temp i 0 = Some temp"
| "pool_free_loop pl bs temp i (Suc n) = do {
     x \<leftarrow> pool_buffer pl bs i;
     pool_free_loop pl bs (if \<not> sbuf_isUsed x then szadd temp 1 else temp) (szadd i 1) n }"

definition pool_numberOfFreeElements :: "pool \<Rightarrow> buffers \<Rightarrow> size_t option" where
  "pool_numberOfFreeElements pl bs = pool_free_loop pl bs 0 0 (poolCount pl)"

text \<open>\<open>initialize\<close> for elements of \<open>e\<close> bytes; the constructor runs it on empty buffers.\<close>

fun pool_initialize_loop :: "pool \<Rightarrow> size_t \<Rightarrow> nat option \<Rightarrow> size_t \<Rightarrow> nat \<Rightarrow> buffers \<Rightarrow> buffers option" where
  "pool_initialize_loop pl e address i 0 bs = Some bs"
| "pool_initialize_loop pl e address i (Suc n) bs = do {
     x \<leftarrow> pool_buffer pl bs i;
     bs \<leftarrow> awrite bs (poolFirst pl + i) (sbuf_setPointer (slice_unsafe (ptr_add address (i * e)) e) x);
     pool_initialize_loop pl e address (Suc i) n bs }"

definition pool_new :: "nat \<Rightarrow> size_t \<Rightarrow> size_t \<Rightarrow> nat option \<Rightarrow> buffers \<Rightarrow> (pool \<times> buffers) option" where
  "pool_new first e n address bs = do {
     let pl = \<lparr>poolFirst = first, poolCount = n, mLastIndex = 0\<rparr>;
     bs \<leftarrow> pool_initialize_loop pl e address 0 n bs;
     Some (pl, bs) }"

definition pool_inv :: "pool \<Rightarrow> buffers \<Rightarrow> bool" where
  "pool_inv pl bs \<longleftrightarrow> mLastIndex pl < poolCount pl \<and> poolCount pl < 2 ^ size_bits \<and>
     poolFirst pl + poolCount pl \<le> length bs"

subsection \<open>The search visits every buffer once\<close>

definition pool_used :: "pool \<Rightarrow> buffers \<Rightarrow> nat \<Rightarrow> bool" where
  "pool_used pl bs i \<longleftrightarrow> sbuf_isUsed (bs ! (poolFirst pl + i))"

lemma pool_buffer_Some:
  "pool_inv pl bs \<Longrightarrow> i < poolCount pl \<Longrightarrow> pool_buffer pl bs i = Some (bs ! (poolFirst pl + i))"
  by (simp add: pool_buffer_def pool_inv_def mem_simps)

lemma pool_take_result:
  assumes "pool_take pl ptr i bs = Some (ptr', pl', bs', res)"
  shows "res" and "mLastIndex pl' = szadd i 1 mod poolCount pl" and "poolCount pl' = poolCount pl"
  using assms by (auto simp: pool_take_def bind_eq_Some_conv)

lemma pool_search_find:
  assumes "pool_inv pl bs" and "k < poolCount pl"
  shows "pool_search (poolCount pl - k) pl ptr ((mLastIndex pl + k) mod poolCount pl) bs =
    (case find (\<lambda>j. \<not> pool_used pl bs ((mLastIndex pl + j) mod poolCount pl)) [k..<poolCount pl] of
       None \<Rightarrow> Some (ptr, pl, bs, False)
     | Some j \<Rightarrow> pool_take pl ptr ((mLastIndex pl + j) mod poolCount pl) bs)"
  using assms
proof (induction "poolCount pl - k" arbitrary: k)
  case 0
  then show ?case by simp
next
  case (Suc n)
  let ?N = "poolCount pl" and ?l = "mLastIndex pl"
  let ?i = "(?l + k) mod ?N"
  have N: "?l < ?N" "?N < 2 ^ size_bits" using Suc.prems by (simp_all add: pool_inv_def)
  have fuel: "?N - k = Suc (?N - Suc k)" using Suc.prems by simp
  have i: "?i < ?N" using N by simp
  have step: "szadd ?i 1 mod ?N = (?l + Suc k) mod ?N"
    using i N(2) by (simp add: szadd_exact mod_Suc_eq)
  have l: "[k..<?N] = k # [Suc k..<?N]" using Suc.prems by (simp add: upt_conv_Cons)
  show ?case
  proof (cases "pool_used pl bs ?i")
    case False
    have loop: "pool_search (?N - k) pl ptr ?i bs = pool_take pl ptr ?i bs"
    proof (cases "pool_take pl ptr ?i bs")
      case None
      then show ?thesis using False i by (simp add: fuel pool_buffer_Some Suc.prems pool_used_def)
    next
      case (Some r)
      obtain ptr' pl' bs' res where r: "r = (ptr', pl', bs', res)" by (cases r)
      with pool_take_result [OF Some [unfolded r]] Some False i show ?thesis
        by (simp add: fuel pool_buffer_Some Suc.prems pool_used_def)
    qed
    with False show ?thesis by (simp add: l)
  next
    case True
    show ?thesis
    proof (cases "Suc k < ?N")
      case last: False
      then have "Suc k = ?N" using Suc.prems by simp
      with N have "(?l + Suc k) mod ?N = ?l" by simp
      with True i last step show ?thesis
        by (simp add: fuel l pool_buffer_Some Suc.prems pool_used_def)
    next
      case more: True
      with N have "(?l + Suc k) mod ?N \<noteq> ?l" by (intro mod_step_ne) auto
      with True i step Suc.hyps(1) [of "Suc k"] Suc.hyps(2) Suc.prems more show ?thesis
        by (simp add: fuel l pool_buffer_Some pool_used_def)
    qed
  qed
qed


lemma pool_used_refs:
  assumes "counted P bs" and "pool_inv pl bs" and "i < poolCount pl"
  shows "pool_used pl bs i \<longleftrightarrow> 0 < refs (poolFirst pl + i) P"
  using assms by (simp add: pool_used_def sbuf_isUsed_def isUsedAtomic_def counted_def pool_inv_def)

lemma pool_allocate_find:
  assumes "pool_inv pl bs"
  shows "pool_allocate pl ptr bs =
    (case find (\<lambda>j. \<not> pool_used pl bs ((mLastIndex pl + j) mod poolCount pl)) [0..<poolCount pl] of
       None \<Rightarrow> Some (ptr, pl, bs, False)
     | Some j \<Rightarrow> pool_take pl ptr ((mLastIndex pl + j) mod poolCount pl) bs)"
  using pool_search_find [OF assms, of 0] assms by (simp add: pool_allocate_def pool_inv_def)

lemma pool_allocate_full:
  assumes "pool_inv pl bs" and "\<forall>i < poolCount pl. pool_used pl bs i"
  shows "pool_allocate pl ptr bs = Some (ptr, pl, bs, False)"
proof -
  have "find (\<lambda>j. \<not> pool_used pl bs ((mLastIndex pl + j) mod poolCount pl)) [0..<poolCount pl] = None"
    using assms by (auto simp: find_None_iff pool_inv_def)
  then show ?thesis by (simp add: pool_allocate_find [OF assms(1)])
qed

definition whole_buffer :: "buffers \<Rightarrow> nat \<Rightarrow> pointer" where
  "whole_buffer bs b = \<lparr>mPtr = Some b, mType = 0, mOffset = 0,
     mLength = mNumberOfElements (sbBuffer (bs ! b))\<rparr>"

lemma pool_take_counted:
  assumes c: "counted (add_mset ptr P) bs" and inv: "pool_inv pl bs" and i: "i < poolCount pl"
    and size: "size P + 2 < 2 ^ size_bits"
  shows "\<exists>pl' bs'. pool_take pl ptr i bs = Some (whole_buffer bs (poolFirst pl + i), pl', bs', True) \<and>
    counted (add_mset (whole_buffer bs (poolFirst pl + i)) P) bs' \<and> same_memory bs bs' \<and>
    pl' = pl\<lparr>mLastIndex := Suc i mod poolCount pl\<rparr>"
proof -
  let ?w = "whole_buffer bs (poolFirst pl + i)"
  have b: "\<forall>b. Some (poolFirst pl + i) = Some b \<longrightarrow> b < length bs" using inv i by (simp add: pool_inv_def)
  from ptr_from_counted [OF c b] size obtain bs1 where
    1: "ptr_from (Some (poolFirst pl + i)) bs = Some (?w, bs1)" "counted (add_mset ?w (add_mset ptr P)) bs1"
       "same_memory bs bs1" "in_range bs ?w"
    by (auto simp: whole_buffer_def)
  then have "in_range bs1 ?w" by (simp add: same_memory_range)
  with 1(2) size ptr_assign_counted [of ptr "add_mset ?w P" bs1 ?w] obtain bs2 where
    2: "ptr_assign False ptr ?w bs1 = Some (?w, bs2)" "counted (add_mset ?w (add_mset ?w P)) bs2"
       "same_memory bs1 bs2"
    by (auto simp: add_mset_commute)
  from 2(2) size ptr_decrementCount_counted [of ?w "add_mset ?w P" bs2] obtain bs3 where
    3: "ptr_destroy ?w bs2 = Some bs3" "counted (add_mset ?w P) bs3" "same_memory bs2 bs3"
    by (auto simp: ptr_destroy_def)
  have "szadd i 1 = Suc i" using inv i by (simp add: pool_inv_def szadd_exact)
  then have "pool_take pl ptr i bs = Some (?w, pl\<lparr>mLastIndex := Suc i mod poolCount pl\<rparr>, bs3, True)"
    using 1(1) 2(1) 3(1) by (simp add: pool_take_def)
  moreover have "same_memory bs bs3" using 1(3) 2(3) 3(3) by (metis same_memory_trans)
  ultimately show ?thesis using 3(2) by blast
qed

lemma pool_allocate_free:
  assumes c: "counted (add_mset ptr P) bs" and inv: "pool_inv pl bs"
    and free: "\<exists>i < poolCount pl. \<not> pool_used pl bs i" and size: "size P + 2 < 2 ^ size_bits"
  shows "\<exists>i pl' bs'. i < poolCount pl \<and> \<not> pool_used pl bs i \<and>
    pool_allocate pl ptr bs = Some (whole_buffer bs (poolFirst pl + i), pl', bs', True) \<and>
    counted (add_mset (whole_buffer bs (poolFirst pl + i)) P) bs' \<and> same_memory bs bs' \<and>
    pl' = pl\<lparr>mLastIndex := Suc i mod poolCount pl\<rparr>"
proof -
  let ?N = "poolCount pl" and ?free = "\<lambda>j. \<not> pool_used pl bs ((mLastIndex pl + j) mod poolCount pl)"
  from free obtain i where i: "i < ?N" "\<not> pool_used pl bs i" by blast
  with rotation_reaches [of i ?N "mLastIndex pl"] inv have "\<exists>j < ?N. ?free j"
    by (auto simp: pool_inv_def)
  then have "find ?free [0..<?N] \<noteq> None" by (auto simp: find_None_iff)
  then obtain j where j: "find ?free [0..<?N] = Some j" by blast
  then have "?free j" by (auto simp: find_Some_iff)
  moreover have "(mLastIndex pl + j) mod ?N < ?N" using inv by (simp add: pool_inv_def)
  ultimately show ?thesis
    using pool_take_counted [OF c inv _ size] j by (auto simp: pool_allocate_find [OF inv])
qed

subsection \<open>The number of free elements\<close>

lemma pool_free_loop_counts:
  assumes "pool_inv pl bs" and "i + n = poolCount pl" and "temp \<le> i"
  shows "pool_free_loop pl bs temp i n = Some (temp + length (filter (\<lambda>i. \<not> pool_used pl bs i) [i..<poolCount pl]))"
  using assms
proof (induction n arbitrary: i temp)
  case 0
  then show ?case by simp
next
  case (Suc n)
  have "poolCount pl < 2 ^ size_bits" using Suc.prems by (simp add: pool_inv_def)
  with Suc.prems have "szadd temp 1 = Suc temp" "szadd i 1 = Suc i" by (simp_all add: szadd_exact)
  moreover have "[i..<poolCount pl] = i # [Suc i..<poolCount pl]"
    using Suc.prems by (simp add: upt_conv_Cons)
  ultimately show ?case
    using Suc.prems Suc.IH [of "Suc i"] by (simp add: pool_buffer_Some pool_used_def)
qed

lemma pool_numberOfFreeElements_counts:
  "pool_inv pl bs \<Longrightarrow> pool_numberOfFreeElements pl bs =
     Some (card {i. i < poolCount pl \<and> \<not> pool_used pl bs i})"
  using pool_free_loop_counts [of pl bs 0 "poolCount pl" 0] distinct_card [of "filter (\<lambda>i. \<not> pool_used pl bs i) [0..<poolCount pl]"]
  by (simp add: pool_numberOfFreeElements_def conj_commute)


subsection \<open>A fresh pool\<close>

lemma pool_initialize_loop_fresh:
  assumes "bs = xs @ replicate n sbuf_empty" and "length xs = poolFirst pl + i" and "i + n = poolCount pl"
  shows "pool_initialize_loop pl e a i n bs =
    Some (xs @ map (\<lambda>j. sbuf_new (slice_unsafe (ptr_add a (j * e)) e)) [i..<poolCount pl])"
  using assms
proof (induction n arbitrary: i bs xs)
  case 0
  then show ?case by simp
next
  case (Suc n)
  let ?b = "sbuf_new (slice_unsafe (ptr_add a (i * e)) e)"
  have "sbuf_setPointer (slice_unsafe (ptr_add a (i * e)) e) sbuf_empty = ?b"
    by (simp add: sbuf_setPointer_def sbuf_isUsed_def isUsedAtomic_def sbuf_empty_def sbuf_new_def)
  moreover have "pool_buffer pl bs i = Some sbuf_empty"
    using Suc.prems by (simp add: pool_buffer_def mem_simps nth_append)
  moreover have "awrite bs (poolFirst pl + i) ?b = Some ((xs @ [?b]) @ replicate n sbuf_empty)"
    using Suc.prems by (simp add: mem_simps list_update_append)
  moreover have "[i..<poolCount pl] = i # [Suc i..<poolCount pl]"
    using Suc.prems by (simp add: upt_conv_Cons)
  ultimately show ?case
    using Suc.prems Suc.IH [of "(xs @ [?b]) @ replicate n sbuf_empty" "xs @ [?b]" "Suc i"] by simp
qed

lemma pool_new_fresh:
  "pool_new 0 e n a (replicate n sbuf_empty) =
     Some (\<lparr>poolFirst = 0, poolCount = n, mLastIndex = 0\<rparr>,
       map (\<lambda>j. sbuf_new (slice_unsafe (ptr_add a (j * e)) e)) [0..<n])"
  using pool_initialize_loop_fresh [of "replicate n sbuf_empty" "[]" n
      "\<lparr>poolFirst = 0, poolCount = n, mLastIndex = 0\<rparr>" 0 e a]
  by (simp add: pool_new_def Let_def)

subsection \<open>Programs\<close>

record system =
  sysBuffers :: buffers
  sysObjects :: "pobject option list"
  sysPool :: pool

text \<open>
  The calls. In \<open>CopyOf\<close>, \<open>Assign\<close> and \<open>Allocate\<close> a child object stands for its part of type
  \<open>SharedBufferPointer\<close>, as in the code when it is passed by a reference to that class.
\<close>

datatype call =
    Declare nat
  | DeclareChild nat
  | Wrap nat nat
  | CopyOf nat nat
  | CopyChild nat nat
  | Assign nat nat
  | AssignChild nat nat
  | SetType nat u16
  | GetChild nat nat u16 size_t size_t
  | GetParent nat nat
  | GetOrigin nat nat
  | Destroy nat
  | SetPointer nat slice
  | Allocate nat

definition object_at :: "system \<Rightarrow> nat \<Rightarrow> pobject option" where
  "object_at st v = (if v < length (sysObjects st) then sysObjects st ! v else None)"

definition child_at :: "system \<Rightarrow> nat \<Rightarrow> child option" where
  "child_at st v = (case object_at st v of Some (ChildPointer p parent) \<Rightarrow> Some (p, parent) | _ \<Rightarrow> None)"

definition unused_variable :: "system \<Rightarrow> nat \<Rightarrow> bool" where
  "unused_variable st v \<longleftrightarrow> v < length (sysObjects st) \<and> sysObjects st ! v = None"

definition store :: "nat \<Rightarrow> pobject option \<Rightarrow> buffers \<Rightarrow> system \<Rightarrow> system" where
  "store v ob bs st = st\<lparr>sysObjects := (sysObjects st)[v := ob], sysBuffers := bs\<rparr>"

text \<open>\<open>None\<close>: a call on a variable that does not hold an object of the right class.\<close>

fun call_step :: "call \<Rightarrow> system \<Rightarrow> (system \<times> bool) option" where
  "call_step (Declare v) st =
     (if unused_variable st v then Some (store v (Some (BufferPointer ptr_null)) (sysBuffers st) st, True) else None)"
| "call_step (DeclareChild v) st =
     (if unused_variable st v
      then Some (store v (Some (ChildPointer (fst child_null) (snd child_null))) (sysBuffers st) st, True) else None)"
| "call_step (Wrap v b) st =
     (if unused_variable st v \<and> b < length (sysBuffers st)
      then do { (p, bs) \<leftarrow> ptr_from (Some b) (sysBuffers st); Some (store v (Some (BufferPointer p)) bs st, True) }
      else None)"
| "call_step (CopyOf v w) st =
     (if unused_variable st v
      then do { ob \<leftarrow> object_at st w; (p, bs) \<leftarrow> ptr_copy (obj_base ob) (sysBuffers st);
                Some (store v (Some (BufferPointer p)) bs st, True) }
      else None)"
| "call_step (CopyChild v w) st =
     (if unused_variable st v
      then do { c \<leftarrow> child_at st w; (c, bs) \<leftarrow> child_copy c (sysBuffers st);
                Some (store v (Some (ChildPointer (fst c) (snd c))) bs st, True) }
      else None)"
| "call_step (Assign v w) st = do {
     this \<leftarrow> object_at st v; other \<leftarrow> object_at st w;
     (p, bs) \<leftarrow> ptr_assign (v = w) (obj_base this) (obj_base other) (sysBuffers st);
     Some (store v (Some (obj_with_base this p)) bs st, True) }"
| "call_step (AssignChild v w) st = do {
     this \<leftarrow> child_at st v; other \<leftarrow> child_at st w;
     (c, bs) \<leftarrow> child_assign (v = w) this other (sysBuffers st);
     Some (store v (Some (ChildPointer (fst c) (snd c))) bs st, True) }"
| "call_step (SetType v t) st = do {
     this \<leftarrow> object_at st v;
     Some (store v (Some (obj_with_base this (ptr_setType t (obj_base this)))) (sysBuffers st) st, True) }"
| "call_step (GetChild v w t pOffset len) st = do {
     ptr \<leftarrow> child_at st v; this \<leftarrow> object_at st w;
     (c, bs, r) \<leftarrow> ptr_getChild (v = w) (obj_base this) ptr t pOffset len (sysBuffers st);
     Some (store v (Some (ChildPointer (fst c) (snd c))) bs st, r) }"
| "call_step (GetParent v w) st =
     (if unused_variable st v
      then do { c \<leftarrow> child_at st w; (p, bs) \<leftarrow> child_getParent c (sysBuffers st);
                Some (store v (Some (BufferPointer p)) bs st, True) }
      else None)"
| "call_step (GetOrigin v w) st =
     (if unused_variable st v
      then do { c \<leftarrow> child_at st w; (p, bs) \<leftarrow> child_getOrigin c (sysBuffers st);
                Some (store v (Some (BufferPointer p)) bs st, True) }
      else None)"
| "call_step (Destroy v) st = do {
     ob \<leftarrow> object_at st v;
     bs \<leftarrow> (case ob of BufferPointer p \<Rightarrow> ptr_destroy p (sysBuffers st)
            | ChildPointer p parent \<Rightarrow> child_destroy (p, parent) (sysBuffers st));
     Some (store v None bs st, True) }"
| "call_step (SetPointer b s) st = do {
     x \<leftarrow> aread (sysBuffers st) b;
     bs \<leftarrow> awrite (sysBuffers st) b (sbuf_setPointer s x);
     Some (st\<lparr>sysBuffers := bs\<rparr>, True) }"
| "call_step (Allocate v) st = do {
     ob \<leftarrow> object_at st v;
     (p, pl, bs, r) \<leftarrow> pool_allocate (sysPool st) (obj_base ob) (sysBuffers st);
     Some (store v (Some (obj_with_base ob p)) bs (st\<lparr>sysPool := pl\<rparr>), r) }"

fun call_steps :: "call list \<Rightarrow> system \<Rightarrow> system option" where
  "call_steps [] st = Some st"
| "call_steps (c # cs) st = do { (st, r) \<leftarrow> call_step c st; call_steps cs st }"

text \<open>Sizes that the address space of the machine allows.\<close>

fun sizes_ok :: "call \<Rightarrow> bool" where
  "sizes_ok (GetChild v w t pOffset len) \<longleftrightarrow> pOffset + len < max_object"
| "sizes_ok (SetPointer b s) \<longleftrightarrow> mNumberOfElements s < max_object"
| "sizes_ok _ \<longleftrightarrow> True"

definition system_start :: "nat \<Rightarrow> size_t \<Rightarrow> size_t \<Rightarrow> nat option \<Rightarrow> system option" where
  "system_start variables e n address = do {
     (pl, bs) \<leftarrow> pool_new 0 e n address (replicate n sbuf_empty);
     Some \<lparr>sysBuffers = bs, sysObjects = replicate variables None, sysPool = pl\<rparr> }"

subsection \<open>The pointers that live\<close>

fun slot_pointers :: "pobject option \<Rightarrow> pointer multiset" where
  "slot_pointers None = {#}"
| "slot_pointers (Some (BufferPointer p)) = {#p#}"
| "slot_pointers (Some (ChildPointer p parent)) = {#p, parent#}"

definition live :: "pobject option list \<Rightarrow> pointer multiset" where
  "live objs = sum_list (map slot_pointers objs)"

definition system_ok :: "system \<Rightarrow> bool" where
  "system_ok st \<longleftrightarrow> counted (live (sysObjects st)) (sysBuffers st) \<and> pool_inv (sysPool st) (sysBuffers st) \<and>
     2 * length (sysObjects st) + 4 < 2 ^ size_bits"

lemma live_split: "v < length objs \<Longrightarrow> live objs = slot_pointers (objs ! v) + live (objs[v := None])"
  by (induction objs arbitrary: v) (auto simp: live_def nth_Cons ac_simps split: nat.splits)

lemma live_update: "v < length objs \<Longrightarrow> live (objs[v := ob]) = slot_pointers ob + live (objs[v := None])"
  using live_split [of v "objs[v := ob]"] by simp

lemma size_slot: "size (slot_pointers ob) \<le> 2"
  by (cases ob rule: slot_pointers.cases) auto

lemma size_live: "size (live objs) \<le> 2 * length objs"
proof (induction objs)
  case Nil
  then show ?case by (simp add: live_def)
next
  case (Cons ob objs)
  then show ?case using size_slot [of ob] by (simp add: live_def)
qed

lemma size_others:
  assumes "system_ok st" and "v < length (sysObjects st)"
  shows "size (live ((sysObjects st)[v := None])) + 4 < 2 ^ size_bits"
  using assms size_live [of "(sysObjects st)[v := None]"] by (simp add: system_ok_def)


text \<open>The pointers of an object besides the fields of its base class.\<close>

fun obj_rest :: "pobject \<Rightarrow> pointer multiset" where
  "obj_rest (BufferPointer p) = {#}"
| "obj_rest (ChildPointer p parent) = {#parent#}"

lemma slot_with_base [simp]:
  "slot_pointers (Some (obj_with_base ob p)) = add_mset p (obj_rest ob)"
  by (cases ob) simp_all

lemma slot_base: "slot_pointers (Some ob) = add_mset (obj_base ob) (obj_rest ob)"
  by (cases ob) simp_all

lemma with_own_base [simp]: "obj_with_base ob (obj_base ob) = ob"
  by (cases ob) simp_all

abbreviation others :: "system \<Rightarrow> nat \<Rightarrow> pointer multiset" where
  "others st v \<equiv> live ((sysObjects st)[v := None])"

lemma object_live:
  assumes "object_at st v = Some ob"
  shows "v < length (sysObjects st)" and "live (sysObjects st) = slot_pointers (Some ob) + others st v"
  using assms live_split [of v "sysObjects st"] by (auto simp: object_at_def split: if_splits)

lemma child_at_object: "child_at st v = Some c \<longleftrightarrow> object_at st v = Some (ChildPointer (fst c) (snd c))"
  by (cases c) (auto simp: child_at_def split: option.splits pobject.splits)

lemma object_range:
  assumes "system_ok st" and "object_at st v = Some ob" and "p \<in># slot_pointers (Some ob)"
  shows "in_range (sysBuffers st) p" and "p \<in># live (sysObjects st)"
  using assms object_live(2) [OF assms(2)] by (auto simp: system_ok_def counted_def)

lemma unused_live:
  assumes "unused_variable st v"
  shows "v < length (sysObjects st)" and "others st v = live (sysObjects st)"
proof -
  from assms show v: "v < length (sysObjects st)" by (simp add: unused_variable_def)
  with assms live_split [OF v] show "others st v = live (sysObjects st)"
    by (simp add: unused_variable_def)
qed

lemma store_ok:
  assumes "system_ok st" and "v < length (sysObjects st)" and "same_memory (sysBuffers st) bs"
    and "counted (slot_pointers ob + others st v) bs"
  shows "system_ok (store v ob bs st)"
  using assms live_update [OF assms(2), of ob]
  by (simp add: system_ok_def store_def pool_inv_def same_memory_length)

lemma live_size_bound: "system_ok st \<Longrightarrow> size (live (sysObjects st)) + 4 < 2 ^ size_bits"
  using size_live [of "sysObjects st"] by (simp add: system_ok_def)

subsection \<open>Every call keeps the counters right\<close>

definition answers_ok :: "call \<Rightarrow> system \<Rightarrow> bool" where
  "answers_ok c st \<longleftrightarrow> (\<exists>st' r. call_step c st = Some (st', r) \<and> system_ok st')"

lemma answers_okI: "call_step c st = Some (st', r) \<Longrightarrow> system_ok st' \<Longrightarrow> answers_ok c st"
  by (auto simp: answers_ok_def)

lemma some_answer [simp]: "\<exists>r. r" "\<exists>r. \<not> r"
  by blast+

lemma new_pointer_ok:
  assumes "system_ok st" and "unused_variable st v"
    and "counted (add_mset p (live (sysObjects st))) bs" and "same_memory (sysBuffers st) bs"
  shows "system_ok (store v (Some (BufferPointer p)) bs st)"
  using assms unused_live [OF assms(2)] by (intro store_ok) simp_all

lemma copy_for_new_variable:
  assumes "system_ok st" and "unused_variable st v" and "in_range (sysBuffers st) p"
  shows "\<exists>bs. ptr_copy p (sysBuffers st) = Some (p, bs) \<and> system_ok (store v (Some (BufferPointer p)) bs st)"
  using ptr_copy_counted [of "live (sysObjects st)" "sysBuffers st" p] live_size_bound [OF assms(1)]
    new_pointer_ok [OF assms(1,2)] assms by (auto simp: system_ok_def)

lemma wrap_for_new_variable:
  assumes "system_ok st" and "unused_variable st v" and "\<forall>b. a = Some b \<longrightarrow> b < length (sysBuffers st)"
  shows "\<exists>p bs. ptr_from a (sysBuffers st) = Some (p, bs) \<and> system_ok (store v (Some (BufferPointer p)) bs st)"
  using ptr_from_counted [of "live (sysObjects st)" "sysBuffers st" a] live_size_bound [OF assms(1)]
    new_pointer_ok [OF assms(1,2)] assms by (force simp: system_ok_def)

lemma declare_ok:
  assumes "system_ok st" and "unused_variable st v"
  shows "answers_ok (Declare v) st" and "answers_ok (DeclareChild v) st"
proof -
  have "counted (live (sysObjects st)) (sysBuffers st)" using assms(1) by (simp add: system_ok_def)
  then have 1: "counted (add_mset ptr_null (live (sysObjects st))) (sysBuffers st)" by (rule null_pointers)
  with assms show "answers_ok (Declare v) st" by (simp add: answers_ok_def new_pointer_ok)
  from null_pointers [OF 1] assms unused_live [OF assms(2)] show "answers_ok (DeclareChild v) st"
    by (simp add: answers_ok_def child_null_def store_ok)
qed

lemma wrap_ok:
  assumes "system_ok st" and "unused_variable st v" and "b < length (sysBuffers st)"
  shows "answers_ok (Wrap v b) st"
  using wrap_for_new_variable [OF assms(1,2), of "Some b"] assms by (auto simp: answers_ok_def)

lemma copyOf_ok:
  assumes "system_ok st" and "unused_variable st v" and "object_at st w = Some ob"
  shows "answers_ok (CopyOf v w) st"
  using copy_for_new_variable [OF assms(1,2), of "obj_base ob"] object_range(1) [OF assms(1,3), of "obj_base ob"]
    assms by (auto simp: answers_ok_def slot_base)

lemma child_ranges:
  assumes "system_ok st" and "child_at st w = Some c"
  shows "in_range (sysBuffers st) (fst c)" and "in_range (sysBuffers st) (snd c)"
  using object_range(1) [OF assms(1)] assms(2) by (auto simp: child_at_object)

lemma getParent_ok:
  assumes "system_ok st" and "unused_variable st v" and "child_at st w = Some c"
  shows "answers_ok (GetParent v w) st"
  using copy_for_new_variable [OF assms(1,2) child_ranges(2) [OF assms(1,3)]] assms
  by (auto simp: answers_ok_def child_getParent_def)

lemma getOrigin_ok:
  assumes "system_ok st" and "unused_variable st v" and "child_at st w = Some c"
  shows "answers_ok (GetOrigin v w) st"
  using wrap_for_new_variable [OF assms(1,2), of "mPtr (fst c)"] child_ranges(1) [OF assms(1,3)] assms
  by (auto simp: answers_ok_def child_getOrigin_def in_range_def)

lemma copyChild_ok:
  assumes "system_ok st" and "unused_variable st v" and "child_at st w = Some c"
  shows "answers_ok (CopyChild v w) st"
proof -
  from child_copy_counted [of "live (sysObjects st)" "sysBuffers st" c] child_ranges [OF assms(1,3)]
    live_size_bound [OF assms(1)] assms(1)
  obtain bs where "child_copy c (sysBuffers st) = Some (c, bs)"
      "counted (add_mset (fst c) (add_mset (snd c) (live (sysObjects st)))) bs" "same_memory (sysBuffers st) bs"
    by (auto simp: system_ok_def)
  with assms unused_live [OF assms(2)] show ?thesis
    by (simp add: answers_ok_def store_ok)
qed

lemma store_unchanged:
  assumes "system_ok st" and "object_at st v = Some ob"
  shows "system_ok (store v (Some ob) (sysBuffers st) st)"
  using assms object_live [OF assms(2)] by (intro store_ok) (simp_all add: system_ok_def)

lemma assign_ok:
  assumes "system_ok st" and v: "object_at st v = Some this" and w: "object_at st w = Some other"
  shows "answers_ok (Assign v w) st"
proof (cases "v = w")
  case True
  with assms store_unchanged [OF assms(1) v] show ?thesis
    by (simp add: answers_ok_def ptr_assign_def)
next
  case False
  have "counted (add_mset (obj_base this) (obj_rest this + others st v)) (sysBuffers st)"
    using assms(1) object_live [OF v] by (simp add: system_ok_def slot_base)
  moreover have "in_range (sysBuffers st) (obj_base other)"
    using object_range(1) [OF assms(1) w] by (simp add: slot_base)
  moreover have "size (obj_rest this + others st v) + 1 < 2 ^ size_bits"
    using size_others [OF assms(1) object_live(1) [OF v]] by (cases this) simp_all
  ultimately obtain bs where
    "ptr_assign False (obj_base this) (obj_base other) (sysBuffers st) = Some (obj_base other, bs)"
    "counted (add_mset (obj_base other) (obj_rest this + others st v)) bs" "same_memory (sysBuffers st) bs"
    using ptr_assign_counted by blast
  with False assms object_live(1) [OF v] show ?thesis
    by (simp add: answers_ok_def store_ok)
qed


lemma assignChild_ok:
  assumes "system_ok st" and v: "child_at st v = Some this" and w: "child_at st w = Some other"
  shows "answers_ok (AssignChild v w) st"
proof (cases "v = w")
  case True
  with assms store_unchanged [OF assms(1) v [unfolded child_at_object]] show ?thesis
    by (simp add: answers_ok_def child_assign_def)
next
  case False
  note ob = v [unfolded child_at_object]
  have c: "counted (add_mset (fst this) (add_mset (snd this) (others st v))) (sysBuffers st)"
    using assms(1) object_live [OF ob] by (simp add: system_ok_def)
  have "size (others st v) + 2 < 2 ^ size_bits"
    using size_others [OF assms(1) object_live(1) [OF ob]] by linarith
  from child_assign_counted [OF c child_ranges [OF assms(1) w] this]
  obtain bs where "child_assign False this other (sysBuffers st) = Some (other, bs)"
    "counted (add_mset (fst other) (add_mset (snd other) (others st v))) bs" "same_memory (sysBuffers st) bs"
    by blast
  with False assms object_live(1) [OF ob] show ?thesis
    by (simp add: answers_ok_def store_ok)
qed

lemma setType_ok:
  assumes "system_ok st" and "object_at st v = Some this"
  shows "answers_ok (SetType v t) st"
proof -
  have "counted (add_mset (obj_base this) (obj_rest this + others st v)) (sysBuffers st)"
    using assms(1) object_live [OF assms(2)] by (simp add: system_ok_def slot_base)
  from counted_change [OF this, of "ptr_setType t (obj_base this)"] counted_ranges [OF this, of "obj_base this"]
  have "counted (add_mset (ptr_setType t (obj_base this)) (obj_rest this + others st v)) (sysBuffers st)"
    by (simp add: ptr_setType_def in_range_def)
  with assms object_live(1) [OF assms(2)] show ?thesis by (simp add: answers_ok_def store_ok)
qed

lemma getChild_ok:
  assumes "system_ok st" and v: "child_at st v = Some ptr" and w: "object_at st w = Some this"
    and "pOffset + len < max_object"
  shows "answers_ok (GetChild v w t pOffset len) st"
proof -
  note ob = v [unfolded child_at_object]
  let ?own = "obj_base this" and ?P = "live (sysObjects st)"
  have c: "counted ?P (sysBuffers st)" using assms(1) by (simp add: system_ok_def)
  have P: "?P = add_mset (fst ptr) (add_mset (snd ptr) (others st v))" using object_live(2) [OF ob] by simp
  have r: "in_range (sysBuffers st) ?own" using object_range(1) [OF assms(1) w] by (simp add: slot_base)
  show ?thesis
  proof (cases "(\<exists>b. mPtr ?own = Some b \<and> 0 < refs b ?P) \<and> child_fits ?own pOffset len")
    case False
    from ptr_getChild_refused [OF c r assms(4) this] store_unchanged [OF assms(1) ob] v w show ?thesis
      by (simp add: answers_ok_def)
  next
    case True
    then obtain b where b: "mPtr ?own = Some b" "0 < refs b ?P" "child_fits ?own pOffset len" by blast
    from ptr_getChild_counted [OF c [unfolded P] r b(1) b(2) [unfolded P] b(3) assms(4)
        size_others [OF assms(1) object_live(1) [OF ob]], of "v = w" t]
    obtain bs where
      "ptr_getChild (v = w) ?own ptr t pOffset len (sysBuffers st) =
         Some ((child_fields (v = w) ?own t pOffset len, ?own), bs, True)"
      "counted (add_mset (child_fields (v = w) ?own t pOffset len) (add_mset ?own (others st v))) bs"
      "same_memory (sysBuffers st) bs"
      by blast
    with v w object_live(1) [OF ob] assms(1) show ?thesis by (simp add: answers_ok_def store_ok)
  qed
qed

lemma destroy_ok:
  assumes "system_ok st" and v: "object_at st v = Some this"
  shows "answers_ok (Destroy v) st"
proof -
  have c: "counted (slot_pointers (Some this) + others st v) (sysBuffers st)"
    using assms(1) object_live [OF v] by (simp add: system_ok_def)
  note size = size_others [OF assms(1) object_live(1) [OF v]]
  have "\<exists>bs. (case this of BufferPointer p \<Rightarrow> ptr_destroy p (sysBuffers st)
      | ChildPointer p parent \<Rightarrow> child_destroy (p, parent) (sysBuffers st)) = Some bs \<and>
      counted (others st v) bs \<and> same_memory (sysBuffers st) bs"
  proof (cases this)
    case (BufferPointer p)
    with c size ptr_decrementCount_counted [of p "others st v" "sysBuffers st"] show ?thesis
      by (simp add: ptr_destroy_def)
  next
    case (ChildPointer p parent)
    with c size child_destroy_counted [of "(p, parent)" "others st v" "sysBuffers st"] show ?thesis
      by simp
  qed
  with assms object_live(1) [OF v] show ?thesis by (auto simp: answers_ok_def store_ok)
qed

lemma setPointer_ok:
  assumes "system_ok st" and b: "b < length (sysBuffers st)" and "mNumberOfElements s < max_object"
  shows "answers_ok (SetPointer b s) st"
proof -
  let ?x = "sysBuffers st ! b" and ?P = "live (sysObjects st)"
  let ?bs = "(sysBuffers st)[b := sbuf_setPointer s ?x]"
  have c: "counted ?P (sysBuffers st)" using assms(1) by (simp add: system_ok_def)
  have "counted ?P ?bs"
  proof (cases "sbuf_isUsed ?x")
    case True
    with c show ?thesis by (simp add: sbuf_setPointer_def)
  next
    case False
    with c b have "refs b ?P = 0" by (simp add: sbuf_isUsed_def isUsedAtomic_def counted_def)
    then have "\<forall>p \<in># ?P. mPtr p \<noteq> Some b" by (simp only: refs_zero_iff)
    with c b assms(3) False show ?thesis
      by (auto simp: counted_def in_range_def nth_list_update sbuf_setPointer_def)
  qed
  then have "system_ok (st\<lparr>sysBuffers := ?bs\<rparr>)" using assms(1) by (simp add: system_ok_def pool_inv_def)
  with b show ?thesis by (simp add: answers_ok_def mem_simps)
qed

lemma allocate_ok:
  assumes "system_ok st" and v: "object_at st v = Some this"
  shows "answers_ok (Allocate v) st"
proof -
  let ?P = "obj_rest this + others st v" and ?pl = "sysPool st" and ?bs = "sysBuffers st"
  have inv: "pool_inv ?pl ?bs" using assms(1) by (simp add: system_ok_def)
  have c: "counted (add_mset (obj_base this) ?P) ?bs"
    using assms(1) object_live [OF v] by (simp add: system_ok_def slot_base)
  have size: "size ?P + 2 < 2 ^ size_bits"
    using size_others [OF assms(1) object_live(1) [OF v]] by (cases this) simp_all
  show ?thesis
  proof (cases "\<forall>i < poolCount ?pl. pool_used ?pl ?bs i")
    case True
    from pool_allocate_full [OF inv this] store_unchanged [OF assms] v show ?thesis
      by (simp add: answers_ok_def)
  next
    case False
    with pool_allocate_free [OF c inv _ size] obtain i pl' bs' where
      1: "pool_allocate ?pl (obj_base this) ?bs = Some (whole_buffer ?bs (poolFirst ?pl + i), pl', bs', True)"
         "counted (add_mset (whole_buffer ?bs (poolFirst ?pl + i)) ?P) bs'" "same_memory ?bs bs'"
         "pl' = ?pl\<lparr>mLastIndex := Suc i mod poolCount ?pl\<rparr>"
      by blast
    have "system_ok (st\<lparr>sysPool := pl'\<rparr>)"
      using assms(1) 1(4) by (auto simp: system_ok_def pool_inv_def intro: mod_less_divisor)
    from store_ok [OF this, of v bs' "Some (obj_with_base this (whole_buffer ?bs (poolFirst ?pl + i)))"]
      1(2,3) object_live(1) [OF v]
    have "system_ok (store v (Some (obj_with_base this (whole_buffer ?bs (poolFirst ?pl + i)))) bs' (st\<lparr>sysPool := pl'\<rparr>))"
      by simp
    with 1(1) v show ?thesis by (simp add: answers_ok_def)
  qed
qed


text \<open>The calls a C++ program can make: the variables are alive and of the right class.\<close>

fun legal :: "call \<Rightarrow> system \<Rightarrow> bool" where
  "legal (Declare v) st \<longleftrightarrow> unused_variable st v"
| "legal (DeclareChild v) st \<longleftrightarrow> unused_variable st v"
| "legal (Wrap v b) st \<longleftrightarrow> unused_variable st v \<and> b < length (sysBuffers st)"
| "legal (CopyOf v w) st \<longleftrightarrow> unused_variable st v \<and> object_at st w \<noteq> None"
| "legal (CopyChild v w) st \<longleftrightarrow> unused_variable st v \<and> child_at st w \<noteq> None"
| "legal (Assign v w) st \<longleftrightarrow> object_at st v \<noteq> None \<and> object_at st w \<noteq> None"
| "legal (AssignChild v w) st \<longleftrightarrow> child_at st v \<noteq> None \<and> child_at st w \<noteq> None"
| "legal (SetType v t) st \<longleftrightarrow> object_at st v \<noteq> None"
| "legal (GetChild v w t pOffset len) st \<longleftrightarrow> child_at st v \<noteq> None \<and> object_at st w \<noteq> None"
| "legal (GetParent v w) st \<longleftrightarrow> unused_variable st v \<and> child_at st w \<noteq> None"
| "legal (GetOrigin v w) st \<longleftrightarrow> unused_variable st v \<and> child_at st w \<noteq> None"
| "legal (Destroy v) st \<longleftrightarrow> object_at st v \<noteq> None"
| "legal (SetPointer b s) st \<longleftrightarrow> b < length (sysBuffers st)"
| "legal (Allocate v) st \<longleftrightarrow> object_at st v \<noteq> None"

lemmas call_oks = declare_ok wrap_ok copyOf_ok copyChild_ok assign_ok assignChild_ok setType_ok
  getChild_ok getParent_ok getOrigin_ok destroy_ok setPointer_ok allocate_ok

lemma legal_call_answers:
  assumes "system_ok st" and "sizes_ok c" and "legal c st"
  shows "answers_ok c st"
  using assms by (cases c) (auto simp del: call_step.simps intro: call_oks)

lemma illegal_call_None: "\<not> legal c st \<Longrightarrow> call_step c st = None"
  by (cases c) (auto simp: aread_def simp del: not_None_eq)

lemma call_step_legal: "call_step c st = Some r \<Longrightarrow> legal c st"
  using illegal_call_None by force

lemma call_step_None_iff:
  "system_ok st \<Longrightarrow> sizes_ok c \<Longrightarrow> call_step c st = None \<longleftrightarrow> \<not> legal c st"
  using legal_call_answers illegal_call_None by (fastforce simp: answers_ok_def)

lemma call_step_ok:
  assumes "system_ok st" and "sizes_ok c" and "call_step c st = Some (st', r)"
  shows "system_ok st'"
  using legal_call_answers [OF assms(1,2) call_step_legal [OF assms(3)]] assms(3)
  by (simp add: answers_ok_def)

lemma call_steps_ok:
  assumes "system_ok st" and "list_all sizes_ok cs" and "call_steps cs st = Some st'"
  shows "system_ok st'"
  using assms
proof (induction cs arbitrary: st)
  case Nil
  then show ?case by simp
next
  case (Cons c cs)
  then obtain st1 r where 1: "call_step c st = Some (st1, r)" "call_steps cs st1 = Some st'"
    by (auto simp: bind_eq_Some_conv)
  have "system_ok st1" using call_step_ok [OF Cons.prems(1) _ 1(1)] Cons.prems(2) by simp
  with Cons.IH [of st1] Cons.prems(2) 1(2) show ?case by simp
qed

lemma live_fresh: "live (replicate n None) = {#}"
  by (induction n) (simp_all add: live_def)

lemma system_start_ok:
  assumes "0 < n" and "n < 2 ^ size_bits" and "e < max_object" and "2 * variables + 4 < 2 ^ size_bits"
  shows "\<exists>st. system_start variables e n a = Some st \<and> system_ok st"
  using assms by (simp add: system_start_def pool_new_fresh system_ok_def live_fresh counted_def pool_inv_def
      sbuf_new_def slice_unsafe_def)

text \<open>The states a program can reach.\<close>

definition reaches :: "nat \<Rightarrow> size_t \<Rightarrow> size_t \<Rightarrow> nat option \<Rightarrow> call list \<Rightarrow> system \<Rightarrow> bool" where
  "reaches variables e n a cs st \<longleftrightarrow> 0 < n \<and> n < 2 ^ size_bits \<and> e < max_object \<and>
     2 * variables + 4 < 2 ^ size_bits \<and> list_all sizes_ok cs \<and>
     (system_start variables e n a \<bind> call_steps cs) = Some st"

lemma reaches_ok:
  assumes "reaches variables e n a cs st"
  shows "system_ok st"
proof -
  from assms system_start_ok [of n e variables a] obtain st0 where
    "system_start variables e n a = Some st0" "system_ok st0" by (auto simp: reaches_def)
  with assms call_steps_ok [of st0 cs st] show ?thesis by (simp add: reaches_def)
qed

text \<open>
  C10. After any sequence of calls the reference counter of every buffer is the number of pointers
  to it that are alive, so a buffer becomes unused when its last pointer is destroyed or
  reassigned and not before. A call on live objects of the right class never dereferences a
  pointer outside of the buffers.
\<close>

theorem shared_counters_exact:
  assumes "reaches variables e n a cs st"
  shows "(\<forall>b < length (sysBuffers st).
      getReferenceCount (sysBuffers st ! b) = refs b (live (sysObjects st)) \<and>
      sbuf_isUsed (sysBuffers st ! b) = (\<exists>p \<in># live (sysObjects st). mPtr p = Some b)) \<and>
    (\<forall>c. sizes_ok c \<longrightarrow> (call_step c st = None \<longleftrightarrow> \<not> legal c st))"
proof -
  have ok: "system_ok st" using assms by (rule reaches_ok)
  then have "\<forall>b < length (sysBuffers st). mReferenceCounter (sysBuffers st ! b) = refs b (live (sysObjects st))"
    by (simp add: system_ok_def counted_def)
  moreover have "refs b P \<noteq> 0 \<longleftrightarrow> (\<exists>p \<in># P. mPtr p = Some b)" for b P
    by (simp add: refs_zero_iff del: neq0_conv)
  ultimately show ?thesis using call_step_None_iff [OF ok]
    by (simp add: getReferenceCount_def sbuf_isUsed_def isUsedAtomic_def)
qed

text \<open>A program that allocates a buffer, takes a child of it, copies the child and drops the first pointer.\<close>

definition sample_calls :: "call list" where
  "sample_calls = [Declare 0, Allocate 0, DeclareChild 1, GetChild 1 0 7 2 3, CopyOf 2 1, Destroy 0]"

definition sample_system :: system where
  "sample_system = \<lparr>
     sysBuffers = [\<lparr>mReferenceCounter = 3, sbBuffer = \<lparr>mData = Some 100, mNumberOfElements = 8\<rparr>\<rparr>,
                   \<lparr>mReferenceCounter = 0, sbBuffer = \<lparr>mData = Some 108, mNumberOfElements = 8\<rparr>\<rparr>],
     sysObjects = [None,
       Some (ChildPointer \<lparr>mPtr = Some 0, mType = 7, mOffset = 2, mLength = 3\<rparr>
                          \<lparr>mPtr = Some 0, mType = 0, mOffset = 0, mLength = 8\<rparr>),
       Some (BufferPointer \<lparr>mPtr = Some 0, mType = 7, mOffset = 2, mLength = 3\<rparr>)],
     sysPool = \<lparr>poolFirst = 0, poolCount = 2, mLastIndex = 1\<rparr>\<rparr>"

lemmas sbuf_defs = sbuf_isUsed_def isUsedAtomic_def sbuf_incrementCount_def incrementCountAtomic_def
  sbuf_decrementCount_def decrementCountAtomic_def sbuf_new_def sbuf_getPointer_def sbuf_isValid_def
  getNumberOfElements_def slice_unsafe_def ptr_add_def

lemmas ptr_defs = ptr_from_def ptr_copy_def ptr_assign_def ptr_destroy_def ptr_incrementCount_def
  ptr_decrementCount_def ptr_isUsed_def ptr_null_def ptr_getChild_def child_new_def child_assign_def
  child_destroy_def child_null_def aread_def awrite_def Let_def szadd_def szsub_def size_bits_def

lemmas system_defs = object_at_def child_at_def unused_variable_def store_def pool_allocate_def
  pool_take_def pool_buffer_def

lemma pool_search_numeral [simp]:
  "pool_search (numeral k) pl ptr i bs = do {
     x \<leftarrow> pool_buffer pl bs i;
     (ptr, pl, bs, res) \<leftarrow> (if \<not> sbuf_isUsed x then pool_take pl ptr i bs else Some (ptr, pl, bs, False));
     let i = szadd i 1 mod poolCount pl;
     if i \<noteq> mLastIndex pl \<and> \<not> res then pool_search (pred_numeral k) pl ptr i bs else Some (ptr, pl, bs, res) }"
  by (simp add: numeral_eq_Suc)

lemma sample_start: "system_start 3 8 2 (Some 100) = Some \<lparr>
    sysBuffers = [\<lparr>mReferenceCounter = 0, sbBuffer = \<lparr>mData = Some 100, mNumberOfElements = 8\<rparr>\<rparr>,
                  \<lparr>mReferenceCounter = 0, sbBuffer = \<lparr>mData = Some 108, mNumberOfElements = 8\<rparr>\<rparr>],
    sysObjects = [None, None, None], sysPool = \<lparr>poolFirst = 0, poolCount = 2, mLastIndex = 0\<rparr>\<rparr>"
  using pool_new_fresh [of 8 2 "Some 100"]
  by (simp add: system_start_def sbuf_new_def slice_unsafe_def ptr_add_def upt_rec numeral_3_eq_3)

lemma sample_reached: "reaches 3 8 2 (Some 100) sample_calls sample_system"
  by (simp add: reaches_def sample_start sample_calls_def sample_system_def system_defs sbuf_defs
      ptr_defs max_object_def)

lemma shared_counters_exact_witness:
  "getReferenceCount (sysBuffers sample_system ! 0) = 3"
proof -
  have "0 < length (sysBuffers sample_system)" "refs 0 (live (sysObjects sample_system)) = 3"
    by (simp_all add: sample_system_def live_def)
  with shared_counters_exact [OF sample_reached] show ?thesis by auto
qed


text \<open>
  C11. Whatever a program does whose requests for children all have offset and length that add up to
  less than 2^63 (and whose buffers are smaller than that), the bytes that a living pointer shows are
  a part of its buffer: the conversion to a slice succeeds, has the length of the pointer and starts
  at its offset. For larger requests the sum in the test of \<open>getChild\<close> wraps around and this
  fails, \<open>getChild_test_wraps\<close>.
\<close>

theorem shared_pointers_in_range:
  assumes "reaches variables e n a cs st" and "p \<in># live (sysObjects st)" and "mPtr p = Some b"
  shows "mOffset p + mLength p \<le> mNumberOfElements (sbBuffer (sysBuffers st ! b)) \<and>
    ptr_asSlice (sysBuffers st) p = Some \<lparr>mData = ptr_add (mData (sbBuffer (sysBuffers st ! b))) (mOffset p),
      mNumberOfElements = mLength p\<rparr>"
proof -
  have c: "counted (live (sysObjects st)) (sysBuffers st)"
    using reaches_ok [OF assms(1)] by (simp add: system_ok_def)
  from counted_ranges [OF this assms(2)] have r: "in_range (sysBuffers st) p" .
  from child_test(3) [OF c r assms(3), of 0 0] have "szadd (mOffset p) (mLength p) = mOffset p + mLength p"
    by (simp add: szadd_exact max_object_def size_bits_def)
  with r assms(3) show ?thesis
    by (auto simp: in_range_def ptr_asSlice_def mem_simps sbuf_getPointer_def slice_subSlice_def
        slice_first_def slice_last_def)
qed

lemma shared_pointers_in_range_witness:
  "ptr_asSlice (sysBuffers sample_system) \<lparr>mPtr = Some 0, mType = 7, mOffset = 2, mLength = 3\<rparr> =
     Some \<lparr>mData = Some 102, mNumberOfElements = 3\<rparr>"
  using shared_pointers_in_range [OF sample_reached, of "\<lparr>mPtr = Some 0, mType = 7, mOffset = 2, mLength = 3\<rparr>" 0]
  by (simp add: sample_system_def live_def ptr_add_def)

lemma live_pointer_used:
  assumes "system_ok st" and "object_at st w = Some ob" and "mPtr (obj_base ob) = Some b"
  shows "0 < refs b (live (sysObjects st))"
  using object_range(2) [OF assms(1,2), of "obj_base ob"] assms(3) refs_zero_iff [of b "live (sysObjects st)"]
  by (auto simp: slot_base)

lemma sub_view:
  assumes "offset + len \<le> mNumberOfElements s" and "mNumberOfElements s < 2 ^ size_bits"
  shows "slice_view m (slice_subSlice s offset len) =
    (case mData s of None \<Rightarrow> [] | Some b \<Rightarrow> take len (drop (b + offset) m))"
  using assms by (auto simp: slice_subSlice_def slice_view_def slice_first_def slice_last_def ptr_add_def
      szadd_exact split: option.splits)


lemma store_same: "object_at st v = Some ob \<Longrightarrow> store v (Some ob) (sysBuffers st) st = st"
  by (auto simp: object_at_def store_def list_update_same_conv split: if_splits)

lemma asSlice_shows:
  assumes "counted P bs" and "in_range bs p" and "mPtr p = Some b"
  shows "\<exists>s. ptr_asSlice bs p = Some s \<and> slice_view m s =
    (case mData (sbBuffer (bs ! b)) of None \<Rightarrow> [] | Some a \<Rightarrow> take (mLength p) (drop (a + mOffset p) m))"
proof -
  from assms have "mOffset p + mLength p \<le> mNumberOfElements (sbBuffer (bs ! b))" "b < length bs"
    by (simp_all add: in_range_def)
  moreover from this assms(1) have "mNumberOfElements (sbBuffer (bs ! b)) < 2 ^ size_bits"
    by (auto simp: counted_def max_object_def size_bits_def dest!: spec [of _ b])
  ultimately show ?thesis using assms(3)
    by (simp add: ptr_asSlice_def mem_simps sbuf_getPointer_def sub_view)
qed

text \<open>
  C13. \<open>getChild\<close> on another object than the receiver, offset and length adding up to less than 2^63: it answers \<open>false\<close> exactly when the pointer
  is null or the requested part is not inside the part the pointer shows, and then nothing
  changes. Otherwise the receiver shows that part of the parent's bytes, keeps the parent alive
  and has the requested type.
\<close>

theorem getChild_shows_part:
  assumes "reaches variables e n a cs st" and "child_at st v = Some ptr" and "object_at st w = Some own"
    and "v \<noteq> w" and "pOffset + len < max_object"
  shows "\<exists>st' r. call_step (GetChild v w t pOffset len) st = Some (st', r) \<and>
    r = (mPtr (obj_base own) \<noteq> None \<and> pOffset + len \<le> mLength (obj_base own)) \<and>
    (\<not> r \<longrightarrow> st' = st) \<and>
    (r \<longrightarrow> (\<exists>c s s'. child_at st' v = Some (c, obj_base own) \<and> mType c = t \<and>
       ptr_asSlice (sysBuffers st') (obj_base own) = Some s \<and> ptr_asSlice (sysBuffers st') c = Some s' \<and>
       slice_view m s' = take len (drop pOffset (slice_view m s))))"
proof (cases "mPtr (obj_base own) \<noteq> None \<and> pOffset + len \<le> mLength (obj_base own)")
  let ?own = "obj_base own" and ?bs = "sysBuffers st"
  note ok = reaches_ok [OF assms(1)] and ob = assms(2) [unfolded child_at_object]
  have c: "counted (live (sysObjects st)) ?bs" using ok by (simp add: system_ok_def)
  have r: "in_range ?bs ?own" using object_range(1) [OF ok assms(3)] by (simp add: slot_base)
  {
    case False
    then have "\<not> ((\<exists>b. mPtr ?own = Some b \<and> 0 < refs b (live (sysObjects st))) \<and> child_fits ?own pOffset len)"
      by (auto simp: child_fits_def)
    from ptr_getChild_refused [OF c r assms(5) this] assms False store_same [OF ob] show ?thesis by auto
  next
    case True
    then obtain b where b: "mPtr ?own = Some b" and fits: "pOffset + len \<le> mLength ?own" by blast
    from live_pointer_used [OF ok assms(3) b] object_live [OF ob]
    have used: "0 < refs b (add_mset (fst ptr) (add_mset (snd ptr) (others st v)))"
      and P: "live (sysObjects st) = add_mset (fst ptr) (add_mset (snd ptr) (others st v))" by simp_all
    let ?c = "child_fields False ?own t pOffset len"
    from ptr_getChild_counted [OF c [unfolded P] r b used _ assms(5) size_others [OF ok object_live(1) [OF ob]],
        of False t] fits
    obtain bs' where 1: "ptr_getChild False ?own ptr t pOffset len ?bs = Some ((?c, ?own), bs', True)"
      "counted (add_mset ?c (add_mset ?own (others st v))) bs'" by (auto simp: child_fits_def)
    then have r': "in_range bs' ?own" "in_range bs' ?c" by (simp_all add: counted_def)
    have "mPtr ?c = Some b" using b by (simp add: child_fields_def)
    from asSlice_shows [OF 1(2) r'(2) this, of m] asSlice_shows [OF 1(2) r'(1) b, of m] obtain s s' where
      "ptr_asSlice bs' ?own = Some s" "ptr_asSlice bs' ?c = Some s'"
      "slice_view m s' = take len (drop pOffset (slice_view m s))"
      using fits by (auto simp: child_fields_def drop_take min_def ac_simps split: option.splits)
    moreover have "child_at (store v (Some (ChildPointer ?c ?own)) bs' st) v = Some (?c, ?own)"
      using object_live(1) [OF ob] by (simp add: child_at_def object_at_def store_def)
    moreover have "sysBuffers (store v (Some (ChildPointer ?c ?own)) bs' st) = bs'" by (simp add: store_def)
    moreover have "mType ?c = t" by (simp add: child_fields_def)
    ultimately show ?thesis using 1(1) assms(2-4) True by auto
  }
qed


lemma getChild_shows_part_witness:
  "call_step (GetChild 1 2 9 1 3) sample_system = Some (sample_system, False) \<and>
   (\<exists>st'. call_step (GetChild 1 2 9 1 2) sample_system = Some (st', True))"
proof -
  have c: "child_at sample_system 1 = Some (\<lparr>mPtr = Some 0, mType = 7, mOffset = 2, mLength = 3\<rparr>,
      \<lparr>mPtr = Some 0, mType = 0, mOffset = 0, mLength = 8\<rparr>)"
    and b: "object_at sample_system 2 = Some (BufferPointer \<lparr>mPtr = Some 0, mType = 7, mOffset = 2, mLength = 3\<rparr>)"
    by (simp_all add: sample_system_def child_at_def object_at_def)
  have ne: "(1 :: nat) \<noteq> 2" and s: "1 + 3 < max_object" "1 + 2 < max_object"
    by (simp_all add: max_object_def)
  from getChild_shows_part [OF sample_reached c b ne s(1), of 9 "[] :: u8 list"]
  have "call_step (GetChild 1 2 9 1 3) sample_system = Some (sample_system, False)"
    by (auto simp del: call_step.simps)
  moreover from getChild_shows_part [OF sample_reached c b ne s(2), of 9 "[] :: u8 list"]
  have "\<exists>st'. call_step (GetChild 1 2 9 1 2) sample_system = Some (st', True)"
    by (auto simp del: call_step.simps)
  ultimately show ?thesis ..
qed

text \<open>
  C12. \<open>allocate\<close> finds a buffer whenever there is one: it answers \<open>false\<close> exactly when every buffer
  of the pool is referenced by a pointer that lives, and then nothing changes. Otherwise it hands
  out a whole buffer to which no pointer referred, and the receiver is the only pointer to it.
\<close>

theorem pool_allocate_exact:
  assumes "reaches variables e n a cs st" and "object_at st v = Some ob"
  shows "\<exists>st' r. call_step (Allocate v) st = Some (st', r) \<and>
    (\<not> r \<longrightarrow> st' = st \<and> (\<forall>i < poolCount (sysPool st). \<exists>p \<in># live (sysObjects st). mPtr p = Some (poolFirst (sysPool st) + i))) \<and>
    (r \<longrightarrow> (\<exists>i < poolCount (sysPool st). let b = poolFirst (sysPool st) + i in
       (\<forall>p \<in># live (sysObjects st). mPtr p \<noteq> Some b) \<and> refs b (live (sysObjects st')) = 1 \<and>
       object_at st' v = Some (obj_with_base ob (whole_buffer (sysBuffers st) b))))"
proof -
  let ?pl = "sysPool st" and ?bs = "sysBuffers st" and ?P = "live (sysObjects st)"
  let ?Q = "obj_rest ob + others st v"
  note ok = reaches_ok [OF assms(1)]
  have inv: "pool_inv ?pl ?bs" and c: "counted ?P ?bs" using ok by (simp_all add: system_ok_def)
  have P: "?P = add_mset (obj_base ob) ?Q" using object_live(2) [OF assms(2)] by (simp add: slot_base)
  have used: "pool_used ?pl ?bs i \<longleftrightarrow> (\<exists>p \<in># ?P. mPtr p = Some (poolFirst ?pl + i))" if "i < poolCount ?pl" for i
    using pool_used_refs [OF c inv that] refs_zero_iff [of "poolFirst ?pl + i" ?P] by auto
  show ?thesis
  proof (cases "\<forall>i < poolCount ?pl. pool_used ?pl ?bs i")
    case True
    with pool_allocate_full [OF inv True] assms(2) store_same [OF assms(2)]
    have "call_step (Allocate v) st = Some (st, False)" by simp
    with True used show ?thesis by blast
  next
    case False
    have "size ?Q + 2 < 2 ^ size_bits"
      using size_others [OF ok object_live(1) [OF assms(2)]] by (cases ob) simp_all
    with pool_allocate_free [OF c [unfolded P] inv] False obtain i pl' bs' where
      1: "i < poolCount ?pl" "\<not> pool_used ?pl ?bs i"
         "pool_allocate ?pl (obj_base ob) ?bs = Some (whole_buffer ?bs (poolFirst ?pl + i), pl', bs', True)"
      by blast
    let ?b = "poolFirst ?pl + i"
    let ?st = "store v (Some (obj_with_base ob (whole_buffer ?bs ?b))) bs' (st\<lparr>sysPool := pl'\<rparr>)"
    have none: "\<forall>p \<in># ?P. mPtr p \<noteq> Some ?b" using used [OF 1(1)] 1(2) by blast
    then have "refs ?b ?Q = 0" using refs_zero_iff [of ?b ?P] by (simp add: P split: if_splits)
    moreover have "live (sysObjects ?st) = add_mset (whole_buffer ?bs ?b) ?Q"
      using object_live(1) [OF assms(2)]
        live_update [of v "sysObjects st" "Some (obj_with_base ob (whole_buffer ?bs ?b))"]
      by (simp add: store_def)
    ultimately have "refs ?b (live (sysObjects ?st)) = 1" by (simp add: whole_buffer_def)
    moreover have "object_at ?st v = Some (obj_with_base ob (whole_buffer ?bs ?b))"
      using object_live(1) [OF assms(2)] by (simp add: object_at_def store_def)
    moreover have "call_step (Allocate v) st = Some (?st, True)" using 1(3) assms(2) by simp
    ultimately show ?thesis using 1(1) none by (auto simp: Let_def)
  qed
qed

lemma pool_allocate_exact_witness:
  "\<exists>st'. call_step (Allocate 2) sample_system = Some (st', True)"
proof -
  have "object_at sample_system 2 = Some (BufferPointer \<lparr>mPtr = Some 0, mType = 7, mOffset = 2, mLength = 3\<rparr>)"
    by (simp add: sample_system_def object_at_def)
  from pool_allocate_exact [OF sample_reached this] obtain st' r where
    r: "call_step (Allocate 2) sample_system = Some (st', r)" and
    full: "\<not> r \<longrightarrow> (\<forall>i < poolCount (sysPool sample_system).
      \<exists>p \<in># live (sysObjects sample_system). mPtr p = Some (poolFirst (sysPool sample_system) + i))"
    by blast
  have "\<not> (\<exists>p \<in># live (sysObjects sample_system). mPtr p = Some (poolFirst (sysPool sample_system) + 1))"
    and "1 < poolCount (sysPool sample_system)"
    by (simp_all add: sample_system_def live_def)
  with full have r by blast
  with r show ?thesis by simp
qed

subsection \<open>Where the code and its documentation part\<close>

text \<open>
  A child that takes a child of itself loses its own offset: the fields of the receiver are
  overwritten before the offset of the parent is read.
\<close>

lemma getChild_of_itself:
  "call_step (GetChild 1 1 9 1 2) sample_system \<bind> (\<lambda>(st', r). child_at st' 1) =
     Some (\<lparr>mPtr = Some 0, mType = 9, mOffset = 1, mLength = 2\<rparr>,
           \<lparr>mPtr = Some 0, mType = 7, mOffset = 2, mLength = 3\<rparr>)"
  by (simp add: sample_system_def system_defs sbuf_defs ptr_defs)

text \<open>The sum in the test of \<open>getChild\<close> wraps, so a part far behind the buffer is accepted.\<close>

lemma getChild_test_wraps:
  "call_step (GetChild 1 2 9 (2 ^ 64 - 5) 4) sample_system \<bind> (\<lambda>(st', r). child_at st' 1) =
     Some (\<lparr>mPtr = Some 0, mType = 9, mOffset = 2 ^ 64 - 3, mLength = 4\<rparr>,
           \<lparr>mPtr = Some 0, mType = 7, mOffset = 2, mLength = 3\<rparr>)"
  by (simp add: sample_system_def system_defs sbuf_defs ptr_defs)

end
