(* ===== verification/Shared_Ring.thy ===== *)
theory Shared_Ring
  imports Interfaces Ring_Index Shared_Buffers
begin

text \<open>
  \<open>SharedRingBuffer\<close> (modules/utils/src/outpost/utils/container/shared_ring_buffer.h): a ring
  whose slots are shared buffer pointers with a flag byte. The operations that assign a slot
  thread the list of buffers, because they change reference counters.

  The invariant says, besides the usual facts of a ring, that the slots outside of the used part
  are null, so the ring keeps exactly the buffers alive that it holds.
\<close>

record sring =
  srBuffer :: "pointer list"
  srFlags :: "u8 list"
  srReadIndex :: size_t
  srNumber :: size_t

definition sring_new :: "pointer list \<Rightarrow> u8 list \<Rightarrow> sring" where
  "sring_new buffer flags = \<lparr>srBuffer = buffer, srFlags = flags, srReadIndex = 0, srNumber = 0\<rparr>"

definition sring_storage :: "nat \<Rightarrow> sring" where
  "sring_storage n = sring_new (replicate n ptr_null) (replicate n 0)"

definition sring_getFreeSlots :: "sring \<Rightarrow> size_t" where
  "sring_getFreeSlots r = szsub (length (srBuffer r)) (srNumber r)"

definition sring_getUsedSlots :: "sring \<Rightarrow> size_t" where
  "sring_getUsedSlots r = srNumber r"

definition sring_isEmpty :: "sring \<Rightarrow> bool" where
  "sring_isEmpty r \<longleftrightarrow> srNumber r = 0"

definition sring_increment :: "sring \<Rightarrow> size_t \<Rightarrow> size_t \<Rightarrow> size_t option" where
  "sring_increment r index n =
     (if srBuffer r = [] then None else Some (szadd index n mod length (srBuffer r)))"

text \<open>The write index is an \<open>int\<close>: an index of \<open>2 ^ 31\<close> or more would be negative (\<open>None\<close>).\<close>

definition sring_append :: "pointer \<Rightarrow> u8 \<Rightarrow> sring \<Rightarrow> buffers \<Rightarrow> (sring \<times> buffers \<times> bool) option" where
  "sring_append p flags r bs =
     (if srNumber r < length (srBuffer r) then do {
        writeIndex \<leftarrow> sring_increment r (srReadIndex r) (srNumber r);
        fs \<leftarrow> (if writeIndex < 2 ^ 31 then awrite (srFlags r) writeIndex flags else None);
        slot \<leftarrow> aread (srBuffer r) writeIndex;
        (slot, bs) \<leftarrow> ptr_assign False slot p bs;
        slots \<leftarrow> awrite (srBuffer r) writeIndex slot;
        Some (r\<lparr>srFlags := fs, srBuffer := slots, srNumber := szadd (srNumber r) 1\<rparr>, bs, True) }
      else Some (r, bs, False))"

definition sring_setFlags :: "u8 \<Rightarrow> size_t \<Rightarrow> sring \<Rightarrow> (sring \<times> bool) option" where
  "sring_setFlags flags index r =
     (if \<not> sring_isEmpty r \<and> index < srNumber r then do {
        position \<leftarrow> sring_increment r (srReadIndex r) index;
        fs \<leftarrow> awrite (srFlags r) position flags;
        Some (r\<lparr>srFlags := fs\<rparr>, True) }
      else Some (r, False))"

text \<open>A slot is given the value \<open>SharedBufferPointer()\<close>; the temporary is destroyed afterwards.\<close>

definition sring_clear :: "size_t \<Rightarrow> sring \<Rightarrow> buffers \<Rightarrow> (sring \<times> buffers) option" where
  "sring_clear position r bs = do {
     slot \<leftarrow> aread (srBuffer r) position;
     (slot, bs) \<leftarrow> ptr_assign False slot ptr_null bs;
     bs \<leftarrow> ptr_destroy ptr_null bs;
     slots \<leftarrow> awrite (srBuffer r) position slot;
     fs \<leftarrow> awrite (srFlags r) position 0;
     Some (r\<lparr>srBuffer := slots, srFlags := fs\<rparr>, bs) }"

definition sring_pop :: "sring \<Rightarrow> buffers \<Rightarrow> (sring \<times> buffers \<times> bool) option" where
  "sring_pop r bs =
     (if srNumber r > 0 then do {
        (r, bs) \<leftarrow> sring_clear (srReadIndex r) r bs;
        next \<leftarrow> sring_increment r (srReadIndex r) 1;
        Some (r\<lparr>srReadIndex := next, srNumber := srNumber r - 1\<rparr>, bs, True) }
      else Some (r, bs, False))"

definition sring_peek :: "size_t \<Rightarrow> sring \<Rightarrow> pointer option" where
  "sring_peek index r =
     (if index < srNumber r then do {
        position \<leftarrow> sring_increment r (srReadIndex r) index;
        aread (srBuffer r) position }
      else Some ptr_null)"

definition sring_peekFlags :: "size_t \<Rightarrow> sring \<Rightarrow> u8 option" where
  "sring_peekFlags index r =
     (if index < srNumber r then do {
        position \<leftarrow> sring_increment r (srReadIndex r) index;
        aread (srFlags r) position }
      else Some 0)"

fun sring_reset_loop :: "size_t \<Rightarrow> nat \<Rightarrow> sring \<Rightarrow> buffers \<Rightarrow> (sring \<times> buffers) option" where
  "sring_reset_loop i 0 r bs = Some (r, bs)"
| "sring_reset_loop i (Suc n) r bs = do {
     position \<leftarrow> sring_increment r (srReadIndex r) i;
     (r, bs) \<leftarrow> sring_clear position r bs;
     sring_reset_loop (Suc i) n r bs }"

definition sring_reset :: "sring \<Rightarrow> buffers \<Rightarrow> (sring \<times> buffers) option" where
  "sring_reset r bs = do {
     (r, bs) \<leftarrow> sring_reset_loop 0 (srNumber r) r bs;
     Some (r\<lparr>srReadIndex := 0, srNumber := 0\<rparr>, bs) }"

subsection \<open>Abstraction and invariant\<close>

definition sring_items :: "sring \<Rightarrow> (pointer \<times> u8) list" where
  "sring_items r = zip (ring_view (srBuffer r) (srReadIndex r) (srNumber r))
     (ring_view (srFlags r) (srReadIndex r) (srNumber r))"

definition sring_ok :: "sring \<Rightarrow> bool" where
  "sring_ok r \<longleftrightarrow> 0 < length (srBuffer r) \<and> length (srBuffer r) \<le> 2 ^ 31 \<and>
     length (srFlags r) = length (srBuffer r) \<and> srReadIndex r < length (srBuffer r) \<and>
     srNumber r \<le> length (srBuffer r) \<and>
     (\<forall>i. srNumber r \<le> i \<and> i < length (srBuffer r) \<longrightarrow>
        srBuffer r ! ring_pos (srBuffer r) (srReadIndex r) i = ptr_null)"

text \<open>\<open>P\<close> are the pointers outside of the ring, \<open>mem\<close> what the buffers show.\<close>

definition sring_inv :: "slice list \<Rightarrow> pointer multiset \<Rightarrow> sring \<times> buffers \<Rightarrow> bool" where
  "sring_inv mem P s \<longleftrightarrow> sring_ok (fst s) \<and> counted (mset (srBuffer (fst s)) + P) (snd s) \<and>
     map sbBuffer (snd s) = mem \<and> size P + length (srBuffer (fst s)) + 4 < 2 ^ size_bits"

lemma sring_increment_pos:
  assumes "sring_ok r" and "i \<le> length (srBuffer r)"
  shows "sring_increment r (srReadIndex r) i = Some (ring_pos (srBuffer r) (srReadIndex r) i)"
proof -
  have "(2::nat) ^ 31 \<le> 2 ^ 62" by simp
  with assms have "srReadIndex r + i < 2 ^ size_bits"
    by (simp add: sring_ok_def size_bits_def)
  with assms show ?thesis by (auto simp: sring_increment_def sring_ok_def ring_pos_def szadd_exact)
qed

lemma length_sring_items [simp]: "length (sring_items r) = srNumber r"
  by (simp add: sring_items_def)

lemma ring_view_whole: "ring_view buf start (length buf) = rotate start buf"
  by (rule nth_equalityI) (simp_all add: nth_ring_view ring_pos_def nth_rotate)

lemma mset_rotate [simp]: "mset (rotate n xs) = mset xs"
proof -
  have "mset (rotate1 xs) = mset xs" for xs :: "'a list" by (cases xs) simp_all
  then show ?thesis by (induction n) simp_all
qed

text \<open>The used part of a ring and the rest of it are all of its slots.\<close>

lemma mset_ring_split:
  "n \<le> length buf \<Longrightarrow> mset buf = mset (ring_view buf start n) +
     mset (map (\<lambda>i. buf ! ring_pos buf start i) [n..<length buf])"
proof -
  assume n: "n \<le> length buf"
  have "mset buf = mset (ring_view buf start (length buf))" by (simp add: ring_view_whole)
  also have "[0..<length buf] = [0..<n] @ [n..<length buf]"
    using n by (metis le_add_diff_inverse upt_add_eq_append zero_le)
  then have "mset (ring_view buf start (length buf)) = mset (ring_view buf start n) +
     mset (map (\<lambda>i. buf ! ring_pos buf start i) [n..<length buf])"
    by (simp only: ring_view_def map_append mset_append)
  finally show ?thesis .
qed

lemma refs_plus [simp]: "refs b (P + Q) = refs b P + refs b Q"
  by (simp add: refs_def)

lemma refs_null [simp]: "refs b (mset (map f xs)) = 0" if "\<forall>x \<in> set xs. mPtr (f x) \<noteq> Some b"
  using that by (simp add: refs_zero_iff)

lemma refs_list: "refs b (mset xs) = length (filter (\<lambda>p. mPtr p = Some b) xs)"
  by (induction xs) simp_all

lemma refs_ring:
  assumes "sring_ok r"
  shows "refs b (mset (srBuffer r)) = refs b (mset (map fst (sring_items r)))"
proof -
  let ?N = "length (srBuffer r)"
  have "map fst (sring_items r) = ring_view (srBuffer r) (srReadIndex r) (srNumber r)"
    by (simp add: sring_items_def)
  moreover have "refs b (mset (map (\<lambda>i. srBuffer r ! ring_pos (srBuffer r) (srReadIndex r) i) [srNumber r..<?N])) = 0"
    using assms by (intro refs_null) (auto simp: sring_ok_def ptr_null_def)
  ultimately show ?thesis
    using mset_ring_split [of "srNumber r" "srBuffer r" "srReadIndex r"] assms by (simp add: sring_ok_def)
qed


definition in_memory :: "slice list \<Rightarrow> pointer \<Rightarrow> bool" where
  "in_memory mem p \<longleftrightarrow> (\<forall>b. mPtr p = Some b \<longrightarrow>
     b < length mem \<and> mOffset p + mLength p \<le> mNumberOfElements (mem ! b))"

lemma in_memory_iff: "in_memory (map sbBuffer bs) p \<longleftrightarrow> in_range bs p"
  by (auto simp: in_memory_def in_range_def)

lemma slot_assign_counted:
  assumes c: "counted (mset buf + P) bs" and i: "i < length buf" and "in_range bs p"
    and "size P + length buf < 2 ^ size_bits"
  shows "\<exists>bs'. ptr_assign False (buf ! i) p bs = Some (p, bs') \<and> counted (mset (buf[i := p]) + P) bs' \<and>
    same_memory bs bs'"
proof -
  let ?Q = "mset buf - {#buf ! i#} + P"
  have "counted (add_mset (buf ! i) ?Q) bs" using c i by (simp add: nth_mem_mset)
  moreover have "size ?Q + 1 < 2 ^ size_bits"
    using assms(4) i by (simp add: size_Diff_singleton nth_mem_mset)
  ultimately show ?thesis
    using ptr_assign_counted [of "buf ! i" ?Q bs p] assms(3) i by (simp add: mset_update)
qed

lemma null_in_range [simp]: "in_range bs ptr_null"
  by (simp add: in_range_def ptr_null_def)

lemma sring_append_room:
  assumes inv: "sring_inv mem P (r, bs)" and room: "srNumber r < length (srBuffer r)" and p: "in_memory mem p"
  shows "\<exists>r' bs'. sring_append p f r bs = Some (r', bs', True) \<and> sring_inv mem P (r', bs') \<and>
    sring_items r' = sring_items r @ [(p, f)] \<and> length (srBuffer r') = length (srBuffer r)"
proof -
  let ?N = "length (srBuffer r)" and ?n = "srNumber r" and ?s = "srReadIndex r"
  let ?w = "ring_pos (srBuffer r) ?s ?n"
  have ok: "sring_ok r" and c: "counted (mset (srBuffer r) + P) bs" and mem: "map sbBuffer bs = mem"
    and size: "size P + ?N + 4 < 2 ^ size_bits" using inv by (simp_all add: sring_inv_def)
  have N: "?N \<le> 2 ^ 31" "length (srFlags r) = ?N" "0 < ?N" using ok by (simp_all add: sring_ok_def)
  have w: "?w < ?N" using N by (simp add: ring_pos_def)
  have wf: "ring_pos (srFlags r) ?s ?n = ?w" using N by (simp add: ring_pos_def)
  have "in_range bs p" using p mem by (simp flip: in_memory_iff)
  with slot_assign_counted [OF c w] size obtain bs' where
    bs': "ptr_assign False (srBuffer r ! ?w) p bs = Some (p, bs')"
      "counted (mset ((srBuffer r)[?w := p]) + P) bs'" "same_memory bs bs'" by auto
  let ?r = "r\<lparr>srFlags := (srFlags r)[?w := f], srBuffer := (srBuffer r)[?w := p], srNumber := Suc ?n\<rparr>"
  have "szadd ?n 1 = Suc ?n" using room size by (simp add: szadd_exact)
  then have "sring_append p f r bs = Some (?r, bs', True)"
    using room w N bs'(1) sring_increment_pos [OF ok, of ?n]
    by (simp add: sring_append_def mem_simps)
  moreover have "sring_ok ?r"
  proof -
    have "(srBuffer r)[?w := p] ! ring_pos (srBuffer r) ?s i = ptr_null" if "Suc ?n \<le> i" "i < ?N" for i
    proof -
      have "?w \<noteq> ring_pos (srBuffer r) ?s i" using that by (simp add: ring_pos_inj)
      with ok that show ?thesis by (simp add: sring_ok_def)
    qed
    with ok room show ?thesis by (simp add: sring_ok_def ring_pos_def)
  qed
  moreover have "sring_items ?r = sring_items r @ [(p, f)]"
    using ring_view_update_new [OF room, of ?s p] ring_view_update_new [of ?n "srFlags r" ?s f] room N wf
    by (simp add: sring_items_def)
  ultimately show ?thesis using bs'(2,3) mem size by (auto simp: sring_inv_def same_memory_def)
qed

lemma sring_clear_ok:
  assumes c: "counted (mset (srBuffer r) + P) bs" and "i < length (srBuffer r)"
    and "length (srFlags r) = length (srBuffer r)" and "size P + length (srBuffer r) < 2 ^ size_bits"
  shows "\<exists>bs'. sring_clear i r bs = Some (r\<lparr>srBuffer := (srBuffer r)[i := ptr_null], srFlags := (srFlags r)[i := 0]\<rparr>, bs') \<and>
    counted (mset ((srBuffer r)[i := ptr_null]) + P) bs' \<and> same_memory bs bs'"
proof -
  from slot_assign_counted [OF c assms(2), of ptr_null] assms(4) obtain bs' where
    "ptr_assign False (srBuffer r ! i) ptr_null bs = Some (ptr_null, bs')"
    "counted (mset ((srBuffer r)[i := ptr_null]) + P) bs'" "same_memory bs bs'" by auto
  moreover have "ptr_destroy ptr_null bs' = Some bs'"
    by (simp add: ptr_destroy_def ptr_decrementCount_def ptr_null_def)
  ultimately show ?thesis using assms(2,3) by (simp add: sring_clear_def mem_simps)
qed

lemma sring_pop_next:
  assumes inv: "sring_inv mem P (r, bs)" and items: "sring_items r = x # xs"
  shows "\<exists>r' bs'. sring_pop r bs = Some (r', bs', True) \<and> sring_inv mem P (r', bs') \<and> sring_items r' = xs \<and>
    length (srBuffer r') = length (srBuffer r)"
proof -
  let ?N = "length (srBuffer r)" and ?n = "srNumber r" and ?s = "srReadIndex r"
  have ok: "sring_ok r" and c: "counted (mset (srBuffer r) + P) bs" and mem: "map sbBuffer bs = mem"
    and size: "size P + ?N + 4 < 2 ^ size_bits" using inv by (simp_all add: sring_inv_def)
  have N: "?N \<le> 2 ^ 31" "length (srFlags r) = ?N" "0 < ?N" "?s < ?N" "?n \<le> ?N" using ok by (simp_all add: sring_ok_def)
  have n: "0 < ?n" using items length_sring_items [of r] by (cases ?n) auto
  from sring_clear_ok [OF c N(4,2)] size obtain bs' where
    bs': "sring_clear ?s r bs = Some (r\<lparr>srBuffer := (srBuffer r)[?s := ptr_null], srFlags := (srFlags r)[?s := 0]\<rparr>, bs')"
      "counted (mset ((srBuffer r)[?s := ptr_null]) + P) bs'" "same_memory bs bs'" by auto
  let ?r1 = "r\<lparr>srBuffer := (srBuffer r)[?s := ptr_null], srFlags := (srFlags r)[?s := 0]\<rparr>"
  let ?b = "(srBuffer r)[?s := ptr_null]" and ?s' = "Suc ?s mod ?N"
  let ?r = "?r1\<lparr>srReadIndex := ?s', srNumber := ?n - 1\<rparr>"
  have "szadd ?s 1 = Suc ?s" using N(4) size by (simp add: szadd_exact)
  then have "sring_increment ?r1 ?s 1 = Some ?s'" using N by (auto simp: sring_increment_def)
  then have "sring_pop r bs = Some (?r, bs', True)"
    using n bs'(1) by (simp add: sring_pop_def)
  moreover have s0: "ring_pos (srBuffer r) ?s 0 = ?s" "ring_pos (srFlags r) ?s 0 = ?s"
    using N by (simp_all add: ring_pos_def)
  have "sring_ok ?r"
  proof -
    have old: "srBuffer r ! ((?s + j) mod ?N) = ptr_null" if "?n \<le> j" "j < ?N" for j
      using ok that by (simp add: sring_ok_def ring_pos_def)
    have "?b ! ((?s' + i) mod ?N) = ptr_null" if "?n - 1 \<le> i" "i < ?N" for i
    proof -
      have "(?s' + i) mod ?N = (?s + Suc i) mod ?N" by (simp add: mod_add_left_eq)
      moreover have "(?s + ?N) mod ?N = ?s" using N by simp
      moreover have "?n \<le> Suc i" using that(1) by simp
      then have "srBuffer r ! ((?s + Suc i) mod ?N) = ptr_null" if "Suc i < ?N"
        using old [of "Suc i"] that by simp
      ultimately show ?thesis
        using that N by (cases "Suc i = ?N"; cases "(?s + Suc i) mod ?N = ?s") simp_all
    qed
    moreover have "?s' < ?N" using N by simp
    ultimately show ?thesis using N n by (auto simp: sring_ok_def ring_pos_def)
  qed
  moreover have "sring_items ?r = xs"
  proof -
    have "Suc (?n - 1) = ?n" using n by simp
    moreover have "?n - 1 < ?N" using n N by simp
    ultimately have "ring_view ?b ?s ?n = ptr_null # ring_view (srBuffer r) (Suc ?s) (?n - 1)"
      and "ring_view ((srFlags r)[?s := 0]) ?s ?n = 0 # ring_view (srFlags r) (Suc ?s) (?n - 1)"
      using ring_view_update_front [of "?n - 1" "srBuffer r" ?s ?s ptr_null]
        ring_view_update_front [of "?n - 1" "srFlags r" ?s ?s 0] s0 N by simp_all
    note 1 = this [THEN ring_view_eq_Cons]
    have "ring_view ?b (Suc ?s) (?n - 1) = ring_view (srBuffer r) (Suc ?s) (?n - 1)"
      and "ring_view ((srFlags r)[?s := 0]) (Suc ?s) (?n - 1) = ring_view (srFlags r) (Suc ?s) (?n - 1)"
      using 1 by simp_all
    moreover have "sring_items r = (srBuffer r ! ?s, srFlags r ! ?s) #
        zip (ring_view (srBuffer r) (Suc ?s) (?n - 1)) (ring_view (srFlags r) (Suc ?s) (?n - 1))"
      using ring_view_Cons [of "srBuffer r" ?s "?n - 1"] ring_view_Cons [of "srFlags r" ?s "?n - 1"] n s0
      by (simp add: sring_items_def)
    ultimately show ?thesis
      using items N ring_view_wrap [of ?b "Suc ?s" "?n - 1"] ring_view_wrap [of "(srFlags r)[?s := 0]" "Suc ?s" "?n - 1"]
      by (simp add: sring_items_def)
  qed
  ultimately show ?thesis using bs'(2,3) mem size by (auto simp: sring_inv_def same_memory_def)
qed


subsection \<open>Resetting\<close>

lemma sring_reset_loop_clears:
  assumes "i + n \<le> length (srBuffer r)" and "counted (mset (srBuffer r) + P) bs"
    and "length (srFlags r) = length (srBuffer r)" and "size P + length (srBuffer r) < 2 ^ size_bits"
    and "srReadIndex r + length (srBuffer r) < 2 ^ size_bits"
  shows "\<exists>buf fs bs'. sring_reset_loop i n r bs = Some (r\<lparr>srBuffer := buf, srFlags := fs\<rparr>, bs') \<and>
    length buf = length (srBuffer r) \<and> length fs = length (srBuffer r) \<and> counted (mset buf + P) bs' \<and> same_memory bs bs' \<and>
    (\<forall>k < length buf. buf ! ring_pos buf (srReadIndex r) k =
       (if i \<le> k \<and> k < i + n then ptr_null else srBuffer r ! ring_pos buf (srReadIndex r) k))"
  using assms
proof (induction n arbitrary: i r bs)
  case 0
  then show ?case by (intro exI [of _ "srBuffer r"] exI [of _ "srFlags r"] exI [of _ bs]) auto
next
  case (Suc n)
  let ?N = "length (srBuffer r)" and ?s = "srReadIndex r"
  let ?p = "ring_pos (srBuffer r) ?s i"
  let ?r = "r\<lparr>srBuffer := (srBuffer r)[?p := ptr_null], srFlags := (srFlags r)[?p := 0]\<rparr>"
  have N: "0 < ?N" "i < ?N" using Suc.prems(1) by linarith+
  then have p: "?p < ?N" by (simp add: ring_pos_def)
  have "?s + i < 2 ^ size_bits" using Suc.prems(5) N by simp
  then have inc: "sring_increment r ?s i = Some ?p"
    using N by (auto simp: sring_increment_def ring_pos_def szadd_exact)
  from sring_clear_ok [OF Suc.prems(2) p Suc.prems(3,4)] obtain bs1 where
    1: "sring_clear ?p r bs = Some (?r, bs1)" "counted (mset ((srBuffer r)[?p := ptr_null]) + P) bs1" "same_memory bs bs1"
    by blast
  from Suc.IH [of "Suc i" ?r bs1] Suc.prems 1(2) obtain buf fs bs2 where
    2: "sring_reset_loop (Suc i) n ?r bs1 = Some (?r\<lparr>srBuffer := buf, srFlags := fs\<rparr>, bs2)" "length buf = ?N"
      "length fs = ?N" "counted (mset buf + P) bs2" "same_memory bs1 bs2"
      "\<forall>k < ?N. buf ! ring_pos buf ?s k =
         (if Suc i \<le> k \<and> k < Suc i + n then ptr_null else (srBuffer r)[?p := ptr_null] ! ring_pos buf ?s k)"
    by auto
  have "buf ! ring_pos buf ?s k = (if i \<le> k \<and> k < i + Suc n then ptr_null else srBuffer r ! ring_pos buf ?s k)"
    if k: "k < ?N" for k
  proof -
    have "ring_pos buf ?s k = ?p \<longleftrightarrow> k = i"
      using ring_pos_inj [of k "srBuffer r" i ?s] k N 2(2) by (simp add: ring_pos_def)
    with 2(2,6) k p show ?thesis by (cases "k = i") (auto simp: nth_list_update)
  qed
  moreover have "sring_reset_loop i (Suc n) r bs = Some (r\<lparr>srBuffer := buf, srFlags := fs\<rparr>, bs2)"
    using inc 1(1) 2(1) by simp
  ultimately show ?case using 2(2-4) same_memory_trans [OF 1(3) 2(5)]
    by (intro exI [of _ buf] exI [of _ fs] exI [of _ bs2]) (simp del: sring_reset_loop.simps)
qed

lemma sring_reset_empties:
  assumes inv: "sring_inv mem P (r, bs)"
  shows "\<exists>r' bs'. sring_reset r bs = Some (r', bs') \<and> sring_inv mem P (r', bs') \<and> sring_items r' = [] \<and>
    length (srBuffer r') = length (srBuffer r)"
proof -
  let ?N = "length (srBuffer r)" and ?s = "srReadIndex r"
  have ok: "sring_ok r" and c: "counted (mset (srBuffer r) + P) bs" and mem: "map sbBuffer bs = mem"
    and size: "size P + ?N + 4 < 2 ^ size_bits" using inv by (simp_all add: sring_inv_def)
  have N: "?N \<le> 2 ^ 31" "length (srFlags r) = ?N" "?s < ?N" "srNumber r \<le> ?N" using ok by (simp_all add: sring_ok_def)
  then have "?s + ?N < 2 ^ size_bits" by (simp add: size_bits_def)
  with sring_reset_loop_clears [of 0 "srNumber r" r P bs] c N size obtain buf fs bs' where
    1: "sring_reset_loop 0 (srNumber r) r bs = Some (r\<lparr>srBuffer := buf, srFlags := fs\<rparr>, bs')"
      "length buf = ?N" "length fs = ?N" "counted (mset buf + P) bs'" "same_memory bs bs'" and
    clear: "\<forall>k < ?N. buf ! ring_pos buf ?s k = (if k < srNumber r then ptr_null else srBuffer r ! ring_pos buf ?s k)"
    by auto
  have all: "buf ! i = ptr_null" if "i < ?N" for i
  proof -
    from rotation_reaches [OF that N(3)] obtain k where k: "k < ?N" "(?s + k) mod ?N = i" by blast
    with clear ok 1(2) show ?thesis
      by (cases "k < srNumber r") (auto simp: ring_pos_def sring_ok_def)
  qed
  let ?r = "r\<lparr>srBuffer := buf, srFlags := fs, srReadIndex := 0, srNumber := 0\<rparr>"
  have "sring_ok ?r" using ok 1(2,3) all by (auto simp: sring_ok_def ring_pos_def)
  moreover have "sring_reset r bs = Some (?r, bs')" using 1(1) by (simp add: sring_reset_def)
  ultimately show ?thesis using 1(2,4,5) mem size
    by (auto simp: sring_inv_def same_memory_def sring_items_def)
qed

subsection \<open>The ring as a provider of the contract \<open>bounded_fifo\<close>\<close>

definition sring_push :: "pointer \<times> u8 \<Rightarrow> sring \<times> buffers \<Rightarrow> ((sring \<times> buffers) \<times> bool) option" where
  "sring_push x s = map_option (\<lambda>(r, bs, b). ((r, bs), b)) (sring_append (fst x) (snd x) (fst s) (snd s))"

definition sring_front :: "sring \<times> buffers \<Rightarrow> (pointer \<times> u8) option" where
  "sring_front s = do { p \<leftarrow> sring_peek 0 (fst s); f \<leftarrow> sring_peekFlags 0 (fst s); Some (p, f) }"

definition sring_drop :: "sring \<times> buffers \<Rightarrow> (sring \<times> buffers) option" where
  "sring_drop s = map_option (\<lambda>(r, bs, b). (r, bs)) (sring_pop (fst s) (snd s))"

lemma sring_peek_item:
  assumes ok: "sring_ok r" and i: "i < srNumber r"
  shows "sring_peek i r = Some (fst (sring_items r ! i))" and "sring_peekFlags i r = Some (snd (sring_items r ! i))"
proof -
  have N: "0 < length (srBuffer r)" "length (srFlags r) = length (srBuffer r)" "i \<le> length (srBuffer r)"
    using ok i by (simp_all add: sring_ok_def)
  then have "ring_pos (srBuffer r) (srReadIndex r) i < length (srBuffer r)" by (simp add: ring_pos_def)
  with N i sring_increment_pos [OF ok N(3)] show "sring_peek i r = Some (fst (sring_items r ! i))"
    and "sring_peekFlags i r = Some (snd (sring_items r ! i))"
    by (simp_all add: sring_peek_def sring_peekFlags_def mem_simps sring_items_def nth_ring_view ring_pos_def)
qed

lemma sring_isEmpty_iff: "sring_isEmpty r \<longleftrightarrow> sring_items r = []"
  unfolding sring_isEmpty_def by (metis length_0_conv length_sring_items)

interpretation sr: bounded_fifo "\<lambda>s. sring_items (fst s)" "sring_inv mem P" "\<lambda>s. length (srBuffer (fst s))"
    "\<lambda>x. in_memory mem (fst x)" sring_push sring_front sring_drop "\<lambda>s. sring_isEmpty (fst s)" for mem P
proof unfold_locales
  fix s :: "sring \<times> buffers" and x y ys
  assume inv: "sring_inv mem P s"
  obtain r bs where s: "s = (r, bs)" by (cases s)
  have ok: "sring_ok r" using inv by (simp add: s sring_inv_def)
  show "\<exists>s'. sring_push x s = Some (s', True) \<and> sring_inv mem P s' \<and>
      sring_items (fst s') = sring_items (fst s) @ [x] \<and> length (srBuffer (fst s')) = length (srBuffer (fst s))"
    if "in_memory mem (fst x)" "length (sring_items (fst s)) < length (srBuffer (fst s))"
    using sring_append_room [OF inv [unfolded s] _ that(1), of "snd x"] that(2) by (auto simp: sring_push_def s)
  show "sring_push x s = Some (s, False)" if "length (sring_items (fst s)) = length (srBuffer (fst s))"
    using that by (simp add: sring_push_def sring_append_def s)
  show "sring_front s = Some y" if "sring_items (fst s) = y # ys"
  proof -
    have "0 < srNumber r" using that length_sring_items [of r] by (cases "srNumber r") (auto simp: s)
    with sring_peek_item [OF ok this] that show ?thesis by (simp add: sring_front_def s)
  qed
  show "\<exists>s'. sring_drop s = Some s' \<and> sring_inv mem P s' \<and> sring_items (fst s') = ys \<and>
      length (srBuffer (fst s')) = length (srBuffer (fst s))" if "sring_items (fst s) = y # ys"
    using sring_pop_next [OF inv [unfolded s]] that by (auto simp: sring_drop_def s)
  show "sring_isEmpty (fst s) \<longleftrightarrow> sring_items (fst s) = []"
    by (rule sring_isEmpty_iff)
  show "length (sring_items (fst s)) \<le> length (srBuffer (fst s))" using ok by (simp add: s sring_ok_def)
qed

lemma sring_storage_inv:
  assumes "0 < n" and "n \<le> 2 ^ 31" and c: "counted P bs" and "size P + n + 4 < 2 ^ size_bits"
  shows "sring_inv (map sbBuffer bs) P (sring_storage n, bs)"
proof -
  have "counted (replicate_mset m ptr_null + P) bs" for m
    using c null_pointers by (induction m) simp_all
  then have "counted (mset (replicate n ptr_null) + P) bs" by simp
  moreover have "sring_ok (sring_storage n)"
    using assms(1,2) by (simp add: sring_storage_def sring_new_def sring_ok_def ring_pos_def)
  moreover have "srBuffer (sring_storage n) = replicate n ptr_null" by (simp add: sring_storage_def sring_new_def)
  ultimately show ?thesis using assms(4) by (simp add: sring_inv_def)
qed

text \<open>
  C37. A ring of shared buffer pointers behaves as a bounded first-in first-out list of pointers
  with flags, for any sequence of calls; and it keeps alive exactly the buffers of the pointers it
  holds: at the end the counter of every buffer has grown by the number of stored pointers to it.
\<close>

theorem sring_refines_fifo:
  assumes "0 < n" and "n \<le> 2 ^ 31" and "counted P bs" and "size P + n + 4 < 2 ^ size_bits"
    and "calls_ok (\<lambda>x. in_memory (map sbBuffer bs) (fst x)) cs"
  shows "\<exists>r bs' rs. fifo_run sring_push sring_front sring_drop (\<lambda>s. sring_isEmpty (fst s))
      (sring_storage n, bs) cs = Some ((r, bs'), rs) \<and> spec_run n [] cs = (sring_items r, rs) \<and>
    (\<forall>b < length bs. getReferenceCount (bs' ! b) = getReferenceCount (bs ! b) +
       length (filter (\<lambda>x. mPtr (fst x) = Some b) (sring_items r)))"
proof -
  have items: "sring_items (sring_storage n) = []" "length (srBuffer (sring_storage n)) = n"
    by (simp_all add: sring_items_def sring_storage_def sring_new_def)
  from sr.run_refines [OF sring_storage_inv [OF assms(1-4)] assms(5)] items obtain r bs' rs where
    1: "fifo_run sring_push sring_front sring_drop (\<lambda>s. sring_isEmpty (fst s)) (sring_storage n, bs) cs =
        Some ((r, bs'), rs)" "sring_inv (map sbBuffer bs) P (r, bs')" "spec_run n [] cs = (sring_items r, rs)"
    by auto
  have "mReferenceCounter (bs' ! b) = mReferenceCounter (bs ! b) +
      length (filter (\<lambda>x. mPtr (fst x) = Some b) (sring_items r))" if "b < length bs" for b
  proof -
    have "length bs' = length bs" using 1(2) by (metis length_map sring_inv_def snd_conv)
    moreover have "refs b (mset (map fst (sring_items r))) = length (filter (\<lambda>x. mPtr (fst x) = Some b) (sring_items r))"
      by (simp add: refs_list filter_map comp_def del: mset_map)
    ultimately show ?thesis
      using 1(2) assms(3) that refs_ring [of r b] by (simp add: sring_inv_def counted_def)
  qed
  with 1 show ?thesis by (simp add: getReferenceCount_def)
qed

definition sample_buffers :: buffers where
  "sample_buffers = [sbuf_new \<lparr>mData = Some 0, mNumberOfElements = 4\<rparr>]"

definition sample_pointer :: pointer where
  "sample_pointer = \<lparr>mPtr = Some 0, mType = 0, mOffset = 0, mLength = 4\<rparr>"

lemma sring_refines_fifo_witness:
  "\<exists>s. fifo_run sring_push sring_front sring_drop (\<lambda>s. sring_isEmpty (fst s)) (sring_storage 1, sample_buffers)
     [Push (sample_pointer, 3), Push (sample_pointer, 4), Pop] =
     Some (s, [Pushed True, Pushed False, Popped (Some (sample_pointer, 3))])"
proof -
  have "counted {#} sample_buffers" "calls_ok (\<lambda>x. in_memory (map sbBuffer sample_buffers) (fst x))
      [Push (sample_pointer, 3), Push (sample_pointer, 4 :: u8), Pop]"
    by (simp_all add: sample_buffers_def sample_pointer_def counted_def sbuf_new_def max_object_def
        calls_ok_def in_memory_def)
  from sring_refines_fifo [OF _ _ this(1) _ this(2), of 1] show ?thesis
    by (auto simp: size_bits_def simp del: fifo_run.simps)
qed

end
