(* ===== verification/Rtos_Queue.thy ===== *)
theory Rtos_Queue
  imports Interfaces Ring_Index
begin

text \<open>
  \<open>outpost::rtos::Queue\<close> on POSIX (modules/rtos/arch/posix/outpost/rtos/queue.h and
  queue_impl.h): a bounded queue between threads.

  A call holds the mutex, so it is one step of the model, except that \<open>receive\<close> releases the mutex
  while it waits. Its argument \<open>waits\<close> lists what each wait returns: the queue as the other
  threads have left it, and whether \<open>pthread_cond_(timed)wait\<close> has succeeded; \<open>None\<close> stands for a
  receiver that is still blocked when the list is used up.
\<close>

record 'a rtosq =
  rqBuffer :: "'a list"
  rqMaximumSize :: size_t
  rqItemsInBuffer :: size_t
  rqHead :: size_t
  rqTail :: size_t

text \<open>\<open>new T[numberOfItems]\<close> is not initialised; \<open>junk\<close> is what is there.\<close>

definition rtosq_new :: "'a list \<Rightarrow> 'a rtosq" where
  "rtosq_new junk = \<lparr>rqBuffer = junk, rqMaximumSize = length junk, rqItemsInBuffer = 0, rqHead = 0, rqTail = 0\<rparr>"

definition rtosq_increment :: "'a rtosq \<Rightarrow> size_t \<Rightarrow> size_t" where
  "rtosq_increment q index = (if index \<ge> szsub (rqMaximumSize q) 1 then 0 else szadd index 1)"

definition rtosq_send :: "'a \<Rightarrow> 'a rtosq \<Rightarrow> ('a rtosq \<times> bool) option" where
  "rtosq_send data q =
     (if rqItemsInBuffer q < rqMaximumSize q then do {
        let head = rtosq_increment q (rqHead q);
        buffer \<leftarrow> awrite (rqBuffer q) head data;
        Some (q\<lparr>rqHead := head, rqBuffer := buffer, rqItemsInBuffer := szadd (rqItemsInBuffer q) 1\<rparr>, True) }
      else Some (q, False))"

fun rtosq_wait :: "('a rtosq \<times> bool) list \<Rightarrow> 'a rtosq \<Rightarrow> ('a rtosq \<times> bool) option" where
  "rtosq_wait waits q =
     (if rqItemsInBuffer q = 0
      then case waits of
        [] \<Rightarrow> None
      | (q', ok) # waits \<Rightarrow> if ok then rtosq_wait waits q' else Some (q', True)
      else Some (q, False))"

definition rtosq_receive ::
    "('a rtosq \<times> bool) list \<Rightarrow> 'a \<Rightarrow> 'a rtosq \<Rightarrow> ('a rtosq \<times> 'a \<times> bool) option" where
  "rtosq_receive waits data q = do {
     (q, timeoutOrErrorOccured) \<leftarrow> rtosq_wait waits q;
     if \<not> timeoutOrErrorOccured
     then do {
       let tail = rtosq_increment q (rqTail q);
       data \<leftarrow> aread (rqBuffer q) tail;
       Some (q\<lparr>rqTail := tail, rqItemsInBuffer := szsub (rqItemsInBuffer q) 1\<rparr>, data, True) }
     else Some (q, data, False) }"

subsection \<open>What a queue holds\<close>

definition rtosq_items :: "'a rtosq \<Rightarrow> 'a list" where
  "rtosq_items q = ring_view (rqBuffer q) (Suc (rqTail q)) (rqItemsInBuffer q)"

definition rtosq_inv :: "'a rtosq \<Rightarrow> bool" where
  "rtosq_inv q \<longleftrightarrow> length (rqBuffer q) = rqMaximumSize q \<and> 0 < rqMaximumSize q \<and>
     rqMaximumSize q < 2 ^ size_bits \<and> rqTail q < rqMaximumSize q \<and>
     rqItemsInBuffer q \<le> rqMaximumSize q \<and>
     rqHead q = (rqTail q + rqItemsInBuffer q) mod rqMaximumSize q"

lemma rtosq_new_inv:
  "junk \<noteq> [] \<Longrightarrow> length junk < 2 ^ size_bits \<Longrightarrow> rtosq_inv (rtosq_new junk) \<and> rtosq_items (rtosq_new junk) = []"
  by (simp add: rtosq_inv_def rtosq_new_def rtosq_items_def)

lemma rtosq_increment_mod:
  assumes "rtosq_inv q" and "index < rqMaximumSize q"
  shows "rtosq_increment q index = Suc index mod rqMaximumSize q"
proof -
  have "szsub (rqMaximumSize q) 1 = rqMaximumSize q - 1"
    using assms by (simp add: rtosq_inv_def szsub_exact)
  with assms show ?thesis
    by (cases "Suc index = rqMaximumSize q") (auto simp: rtosq_increment_def rtosq_inv_def szadd_exact)
qed

lemma length_rtosq_items [simp]: "length (rtosq_items q) = rqItemsInBuffer q"
  by (simp add: rtosq_items_def)

lemma rtosq_send_room:
  assumes inv: "rtosq_inv q" and "rqItemsInBuffer q < rqMaximumSize q"
  shows "\<exists>q'. rtosq_send x q = Some (q', True) \<and> rtosq_inv q' \<and>
    rtosq_items q' = rtosq_items q @ [x] \<and> rqMaximumSize q' = rqMaximumSize q"
proof -
  let ?N = "rqMaximumSize q" and ?n = "rqItemsInBuffer q" and ?b = "rqBuffer q"
  have len: "length ?b = ?N" "?N < 2 ^ size_bits" "0 < ?N" using inv by (simp_all add: rtosq_inv_def)
  have "rqHead q < ?N" using inv by (simp add: rtosq_inv_def)
  then have "rtosq_increment q (rqHead q) = Suc (rqHead q) mod ?N"
    by (rule rtosq_increment_mod [OF inv])
  also have "\<dots> = ring_pos ?b (Suc (rqTail q)) ?n"
    using inv by (simp add: rtosq_inv_def ring_pos_def mod_Suc_eq)
  finally have head: "rtosq_increment q (rqHead q) = ring_pos ?b (Suc (rqTail q)) ?n" .
  have pos: "ring_pos ?b (Suc (rqTail q)) ?n < ?N" using len by (simp add: ring_pos_def)
  let ?q = "q\<lparr>rqHead := ring_pos ?b (Suc (rqTail q)) ?n,
      rqBuffer := ?b[ring_pos ?b (Suc (rqTail q)) ?n := x], rqItemsInBuffer := Suc ?n\<rparr>"
  have "szadd ?n 1 = Suc ?n" using assms(2) len by (simp add: szadd_exact)
  then have "rtosq_send x q = Some (?q, True)"
    using assms(2) head pos len by (simp add: rtosq_send_def mem_simps Let_def)
  moreover have "rtosq_inv ?q"
    using inv assms(2) by (simp add: rtosq_inv_def ring_pos_def)
  moreover have "rtosq_items ?q = rtosq_items q @ [x]"
    using ring_view_update_new [of ?n ?b "Suc (rqTail q)" x] assms(2) len
    by (simp add: rtosq_items_def)
  ultimately show ?thesis by auto
qed

lemma rtosq_receive_next:
  assumes inv: "rtosq_inv q" and items: "rtosq_items q = x # xs"
  shows "\<exists>q'. rtosq_receive waits d q = Some (q', x, True) \<and> rtosq_inv q' \<and> rtosq_items q' = xs \<and>
    rqMaximumSize q' = rqMaximumSize q"
proof -
  let ?N = "rqMaximumSize q" and ?n = "rqItemsInBuffer q" and ?b = "rqBuffer q"
  let ?t = "Suc (rqTail q) mod ?N"
  have len: "length ?b = ?N" "?N < 2 ^ size_bits" "0 < ?N" "?n \<le> ?N" using inv by (simp_all add: rtosq_inv_def)
  have tail: "rtosq_increment q (rqTail q) = ?t"
    using inv by (intro rtosq_increment_mod) (simp_all add: rtosq_inv_def)
  from items have n: "0 < ?n" "x = ?b ! ?t" "xs = ring_view ?b (Suc (Suc (rqTail q))) (?n - 1)"
    using ring_view_eq_Cons [of ?b "Suc (rqTail q)" ?n x xs] len by (simp_all add: rtosq_items_def ring_pos_def)
  let ?q = "q\<lparr>rqTail := ?t, rqItemsInBuffer := ?n - 1\<rparr>"
  have "szsub ?n 1 = ?n - 1" using n(1) len by (simp add: szsub_exact)
  then have "rtosq_receive waits d q = Some (?q, x, True)"
    using n(1,2) tail len by (simp add: rtosq_receive_def mem_simps Let_def)
  moreover have "rtosq_inv ?q"
  proof -
    have "(?t + (?n - 1)) mod ?N = (Suc (rqTail q) + (?n - 1)) mod ?N" by (rule mod_add_left_eq)
    with inv n(1) show ?thesis by (auto simp: rtosq_inv_def)
  qed
  moreover have "rtosq_items ?q = xs"
    using n(3) ring_view_Suc_mod [of ?b "Suc (rqTail q)" "?n - 1"] len
    by (simp add: rtosq_items_def)
  ultimately show ?thesis by auto
qed


lemma rtosq_receive_timeout:
  assumes "rqItemsInBuffer q = 0"
  shows "rtosq_receive [(q', False)] d q = Some (q', d, False)"
  using assms by (simp add: rtosq_receive_def)

text \<open>What a thread receives is what it finds when it may run.\<close>

lemma rtosq_wait_result:
  "rtosq_wait waits q = Some (q', t) \<Longrightarrow> q' \<in> insert q (fst ` set waits) \<and> (\<not> t \<longrightarrow> rqItemsInBuffer q' > 0)"
  by (induction waits q rule: rtosq_wait.induct) (auto split: if_splits list.splits)

subsection \<open>The queue as a provider of the contract \<open>bounded_fifo\<close>\<close>

definition rtosq_front :: "'a \<Rightarrow> 'a rtosq \<Rightarrow> 'a option" where
  "rtosq_front d q = map_option (\<lambda>(q', x, r). x) (rtosq_receive [] d q)"

definition rtosq_pop :: "'a \<Rightarrow> 'a rtosq \<Rightarrow> 'a rtosq option" where
  "rtosq_pop d q = map_option fst (rtosq_receive [] d q)"

interpretation rtosq: bounded_fifo rtosq_items rtosq_inv rqMaximumSize "\<lambda>x. True" rtosq_send
    "rtosq_front d" "rtosq_pop d" "\<lambda>q. rqItemsInBuffer q = 0" for d
proof unfold_locales
  fix q :: "'a rtosq" and x y :: 'a and ys
  assume inv: "rtosq_inv q"
  show "\<exists>q'. rtosq_send x q = Some (q', True) \<and> rtosq_inv q' \<and> rtosq_items q' = rtosq_items q @ [x] \<and>
      rqMaximumSize q' = rqMaximumSize q" if "length (rtosq_items q) < rqMaximumSize q"
    using rtosq_send_room [OF inv] that by simp
  show "rtosq_send x q = Some (q, False)" if "length (rtosq_items q) = rqMaximumSize q"
    using that by (simp add: rtosq_send_def)
  show "rtosq_front d q = Some y" if "rtosq_items q = y # ys"
    using rtosq_receive_next [OF inv that, of "[]" d] by (auto simp: rtosq_front_def)
  show "\<exists>q'. rtosq_pop d q = Some q' \<and> rtosq_inv q' \<and> rtosq_items q' = ys \<and> rqMaximumSize q' = rqMaximumSize q"
    if "rtosq_items q = y # ys"
    using rtosq_receive_next [OF inv that, of "[]" d] by (auto simp: rtosq_pop_def)
  show "rqItemsInBuffer q = 0 \<longleftrightarrow> rtosq_items q = []" by (simp add: rtosq_items_def ring_view_Nil_iff)
  show "length (rtosq_items q) \<le> rqMaximumSize q" using inv by (simp add: rtosq_inv_def)
qed

end
