(* ===== verification/Reference_Queue.thy ===== *)
theory Reference_Queue
  imports Rtos_Queue
begin

text \<open>
  \<open>ReferenceQueue\<close> (modules/utils/src/outpost/utils/container/reference_queue.h): a queue for
  objects that can not be copied byte by byte. The objects wait in the slots of an array; the
  numbers of the slots are sent through an \<open>rtos::Queue\<close>.

  \<open>receive\<close> takes a number from the inner queue before it acquires the mutex, so it is two steps,
  \<open>rf_receive_begin\<close> and \<open>rf_receive_end\<close>, and other calls may come between them. The theory
  has a theorem for callers that do not overlap (the queue is a bounded fifo) and one for any
  interleaving (no object is lost, duplicated or overwritten).
\<close>

record 'a refq =
  rfQueue :: "nat rtosq"
  rfEmpty :: 'a
  rfItems :: u16
  rfLastIndex :: size_t
  rfPointers :: "'a list"
  rfIsUsed :: "bool list"

definition rf_new :: "nat \<Rightarrow> nat list \<Rightarrow> 'a \<Rightarrow> 'a refq" where
  "rf_new n junk e = \<lparr>rfQueue = rtosq_new junk, rfEmpty = e, rfItems = 0, rfLastIndex = 0,
     rfPointers = replicate n e, rfIsUsed = replicate n False\<rparr>"

definition rf_isEmpty :: "'a refq \<Rightarrow> bool" where
  "rf_isEmpty q \<longleftrightarrow> list_all Not (rfIsUsed q)"

definition rf_isFull :: "'a refq \<Rightarrow> bool" where
  "rf_isFull q \<longleftrightarrow> unat (rfItems q) = length (rfPointers q)"

definition rf_getNumberOfItems :: "'a refq \<Rightarrow> u16" where
  "rf_getNumberOfItems q = rfItems q"

text \<open>The branch of \<open>send\<close> that has found the free slot \<open>i\<close>.\<close>

definition rf_put :: "'a \<Rightarrow> size_t \<Rightarrow> 'a refq \<Rightarrow> ('a refq \<times> bool) option" where
  "rf_put data i q = do {
     pointers \<leftarrow> awrite (rfPointers q) i data;
     used \<leftarrow> awrite (rfIsUsed q) i True;
     let last = szadd i 1 mod length (rfPointers q);
     (mq, sent) \<leftarrow> rtosq_send i (rfQueue q);
     if sent
     then Some (q\<lparr>rfPointers := pointers, rfIsUsed := used, rfLastIndex := last, rfQueue := mq,
                  rfItems := rfItems q + 1\<rparr>, True)
     else do {
       used \<leftarrow> awrite used i False;
       pointers \<leftarrow> awrite pointers i (rfEmpty q);
       Some (q\<lparr>rfPointers := pointers, rfIsUsed := used, rfLastIndex := last, rfQueue := mq\<rparr>, False) } }"

fun rf_search :: "nat \<Rightarrow> 'a \<Rightarrow> size_t \<Rightarrow> size_t \<Rightarrow> 'a refq \<Rightarrow> ('a refq \<times> bool) option" where
  "rf_search 0 data i endSearch q = None"
| "rf_search (Suc n) data i endSearch q = do {
     used \<leftarrow> aread (rfIsUsed q) i;
     if \<not> used then rf_put data i q
     else do {
       let i = szadd i 1 mod length (rfPointers q);
       if i \<noteq> endSearch then rf_search n data i endSearch q else Some (q, False) } }"

text \<open>\<open>acquired\<close> is the answer of \<open>mMutex.acquire(timeout)\<close>.\<close>

definition rf_send :: "bool \<Rightarrow> 'a \<Rightarrow> 'a refq \<Rightarrow> ('a refq \<times> bool) option" where
  "rf_send acquired data q =
     (if \<not> acquired then Some (q, False)
      else rf_search (length (rfPointers q)) data (rfLastIndex q)
             (szsub (rfLastIndex q) 1 mod length (rfPointers q)) q)"

definition rf_receive_begin ::
    "(nat rtosq \<times> bool) list \<Rightarrow> nat \<Rightarrow> 'a refq \<Rightarrow> ('a refq \<times> nat \<times> bool) option" where
  "rf_receive_begin waits index q = do {
     (mq, index, r) \<leftarrow> rtosq_receive waits index (rfQueue q);
     Some (q\<lparr>rfQueue := mq\<rparr>, index, r) }"

definition rf_receive_end :: "nat \<Rightarrow> 'a refq \<Rightarrow> ('a refq \<times> 'a) option" where
  "rf_receive_end index q = do {
     data \<leftarrow> aread (rfPointers q) index;
     pointers \<leftarrow> awrite (rfPointers q) index (rfEmpty q);
     used \<leftarrow> awrite (rfIsUsed q) index False;
     Some (q\<lparr>rfPointers := pointers, rfIsUsed := used, rfItems := rfItems q - 1\<rparr>, data) }"

definition rf_receive :: "(nat rtosq \<times> bool) list \<Rightarrow> nat \<Rightarrow> 'a \<Rightarrow> 'a refq \<Rightarrow> ('a refq \<times> 'a \<times> bool) option" where
  "rf_receive waits index data q = do {
     (q, index, r) \<leftarrow> rf_receive_begin waits index q;
     if r then do { (q, data) \<leftarrow> rf_receive_end index q; Some (q, data, True) }
     else Some (q, data, False) }"

subsection \<open>The invariant under any interleaving\<close>

text \<open>
  \<open>pending\<close> are the slots of the receivers between the two steps. The used slots are exactly the
  ones whose numbers wait in the inner queue or are pending, each once.
\<close>

definition rf_inv :: "'a refq \<Rightarrow> nat list \<Rightarrow> bool" where
  "rf_inv q pending \<longleftrightarrow> rtosq_inv (rfQueue q) \<and> rqMaximumSize (rfQueue q) = length (rfPointers q) \<and>
     length (rfIsUsed q) = length (rfPointers q) \<and> length (rfPointers q) < 2 ^ 16 \<and>
     rfLastIndex q < length (rfPointers q) \<and>
     distinct (rtosq_items (rfQueue q) @ pending) \<and>
     set (rtosq_items (rfQueue q) @ pending) = {i. i < length (rfPointers q) \<and> rfIsUsed q ! i} \<and>
     rfItems q = of_nat (length (rtosq_items (rfQueue q) @ pending))"

lemma rf_new_inv:
  assumes "0 < n" and "n < 2 ^ 16" and "length junk = n"
  shows "rf_inv (rf_new n junk e) []"
proof -
  have "junk \<noteq> []" "length junk < 2 ^ size_bits" using assms by (auto simp: size_bits_def)
  with rtosq_new_inv [of junk] assms show ?thesis
    by (simp add: rf_inv_def rf_new_def rtosq_new_def)
qed

lemma rf_search_find:
  assumes inv: "rf_inv q ps" and i: "i < length (rfPointers q)" and d: "0 < d" "d \<le> fuel" "d \<le> length (rfPointers q)"
  shows "rf_search fuel data i ((i + d) mod length (rfPointers q)) q =
    (case find (\<lambda>j. \<not> rfIsUsed q ! ((i + j) mod length (rfPointers q))) [0..<d] of
       None \<Rightarrow> Some (q, False)
     | Some j \<Rightarrow> rf_put data ((i + j) mod length (rfPointers q)) q)"
  using i d
proof (induction fuel arbitrary: i d)
  case 0
  then show ?case by simp
next
  case (Suc fuel)
  let ?N = "length (rfPointers q)"
  have N: "length (rfIsUsed q) = ?N" "?N < 2 ^ size_bits" using inv by (auto simp: rf_inv_def size_bits_def)
  have next_i: "szadd i 1 mod ?N = Suc i mod ?N" using Suc.prems(1) N by (simp add: szadd_exact)
  have upt: "[0..<d] = 0 # map Suc [0..<d - 1]" using Suc.prems(2) by (simp add: upt_conv_Cons map_Suc_upt del: upt_Suc)
  show ?case
  proof (cases "rfIsUsed q ! i")
    case False
    with Suc.prems N show ?thesis by (simp add: upt mem_simps)
  next
    case used: True
    show ?thesis
    proof (cases "d = 1")
      case True
      with used Suc.prems N next_i show ?thesis by (simp add: mem_simps)
    next
      case False
      then have d1: "0 < d - 1" "d - 1 \<le> fuel" "d - 1 \<le> ?N" using Suc.prems by auto
      have lt: "Suc i mod ?N < ?N" by (rule mod_less_divisor) (use Suc.prems(1) in linarith)
      have shift: "(Suc i mod ?N + j) mod ?N = (i + Suc j) mod ?N" for j
        by (simp add: mod_add_left_eq)
      have last: "(Suc i mod ?N + (d - 1)) mod ?N = (i + d) mod ?N" using shift [of "d - 1"] Suc.prems(2) by simp
      have "Suc i mod ?N \<noteq> (i + d) mod ?N"
        using mod_step_ne [OF lt d1(1)] last d1 Suc.prems(4) by (metis diff_less less_le_trans not_less zero_less_one Suc.prems(2) le_neq_implies_less)
      with used Suc.prems(1) N next_i Suc.IH [OF lt d1] last shift show ?thesis
        by (simp add: mem_simps upt find_map comp_def split: option.split)
    qed
  qed
qed


lemma rf_inv_capacity:
  assumes "rf_inv q ps" and "i < length (rfPointers q)" and "\<not> rfIsUsed q ! i"
  shows "length (rtosq_items (rfQueue q) @ ps) < length (rfPointers q)"
proof -
  let ?xs = "rtosq_items (rfQueue q) @ ps"
  have "set ?xs \<subseteq> {..<length (rfPointers q)} - {i}" using assms by (auto simp: rf_inv_def)
  then have "card (set ?xs) \<le> card ({..<length (rfPointers q)} - {i})" by (rule card_mono [rotated]) simp
  moreover have "card (set ?xs) = length ?xs" using assms(1) by (intro distinct_card) (simp add: rf_inv_def)
  ultimately show ?thesis using assms(2) by (simp add: card_Diff_singleton)
qed

lemma rf_put_ok:
  assumes inv: "rf_inv q ps" and i: "i < length (rfPointers q)" "\<not> rfIsUsed q ! i"
  shows "\<exists>q'. rf_put data i q = Some (q', True) \<and> rf_inv q' ps \<and>
    rtosq_items (rfQueue q') = rtosq_items (rfQueue q) @ [i] \<and> rfPointers q' = (rfPointers q)[i := data] \<and>
    rfLastIndex q' = Suc i mod length (rfPointers q)"
proof -
  let ?N = "length (rfPointers q)" and ?used = "(rfIsUsed q)[i := True]"
  have N: "?N < 2 ^ size_bits" "length (rfIsUsed q) = ?N" using inv by (auto simp: rf_inv_def size_bits_def)
  have mq: "rtosq_inv (rfQueue q)" "rqItemsInBuffer (rfQueue q) < rqMaximumSize (rfQueue q)"
    using rf_inv_capacity [OF assms] inv by (auto simp: rf_inv_def)
  from rtosq_send_room [OF this, of i] obtain mq' where
    mq': "rtosq_send i (rfQueue q) = Some (mq', True)" "rtosq_inv mq'"
      "rtosq_items mq' = rtosq_items (rfQueue q) @ [i]" "rqMaximumSize mq' = rqMaximumSize (rfQueue q)" by blast
  let ?q = "q\<lparr>rfPointers := (rfPointers q)[i := data], rfIsUsed := ?used, rfLastIndex := Suc i mod ?N,
      rfQueue := mq', rfItems := rfItems q + 1\<rparr>"
  have "rf_put data i q = Some (?q, True)"
    using mq'(1) i N by (simp add: rf_put_def mem_simps szadd_exact Let_def)
  moreover have "rf_inv ?q ps"
  proof -
    have "i \<notin> set (rtosq_items (rfQueue q) @ ps)" using inv i by (auto simp: rf_inv_def)
    moreover have "insert i {k. k < ?N \<and> rfIsUsed q ! k} = {k. k < ?N \<and> ?used ! k}"
      using i N by (auto simp: nth_list_update)
    moreover have "Suc i mod ?N < ?N" by (rule mod_less_divisor) (use i in linarith)
    ultimately show ?thesis using inv mq' by (auto simp: rf_inv_def)
  qed
  ultimately show ?thesis using mq'(3) by auto
qed

lemma exists_distance:
  assumes "i < n" and "e < n"
  shows "\<exists>d. 0 < d \<and> d \<le> n \<and> (i + d) mod n = (e :: nat)"
proof -
  obtain j where j: "j < n" "(i + j) mod n = e" using rotation_reaches [OF assms(2,1)] by blast
  show ?thesis
  proof (cases "j = 0")
    case True
    with j assms show ?thesis by (intro exI [of _ n]) simp
  next
    case False
    with j show ?thesis by auto
  qed
qed

text \<open>A call of \<open>send\<close> returns: it refuses the object and changes nothing, or it stores it in a free slot.\<close>

lemma rf_send_cases:
  assumes inv: "rf_inv q ps"
  obtains "rf_send a data q = Some (q, False)"
  | i where "a" "i < length (rfPointers q)" "\<not> rfIsUsed q ! i" "rf_send a data q = rf_put data i q"
proof (cases a)
  case False
  with that(1) show ?thesis by (simp add: rf_send_def)
next
  case True
  let ?N = "length (rfPointers q)" and ?l = "rfLastIndex q"
  have l: "?l < ?N" using inv by (simp add: rf_inv_def)
  then have "szsub ?l 1 mod ?N < ?N" by (intro mod_less_divisor) linarith
  from exists_distance [OF l this] obtain d where
    d: "0 < d" "d \<le> ?N" "(?l + d) mod ?N = szsub ?l 1 mod ?N" by blast
  have send: "rf_send a data q = (case find (\<lambda>j. \<not> rfIsUsed q ! ((?l + j) mod ?N)) [0..<d] of
       None \<Rightarrow> Some (q, False) | Some j \<Rightarrow> rf_put data ((?l + j) mod ?N) q)"
    using rf_search_find [OF inv l d(1,2,2)] d(3) True by (simp add: rf_send_def)
  show ?thesis
  proof (cases "find (\<lambda>j. \<not> rfIsUsed q ! ((?l + j) mod ?N)) [0..<d]")
    case None
    with send that(1) show ?thesis by simp
  next
    case (Some j)
    then have "\<not> rfIsUsed q ! ((?l + j) mod ?N)" by (auto simp: find_Some_iff)
    moreover have "(?l + j) mod ?N < ?N" by (rule mod_less_divisor) (use l in linarith)
    ultimately show ?thesis using that(2) [OF True] send Some by simp
  qed
qed

lemma rf_receive_begin_ok:
  assumes inv: "rf_inv q ps" and items: "rtosq_items (rfQueue q) = i # is"
  shows "\<exists>q'. rf_receive_begin waits d q = Some (q', i, True) \<and> rf_inv q' (ps @ [i]) \<and>
    rtosq_items (rfQueue q') = is \<and> rfPointers q' = rfPointers q \<and> rfIsUsed q' = rfIsUsed q \<and>
    rfLastIndex q' = rfLastIndex q \<and> rfItems q' = rfItems q"
proof -
  have "rtosq_inv (rfQueue q)" using inv by (simp add: rf_inv_def)
  from rtosq_receive_next [OF this items, of waits d] obtain mq where
    mq: "rtosq_receive waits d (rfQueue q) = Some (mq, i, True)" "rtosq_inv mq" "rtosq_items mq = is"
      "rqMaximumSize mq = rqMaximumSize (rfQueue q)" by blast
  have "rf_inv (q\<lparr>rfQueue := mq\<rparr>) (ps @ [i])"
    using inv items mq by (auto simp: rf_inv_def)
  with mq show ?thesis by (auto simp: rf_receive_begin_def)
qed

lemma rf_receive_end_ok:
  assumes inv: "rf_inv q ps" and i: "i \<in> set ps"
  shows "\<exists>q'. rf_receive_end i q = Some (q', rfPointers q ! i) \<and> rf_inv q' (remove1 i ps) \<and>
    rfQueue q' = rfQueue q \<and> rfPointers q' = (rfPointers q)[i := rfEmpty q] \<and> rfLastIndex q' = rfLastIndex q \<and>
    rfIsUsed q' = (rfIsUsed q)[i := False]"
proof -
  let ?N = "length (rfPointers q)" and ?used = "(rfIsUsed q)[i := False]"
  let ?q = "q\<lparr>rfPointers := (rfPointers q)[i := rfEmpty q], rfIsUsed := ?used, rfItems := rfItems q - 1\<rparr>"
  have iN: "i < ?N" "length (rfIsUsed q) = ?N" using inv i by (auto simp: rf_inv_def)
  have "rf_receive_end i q = Some (?q, rfPointers q ! i)"
    using iN by (simp add: rf_receive_end_def mem_simps)
  moreover have "rf_inv ?q (remove1 i ps)"
  proof -
    let ?xs = "rtosq_items (rfQueue q)"
    have d: "distinct (?xs @ ps)" "set (?xs @ ps) = {k. k < ?N \<and> rfIsUsed q ! k}"
      using inv by (simp_all add: rf_inv_def)
    have "set (?xs @ remove1 i ps) = set (?xs @ ps) - {i}" using d(1) i by auto
    also have "\<dots> = {k. k < ?N \<and> ?used ! k}" using d(2) iN by (auto simp: nth_list_update)
    finally have s: "set (?xs @ remove1 i ps) = {k. k < ?N \<and> ?used ! k}" .
    have "length ps = Suc (length (remove1 i ps))" using i by (simp add: length_remove1) (metis Suc_pred length_pos_if_in_set)
    then have "of_nat (length (?xs @ ps)) - (1 :: u16) = of_nat (length (?xs @ remove1 i ps))" by simp
    moreover have "distinct (?xs @ remove1 i ps)" using d(1) by (auto dest: notin_set_remove1)
    ultimately show ?thesis using s inv by (simp add: rf_inv_def del: set_append distinct_append)
  qed
  ultimately show ?thesis by auto
qed


subsection \<open>Callers that do not overlap: a bounded fifo\<close>

text \<open>
  When every \<open>receive\<close> is completed before the next call, the numbers in the inner queue are
  consecutive and end before \<open>mLastIndex\<close>. So the first slot that \<open>send\<close> looks at is free
  whenever any slot is, and it never matters that the search leaves out \<open>endSearch\<close>.
\<close>

definition rf_seq :: "'a refq \<Rightarrow> bool" where
  "rf_seq q \<longleftrightarrow> rf_inv q [] \<and> (let idx = rtosq_items (rfQueue q); n = length idx; N = length (rfPointers q) in
     \<forall>k < n. idx ! k = (rfLastIndex q + (N - n) + k) mod N)"

definition rf_items :: "'a refq \<Rightarrow> 'a list" where
  "rf_items q = map (\<lambda>i. rfPointers q ! i) (rtosq_items (rfQueue q))"

lemma rf_seqI:
  assumes "rf_inv q []"
    and "\<And>k. k < length (rtosq_items (rfQueue q)) \<Longrightarrow> rtosq_items (rfQueue q) ! k =
      (rfLastIndex q + (length (rfPointers q) - length (rtosq_items (rfQueue q))) + k) mod length (rfPointers q)"
  shows "rf_seq q"
  using assms by (simp add: rf_seq_def Let_def)

lemma rf_new_seq:
  "0 < n \<Longrightarrow> n < 2 ^ 16 \<Longrightarrow> length junk = n \<Longrightarrow> rf_seq (rf_new n junk e) \<and> rf_items (rf_new n junk e) = []"
  using rf_new_inv [of n junk e] rtosq_new_inv [of junk]
  by (simp add: rf_seq_def rf_items_def rf_new_def rtosq_new_def rtosq_items_def)

lemma rf_seq_last_free:
  assumes seq: "rf_seq q" and room: "length (rtosq_items (rfQueue q)) < length (rfPointers q)"
  shows "\<not> rfIsUsed q ! rfLastIndex q"
proof
  let ?idx = "rtosq_items (rfQueue q)" and ?N = "length (rfPointers q)" and ?l = "rfLastIndex q"
  have inv: "rf_inv q []" and idx: "\<forall>k < length ?idx. ?idx ! k = (?l + (?N - length ?idx) + k) mod ?N"
    using seq by (simp_all add: rf_seq_def Let_def)
  have l: "?l < ?N" using inv by (simp add: rf_inv_def)
  assume "rfIsUsed q ! ?l"
  with inv l have "?l \<in> set ?idx" by (simp add: rf_inv_def)
  then obtain k where k: "k < length ?idx" "?idx ! k = ?l" by (auto simp: in_set_conv_nth)
  with idx have "(?l + (?N - length ?idx + k)) mod ?N = ?l" by (simp add: add.assoc)
  moreover have "0 < ?N - length ?idx + k" "?N - length ?idx + k < ?N" using room k(1) by linarith+
  ultimately show False using mod_step_ne [OF l] by metis
qed

lemma rf_send_room:
  assumes seq: "rf_seq q" and room: "length (rf_items q) < length (rfPointers q)"
  shows "\<exists>q'. rf_send True x q = Some (q', True) \<and> rf_seq q' \<and> rf_items q' = rf_items q @ [x] \<and>
    length (rfPointers q') = length (rfPointers q)"
proof -
  let ?idx = "rtosq_items (rfQueue q)" and ?N = "length (rfPointers q)" and ?l = "rfLastIndex q"
  let ?n = "length ?idx"
  have inv: "rf_inv q []" and idx: "\<forall>k < ?n. ?idx ! k = (?l + (?N - ?n) + k) mod ?N"
    using seq by (simp_all add: rf_seq_def Let_def)
  have l: "?l < ?N" "length (rfIsUsed q) = ?N" using inv by (simp_all add: rf_inv_def)
  have room: "?n < ?N" using room by (simp add: rf_items_def)
  have free: "\<not> rfIsUsed q ! ?l" by (rule rf_seq_last_free [OF seq room])
  from rf_put_ok [OF inv l(1) free, of x] obtain q' where
    q': "rf_put x ?l q = Some (q', True)" "rf_inv q' []" "rtosq_items (rfQueue q') = ?idx @ [?l]"
      "rfPointers q' = (rfPointers q)[?l := x]" "rfLastIndex q' = Suc ?l mod ?N" by blast
  have "?N = Suc (?N - 1)" using l by simp
  then have "rf_send True x q = Some (q', True)"
    using q'(1) free l rf_search.simps(2) [of "?N - 1" x ?l "szsub ?l 1 mod ?N" q]
    by (simp add: rf_send_def mem_simps)
  moreover have "rf_seq q'"
  proof (rule rf_seqI [OF q'(2)])
    fix k assume k: "k < length (rtosq_items (rfQueue q'))"
    have "(Suc ?l mod ?N + (?N - Suc ?n) + k) mod ?N = (Suc ?l + (?N - Suc ?n) + k) mod ?N"
      by (simp add: mod_add_left_eq add.assoc)
    also have "Suc ?l + (?N - Suc ?n) + k = ?l + (?N - ?n) + k" using room by simp
    finally have "(Suc ?l mod ?N + (?N - Suc ?n) + k) mod ?N = (?l + (?N - ?n) + k) mod ?N" .
    moreover have "(?l + (?N - ?n) + ?n) mod ?N = ?l" using room l by simp
    ultimately show "rtosq_items (rfQueue q') ! k =
        (rfLastIndex q' + (length (rfPointers q') - length (rtosq_items (rfQueue q'))) + k) mod length (rfPointers q')"
      using k q'(3-5) idx by (cases "k < ?n"; cases "k = ?n") (simp_all add: nth_append)
  qed
  moreover have "rf_items q' = rf_items q @ [x]"
  proof -
    have "?l \<notin> set ?idx" using free inv by (auto simp: rf_inv_def)
    then show ?thesis using q'(3,4) l by (auto simp: rf_items_def nth_list_update)
  qed
  ultimately show ?thesis using q'(4) by auto
qed

lemma rf_send_full:
  assumes seq: "rf_seq q" and "length (rf_items q) = length (rfPointers q)"
  shows "rf_send True x q = Some (q, False)"
proof -
  have inv: "rf_inv q []" using seq by (simp add: rf_seq_def)
  show ?thesis
  proof (rule rf_send_cases [OF inv, of True x])
    fix i assume "i < length (rfPointers q)" "\<not> rfIsUsed q ! i"
    from rf_inv_capacity [OF inv this] assms(2) show ?thesis by (simp add: rf_items_def)
  qed
qed

lemma rf_receive_next:
  assumes seq: "rf_seq q" and items: "rf_items q = x # xs"
  shows "\<exists>q'. rf_receive waits i0 d q = Some (q', x, True) \<and> rf_seq q' \<and> rf_items q' = xs \<and>
    length (rfPointers q') = length (rfPointers q)"
proof -
  have inv: "rf_inv q []" using seq by (simp add: rf_seq_def)
  from items obtain i rest where idx: "rtosq_items (rfQueue q) = i # rest" "x = rfPointers q ! i"
    "xs = map (\<lambda>i. rfPointers q ! i) rest" by (auto simp: rf_items_def)
  from rf_receive_begin_ok [OF inv idx(1), of waits i0] obtain q1 where
    q1: "rf_receive_begin waits i0 q = Some (q1, i, True)" "rf_inv q1 [i]" "rtosq_items (rfQueue q1) = rest"
      "rfPointers q1 = rfPointers q" "rfLastIndex q1 = rfLastIndex q" by auto
  from rf_receive_end_ok [OF q1(2), of i] obtain q2 where
    q2: "rf_receive_end i q1 = Some (q2, rfPointers q1 ! i)" "rf_inv q2 []" "rfQueue q2 = rfQueue q1"
      "rfPointers q2 = (rfPointers q1)[i := rfEmpty q1]" "rfLastIndex q2 = rfLastIndex q1" by auto
  have "i \<notin> set rest" using inv idx(1) by (simp add: rf_inv_def)
  then have "rf_items q2 = xs" using q1(3,4) q2(3,4) idx(3)
    by (auto simp: rf_items_def) (metis nth_list_update_neq)
  moreover have "rf_seq q2"
  proof (rule rf_seqI [OF q2(2)])
    fix k assume k: "k < length (rtosq_items (rfQueue q2))"
    have "length (i # rest) \<le> length (rfPointers q)"
      using rtosq.within_capacity [of "rfQueue q"] inv idx(1) by (simp add: rf_inv_def)
    with k seq idx(1) q1(3-5) q2(3-5) show "rtosq_items (rfQueue q2) ! k =
        (rfLastIndex q2 + (length (rfPointers q2) - length (rtosq_items (rfQueue q2))) + k) mod length (rfPointers q2)"
      by (auto simp: rf_seq_def Let_def dest: spec [of _ "Suc k"])
  qed
  ultimately show ?thesis using q1(1,4) q2(1,4) idx(2) by (auto simp: rf_receive_def)
qed


definition rf_front :: "nat \<Rightarrow> 'a \<Rightarrow> 'a refq \<Rightarrow> 'a option" where
  "rf_front i0 d q = map_option (\<lambda>(q', x, r). x) (rf_receive [] i0 d q)"

definition rf_pop :: "nat \<Rightarrow> 'a \<Rightarrow> 'a refq \<Rightarrow> 'a refq option" where
  "rf_pop i0 d q = map_option fst (rf_receive [] i0 d q)"

lemma rf_isEmpty_iff:
  assumes "rf_inv q []"
  shows "rf_isEmpty q \<longleftrightarrow> rf_items q = []"
proof -
  have "rf_isEmpty q \<longleftrightarrow> {i. i < length (rfPointers q) \<and> rfIsUsed q ! i} = {}"
    using assms by (auto simp: rf_isEmpty_def rf_inv_def list_all_length)
  also have "\<dots> \<longleftrightarrow> set (rtosq_items (rfQueue q)) = {}" using assms by (simp add: rf_inv_def)
  finally show ?thesis by (simp add: rf_items_def)
qed

interpretation rf: bounded_fifo rf_items rf_seq "\<lambda>q. length (rfPointers q)" "\<lambda>x. True" "rf_send True"
    "rf_front i0 d" "rf_pop i0 d" rf_isEmpty for i0 d
proof unfold_locales
  fix q :: "'a refq" and x y :: 'a and ys
  assume seq: "rf_seq q"
  then have inv: "rf_inv q []" by (simp add: rf_seq_def)
  show "\<exists>q'. rf_send True x q = Some (q', True) \<and> rf_seq q' \<and> rf_items q' = rf_items q @ [x] \<and>
      length (rfPointers q') = length (rfPointers q)" if "length (rf_items q) < length (rfPointers q)"
    by (rule rf_send_room [OF seq that])
  show "rf_send True x q = Some (q, False)" if "length (rf_items q) = length (rfPointers q)"
    by (rule rf_send_full [OF seq that])
  show "rf_front i0 d q = Some y" if "rf_items q = y # ys"
    using rf_receive_next [OF seq that, of "[]" i0 d] by (auto simp: rf_front_def)
  show "\<exists>q'. rf_pop i0 d q = Some q' \<and> rf_seq q' \<and> rf_items q' = ys \<and>
      length (rfPointers q') = length (rfPointers q)" if "rf_items q = y # ys"
    using rf_receive_next [OF seq that, of "[]" i0 d] by (auto simp: rf_pop_def)
  show "rf_isEmpty q \<longleftrightarrow> rf_items q = []" by (rule rf_isEmpty_iff [OF inv])
  show "length (rf_items q) \<le> length (rfPointers q)"
    using rtosq.within_capacity [of "rfQueue q"] inv by (simp add: rf_items_def rf_inv_def)
qed

subsection \<open>Overlapping callers\<close>

text \<open>
  What the callers see: an object was offered (and taken or refused), a receiver has taken a
  ticket, it has run into its timeout, it has got the object of its ticket.
\<close>

datatype 'a rf_event = Sent 'a bool | Took nat | TimedOut | Got nat 'a

text \<open>The code. A receiver that waits takes its step when the inner queue is not empty.\<close>

inductive rf_step :: "'a refq \<times> nat list \<Rightarrow> 'a rf_event \<Rightarrow> 'a refq \<times> nat list \<Rightarrow> bool" where
  step_send: "rf_send a x q = Some (q', r) \<Longrightarrow> rf_step (q, ps) (Sent x r) (q', ps)"
| step_begin: "rf_receive_begin [] i0 q = Some (q', i, True) \<Longrightarrow> rf_step (q, ps) (Took i) (q', ps @ [i])"
| step_timeout: "rf_receive_begin [(rfQueue q, False)] i0 q = Some (q', i, False) \<Longrightarrow>
    rf_step (q, ps) TimedOut (q', ps)"
| step_end: "i \<in> set ps \<Longrightarrow> rf_receive_end i q = Some (q', x) \<Longrightarrow> rf_step (q, ps) (Got i x) (q', remove1 i ps)"

text \<open>The specification: objects that wait, in order, and objects that belong to a ticket.\<close>

record 'a mail =
  waiting :: "'a list"
  taken :: "nat \<rightharpoonup> 'a"

inductive mail_step :: "'a mail \<Rightarrow> 'a rf_event \<Rightarrow> 'a mail \<Rightarrow> bool" where
  "mail_step m (Sent x True) (m\<lparr>waiting := waiting m @ [x]\<rparr>)"
| "mail_step m (Sent x False) m"
| "waiting m = x # xs \<Longrightarrow> i \<notin> dom (taken m) \<Longrightarrow>
    mail_step m (Took i) (m\<lparr>waiting := xs, taken := (taken m)(i \<mapsto> x)\<rparr>)"
| "waiting m = [] \<Longrightarrow> mail_step m TimedOut m"
| "taken m i = Some x \<Longrightarrow> mail_step m (Got i x) (m\<lparr>taken := (taken m)(i := None)\<rparr>)"

definition rf_related :: "'a refq \<times> nat list \<Rightarrow> 'a mail \<Rightarrow> bool" where
  "rf_related s m \<longleftrightarrow> rf_inv (fst s) (snd s) \<and> waiting m = rf_items (fst s) \<and>
     taken m = (\<lambda>i. if i \<in> set (snd s) then Some (rfPointers (fst s) ! i) else None)"


lemma rf_related_pair:
  "rf_related (q, ps) m \<longleftrightarrow> rf_inv q ps \<and> waiting m = rf_items q \<and>
     taken m = (\<lambda>i. if i \<in> set ps then Some (rfPointers q ! i) else None)"
  by (simp only: rf_related_def fst_conv snd_conv)

lemma rf_send_simulated:
  assumes rel: "rf_related (q, ps) m" and send: "rf_send a x q = Some (q', r)"
  shows "\<exists>m'. mail_step m (Sent x r) m' \<and> rf_related (q', ps) m'"
proof -
  have inv: "rf_inv q ps" using rel by (simp add: rf_related_def)
  show ?thesis
  proof (rule rf_send_cases [OF inv, of a x])
    assume "rf_send a x q = Some (q, False)"
    with send rel show ?thesis by (auto intro: mail_step.intros)
  next
    fix i assume i: "i < length (rfPointers q)" "\<not> rfIsUsed q ! i" and put: "rf_send a x q = rf_put x i q"
    from rf_put_ok [OF inv i, of x] send put obtain "r" "rf_inv q' ps"
      and q': "rtosq_items (rfQueue q') = rtosq_items (rfQueue q) @ [i]" "rfPointers q' = (rfPointers q)[i := x]"
      by auto
    have "i \<notin> set (rtosq_items (rfQueue q) @ ps)" using inv i by (auto simp: rf_inv_def)
    with q' i(1) have "rf_items q' = rf_items q @ [x]"
      and "k \<in> set ps \<Longrightarrow> rfPointers q' ! k = rfPointers q ! k" for k
      by (auto simp: rf_items_def nth_list_update)
    with rel \<open>rf_inv q' ps\<close> have "rf_related (q', ps) (m\<lparr>waiting := waiting m @ [x]\<rparr>)"
      by (auto simp: rf_related_def)
    with \<open>r\<close> show ?thesis using mail_step.intros(1) [of m x] by auto
  qed
qed

lemma rf_begin_simulated:
  assumes rel: "rf_related (q, ps) m" and took: "rf_receive_begin [] i0 q = Some (q', i, True)"
  shows "\<exists>m'. mail_step m (Took i) m' \<and> rf_related (q', ps @ [i]) m'"
proof -
  have inv: "rf_inv q ps" using rel by (simp add: rf_related_def)
  from took have "rtosq_items (rfQueue q) \<noteq> []"
    by (auto simp: rf_receive_begin_def rtosq_receive_def bind_eq_Some_conv rtosq_items_def ring_view_Nil_iff
        split: if_splits)
  then obtain k ks where items: "rtosq_items (rfQueue q) = k # ks" by (cases "rtosq_items (rfQueue q)") auto
  from rf_receive_begin_ok [OF inv items, of "[]" i0] took have [simp]: "k = i"
    and q': "rf_inv q' (ps @ [i])" "rtosq_items (rfQueue q') = ks" "rfPointers q' = rfPointers q" by auto
  have "i \<notin> set ps" using inv items by (simp add: rf_inv_def)
  moreover have "waiting m = rfPointers q ! i # rf_items q'"
    using rel items q' by (simp add: rf_related_def rf_items_def)
  ultimately have "mail_step m (Took i) (m\<lparr>waiting := rf_items q', taken := (taken m)(i \<mapsto> rfPointers q ! i)\<rparr>)"
    using rel by (intro mail_step.intros) (auto simp: rf_related_def split: if_splits)
  moreover have "rf_related (q', ps @ [i]) (m\<lparr>waiting := rf_items q', taken := (taken m)(i \<mapsto> rfPointers q ! i)\<rparr>)"
    using rel q' by (auto simp: rf_related_def)
  ultimately show ?thesis by blast
qed

lemma rf_timeout_simulated:
  assumes rel: "rf_related (q, ps) m" and "rf_receive_begin [(rfQueue q, False)] i0 q = Some (q', i, False)"
  shows "\<exists>m'. mail_step m TimedOut m' \<and> rf_related (q', ps) m'"
proof -
  from assms(2) have "rqItemsInBuffer (rfQueue q) = 0" "q' = q"
    by (auto simp: rf_receive_begin_def rtosq_receive_def bind_eq_Some_conv Let_def split: if_splits)
  moreover from this(1) have "rf_items q = []" by (simp add: rf_items_def rtosq_items_def)
  ultimately have "mail_step m TimedOut m" using rel by (intro mail_step.intros) (simp add: rf_related_def)
  with rel \<open>q' = q\<close> show ?thesis by blast
qed

lemma rf_end_simulated:
  assumes rel: "rf_related (q, ps) m" and i: "i \<in> set ps" and "rf_receive_end i q = Some (q', x)"
  shows "\<exists>m'. mail_step m (Got i x) m' \<and> rf_related (q', remove1 i ps) m'"
proof -
  have inv: "rf_inv q ps" using rel by (simp add: rf_related_def)
  from rf_receive_end_ok [OF inv i] assms(3) have x: "x = rfPointers q ! i" and
    q': "rf_inv q' (remove1 i ps)" "rfQueue q' = rfQueue q" "rfPointers q' = (rfPointers q)[i := rfEmpty q]"
    by auto
  have "mail_step m (Got i x) (m\<lparr>taken := (taken m)(i := None)\<rparr>)"
    using rel i x by (intro mail_step.intros) (simp add: rf_related_def)
  moreover have "rf_related (q', remove1 i ps) (m\<lparr>taken := (taken m)(i := None)\<rparr>)"
  proof -
    have d: "distinct ps" "i \<notin> set (rtosq_items (rfQueue q))" using inv i by (auto simp: rf_inv_def)
    then have "set (remove1 i ps) = set ps - {i}" by simp
    moreover have "rf_items q' = rf_items q"
      using q' d(2) by (auto simp: rf_items_def) (metis nth_list_update_neq)
    moreover have "(taken m)(i := None) = (\<lambda>k. if k \<in> set ps - {i} then Some (rfPointers q' ! k) else None)"
    proof
      fix k
      show "((taken m)(i := None)) k = (if k \<in> set ps - {i} then Some (rfPointers q' ! k) else None)"
        using rel q'(3) by (cases "k = i") (simp_all add: rf_related_def)
    qed
    ultimately show ?thesis using rel q'(1) by (simp add: rf_related_pair)
  qed
  ultimately show ?thesis by blast
qed

interpretation rf_mail: simulation rf_step mail_step rf_related
proof unfold_locales
  fix s s' :: "'a refq \<times> nat list" and m e
  assume rel: "rf_related s m" and "rf_step s e s'"
  from this(2,1) show "\<exists>m'. mail_step m e m' \<and> rf_related s' m'"
    by (cases rule: rf_step.cases)
      (auto intro: rf_send_simulated rf_begin_simulated rf_timeout_simulated rf_end_simulated)
qed

text \<open>
  C14. Overlapping callers of a reference queue: whatever the interleaving of senders with
  receivers that have taken a slot number but not yet its object, what they see is a mailbox.
  An object that was accepted waits in order, is handed to exactly one receiver, and is the one
  that receiver gets; the counter is the number of objects that are in the queue. No call fails
  to answer: \<open>send\<close> does, the first half of \<open>receive\<close> takes the slot of the object that has waited
  longest and that no other receiver has, when there is one, and times out when there is none, and
  the second half finds its slot.
\<close>

theorem reference_queue_is_mailbox:
  assumes "0 < n" and "n < 2 ^ 16" and "length junk = n"
    and "steps rf_step (rf_new n junk e, []) es (q, ps)"
  shows "(\<exists>m. steps mail_step \<lparr>waiting = [], taken = Map.empty\<rparr> es m \<and> waiting m = rf_items q \<and>
      dom (taken m) = set ps \<and> unat (rf_getNumberOfItems q) = length (waiting m) + card (dom (taken m))) \<and>
    (\<forall>a x. rf_send a x q \<noteq> None) \<and>
    (\<forall>i0 x xs. rf_items q = x # xs \<longrightarrow> (\<exists>q' i. rf_receive_begin [] i0 q = Some (q', i, True) \<and>
       i \<notin> set ps \<and> rfPointers q' ! i = x \<and> rf_items q' = xs)) \<and>
    (\<forall>i0. rf_items q = [] \<longrightarrow> rf_receive_begin [(rfQueue q, False)] i0 q = Some (q, i0, False)) \<and>
    (\<forall>i \<in> set ps. \<exists>q' x. rf_receive_end i q = Some (q', x))"
proof -
  have "rf_related (rf_new n junk e, []) \<lparr>waiting = [], taken = Map.empty\<rparr>"
    using rf_new_inv [OF assms(1-3), of e] rf_new_seq [OF assms(1-3), of e] by (simp add: rf_related_def)
  from rf_mail.steps_simulated [OF assms(4) this] obtain m where
    m: "steps mail_step \<lparr>waiting = [], taken = Map.empty\<rparr> es m" "rf_related (q, ps) m" by blast
  then have inv: "rf_inv q ps" and dom: "dom (taken m) = set ps" and w: "waiting m = rf_items q"
    by (auto simp: rf_related_def split: if_splits)
  have "length (rtosq_items (rfQueue q) @ ps) \<le> length (rfPointers q)"
  proof -
    have "set (rtosq_items (rfQueue q) @ ps) \<subseteq> {..<length (rfPointers q)}" using inv by (auto simp: rf_inv_def)
    then have "card (set (rtosq_items (rfQueue q) @ ps)) \<le> card {..<length (rfPointers q)}"
      by (rule card_mono [rotated]) simp
    moreover have "card (set (rtosq_items (rfQueue q) @ ps)) = length (rtosq_items (rfQueue q) @ ps)"
      using inv by (intro distinct_card) (simp add: rf_inv_def)
    ultimately show ?thesis by simp
  qed
  then have "unat (rf_getNumberOfItems q) = length (rtosq_items (rfQueue q) @ ps)"
    using inv by (simp add: rf_getNumberOfItems_def rf_inv_def unat_of_nat flip: of_nat_add)
  also have "\<dots> = length (waiting m) + card (dom (taken m))"
    using w dom inv by (simp add: rf_items_def rf_inv_def distinct_card)
  finally have "unat (rf_getNumberOfItems q) = length (waiting m) + card (dom (taken m))" .
  moreover have "rf_send a x q \<noteq> None" for a x
    by (rule rf_send_cases [OF inv, of a x]) (use rf_put_ok [OF inv] in fastforce)+
  moreover have "\<exists>q' i. rf_receive_begin [] i0 q = Some (q', i, True) \<and> i \<notin> set ps \<and> rfPointers q' ! i = x \<and> rf_items q' = xs"
    if items: "rf_items q = x # xs" for i0 x xs
  proof -
    obtain i "is" where i: "rtosq_items (rfQueue q) = i # is" "x = rfPointers q ! i" "xs = map ((!) (rfPointers q)) is"
      using items by (auto simp: rf_items_def)
    with rf_receive_begin_ok [OF inv i(1), of "[]" i0] inv show ?thesis by (auto simp: rf_items_def rf_inv_def)
  qed
  moreover have "rf_receive_begin [(rfQueue q, False)] i0 q = Some (q, i0, False)" if "rf_items q = []" for i0
    using that rtosq_receive_timeout [of "rfQueue q" "rfQueue q"]
    by (simp add: rf_items_def rtosq_items_def ring_view_Nil_iff rf_receive_begin_def)
  moreover have "\<exists>q' x. rf_receive_end i q = Some (q', x)" if "i \<in> set ps" for i
    using rf_receive_end_ok [OF inv that] by blast
  ultimately show ?thesis using m(1) dom w by blast
qed


text \<open>Two slots, two objects, two receivers that have both taken a number; the second one finishes first.\<close>

definition sample_events :: "nat rf_event list" where
  "sample_events = [Sent 7 True, Sent 8 True, Took 0, Took 1, Got 1 8, Sent 9 False]"

definition sample_refq :: "nat refq" where
  "sample_refq = \<lparr>rfQueue = \<lparr>rqBuffer = [1, 0], rqMaximumSize = 2, rqItemsInBuffer = 0, rqHead = 0, rqTail = 0\<rparr>,
     rfEmpty = 0, rfItems = 1, rfLastIndex = 0, rfPointers = [7, 0], rfIsUsed = [True, False]\<rparr>"

lemmas refq_defs = rf_new_def rf_send_def rf_put_def rf_receive_begin_def rf_receive_end_def
  rtosq_new_def rtosq_send_def rtosq_receive_def rtosq_increment_def aread_def awrite_def Let_def
  szadd_def szsub_def size_bits_def

lemma rf_search_numeral [simp]:
  "rf_search (numeral k) data i endSearch q = rf_search (Suc (pred_numeral k)) data i endSearch q"
  by (simp only: numeral_eq_Suc)

lemma sample_events_run: "steps rf_step (rf_new 2 [0, 0] 0, []) sample_events (sample_refq, [0])"
proof -
  let ?q0 = "\<lparr>rfQueue = \<lparr>rqBuffer = [0, 0], rqMaximumSize = 2, rqItemsInBuffer = 0, rqHead = 0, rqTail = 0\<rparr>,
     rfEmpty = 0, rfItems = 0, rfLastIndex = 0, rfPointers = [0, 0], rfIsUsed = [False, False]\<rparr> :: nat refq"
  let ?q1 = "\<lparr>rfQueue = \<lparr>rqBuffer = [0, 0], rqMaximumSize = 2, rqItemsInBuffer = 1, rqHead = 1, rqTail = 0\<rparr>,
     rfEmpty = 0, rfItems = 1, rfLastIndex = 1, rfPointers = [7, 0], rfIsUsed = [True, False]\<rparr> :: nat refq"
  let ?q2 = "\<lparr>rfQueue = \<lparr>rqBuffer = [1, 0], rqMaximumSize = 2, rqItemsInBuffer = 2, rqHead = 0, rqTail = 0\<rparr>,
     rfEmpty = 0, rfItems = 2, rfLastIndex = 0, rfPointers = [7, 8], rfIsUsed = [True, True]\<rparr> :: nat refq"
  let ?q3 = "\<lparr>rfQueue = \<lparr>rqBuffer = [1, 0], rqMaximumSize = 2, rqItemsInBuffer = 1, rqHead = 0, rqTail = 1\<rparr>,
     rfEmpty = 0, rfItems = 2, rfLastIndex = 0, rfPointers = [7, 8], rfIsUsed = [True, True]\<rparr> :: nat refq"
  let ?q4 = "\<lparr>rfQueue = \<lparr>rqBuffer = [1, 0], rqMaximumSize = 2, rqItemsInBuffer = 0, rqHead = 0, rqTail = 0\<rparr>,
     rfEmpty = 0, rfItems = 2, rfLastIndex = 0, rfPointers = [7, 8], rfIsUsed = [True, True]\<rparr> :: nat refq"
  have q0: "rf_new 2 [0, 0] 0 = ?q0" by (simp add: rf_new_def rtosq_new_def replicate_2)
  have "(18446744073709551615 :: nat) mod 2 = 1" by simp
  then have odd: "(18446744073709551615 :: nat) mod Suc (Suc 0) = Suc 0" by (simp only: numeral_2_eq_2 One_nat_def)
  have "rf_send True 7 ?q0 = Some (?q1, True)" "rf_send True 8 ?q1 = Some (?q2, True)"
    "rf_receive_begin [] 0 ?q2 = Some (?q3, 0, True)" "rf_receive_begin [] 0 ?q3 = Some (?q4, 1, True)"
    "rf_receive_end 1 ?q4 = Some (sample_refq, 8)" "rf_send True 9 sample_refq = Some (sample_refq, False)"
    using odd by (simp_all add: refq_defs sample_refq_def)
  then have "rf_step (?q0, []) (Sent 7 True) (?q1, [])" "rf_step (?q1, []) (Sent 8 True) (?q2, [])"
    "rf_step (?q2, []) (Took 0) (?q3, [] @ [0])" "rf_step (?q3, [0]) (Took 1) (?q4, [0] @ [1])"
    "rf_step (?q4, [0, 1]) (Got 1 8) (sample_refq, remove1 1 [0, 1])"
    "rf_step (sample_refq, [0]) (Sent 9 False) (sample_refq, [0])"
    by (auto intro: rf_step.intros simp del: append.simps remove1.simps)
  moreover have "steps rf_step (sample_refq, [0]) [] (sample_refq, [0])" by (rule steps_Nil)
  ultimately show ?thesis unfolding q0 sample_events_def
    by (intro steps_Cons) simp_all
qed

lemma reference_queue_is_mailbox_witness:
  "\<exists>m. steps mail_step \<lparr>waiting = [], taken = Map.empty\<rparr> sample_events m \<and> waiting m = [] \<and> dom (taken m) = {0 :: nat}"
  using reference_queue_is_mailbox [OF _ _ _ sample_events_run]
  by (auto simp: sample_refq_def rf_items_def rtosq_items_def)

text \<open>
  C36. Callers that do not overlap see a bounded first-in first-out queue: any sequence of
  \<open>send\<close> and \<open>receive\<close> gives the answers of a list of at most \<open>N\<close> objects, so \<open>send\<close> is refused
  only when \<open>N\<close> objects wait, although its search never looks at one of the slots.
\<close>

theorem reference_queue_refines_fifo:
  assumes "0 < n" and "n < 2 ^ 16" and "length junk = n"
  shows "\<exists>q rs. fifo_run (rf_send True) (rf_front i0 d) (rf_pop i0 d) rf_isEmpty (rf_new n junk e) cs = Some (q, rs) \<and>
    spec_run n [] cs = (rf_items q, rs)"
proof -
  have "calls_ok (\<lambda>x. True) cs" by (simp add: calls_ok_def list_all_def split: fifo_call.split)
  from rf.run_refines [OF conjunct1 [OF rf_new_seq [OF assms]] this, of i0 d e] rf_new_seq [OF assms, of e]
  show ?thesis by (auto simp: rf_new_def)
qed

lemma reference_queue_refines_fifo_witness:
  "\<exists>q. fifo_run (rf_send True) (rf_front 0 0) (rf_pop 0 0) rf_isEmpty (rf_new 2 [0, 0] (0 :: nat))
    [Push 4, Push 5, Push 6, Pop, Push 7] = Some (q, [Pushed True, Pushed True, Pushed False, Popped (Some 4), Pushed True])"
  using reference_queue_refines_fifo [of 2 "[0, 0]" 0 0 "0 :: nat" "[Push 4, Push 5, Push 6, Pop, Push 7]"]
  by (simp del: fifo_run.simps) blast

text \<open>
  With overlapping receivers \<open>send\<close> can refuse an object although \<open>isFull\<close> is false and a slot is
  free: the free slot is the one that the search leaves out.
\<close>

lemma rf_send_refused_not_full:
  "steps rf_step (rf_new 2 [0, 0] 0, []) sample_events (sample_refq, [0]) \<and>
   \<not> rf_isFull sample_refq \<and> \<not> rfIsUsed sample_refq ! 1"
  using sample_events_run by (simp add: sample_refq_def rf_isFull_def)

end
