(* ===== verification/Rmap_Node.thy ===== *)
theory Rmap_Node
  imports Slices
begin

text \<open>
  Targets of the remote memory access protocol (modules/comm/src/outpost/comm/rmap/rmap_node.h and
  rmap_node.cpp): what an initiator knows of a target, and the list of targets.

  Nodes are owned by the application; \<open>heap\<close> lists them and a \<open>RmapTargetNode*\<close> is an index.
  An entry of a \<open>RmapTargetsList\<close> is \<open>None\<close> while it is null or not initialised; an operation that
  dereferences such an entry returns \<open>None\<close>. A C string is the list of its characters, without the
  terminating zero.
\<close>

definition maxAddressLength :: nat where
  "maxAddressLength = 12"

definition maxNodeNameLength :: nat where
  "maxNodeNameLength = 20"

definition defaultLogicalAddress :: u8 where
  "defaultLogicalAddress = 0xFE"

record rmap_node =
  ndSpwLength :: u8
  ndSpwAddress :: "u8 list"
  ndReplyLength :: u8
  ndReplyAddress :: "u8 list"
  ndLogicalAddress :: u8
  ndKey :: u8
  ndName :: string
  ndId :: u8

definition node_default :: rmap_node where
  "node_default = \<lparr>ndSpwLength = 0, ndSpwAddress = replicate maxAddressLength 0, ndReplyLength = 0,
     ndReplyAddress = replicate maxAddressLength 0, ndLogicalAddress = defaultLogicalAddress, ndKey = 0,
     ndName = ''Default'', ndId = 0\<rparr>"

definition node_new :: "string \<Rightarrow> u8 \<Rightarrow> u8 \<Rightarrow> u8 \<Rightarrow> rmap_node" where
  "node_new name nodeId targetLogicalAddress key = \<lparr>ndSpwLength = 0,
     ndSpwAddress = replicate maxAddressLength 0, ndReplyLength = 0,
     ndReplyAddress = replicate maxAddressLength 0, ndLogicalAddress = targetLogicalAddress, ndKey = key,
     ndName = (if length name < maxNodeNameLength then name else ''Default''), ndId = nodeId\<rparr>"

definition node_setReplyAddress :: "u8 list \<Rightarrow> rmap_node \<Rightarrow> (rmap_node \<times> bool) option" where
  "node_setReplyAddress replyAddress nd =
     (if length replyAddress \<le> length (ndReplyAddress nd) then do {
        m \<leftarrow> (if length replyAddress \<noteq> 0 then acopy (ndReplyAddress nd) 0 replyAddress
              else Some (ndReplyAddress nd));
        Some (nd\<lparr>ndReplyAddress := m, ndReplyLength := of_nat (length replyAddress)\<rparr>, True) }
      else Some (nd, False))"

definition node_setTargetSpaceWireAddress :: "u8 list \<Rightarrow> rmap_node \<Rightarrow> (rmap_node \<times> bool) option" where
  "node_setTargetSpaceWireAddress address nd =
     (if length address \<le> length (ndSpwAddress nd) then do {
        m \<leftarrow> (if length address \<noteq> 0 then acopy (ndSpwAddress nd) 0 address else Some (ndSpwAddress nd));
        Some (nd\<lparr>ndSpwAddress := m, ndSpwLength := of_nat (length address)\<rparr>, True) }
      else Some (nd, False))"

text \<open>The bytes that the slices returned by the getters show.\<close>

definition node_getReplyAddress :: "rmap_node \<Rightarrow> u8 list" where
  "node_getReplyAddress nd = take (unat (ndReplyLength nd)) (ndReplyAddress nd)"

definition node_getTargetSpaceWireAddress :: "rmap_node \<Rightarrow> u8 list" where
  "node_getTargetSpaceWireAddress nd = take (unat (ndSpwLength nd)) (ndSpwAddress nd)"

definition node_setKey :: "u8 \<Rightarrow> rmap_node \<Rightarrow> rmap_node" where
  "node_setKey k nd = nd\<lparr>ndKey := k\<rparr>"

definition node_setTargetLogicalAddress :: "u8 \<Rightarrow> rmap_node \<Rightarrow> rmap_node" where
  "node_setTargetLogicalAddress a nd = nd\<lparr>ndLogicalAddress := a\<rparr>"

definition node_inv :: "rmap_node \<Rightarrow> bool" where
  "node_inv nd \<longleftrightarrow> length (ndSpwAddress nd) = maxAddressLength \<and> length (ndReplyAddress nd) = maxAddressLength \<and>
     unat (ndSpwLength nd) \<le> maxAddressLength \<and> unat (ndReplyLength nd) \<le> maxAddressLength \<and>
     length (ndName nd) < maxNodeNameLength"

lemma node_new_inv: "node_inv (node_new name i a k)" "node_inv node_default"
  by (simp_all add: node_inv_def node_new_def node_default_def maxNodeNameLength_def)

lemma unat_small: "n \<le> maxAddressLength \<Longrightarrow> unat (of_nat n :: u8) = n"
  by (simp add: maxAddressLength_def unat_of_nat)

lemma node_setReplyAddress_ok:
  assumes "node_inv nd"
  shows "\<exists>nd'. node_setReplyAddress a nd = Some (nd', length a \<le> maxAddressLength) \<and> node_inv nd' \<and>
    node_getReplyAddress nd' = (if length a \<le> maxAddressLength then a else node_getReplyAddress nd) \<and>
    node_getTargetSpaceWireAddress nd' = node_getTargetSpaceWireAddress nd"
  using assms by (auto simp: node_setReplyAddress_def node_inv_def node_getReplyAddress_def
      node_getTargetSpaceWireAddress_def unat_small mem_simps)

lemma node_setTargetSpaceWireAddress_ok:
  assumes "node_inv nd"
  shows "\<exists>nd'. node_setTargetSpaceWireAddress a nd = Some (nd', length a \<le> maxAddressLength) \<and> node_inv nd' \<and>
    node_getTargetSpaceWireAddress nd' = (if length a \<le> maxAddressLength then a else node_getTargetSpaceWireAddress nd) \<and>
    node_getReplyAddress nd' = node_getReplyAddress nd"
  using assms by (auto simp: node_setTargetSpaceWireAddress_def node_inv_def node_getReplyAddress_def
      node_getTargetSpaceWireAddress_def unat_small mem_simps)

subsection \<open>The list of targets\<close>

record targets =
  tlNodes :: "nat option list"
  tlSize :: nat

definition targets_empty :: targets where
  "targets_empty = \<lparr>tlNodes = replicate maxAddressLength None, tlSize = 0\<rparr>"

definition targets_add :: "nat \<Rightarrow> targets \<Rightarrow> (targets \<times> bool) option" where
  "targets_add node tg =
     (if tlSize tg < maxAddressLength then do {
        m \<leftarrow> awrite (tlNodes tg) (tlSize tg) (Some node);
        Some (tg\<lparr>tlNodes := m, tlSize := tlSize tg + 1\<rparr>, True) }
      else Some (tg, False))"

fun targets_add_loop :: "nat list \<Rightarrow> targets \<Rightarrow> targets option" where
  "targets_add_loop [] tg = Some tg"
| "targets_add_loop (n # ns) tg = do { (tg, r) \<leftarrow> targets_add n tg; targets_add_loop ns tg }"

definition targets_addNodes :: "nat list \<Rightarrow> targets \<Rightarrow> (targets \<times> bool) option" where
  "targets_addNodes nodes tg =
     (if length nodes + tlSize tg < maxAddressLength
      then do { tg \<leftarrow> targets_add_loop nodes tg; Some (tg, True) }
      else Some (tg, False))"

text \<open>
  The constructor from a slice. Members that it does not initialise are \<open>None\<close>, and the size itself
  is not initialised (\<open>junk\<close>) when there are too many nodes.
\<close>

definition targets_new :: "nat \<Rightarrow> nat list \<Rightarrow> targets option" where
  "targets_new junk nodes =
     (let tg = \<lparr>tlNodes = replicate maxAddressLength None, tlSize = junk\<rparr> in
      if length nodes \<le> maxAddressLength
      then map_option fst (targets_addNodes nodes (tg\<lparr>tlSize := length nodes\<rparr>))
      else Some tg)"

text \<open>\<open>strncmp(a, b, n) == 0\<close> for strings without a zero.\<close>

definition same_name :: "string \<Rightarrow> string \<Rightarrow> bool" where
  "same_name a b \<longleftrightarrow> take maxNodeNameLength a = take maxNodeNameLength b"

text \<open>Both \<open>getTargetNode\<close> search from the first entry; they differ in the test.\<close>

fun targets_find :: "rmap_node list \<Rightarrow> (rmap_node \<Rightarrow> bool) \<Rightarrow> targets \<Rightarrow> nat \<Rightarrow> nat \<Rightarrow> nat option option" where
  "targets_find heap test tg i 0 = Some None"
| "targets_find heap test tg i (Suc n) = do {
     entry \<leftarrow> aread (tlNodes tg) i;
     p \<leftarrow> entry;
     nd \<leftarrow> aread heap p;
     if test nd then Some (Some p) else targets_find heap test tg (Suc i) n }"

definition targets_getByName :: "rmap_node list \<Rightarrow> string option \<Rightarrow> targets \<Rightarrow> nat option option" where
  "targets_getByName heap name tg =
     (case name of None \<Rightarrow> Some None
      | Some s \<Rightarrow> targets_find heap (\<lambda>nd. same_name (ndName nd) s) tg 0 (tlSize tg))"

definition targets_getByAddress :: "rmap_node list \<Rightarrow> u8 \<Rightarrow> targets \<Rightarrow> nat option option" where
  "targets_getByAddress heap logicalAddress tg =
     targets_find heap (\<lambda>nd. ndLogicalAddress nd = logicalAddress) tg 0 (tlSize tg)"

definition targets_inv :: "rmap_node list \<Rightarrow> targets \<Rightarrow> bool" where
  "targets_inv heap tg \<longleftrightarrow> length (tlNodes tg) = maxAddressLength \<and> tlSize tg \<le> maxAddressLength \<and>
     (\<forall>i < tlSize tg. \<exists>p < length heap. tlNodes tg ! i = Some p)"

definition targets_list :: "targets \<Rightarrow> nat list" where
  "targets_list tg = map the (take (tlSize tg) (tlNodes tg))"

lemma targets_empty_inv: "targets_inv heap targets_empty" "targets_list targets_empty = []"
  by (simp_all add: targets_inv_def targets_empty_def targets_list_def)

lemma targets_add_ok:
  assumes "targets_inv heap tg" and "p < length heap"
  shows "\<exists>tg'. targets_add p tg = Some (tg', length (targets_list tg) < maxAddressLength) \<and> targets_inv heap tg' \<and>
    targets_list tg' = (if length (targets_list tg) < maxAddressLength then targets_list tg @ [p] else targets_list tg)"
proof (cases "tlSize tg < maxAddressLength")
  case True
  then have "take (Suc (tlSize tg)) ((tlNodes tg)[tlSize tg := Some p]) = take (tlSize tg) (tlNodes tg) @ [Some p]"
    using assms(1) by (simp add: targets_inv_def take_Suc_conv_app_nth)
  with True assms show ?thesis
    by (auto simp: targets_add_def targets_inv_def targets_list_def mem_simps nth_list_update less_Suc_eq)
next
  case False
  with assms show ?thesis by (simp add: targets_add_def targets_inv_def targets_list_def)
qed

lemma targets_find_first:
  assumes "targets_inv heap tg" and "i + n = tlSize tg"
  shows "targets_find heap test tg i n = Some (find (\<lambda>p. test (heap ! p)) (drop i (targets_list tg)))"
  using assms
proof (induction n arbitrary: i)
  case 0
  then show ?case by (simp add: targets_list_def targets_inv_def)
next
  case (Suc n)
  have "i < tlSize tg" using Suc.prems(2) by simp
  with Suc.prems(1) obtain p where p: "p < length heap" "tlNodes tg ! i = Some p"
    by (auto simp: targets_inv_def)
  have i: "i < length (targets_list tg)" using Suc.prems by (simp add: targets_list_def targets_inv_def)
  then have "drop i (targets_list tg) = p # drop (Suc i) (targets_list tg)"
    using Suc.prems p by (simp add: Cons_nth_drop_Suc [symmetric] targets_list_def targets_inv_def)
  with Suc p show ?case by (simp add: mem_simps targets_inv_def)
qed

lemma targets_lookup_first:
  assumes "targets_inv heap tg"
  shows "targets_getByName heap (Some s) tg = Some (find (\<lambda>p. same_name (ndName (heap ! p)) s) (targets_list tg))"
    and "targets_getByAddress heap a tg = Some (find (\<lambda>p. ndLogicalAddress (heap ! p) = a) (targets_list tg))"
  using targets_find_first [OF assms, of 0 "tlSize tg"]
  by (simp_all add: targets_getByName_def targets_getByAddress_def)

subsection \<open>Where the code departs from its purpose\<close>

text \<open>
  A list that is constructed from a slice with one node: the size is set before the nodes are
  appended behind it, so the first entry is never initialised and a lookup dereferences it.
\<close>

lemma targets_new_uninitialised:
  "targets_new junk [p] = Some \<lparr>tlNodes = None # Some p # replicate 10 None, tlSize = 2\<rparr>"
  "targets_new junk [p] \<bind> targets_getByAddress heap a = None"
  by (simp_all add: targets_new_def targets_addNodes_def targets_add_def maxAddressLength_def
      targets_getByAddress_def mem_simps eval_nat_numeral aread_def)

text \<open>With more than five nodes nothing is stored at all, and with more than twelve not even the size.\<close>

lemma targets_new_stores_nothing:
  "5 < length nodes \<Longrightarrow> length nodes \<le> 12 \<Longrightarrow>
     targets_new junk nodes = Some \<lparr>tlNodes = replicate 12 None, tlSize = length nodes\<rparr>"
  by (simp add: targets_new_def targets_addNodes_def maxAddressLength_def)

text \<open>\<open>addTargetNodes\<close> never fills the last entry.\<close>

lemma targets_addNodes_refuses_twelve:
  "targets_addNodes (replicate 12 p) targets_empty = Some (targets_empty, False)"
  by (simp add: targets_addNodes_def maxAddressLength_def targets_empty_def)

end
