(* ===== verification/Rmap_Packet.thy ===== *)
theory Rmap_Packet
  imports Rmap_Node Bit_Access Serializer Crc
begin

text \<open>
  Packets of the remote memory access protocol (modules/comm/src/outpost/comm/rmap/rmap_packet.h and
  rmap_packet.cpp): building a command and taking a reply apart, over the models of
  \<open>Serialize\<close>, \<open>Deserialize\<close>, \<open>BitAccess\<close> and the CRC.

  The data of a packet is a slice in the code; the model keeps the bytes that it shows. The reply
  address is an array of three \<open>uint32_t\<close> that is filled by \<open>memcpy\<close>, so the value of an element
  depends on the byte order of the machine, the argument \<open>big\<close> of the operations that read one.
\<close>

subsection \<open>The instruction field\<close>

datatype packet_type = replyPacket | commandPacket
datatype operation = read_operation | write_operation

definition incrementBit :: nat where "incrementBit = 2"
definition replyBit :: nat where "replyBit = 3"
definition verifyBit :: nat where "verifyBit = 4"
definition operationBit :: nat where "operationBit = 5"

definition instr_setOperation :: "operation \<Rightarrow> u8 \<Rightarrow> u8" where
  "instr_setOperation op f = ba_setBit operationBit f (op = write_operation)"

definition instr_isWrite :: "u8 \<Rightarrow> bool" where
  "instr_isWrite f = ba_getBit operationBit f"

fun packet_type_code :: "packet_type \<Rightarrow> u8" where
  "packet_type_code replyPacket = 0" | "packet_type_code commandPacket = 1"

definition instr_setPacketType :: "packet_type \<Rightarrow> u8 \<Rightarrow> u8" where
  "instr_setPacketType t f = the (ba_set 7 6 f (packet_type_code t))"

text \<open>The two bits as a number; 2 and 3 are no packet types.\<close>

definition instr_getPacketType :: "u8 \<Rightarrow> u8" where
  "instr_getPacketType f = the (ba_get 7 6 f)"

definition instr_setVerify :: "bool \<Rightarrow> u8 \<Rightarrow> u8" where
  "instr_setVerify enable f = ba_setBit verifyBit f enable"

definition instr_setReply :: "bool \<Rightarrow> u8 \<Rightarrow> u8" where
  "instr_setReply enable f = ba_setBit replyBit f enable"

definition instr_setIncrement :: "bool \<Rightarrow> u8 \<Rightarrow> u8" where
  "instr_setIncrement enable f = ba_setBit incrementBit f enable"

definition instr_isVerifyEnabled :: "u8 \<Rightarrow> bool" where
  "instr_isVerifyEnabled f = ba_getBit verifyBit f"

definition instr_isReplyEnabled :: "u8 \<Rightarrow> bool" where
  "instr_isReplyEnabled f = ba_getBit replyBit f"

definition instr_isIncrementEnabled :: "u8 \<Rightarrow> bool" where
  "instr_isIncrementEnabled f = ba_getBit incrementBit f"

definition instr_setReplyAddressLength :: "u8 \<Rightarrow> u8 \<Rightarrow> u8" where
  "instr_setReplyAddressLength len f = the (ba_set 1 0 f len)"

definition instr_getReplyAddressLength :: "u8 \<Rightarrow> u8" where
  "instr_getReplyAddressLength f = the (ba_get 1 0 f)"

subsection \<open>Packets\<close>

definition maxPhysicalRouterOutputPorts :: nat where "maxPhysicalRouterOutputPorts = 32"
definition defaultExtendedAddress :: u8 where "defaultExtendedAddress = 0"
definition protocolIdentifier :: u8 where "protocolIdentifier = 1"
definition readCommandOverhead :: nat where "readCommandOverhead = 16"
definition readReplyOverhead :: nat where "readReplyOverhead = 13"
definition writeReplyOverhead :: nat where "writeReplyOverhead = 8"
definition minimumReplySize :: nat where "minimumReplySize = writeReplyOverhead"
definition status_unknown :: u8 where "status_unknown = 255"

record rmap_packet =
  rpSpwLength :: u8
  rpSpwTargets :: "u8 list"
  rpTarget :: u8
  rpInstruction :: u8
  rpKey :: u8
  rpReplyAddress :: "u8 list"
  rpInitiator :: u8
  rpExtended :: u8
  rpTransaction :: u16
  rpAddress :: u32
  rpDataLength :: u32
  rpStatus :: u8
  rpHeaderLength :: u32
  rpData :: "u8 list"
  rpHeaderCRC :: u8
  rpDataCRC :: u8

definition packet_empty :: rmap_packet where
  "packet_empty = \<lparr>rpSpwLength = 0, rpSpwTargets = replicate maxPhysicalRouterOutputPorts 0,
     rpTarget = defaultLogicalAddress, rpInstruction = 0, rpKey = 0,
     rpReplyAddress = replicate maxAddressLength 0, rpInitiator = defaultLogicalAddress,
     rpExtended = defaultExtendedAddress, rpTransaction = 0, rpAddress = 0, rpDataLength = 0,
     rpStatus = status_unknown, rpHeaderLength = 0, rpData = [], rpHeaderCRC = 0, rpDataCRC = 0\<rparr>"

definition packet_new :: "u8 \<Rightarrow> u8 \<Rightarrow> u8 \<Rightarrow> u32 \<Rightarrow> u32 \<Rightarrow> rmap_packet" where
  "packet_new target key initiator address dataLength =
     packet_empty\<lparr>rpTarget := target, rpKey := key, rpInitiator := initiator, rpAddress := address,
       rpDataLength := dataLength\<rparr>"

text \<open>
  The constructor with a path and a reply address. It fills the arrays only as far as the arguments
  reach; \<open>junkSpw\<close> and \<open>junkReply\<close> are what the memory of the object holds before. \<open>None\<close> when a
  \<open>memcpy\<close> reads more of the reply address than there is.
\<close>

definition packet_new_path ::
    "u8 list \<Rightarrow> u8 list \<Rightarrow> u8 list \<Rightarrow> u8 \<Rightarrow> u8 \<Rightarrow> u8 \<Rightarrow> u8 list \<Rightarrow> u8 \<Rightarrow> u32 \<Rightarrow> u32 \<Rightarrow> rmap_packet option" where
  "packet_new_path junkSpw junkReply spwTargets target rplyAddrLen key replyAddress initiator address dataLength = do {
     let p = packet_empty\<lparr>rpSpwLength := of_nat (length spwTargets), rpSpwTargets := junkSpw, rpTarget := target,
       rpKey := key, rpReplyAddress := junkReply, rpInitiator := initiator, rpAddress := address,
       rpDataLength := dataLength\<rparr>;
     spw \<leftarrow> (if length spwTargets \<le> maxPhysicalRouterOutputPorts then acopy junkSpw 0 spwTargets else Some junkSpw);
     reply \<leftarrow> (if unat rplyAddrLen * 4 \<le> maxAddressLength
              then if unat rplyAddrLen * 4 \<le> length replyAddress
                   then acopy junkReply 0 (take (unat rplyAddrLen * 4) replyAddress) else None
              else Some junkReply);
     Some (p\<lparr>rpSpwTargets := spw, rpReplyAddress := reply\<rparr>) }"

definition packet_reset :: "rmap_packet \<Rightarrow> rmap_packet" where
  "packet_reset p = packet_empty"

definition packet_assign :: "rmap_packet \<Rightarrow> rmap_packet \<Rightarrow> rmap_packet" where
  "packet_assign this rhs = this\<lparr>rpSpwLength := rpSpwLength rhs, rpSpwTargets := rpSpwTargets rhs,
     rpTarget := rpTarget rhs, rpInstruction := rpInstruction rhs, rpKey := rpKey rhs,
     rpReplyAddress := rpReplyAddress rhs, rpInitiator := rpInitiator rhs, rpExtended := rpExtended rhs,
     rpTransaction := rpTransaction rhs, rpAddress := rpAddress rhs, rpDataLength := rpDataLength rhs,
     rpStatus := rpStatus rhs, rpHeaderLength := rpHeaderLength rhs, rpData := rpData rhs,
     rpHeaderCRC := rpHeaderCRC rhs, rpDataCRC := rpDataCRC rhs\<rparr>"

definition packet_setData :: "u8 list \<Rightarrow> rmap_packet \<Rightarrow> rmap_packet" where
  "packet_setData data p = p\<lparr>rpData := data, rpDataLength := of_nat (length data),
     rpDataCRC := crc8r_calculate data\<rparr>"

text \<open>\<open>memcpy\<close> without a check of the size: \<open>None\<close> when it does not fit.\<close>

definition packet_setTargetSpaceWireAddress :: "u8 list \<Rightarrow> rmap_packet \<Rightarrow> rmap_packet option" where
  "packet_setTargetSpaceWireAddress address p = do {
     m \<leftarrow> acopy (rpSpwTargets p) 0 address;
     Some (p\<lparr>rpSpwTargets := m, rpSpwLength := of_nat (length address)\<rparr>) }"

definition packet_setTargetInformation :: "rmap_node \<Rightarrow> rmap_packet \<Rightarrow> rmap_packet option" where
  "packet_setTargetInformation nd p = do {
     let p = p\<lparr>rpTarget := ndLogicalAddress nd\<rparr>;
     let rplyAddr = node_getReplyAddress nd;
     m \<leftarrow> acopy (rpReplyAddress p) 0 rplyAddr;
     let p = p\<lparr>rpReplyAddress := m,
               rpInstruction := instr_setReplyAddressLength (of_nat (length rplyAddr div 4)) (rpInstruction p)\<rparr>;
     p \<leftarrow> packet_setTargetSpaceWireAddress (node_getTargetSpaceWireAddress nd) p;
     Some (p\<lparr>rpKey := ndKey nd\<rparr>) }"

definition packet_isCommand :: "rmap_packet \<Rightarrow> bool" where
  "packet_isCommand p \<longleftrightarrow> instr_getPacketType (rpInstruction p) = 1"

definition packet_isReply :: "rmap_packet \<Rightarrow> bool" where
  "packet_isReply p \<longleftrightarrow> instr_getPacketType (rpInstruction p) = 0"

definition packet_isWrite :: "rmap_packet \<Rightarrow> bool" where
  "packet_isWrite p \<longleftrightarrow> instr_isWrite (rpInstruction p)"

definition packet_setCommand :: "rmap_packet \<Rightarrow> rmap_packet" where
  "packet_setCommand p = p\<lparr>rpInstruction := instr_setPacketType commandPacket (rpInstruction p)\<rparr>"

definition packet_setWrite :: "rmap_packet \<Rightarrow> rmap_packet" where
  "packet_setWrite p = p\<lparr>rpInstruction := instr_setOperation write_operation (rpInstruction p)\<rparr>"

definition packet_setRead :: "rmap_packet \<Rightarrow> rmap_packet" where
  "packet_setRead p = p\<lparr>rpInstruction := instr_setOperation read_operation (rpInstruction p)\<rparr>"

definition packet_setVerifyFlag :: "bool \<Rightarrow> rmap_packet \<Rightarrow> rmap_packet" where
  "packet_setVerifyFlag enable p = p\<lparr>rpInstruction := instr_setVerify enable (rpInstruction p)\<rparr>"

definition packet_setReplyFlag :: "bool \<Rightarrow> rmap_packet \<Rightarrow> rmap_packet" where
  "packet_setReplyFlag enable p = p\<lparr>rpInstruction := instr_setReply enable (rpInstruction p)\<rparr>"

definition packet_setIncrementFlag :: "bool \<Rightarrow> rmap_packet \<Rightarrow> rmap_packet" where
  "packet_setIncrementFlag enable p = p\<lparr>rpInstruction := instr_setIncrement enable (rpInstruction p)\<rparr>"

definition packet_setReply :: "rmap_packet \<Rightarrow> rmap_packet" where
  "packet_setReply p = p\<lparr>rpInstruction := instr_setPacketType replyPacket (rpInstruction p)\<rparr>"

definition packet_isRead :: "rmap_packet \<Rightarrow> bool" where
  "packet_isRead p \<longleftrightarrow> \<not> instr_isWrite (rpInstruction p)"

definition packet_setReplyPathAddressLength :: "u8 \<Rightarrow> rmap_packet \<Rightarrow> rmap_packet" where
  "packet_setReplyPathAddressLength len p = p\<lparr>rpInstruction := instr_setReplyAddressLength len (rpInstruction p)\<rparr>"

text \<open>The bytes that the returned slices show.\<close>

definition packet_getTargetSpaceWireAddress :: "rmap_packet \<Rightarrow> u8 list" where
  "packet_getTargetSpaceWireAddress p = take (unat (rpSpwLength p)) (rpSpwTargets p)"

definition packet_getReplyAddress :: "rmap_packet \<Rightarrow> u8 list" where
  "packet_getReplyAddress p = take (unat (instr_getReplyAddressLength (rpInstruction p))) (rpReplyAddress p)"

definition packet_setTransactionID :: "u16 \<Rightarrow> rmap_packet \<Rightarrow> rmap_packet" where
  "packet_setTransactionID t p = p\<lparr>rpTransaction := t\<rparr>"

definition packet_setInitiatorLogicalAddress :: "u8 \<Rightarrow> rmap_packet \<Rightarrow> rmap_packet" where
  "packet_setInitiatorLogicalAddress a p = p\<lparr>rpInitiator := a\<rparr>"

definition packet_setAddress :: "u32 \<Rightarrow> rmap_packet \<Rightarrow> rmap_packet" where
  "packet_setAddress a p = p\<lparr>rpAddress := a\<rparr>"

definition packet_setExtendedAddress :: "u8 \<Rightarrow> rmap_packet \<Rightarrow> rmap_packet" where
  "packet_setExtendedAddress a p = p\<lparr>rpExtended := a\<rparr>"

definition packet_setKey :: "u8 \<Rightarrow> rmap_packet \<Rightarrow> rmap_packet" where
  "packet_setKey k p = p\<lparr>rpKey := k\<rparr>"

definition packet_setDataLength :: "u32 \<Rightarrow> rmap_packet \<Rightarrow> rmap_packet" where
  "packet_setDataLength n p = p\<lparr>rpDataLength := n\<rparr>"

definition packet_setStatus :: "u8 \<Rightarrow> rmap_packet \<Rightarrow> rmap_packet" where
  "packet_setStatus st p = p\<lparr>rpStatus := st\<rparr>"


subsection \<open>Building a command\<close>

text \<open>Element \<open>i\<close> of the \<open>uint32_t\<close> array whose bytes are given.\<close>

definition host_u32 :: "bool \<Rightarrow> u8 list \<Rightarrow> nat \<Rightarrow> u32 option" where
  "host_u32 big bytes i =
     (if 4 * i + 4 \<le> length bytes
      then Some ((if big then be_u32_value else le_u32_value) (take 4 (drop (4 * i) bytes)))
      else None)"

fun header_spw_loop :: "u8 list \<Rightarrow> nat \<Rightarrow> nat \<Rightarrow> serializer \<Rightarrow> serializer option" where
  "header_spw_loop targets i 0 s = Some s"
| "header_spw_loop targets i (Suc n) s = do {
     t \<leftarrow> aread targets i; s \<leftarrow> sb_store be_u8_store t s; header_spw_loop targets (Suc i) n s }"

fun header_reply_loop :: "bool \<Rightarrow> u8 list \<Rightarrow> nat \<Rightarrow> nat \<Rightarrow> serializer \<Rightarrow> serializer option" where
  "header_reply_loop big bytes i 0 s = Some s"
| "header_reply_loop big bytes i (Suc n) s = do {
     w \<leftarrow> host_u32 big bytes i; s \<leftarrow> sb_store be_u32_store w s; header_reply_loop big bytes (Suc i) n s }"

definition packet_constructHeader ::
    "bool \<Rightarrow> rmap_packet \<Rightarrow> serializer \<Rightarrow> (rmap_packet \<times> serializer) option" where
  "packet_constructHeader big p s = do {
     s \<leftarrow> (if packet_isCommand p then do {
          s \<leftarrow> header_spw_loop (rpSpwTargets p) 0 (unat (rpSpwLength p)) s;
          s \<leftarrow> sb_store be_u8_store (rpTarget p) s;
          s \<leftarrow> sb_store be_u8_store protocolIdentifier s;
          s \<leftarrow> sb_store be_u8_store (rpInstruction p) s;
          s \<leftarrow> sb_store be_u8_store (rpKey p) s;
          s \<leftarrow> (if instr_getReplyAddressLength (rpInstruction p) > 0
               then header_reply_loop big (rpReplyAddress p) 0 (unat (instr_getReplyAddressLength (rpInstruction p))) s
               else Some s);
          s \<leftarrow> sb_store be_u8_store (rpInitiator p) s;
          s \<leftarrow> sb_store be_u16_store (rpTransaction p) s;
          s \<leftarrow> sb_store be_u8_store (rpExtended p) s;
          s \<leftarrow> sb_store be_u32_store (rpAddress p) s;
          sb_store24 (rpDataLength p) s }
        else Some s);
     let p = p\<lparr>rpHeaderLength := of_int (sb_getPosition s)\<rparr>;
     let start = sb_getPointer s + unat (rpSpwLength p);
     crc \<leftarrow> (if start \<le> szBuffer s
             then Some (crc8r_calculate (take (szBuffer s - start) (drop start (szMemory s)))) else None);
     let p = p\<lparr>rpHeaderCRC := crc\<rparr>;
     s \<leftarrow> sb_store be_u8_store (rpHeaderCRC p) s;
     Some (p, s) }"

text \<open>
  \<open>constructPacket\<close> on a buffer of the memory \<open>m\<close>: the new memory, the new value of the reference
  \<open>buffer\<close>, the packet and the returned \<open>bool\<close>.
\<close>

definition packet_headerLength :: "rmap_packet \<Rightarrow> nat" where
  "packet_headerLength p = readCommandOverhead + 4 * unat (instr_getReplyAddressLength (rpInstruction p)) +
     unat (rpSpwLength p)"

definition packet_constructPacket ::
    "bool \<Rightarrow> u8 list \<Rightarrow> slice \<Rightarrow> rmap_packet \<Rightarrow> (u8 list \<times> slice \<times> rmap_packet \<times> bool) option" where
  "packet_constructPacket big m buffer p =
     (if getNumberOfElements buffer < packet_headerLength p then Some (m, buffer, p, False)
      else do {
        b \<leftarrow> mData buffer;
        (p, s) \<leftarrow> packet_constructHeader big p (sb_new m b);
        if packet_isWrite p
        then if getNumberOfElements buffer < unat (of_nat (packet_headerLength p) + rpDataLength p + 1)
             then Some (szMemory s, buffer, p, False)
             else if length (rpData p) \<noteq> unat (rpDataLength p) then Some (szMemory s, buffer, p, False)
             else do {
               s \<leftarrow> sb_storeBytes (rpData p) s;
               s \<leftarrow> sb_store be_u8_store (rpDataCRC p) s;
               Some (szMemory s, slice_first buffer (nat (sb_getPosition s)), p, True) }
        else Some (szMemory s, slice_first buffer (nat (sb_getPosition s)), p, True) })"

subsection \<open>Taking a reply apart\<close>

datatype extraction = Success | CrcError | Invalid | IncorrectAddress

definition extract_write_reply :: "u8 list \<Rightarrow> deserializer \<Rightarrow> rmap_packet \<Rightarrow> (extraction \<times> rmap_packet) option" where
  "extract_write_reply data d p =
     (if length data \<noteq> writeReplyOverhead then Some (Invalid, p)
      else do {
        let headerEnd = db_getPosition d;
        (packetHeaderCRC, d) \<leftarrow> db_read be_u8_read d;
        let calculated = crc8r_calculate (take (nat headerEnd) (drop (db_getPointer d) (dzMemory d)));
        if calculated \<noteq> packetHeaderCRC then Some (CrcError, p)
        else Some (Success, p\<lparr>rpHeaderCRC := packetHeaderCRC, rpHeaderLength := of_int headerEnd\<rparr>) })"

definition extract_read_reply :: "u8 list \<Rightarrow> deserializer \<Rightarrow> rmap_packet \<Rightarrow> (extraction \<times> rmap_packet) option" where
  "extract_read_reply data d p =
     (if length data < readReplyOverhead then Some (Invalid, p)
      else do {
        let d = db_skip 1 d;
        (len, d) \<leftarrow> db_readUnsigned24 d;
        let p = p\<lparr>rpDataLength := len\<rparr>;
        let headerEnd = db_getPosition d;
        (packetHeaderCRC, d) \<leftarrow> db_read be_u8_read d;
        let calculated = crc8r_calculate (take (nat headerEnd) (drop (db_getPointer d) (dzMemory d)));
        if calculated \<noteq> packetHeaderCRC then Some (CrcError, p)
        else do {
          let p = p\<lparr>rpHeaderCRC := packetHeaderCRC\<rparr>;
          if unat (rpDataLength p + of_nat readReplyOverhead) \<noteq> length data then Some (Invalid, p)
          else do {
            let p = p\<lparr>rpData := take (unat (rpDataLength p)) (drop (db_getPointerToCurrentPosition d) (dzMemory d))\<rparr>;
            let d = db_skip (unat (rpDataLength p)) d;
            (packetDataCRC, d) \<leftarrow> db_read be_u8_read d;
            if packetDataCRC \<noteq> crc8r_calculate (rpData p) then Some (CrcError, p)
            else Some (Success, p\<lparr>rpDataCRC := packetDataCRC, rpHeaderLength := of_int headerEnd\<rparr>) } } })"

definition packet_extractReplyPacket ::
    "u8 list \<Rightarrow> u8 \<Rightarrow> rmap_packet \<Rightarrow> (extraction \<times> rmap_packet) option" where
  "packet_extractReplyPacket data initiatorLogicalAddress p =
     (if length data < minimumReplySize then Some (Invalid, p)
      else do {
        let d = db_new data 0;
        (address, d) \<leftarrow> db_read be_u8_read d;
        if address \<noteq> initiatorLogicalAddress then Some (IncorrectAddress, p)
        else do {
          (protocol, d) \<leftarrow> db_read be_u8_read d;
          if protocol \<noteq> protocolIdentifier then Some (Invalid, p)
          else do {
            (instruction, d) \<leftarrow> db_read be_u8_read d;
            let p = p\<lparr>rpInstruction := instruction\<rparr>;
            if packet_isReply p
            then do {
              let p = p\<lparr>rpReplyAddress := replicate maxAddressLength 0, rpInitiator := address\<rparr>;
              (status, d) \<leftarrow> db_read be_u8_read d;
              (target, d) \<leftarrow> db_read be_u8_read d;
              (tid, d) \<leftarrow> db_read be_u16_read d;
              let p = p\<lparr>rpStatus := status, rpTarget := target, rpTransaction := tid\<rparr>;
              if packet_isWrite p then extract_write_reply data d p else extract_read_reply data d p }
            else Some (Success, p) } } })"

subsection \<open>The instruction field bit by bit\<close>

lemma instr_bits:
  "n < 8 \<Longrightarrow> bit (instr_setOperation op f) n = (if n = 5 then op = write_operation else bit f n)"
  "n < 8 \<Longrightarrow> bit (instr_setVerify b f) n = (if n = 4 then b else bit f n)"
  "n < 8 \<Longrightarrow> bit (instr_setReply b f) n = (if n = 3 then b else bit f n)"
  "n < 8 \<Longrightarrow> bit (instr_setIncrement b f) n = (if n = 2 then b else bit f n)"
  by (simp_all add: instr_setOperation_def instr_setVerify_def instr_setReply_def instr_setIncrement_def
      ba_setBit_bit operationBit_def verifyBit_def replyBit_def incrementBit_def)

lemma instr_setPacketType_bit:
  assumes "n < 8"
  shows "bit (instr_setPacketType t f) n = (if n = 6 then t = commandPacket else n \<noteq> 7 \<and> bit f n)"
proof -
  from ba_set_generic [of 6 7 f "packet_type_code t"] obtain r where
    r: "ba_set 7 6 f (packet_type_code t) = Some r"
    "\<forall>n < 8. bit r n \<longleftrightarrow> (if 6 \<le> n \<and> n \<le> 7 then bit (packet_type_code t) (n - 6) else bit f n)"
    by auto
  consider "n < 6" | "n = 6" | "n = 7" using assms by linarith
  then show ?thesis using assms r by cases (cases t; simp add: instr_setPacketType_def)+
qed

lemma instr_getPacketType_value: "instr_getPacketType f = take_bit 2 (drop_bit 6 f)"
  using ba_get_generic [of 6 7 f] by (simp add: instr_getPacketType_def numeral_2_eq_2)

lemma instr_getReplyAddressLength_value: "instr_getReplyAddressLength f = take_bit 2 f"
  using ba_get_generic [of 0 1 f] by (simp add: instr_getReplyAddressLength_def numeral_2_eq_2)

lemma instr_isWrite_bit: "instr_isWrite f = bit f 5"
  by (simp add: instr_isWrite_def operationBit_def ba_getBit_bit)

lemma reply_length_less: "unat (instr_getReplyAddressLength f) < 4"
proof -
  have "unat (take_bit 2 f) = take_bit 2 (unat f)" by (simp add: unsigned_take_bit_eq)
  then show ?thesis by (simp add: instr_getReplyAddressLength_value take_bit_eq_mod)
qed


subsection \<open>The layout of a command\<close>

definition packet_inv :: "rmap_packet \<Rightarrow> bool" where
  "packet_inv p \<longleftrightarrow> length (rpSpwTargets p) = maxPhysicalRouterOutputPorts \<and>
     unat (rpSpwLength p) \<le> maxPhysicalRouterOutputPorts \<and> length (rpReplyAddress p) = maxAddressLength"

lemma packet_empty_inv: "packet_inv packet_empty"
  by (simp add: packet_inv_def packet_empty_def)

lemma packet_setTargetInformation_inv:
  assumes "packet_inv p" and "node_inv nd"
  shows "\<exists>p'. packet_setTargetInformation nd p = Some p' \<and> packet_inv p' \<and> rpTarget p' = ndLogicalAddress nd \<and>
    take (unat (rpSpwLength p')) (rpSpwTargets p') = node_getTargetSpaceWireAddress nd \<and> rpKey p' = ndKey nd"
proof -
  have "length (node_getReplyAddress nd) \<le> 12" "length (node_getTargetSpaceWireAddress nd) \<le> 12"
    using assms(2) by (simp_all add: node_inv_def node_getReplyAddress_def node_getTargetSpaceWireAddress_def maxAddressLength_def)
  with assms(1) show ?thesis
    by (auto simp: packet_setTargetInformation_def packet_setTargetSpaceWireAddress_def packet_inv_def
        mem_simps maxAddressLength_def maxPhysicalRouterOutputPorts_def unat_of_nat Let_def)
qed

definition spw_path :: "rmap_packet \<Rightarrow> u8 list" where
  "spw_path p = take (unat (rpSpwLength p)) (rpSpwTargets p)"

definition reply_word :: "bool \<Rightarrow> rmap_packet \<Rightarrow> nat \<Rightarrow> u32" where
  "reply_word big p i = (if big then be_u32_value else le_u32_value) (take 4 (drop (4 * i) (rpReplyAddress p)))"

definition reply_words :: "rmap_packet \<Rightarrow> nat" where
  "reply_words p = unat (instr_getReplyAddressLength (rpInstruction p))"

text \<open>The command header after the path, without its checksum.\<close>

definition header_bytes :: "bool \<Rightarrow> rmap_packet \<Rightarrow> u8 list" where
  "header_bytes big p =
     [rpTarget p, protocolIdentifier, rpInstruction p, rpKey p] @
     concat (map (\<lambda>i. be_u32_bytes (reply_word big p i)) [0..<reply_words p]) @
     [rpInitiator p] @ be_u16_bytes (rpTransaction p) @ [rpExtended p] @ be_u32_bytes (rpAddress p) @
     [ucast (drop_bit 16 (rpDataLength p)), ucast (drop_bit 8 (rpDataLength p)), ucast (rpDataLength p)]"

definition command_bytes :: "bool \<Rightarrow> rmap_packet \<Rightarrow> u8 list" where
  "command_bytes big p = spw_path p @ header_bytes big p @ [crc8r_calculate (header_bytes big p)] @
     (if packet_isWrite p then rpData p @ [rpDataCRC p] else [])"

definition header_fields :: "bool \<Rightarrow> rmap_packet \<Rightarrow> field list" where
  "header_fields big p = map FU8 (spw_path p) @
     [FU8 (rpTarget p), FU8 protocolIdentifier, FU8 (rpInstruction p), FU8 (rpKey p)] @
     map (\<lambda>i. FU32 (reply_word big p i)) [0..<reply_words p] @
     [FU8 (rpInitiator p), FU16 (rpTransaction p), FU8 (rpExtended p), FU32 (rpAddress p), FU24 (rpDataLength p)]"

lemma concat_singletons: "concat (map (sb_bytes \<circ> FU8) xs) = xs"
  by (induction xs) (simp_all add: be_u8_bytes_def)

lemma header_fields_bytes: "concat (map sb_bytes (header_fields big p)) = spw_path p @ header_bytes big p"
  by (simp add: header_fields_def header_bytes_def concat_singletons be_u8_bytes_def comp_def)

lemma length_header_bytes: "length (header_bytes big p) = 15 + 4 * reply_words p"
  by (simp add: header_bytes_def length_concat comp_def sum_list_triv sb_lengths)

lemma put_all_append: "put_all put (xs @ ys) = (\<lambda>s. put_all put xs s \<bind> put_all put ys)"
proof (induction xs)
  case (Cons x xs)
  show ?case by (intro ext) (simp add: Cons bind_assoc)
qed simp

lemma header_spw_loop_put:
  "i + n \<le> length targets \<Longrightarrow> header_spw_loop targets i n = put_all sb_put (map FU8 (take n (drop i targets)))"
proof (induction n arbitrary: i)
  case (Suc n)
  from Suc.prems have i: "i < length targets" by simp
  then have "take (Suc n) (drop i targets) = targets ! i # take n (drop (Suc i) targets)"
    by (simp add: take_Suc_drop_nth Cons_nth_drop_Suc [symmetric])
  moreover have "header_spw_loop targets (Suc i) n = put_all sb_put (map FU8 (take n (drop (Suc i) targets)))"
    using Suc.prems by (intro Suc.IH) simp
  ultimately show ?case using i by (intro ext) (simp add: mem_simps)
qed (simp add: fun_eq_iff)

lemma header_reply_loop_put:
  "4 * (i + n) \<le> length (rpReplyAddress p) \<Longrightarrow> header_reply_loop big (rpReplyAddress p) i n =
     put_all sb_put (map (\<lambda>i. FU32 (reply_word big p i)) [i..<i + n])"
proof (induction n arbitrary: i)
  case (Suc n)
  have "[i..<i + Suc n] = i # [Suc i..<Suc i + n]" by (simp add: upt_conv_Cons del: upt_Suc)
  moreover have "header_reply_loop big (rpReplyAddress p) (Suc i) n =
      put_all sb_put (map (\<lambda>i. FU32 (reply_word big p i)) [Suc i..<Suc i + n])"
    using Suc.prems by (intro Suc.IH) simp
  ultimately show ?case using Suc.prems
    by (intro ext) (simp add: host_u32_def reply_word_def del: upt_Suc add_Suc add_Suc_right)
qed (simp add: fun_eq_iff)

lemma packet_inv_reply_words: "packet_inv p \<Longrightarrow> 4 * reply_words p \<le> length (rpReplyAddress p)"
  using reply_length_less [of "rpInstruction p"] by (simp add: packet_inv_def reply_words_def maxAddressLength_def)

lemma packet_headerLength_eq:
  "packet_inv p \<Longrightarrow> packet_headerLength p = length (spw_path p @ header_bytes big p) + 1"
  by (simp add: packet_headerLength_def length_header_bytes spw_path_def packet_inv_def reply_words_def
      readCommandOverhead_def)

lemma constructHeader_puts:
  assumes "packet_inv p" and "packet_isCommand p"
  shows "packet_constructHeader big p s = do {
     s \<leftarrow> put_all sb_put (header_fields big p) s;
     let p = p\<lparr>rpHeaderLength := of_int (sb_getPosition s)\<rparr>;
     let start = sb_getPointer s + unat (rpSpwLength p);
     crc \<leftarrow> (if start \<le> szBuffer s
             then Some (crc8r_calculate (take (szBuffer s - start) (drop start (szMemory s)))) else None);
     let p = p\<lparr>rpHeaderCRC := crc\<rparr>;
     s \<leftarrow> sb_store be_u8_store (rpHeaderCRC p) s;
     Some (p, s) }"
proof -
  have spw: "header_spw_loop (rpSpwTargets p) 0 (unat (rpSpwLength p)) = put_all sb_put (map FU8 (spw_path p))"
    using header_spw_loop_put [of 0 "unat (rpSpwLength p)" "rpSpwTargets p"] assms(1)
    by (simp add: packet_inv_def spw_path_def)
  have reply: "(if instr_getReplyAddressLength (rpInstruction p) > 0
      then header_reply_loop big (rpReplyAddress p) 0 (unat (instr_getReplyAddressLength (rpInstruction p))) s else Some s) =
      put_all sb_put (map (\<lambda>i. FU32 (reply_word big p i)) [0..<reply_words p]) s" for s
    using header_reply_loop_put [of 0 "reply_words p" p big] packet_inv_reply_words [OF assms(1)]
    by (auto simp: reply_words_def word_greater_zero_iff)
  show ?thesis
    using assms(2) unfolding packet_constructHeader_def reply spw
    by (simp add: header_fields_def put_all_append bind_assoc)
qed

text \<open>The packet after its header has been built.\<close>

definition packet_sealed :: "bool \<Rightarrow> rmap_packet \<Rightarrow> rmap_packet" where
  "packet_sealed big p = p\<lparr>rpHeaderLength := of_nat (length (spw_path p @ header_bytes big p)),
     rpHeaderCRC := crc8r_calculate (header_bytes big p)\<rparr>"

lemma length_spw_path: "packet_inv p \<Longrightarrow> length (spw_path p) = unat (rpSpwLength p)"
  by (simp add: packet_inv_def spw_path_def)

lemma constructHeader_writes:
  assumes p: "packet_inv p" "packet_isCommand p" and fit: "b + packet_headerLength p \<le> length m"
  shows "packet_constructHeader big p (sb_new m b) = map_option
     (\<lambda>m'. (packet_sealed big p, \<lparr>szMemory = m', szBuffer = b + packet_headerLength p, szBegin = b\<rparr>))
     (acopy m b (spw_path p @ header_bytes big p @ [crc8r_calculate (header_bytes big p)]))"
proof -
  let ?h = "spw_path p @ header_bytes big p"
  have len: "packet_headerLength p = length ?h + 1" using packet_headerLength_eq [OF p(1)] .
  have size: "message_size (header_fields big p) = length ?h"
    by (simp add: mb.message_length [symmetric] header_fields_bytes)
  define m1 where "m1 = take b m @ ?h @ drop (b + length ?h) m"
  have m1: "acopy m b ?h = Some m1" using fit len by (simp add: acopy_def m1_def)
  have put: "put_all sb_put (header_fields big p) (sb_new m b) =
      Some \<lparr>szMemory = m1, szBuffer = b + length ?h, szBegin = b\<rparr>"
    using fit len by (subst mb.put_all_copy) (simp_all add: header_fields_bytes size m1 sb_new_def)
  have view: "take (length (header_bytes big p)) (drop (b + unat (rpSpwLength p)) m1) = header_bytes big p"
    using fit len by (simp add: m1_def length_spw_path [OF p(1), symmetric])
  have whole: "acopy m b (?h @ [c]) = awrite m1 (b + length ?h) c" for c
    using fit len acopy_snoc [of b ?h m c] by (simp add: m1_def)
  have "acopy m b (spw_path p @ header_bytes big p @ [c]) = awrite m1 (b + length ?h) c" for c
    using whole [of c] by simp
  then show ?thesis
    unfolding constructHeader_puts [OF p] put
    using fit len view
    by (simp add: sb_getPosition_def sb_getPointer_def sb_store_def be_u8.store_law packet_sealed_def
        length_spw_path [OF p(1)] acopy_def awrite_def be_u8_bytes_def Let_def upd_conv_take_nth_drop)
qed

text \<open>A command of the packet fits into \<open>n\<close> bytes.\<close>

definition command_fits :: "rmap_packet \<Rightarrow> nat \<Rightarrow> bool" where
  "command_fits p n \<longleftrightarrow> packet_headerLength p \<le> n \<and>
     (packet_isWrite p \<longrightarrow> packet_headerLength p + unat (rpDataLength p) + 1 \<le> n \<and>
        length (rpData p) = unat (rpDataLength p))"

lemma sealed_fields [simp]:
  "packet_isWrite (packet_sealed big p) = packet_isWrite p" "rpData (packet_sealed big p) = rpData p"
  "rpDataLength (packet_sealed big p) = rpDataLength p" "rpDataCRC (packet_sealed big p) = rpDataCRC p"
  "packet_headerLength (packet_sealed big p) = packet_headerLength p"
  by (simp_all add: packet_sealed_def packet_isWrite_def packet_headerLength_def)

lemma u32_of_nat: "n < 2 ^ 32 \<Longrightarrow> unat (of_nat n :: u32) = n"
  by (simp add: unat_of_nat)

lemma command_length_exact:
  assumes "packet_headerLength p + unat (rpDataLength p) + 1 < 2 ^ 32"
  shows "unat (of_nat (packet_headerLength p) + rpDataLength p + 1) = packet_headerLength p + unat (rpDataLength p) + 1"
proof -
  have "of_nat (packet_headerLength p + unat (rpDataLength p) + 1) = of_nat (packet_headerLength p) + rpDataLength p + 1"
    by simp
  moreover have "unat (of_nat (packet_headerLength p + unat (rpDataLength p) + 1) :: u32) =
      packet_headerLength p + unat (rpDataLength p) + 1"
    using assms by (rule u32_of_nat)
  ultimately show ?thesis by metis
qed

lemma store_data:
  assumes "szBuffer s + length data + 1 \<le> length (szMemory s)"
  shows "do { s \<leftarrow> sb_storeBytes data s; sb_store be_u8_store c s } =
     map_option (\<lambda>m. s\<lparr>szMemory := m, szBuffer := szBuffer s + length data + 1\<rparr>)
       (acopy (szMemory s) (szBuffer s) (data @ [c]))"
proof -
  have "put_all sb_put [] = Some" by (intro ext) simp
  then have "put_all sb_put [FU8 c] = sb_store be_u8_store c" by (intro ext) simp
  then show ?thesis using mb.put_all_copy [of s "[FBytes data, FU8 c]"] assms
    by (simp add: message_size_def be_u8_bytes_def)
qed

lemma exI2: "P a b \<Longrightarrow> \<exists>x y. P x y"
  by blast

text \<open>What is written is one run of bytes from the start of the buffer.\<close>

lemma constructPacket_copies:
  assumes p: "packet_inv p" "packet_isCommand p" and b: "mData buffer = Some b"
    and fit: "b + mNumberOfElements buffer \<le> length m"
    and small: "packet_headerLength p + unat (rpDataLength p) + 1 < 2 ^ 32"
  shows "\<exists>m' bytes. acopy m b bytes = Some m' \<and> length bytes \<le> mNumberOfElements buffer \<and>
     (command_fits p (mNumberOfElements buffer) \<longrightarrow> bytes = command_bytes big p) \<and>
     packet_constructPacket big m buffer p = Some (m',
       if command_fits p (mNumberOfElements buffer) then slice_first buffer (length (command_bytes big p)) else buffer,
       if packet_headerLength p \<le> mNumberOfElements buffer then packet_sealed big p else p,
       command_fits p (mNumberOfElements buffer))"
proof (cases "packet_headerLength p \<le> mNumberOfElements buffer")
  case False
  then show ?thesis using fit
    by (intro exI2 [where a = m and b = "[]"]) (simp add: command_fits_def packet_constructPacket_def getNumberOfElements_def)
next
  case True
  let ?n = "mNumberOfElements buffer"
  define h where "h = spw_path p @ header_bytes big p @ [crc8r_calculate (header_bytes big p)]"
  have h: "length h = packet_headerLength p" 
    using packet_headerLength_eq [OF p(1)] by (simp add: h_def)
  obtain m1 where m1: "acopy m b h = Some m1" using True fit h by (simp add: acopy_def)
  have header: "packet_constructHeader big p (sb_new m b) =
      Some (packet_sealed big p, \<lparr>szMemory = m1, szBuffer = b + packet_headerLength p, szBegin = b\<rparr>)"
    using constructHeader_writes [OF p, of b m big] True fit m1 by (simp add: h_def)
  have len1: "length m1 = length m" using length_acopy [OF m1] .
  note unf = packet_constructPacket_def getNumberOfElements_def b header command_length_exact [OF small]
  show ?thesis
  proof (cases "packet_isWrite p")
    case False
    then show ?thesis using True m1 h
      by (intro exI2 [where a = m1 and b = h])
        (simp add: unf command_fits_def command_bytes_def h_def [symmetric] sb_getPosition_def)
  next
    case wr: True
    show ?thesis
    proof (cases "command_fits p ?n")
      case False
      then show ?thesis using True m1 h wr
        by (intro exI2 [where a = m1 and b = h]) (auto simp: unf command_fits_def)
    next
      case fits: True
      let ?data = "rpData p @ [rpDataCRC p]"
      obtain m2 where m2: "acopy m1 (b + packet_headerLength p) ?data = Some m2"
        using fits wr fit len1 by (simp add: acopy_def command_fits_def)
      have all: "command_bytes big p = h @ ?data" by (simp add: command_bytes_def h_def wr)
      have "acopy m b (h @ ?data) = Some m2" by (subst acopy_append) (simp add: m1 h m2)
      moreover have "do { s \<leftarrow> sb_storeBytes (rpData p) \<lparr>szMemory = m1, szBuffer = b + packet_headerLength p, szBegin = b\<rparr>;
            sb_store be_u8_store (rpDataCRC p) s } =
          Some \<lparr>szMemory = m2, szBuffer = b + packet_headerLength p + length (rpData p) + 1, szBegin = b\<rparr>"
        using fits wr fit len1 m2 by (subst store_data) (simp_all add: command_fits_def)
      moreover have "nat (sb_getPosition \<lparr>szMemory = m2, szBuffer = b + packet_headerLength p + length (rpData p) + 1,
          szBegin = b\<rparr>) = length (command_bytes big p)"
        by (simp add: sb_getPosition_def all h)
      ultimately show ?thesis using True fits wr h
        by (intro exI2 [where a = m2 and b = "h @ ?data"])
          (auto simp: unf all command_fits_def bind_eq_Some_conv)
    qed
  qed
qed

text \<open>
  The getter of the reply address counts in words and not in bytes: whatever the reply address is, it
  shows at most three bytes of it.\<close>

lemma packet_getReplyAddress_short: "length (packet_getReplyAddress p) < 4"
  using reply_length_less [of "rpInstruction p"] by (simp add: packet_getReplyAddress_def min_def)

text \<open>A packet made with a reply address of any length is sent without one.\<close>

lemma packet_new_path_forgets_reply:
  assumes "packet_new_path js jr spw t len key reply i a n = Some p"
  shows "reply_words p = 0"
proof -
  have "rpInstruction p = 0"
    using assms by (auto simp: packet_new_path_def packet_empty_def Let_def bind_eq_Some_conv split: if_splits)
  then show ?thesis by (simp add: reply_words_def instr_getReplyAddressLength_value)
qed

text \<open>On a little endian machine the bytes of the reply address leave in reverse order, in groups of four.\<close>

lemma reply_word_reversed: "be_u32_bytes (le_u32_value [a, b, c, d]) = [d, c, b, a]"
  using be_u32_value_bytes [of "be_u32_value [d, c, b, a]"] be_u32.enc_dec [of "[d, c, b, a]"]
  by (simp add: be_u32_value_def le_u32_value_def ac_simps)

text \<open>
  The layout that the protocol prescribes, as a function of the bytes of the reply address, on whatever
  machine: path, header with the reply address, checksum over the header without the path, and for a
  write the data and its checksum.\<close>

definition protocol_header :: "u8 list \<Rightarrow> rmap_packet \<Rightarrow> u8 list" where
  "protocol_header reply p =
     [rpTarget p, 1, rpInstruction p, rpKey p] @ reply @
     [rpInitiator p, ucast (drop_bit 8 (rpTransaction p)), ucast (rpTransaction p), rpExtended p,
      ucast (drop_bit 24 (rpAddress p)), ucast (drop_bit 16 (rpAddress p)), ucast (drop_bit 8 (rpAddress p)), ucast (rpAddress p),
      ucast (drop_bit 16 (rpDataLength p)), ucast (drop_bit 8 (rpDataLength p)), ucast (rpDataLength p)]"

definition protocol_command :: "u8 list \<Rightarrow> rmap_packet \<Rightarrow> u8 list" where
  "protocol_command reply p = spw_path p @ protocol_header reply p @ [crc8r_calculate (protocol_header reply p)] @
     (if packet_isWrite p then rpData p @ [rpDataCRC p] else [])"

definition reply_field :: "rmap_packet \<Rightarrow> u8 list" where
  "reply_field p = take (4 * reply_words p) (rpReplyAddress p)"

fun reverse_words :: "u8 list \<Rightarrow> u8 list" where
  "reverse_words (a # b # c # d # xs) = [d, c, b, a] @ reverse_words xs"
| "reverse_words _ = []"

definition sent_reply_field :: "bool \<Rightarrow> rmap_packet \<Rightarrow> u8 list" where
  "sent_reply_field big p = (if big then reply_field p else reverse_words (reply_field p))"

lemma length_12E:
  assumes "length xs = 12"
  obtains a b c d e f g h i j k l where "xs = [a, b, c, d, e, f, g, h, i, j, k, l]"
  using assms by (auto simp: numeral_eq_Suc length_Suc_conv)

lemma be_u32_bytes_value4: "be_u32_bytes (be_u32_value [a, b, c, d]) = [a, b, c, d]"
  using be_u32.enc_dec [of "[a, b, c, d]"] by simp

lemma sent_reply_words:
  assumes "packet_inv p"
  shows "concat (map (\<lambda>i. be_u32_bytes (reply_word big p i)) [0..<reply_words p]) = sent_reply_field big p"
proof -
  from assms have "length (rpReplyAddress p) = 12" by (simp add: packet_inv_def maxAddressLength_def)
  then obtain a b c d e f g h i j k l where a: "rpReplyAddress p = [a, b, c, d, e, f, g, h, i, j, k, l]" by (rule length_12E)
  have "reply_words p = 0 \<or> reply_words p = 1 \<or> reply_words p = 2 \<or> reply_words p = 3"
    using reply_length_less [of "rpInstruction p"] by (auto simp: reply_words_def)
  moreover have "[0..<1] = [0 :: nat]" "[0..<2] = [0, 1 :: nat]" "[0..<3] = [0, 1, 2 :: nat]" by (simp_all add: upt_rec)
  ultimately show ?thesis
    by (cases big) (auto simp: sent_reply_field_def reply_field_def reply_word_def a reply_word_reversed be_u32_bytes_value4)
qed

lemma header_bytes_protocol: "packet_inv p \<Longrightarrow> header_bytes big p = protocol_header (sent_reply_field big p) p"
  using sent_reply_words [of p big]
  by (simp add: header_bytes_def protocol_header_def protocolIdentifier_def be_u16_bytes_def be_u32_bytes_def)

lemma command_bytes_protocol: "packet_inv p \<Longrightarrow> command_bytes big p = protocol_command (sent_reply_field big p) p"
  by (simp add: command_bytes_def protocol_command_def header_bytes_protocol)

lemma sent_reply_field_right: "big \<or> reply_words p = 0 \<Longrightarrow> sent_reply_field big p = reply_field p"
  by (auto simp: sent_reply_field_def reply_field_def)


text \<open>A write of two bytes to the node with the logical address 254.\<close>

definition sample_command :: rmap_packet where
  "sample_command = packet_setData [1, 2] (packet_setWrite (packet_setCommand (packet_new 254 32 118 4096 0)))"

lemma sample_instruction: "instr_setOperation write_operation (instr_setPacketType commandPacket 0) = 96"
  by code_simp

lemma sample_command_facts:
  "rpInstruction sample_command = 96" "rpDataLength sample_command = 2" "rpData sample_command = [1, 2]"
  "rpSpwLength sample_command = 0" "packet_inv sample_command"
  by (simp_all add: sample_command_def packet_setData_def packet_setWrite_def packet_setCommand_def packet_new_def
      packet_empty_def packet_inv_def sample_instruction)

lemma sample_command_fits: "packet_headerLength sample_command = 16" "packet_isCommand sample_command"
    "command_fits sample_command 22"
  by (simp_all add: sample_command_facts packet_isCommand_def packet_headerLength_def readCommandOverhead_def
      command_fits_def instr_getPacketType_value instr_getReplyAddressLength_value)


subsection \<open>What a reply is\<close>

text \<open>The answer of \<open>extractReplyPacket\<close> over the bytes of the packet, and the packet of a good reply.\<close>

definition reply_length :: "u8 list \<Rightarrow> u32" where
  "reply_length data = push_bit 16 (ucast (data ! 8)) OR push_bit 8 (ucast (data ! 9)) OR ucast (data ! 10)"

definition reply_data :: "u8 list \<Rightarrow> u8 list" where
  "reply_data data = take (unat (reply_length data)) (drop 12 data)"

definition is_reply_byte :: "u8 \<Rightarrow> bool" where
  "is_reply_byte i \<longleftrightarrow> \<not> bit i 6 \<and> \<not> bit i 7"

definition reply_result :: "u8 list \<Rightarrow> u8 \<Rightarrow> extraction" where
  "reply_result data la =
     (if length data < 8 then Invalid
      else if data ! 0 \<noteq> la then IncorrectAddress
      else if data ! 1 \<noteq> 1 then Invalid
      else if \<not> is_reply_byte (data ! 2) then Success
      else if bit (data ! 2) 5
      then (if length data \<noteq> 8 then Invalid
            else if crc8r_calculate (take 7 data) \<noteq> data ! 7 then CrcError else Success)
      else if length data < 13 then Invalid
      else if crc8r_calculate (take 11 data) \<noteq> data ! 11 then CrcError
      else if unat (reply_length data) + 13 \<noteq> length data then Invalid
      else if crc8r_calculate (reply_data data) \<noteq> data ! (length data - 1) then CrcError else Success)"

definition reply_packet :: "u8 list \<Rightarrow> rmap_packet \<Rightarrow> rmap_packet" where
  "reply_packet data p = (let p = p\<lparr>rpInstruction := data ! 2\<rparr> in
     if \<not> is_reply_byte (data ! 2) then p
     else let p = p\<lparr>rpReplyAddress := replicate 12 0, rpInitiator := data ! 0, rpStatus := data ! 3,
                    rpTarget := data ! 4, rpTransaction := be_u16_value [data ! 5, data ! 6]\<rparr>
       in if bit (data ! 2) 5 then p\<lparr>rpHeaderCRC := data ! 7, rpHeaderLength := 7\<rparr>
          else p\<lparr>rpDataLength := reply_length data, rpHeaderCRC := data ! 11, rpData := reply_data data,
                 rpDataCRC := data ! (length data - 1), rpHeaderLength := 11\<rparr>)"

lemma packet_isReply_bits: "packet_isReply p = is_reply_byte (rpInstruction p)"
proof -
  let ?f = "rpInstruction p"
  have "take_bit 2 (drop_bit 6 ?f) = 0 \<longleftrightarrow> (\<forall>n<8. \<not> bit (take_bit 2 (drop_bit 6 ?f)) n)"
    using bit_eq_iff [of "take_bit 2 (drop_bit 6 ?f)" 0] by simp
  also have "\<dots> \<longleftrightarrow> \<not> bit ?f 6 \<and> \<not> bit ?f 7"
  proof (intro iffI conjI)
    assume all: "\<forall>n<8. \<not> bit (take_bit 2 (drop_bit 6 ?f)) n"
    from all [rule_format, of 0] show "\<not> bit ?f 6" by (simp add: bit_take_bit_iff bit_drop_bit_eq)
    from all [rule_format, of 1] show "\<not> bit ?f 7" by (simp add: bit_take_bit_iff bit_drop_bit_eq)
  next
    assume clear: "\<not> bit ?f 6 \<and> \<not> bit ?f 7"
    have "\<not> bit (take_bit 2 (drop_bit 6 ?f)) n" for n
    proof -
      consider "n = 0" | "n = 1" | "2 \<le> n" by linarith
      then show ?thesis using clear by cases (simp_all add: bit_take_bit_iff bit_drop_bit_eq)
    qed
    then show "\<forall>n<8. \<not> bit (take_bit 2 (drop_bit 6 ?f)) n" by blast
  qed
  finally show ?thesis by (simp add: packet_isReply_def instr_getPacketType_value is_reply_byte_def)
qed

lemma reply_length_small: "unat (reply_length data) < 2 ^ 24"
proof -
  have "reply_length data = take_bit 24 (reply_length data)"
    by (rule bit_word_eqI) (auto simp: reply_length_def bit_take_bit_iff bit_or_iff bit_push_bit_iff bit_unsigned_iff
        dest: bit_imp_le_length)
  then have "unat (reply_length data) = take_bit 24 (unat (reply_length data))"
    by (metis unsigned_take_bit_eq)
  then show ?thesis by (metis take_bit_nat_less_exp)
qed

lemma read_u8: "dzBuffer d < length (dzMemory d) \<Longrightarrow>
    db_read be_u8_read d = Some (dzMemory d ! dzBuffer d, d\<lparr>dzBuffer := dzBuffer d + 1\<rparr>)"
  by (simp add: db_read_def be_u8_read_def mem_simps)

lemma read_u16: "dzBuffer d + 1 < length (dzMemory d) \<Longrightarrow> db_read be_u16_read d =
    Some (be_u16_value [dzMemory d ! dzBuffer d, dzMemory d ! (dzBuffer d + 1)], d\<lparr>dzBuffer := dzBuffer d + 2\<rparr>)"
  by (simp add: db_read_def be_u16.read_law take_Suc_drop_nth numeral_2_eq_2)

lemma read_u24: "dzBuffer d + 2 < length (dzMemory d) \<Longrightarrow> db_readUnsigned24 d =
    Some (push_bit 16 (ucast (dzMemory d ! dzBuffer d)) OR push_bit 8 (ucast (dzMemory d ! (dzBuffer d + 1))) OR
      ucast (dzMemory d ! (dzBuffer d + 2)), d\<lparr>dzBuffer := dzBuffer d + 3\<rparr>)"
  by (simp add: db_readUnsigned24_def mem_simps)

lemmas reply_simps = read_u8 read_u16 read_u24 db_new_def db_skip_def db_getPosition_def db_getPointer_def
  db_getPointerToCurrentPosition_def packet_isReply_bits packet_isWrite_def instr_isWrite_bit maxAddressLength_def
  minimumReplySize_def writeReplyOverhead_def readReplyOverhead_def protocolIdentifier_def

lemma extract_write_reply_result:
  assumes "8 \<le> length data"
  shows "\<exists>p'. extract_write_reply data \<lparr>dzMemory = data, dzBuffer = 7, dzBegin = 0\<rparr> p =
     Some (if length data \<noteq> 8 then Invalid else if crc8r_calculate (take 7 data) \<noteq> data ! 7 then CrcError else Success, p') \<and>
     (length data = 8 \<and> crc8r_calculate (take 7 data) = data ! 7 \<longrightarrow>
        p' = p\<lparr>rpHeaderCRC := data ! 7, rpHeaderLength := 7\<rparr>)"
  using assms by (simp add: extract_write_reply_def reply_simps)

lemma extract_read_reply_result:
  assumes "8 \<le> length data"
  shows "\<exists>p'. extract_read_reply data \<lparr>dzMemory = data, dzBuffer = 7, dzBegin = 0\<rparr> p = Some (
       if length data < 13 then Invalid
       else if crc8r_calculate (take 11 data) \<noteq> data ! 11 then CrcError
       else if unat (reply_length data) + 13 \<noteq> length data then Invalid
       else if crc8r_calculate (reply_data data) \<noteq> data ! (length data - 1) then CrcError else Success, p') \<and>
     (13 \<le> length data \<and> crc8r_calculate (take 11 data) = data ! 11 \<and> unat (reply_length data) + 13 = length data \<and>
      crc8r_calculate (reply_data data) = data ! (length data - 1) \<longrightarrow>
        p' = p\<lparr>rpDataLength := reply_length data, rpHeaderCRC := data ! 11, rpData := reply_data data,
               rpDataCRC := data ! (length data - 1), rpHeaderLength := 11\<rparr>)"
proof (cases "13 \<le> length data")
  case True
  have 24: "push_bit 16 (ucast (data ! 8)) OR push_bit 8 (ucast (data ! 9)) OR ucast (data ! 10) = reply_length data"
    by (simp add: reply_length_def)
  have size: "unat (reply_length data + 13) = unat (reply_length data) + 13"
    using reply_length_small [of data] by (simp add: unat_add_lem [THEN iffD1])
  show ?thesis
  proof (cases "unat (reply_length data) + 13 = length data")
    case len: True
    then have "length data - 1 = 12 + unat (reply_length data)" by linarith
    then have "data ! (12 + unat (reply_length data)) = data ! (length data - 1)"
      "12 + unat (reply_length data) < length data" using len by simp_all
    then show ?thesis using True len
      by (simp add: extract_read_reply_def reply_simps 24 size reply_data_def [symmetric] add.commute Let_def)
  next
    case False
    then show ?thesis using True by (simp add: extract_read_reply_def reply_simps 24 size Let_def)
  qed
next
  case False
  then show ?thesis by (simp add: extract_read_reply_def reply_simps)
qed

lemma extractReplyPacket_result:
  "\<exists>p'. packet_extractReplyPacket data la p = Some (reply_result data la, p') \<and>
     (reply_result data la = Success \<longrightarrow> p' = reply_packet data p)"
proof (cases "8 \<le> length data \<and> data ! 0 = la \<and> data ! 1 = 1 \<and> is_reply_byte (data ! 2)")
  case True
  let ?p = "p\<lparr>rpInstruction := data ! 2, rpReplyAddress := replicate 12 0, rpInitiator := la, rpStatus := data ! 3,
      rpTarget := data ! 4, rpTransaction := be_u16_value [data ! 5, data ! 6]\<rparr>"
  have ne: "data \<noteq> []" using True by auto
  have 1: "packet_extractReplyPacket data la p =
      (if bit (data ! 2) 5 then extract_write_reply data \<lparr>dzMemory = data, dzBuffer = 7, dzBegin = 0\<rparr> ?p
       else extract_read_reply data \<lparr>dzMemory = data, dzBuffer = 7, dzBegin = 0\<rparr> ?p)"
    using True ne by (simp add: packet_extractReplyPacket_def reply_simps Let_def del: One_nat_def)
  have 8: "8 \<le> length data" using True by simp
  show ?thesis
  proof (cases "bit (data ! 2) 5")
    case wr: True
    obtain p' where "extract_write_reply data \<lparr>dzMemory = data, dzBuffer = 7, dzBegin = 0\<rparr> ?p = Some (reply_result data la, p')"
      "reply_result data la = Success \<longrightarrow> p' = reply_packet data p"
      using extract_write_reply_result [OF 8, of ?p] True wr
      by (auto simp: reply_result_def reply_packet_def split: if_splits)
    then show ?thesis by (simp add: 1 wr)
  next
    case rd: False
    obtain p' where "extract_read_reply data \<lparr>dzMemory = data, dzBuffer = 7, dzBegin = 0\<rparr> ?p = Some (reply_result data la, p')"
      "reply_result data la = Success \<longrightarrow> p' = reply_packet data p"
      using extract_read_reply_result [OF 8, of ?p] True rd
      by (auto simp: reply_result_def reply_packet_def split: if_splits)
    then show ?thesis by (simp add: 1 rd)
  qed
next
  case False
  have "8 \<le> length data \<Longrightarrow> data \<noteq> []" by auto
  then show ?thesis using False
    by (auto simp: packet_extractReplyPacket_def reply_simps reply_result_def reply_packet_def not_less Let_def
        simp del: One_nat_def)
qed

text \<open>
  C8. For any bytes and any packet taking a reply apart never reads outside of the bytes, its answer
  is the one that the protocol gives to these bytes, and when it succeeds the packet carries exactly
  the fields of the reply. A packet that is no reply is answered with success and only its
  instruction is kept.\<close>

theorem rmap_reply_extraction:
  "\<exists>p'. packet_extractReplyPacket data la p = Some (reply_result data la, p') \<and>
     (reply_result data la = Success \<longrightarrow> p' = reply_packet data p)"
  by (rule extractReplyPacket_result)

text \<open>The reply to a read of three bytes.\<close>

definition sample_reply :: "u8 list" where
  "sample_reply = (let h = [118, 1, 12, 0, 254, 0, 7, 0, 0, 0, 3]; d = [10, 20, 30]
     in h @ [crc8r_calculate h] @ d @ [crc8r_calculate d])"

lemma sample_reply_length: "reply_length sample_reply = 3"
  by (simp add: reply_length_def sample_reply_def Let_def)

lemma sample_reply_good: "reply_result sample_reply 118 = Success" "is_reply_byte (sample_reply ! 2)"
  by (simp_all add: reply_result_def reply_data_def sample_reply_length) (simp_all add: sample_reply_def is_reply_byte_def Let_def)

theorem rmap_reply_extraction_witness:
  "packet_extractReplyPacket sample_reply 118 packet_empty = Some (Success, reply_packet sample_reply packet_empty)"
  using rmap_reply_extraction [of sample_reply 118 packet_empty] sample_reply_good by auto

lemma crc8r_changes:
  assumes "i < length xs" and "b \<noteq> xs ! i"
  shows "crc8r_calculate (xs[i := b]) \<noteq> crc8r_calculate xs"
proof -
  have "xs = take i xs @ xs ! i # drop (Suc i) xs" using assms(1) by (rule id_take_nth_drop)
  moreover have "xs[i := b] = take i xs @ b # drop (Suc i) xs" using assms(1) by (rule upd_conv_take_nth_drop)
  ultimately show ?thesis
    using assms(2) c8r.one_byte_error [of "take i xs" "xs ! i" "drop (Suc i) xs" _ b]
    unfolding crc8r_calculate_def crc8r_getValue_def by metis
qed

text \<open>
  C9. A corrupted byte never goes unnoticed: whichever byte of a good reply is changed, and to
  whatever value, the packet is not taken for a good reply.\<close>

theorem rmap_corrupt_reply_refused:
  assumes "reply_result data la = Success" and "is_reply_byte (data ! 2)"
    and "i < length data" and "b \<noteq> data ! i"
    and "packet_extractReplyPacket (data[i := b]) la p = Some (r, p')" and "packet_isReply p'"
  shows "r \<noteq> Success"
proof
  let ?d = "data[i := b]"
  assume "r = Success"
  with assms(5) extractReplyPacket_result [of ?d la p]
  have good: "reply_result ?d la = Success" and p': "p' = reply_packet ?d p" by auto
  with assms(6) have reply: "is_reply_byte (?d ! 2)"
    by (auto simp: packet_isReply_bits reply_packet_def Let_def split: if_splits)
  show False
  proof (cases "bit (data ! 2) 5")
    case True
    with assms(1,2) have len: "length data = 8" and crc: "crc8r_calculate (take 7 data) = data ! 7"
      by (auto simp: reply_result_def split: if_splits)
    with good reply have crc': "crc8r_calculate (take 7 ?d) = ?d ! 7"
      by (auto simp: reply_result_def split: if_splits)
    show False
    proof (cases "i < 7")
      case True
      then show False using crc crc' assms(3,4) crc8r_changes [of i "take 7 data" b]
        by (simp add: take_update_swap)
    next
      case False
      with len assms(3) have "i = 7" by linarith
      then show False using crc crc' assms(3,4) by simp
    qed
  next
    case False
    with assms(1,2) have crc: "crc8r_calculate (take 11 data) = data ! 11"
      and size: "unat (reply_length data) + 13 = length data"
      and dcrc: "crc8r_calculate (reply_data data) = data ! (length data - 1)"
      by (auto simp: reply_result_def split: if_splits)
    with good reply have crc': "crc8r_calculate (take 11 ?d) = ?d ! 11"
      and size': "unat (reply_length ?d) + 13 = length data"
      and dcrc': "crc8r_calculate (reply_data ?d) = ?d ! (length data - 1)"
      by (auto simp: reply_result_def split: if_splits)
    from size size' have same: "reply_length ?d = reply_length data" by (simp add: word_unat_eq_iff)
    consider "i < 11" | "i = 11" | "12 \<le> i" "i < length data - 1" | "i = length data - 1" using assms(3) by linarith
    then show False
    proof cases
      case 1
      then show False using crc crc' size assms(4) crc8r_changes [of i "take 11 data" b]
        by (simp add: take_update_swap)
    next
      case 2
      then show False using crc crc' assms(3,4) by simp
    next
      case 3
      have "reply_data ?d = (reply_data data)[i - 12 := b]"
        using 3(1) by (simp add: reply_data_def same drop_update_swap take_update_swap)
      moreover have "i - 12 < length (reply_data data)" "b \<noteq> reply_data data ! (i - 12)"
        using 3 size assms(4) by (auto simp: reply_data_def)
      ultimately show False using dcrc dcrc' 3 crc8r_changes [of "i - 12" "reply_data data" b] by simp
    next
      case 4
      have "reply_data ?d = reply_data data"
        unfolding reply_data_def same using 4 size by (simp add: take_update_cancel drop_update_swap)
      then show False using dcrc dcrc' assms(3,4) 4 by simp
    qed
  qed
qed

theorem rmap_corrupt_reply_refused_witness:
  "\<exists>r p'. packet_extractReplyPacket (sample_reply[13 := 21]) 118 packet_empty = Some (r, p') \<and>
     packet_isReply p' \<and> r \<noteq> Success"
proof -
  have 2: "sample_reply[13 := 21] ! 2 = sample_reply ! 2" by simp
  have len: "reply_length (sample_reply[13 := 21]) = 3" by (simp add: reply_length_def sample_reply_def Let_def)
  have "\<exists>r p'. packet_extractReplyPacket (sample_reply[13 := 21]) 118 packet_empty = Some (r, p') \<and> packet_isReply p'"
    unfolding packet_extractReplyPacket_def
    by (simp add: reply_simps sample_reply_def Let_def is_reply_byte_def extract_read_reply_def)
  then obtain r p' where e: "packet_extractReplyPacket (sample_reply[13 := 21]) 118 packet_empty = Some (r, p')"
    "packet_isReply p'" by blast
  from rmap_corrupt_reply_refused [OF sample_reply_good _ _ e]
  have "r \<noteq> Success" by (simp add: sample_reply_def Let_def)
  with e show ?thesis by blast
qed

end
