(* ===== verification/Rmap_Initiator.thy ===== *)
theory Rmap_Initiator
  imports Rmap_Packet Time_Core
begin

text \<open>
  The initiator of the remote memory access protocol (modules/comm/src/outpost/comm/rmap/
  rmap_initiator and rmap_transaction): up to ten transactions at once, each with a command, and a
  receiver that brings replies to the transactions that wait for them.

  What runs under \<open>mOperationLock\<close> is one function on the state of the initiator. The calls \<open>write\<close>
  and \<open>read\<close> are cut where they give the lock away or wait; the pieces are composed to the whole
  calls, with what other threads do in between as an argument, and later to the steps of a system of
  any number of threads. The SpaceWire driver is outside: whether it accepts a packet, and which
  packets arrive, are arguments.
\<close>

subsection \<open>Transactions\<close>

datatype transaction_state = notInitiated | reserved | replyReceived

text \<open>The semaphore \<open>mReplyLock\<close> is released or not; the message is the bytes of its buffer.\<close>

record transaction =
  trTarget :: u8
  trInitiator :: u8
  trId :: u16
  trTimeout :: duration
  trState :: transaction_state
  trBlocking :: bool
  trReply :: rmap_packet
  trCommand :: rmap_packet
  trReleased :: bool
  trBuffer :: "u8 list option"

definition transaction_new :: transaction where
  "transaction_new = \<lparr>trTarget = 0, trInitiator = 0, trId = 0, trTimeout = dur_zero, trState = notInitiated,
     trBlocking = False, trReply = packet_empty, trCommand = packet_empty, trReleased = True, trBuffer = None\<rparr>"

definition transaction_reset :: "transaction \<Rightarrow> transaction" where
  "transaction_reset t = t\<lparr>trTarget := 0, trInitiator := 0, trId := 0, trTimeout := dur_zero,
     trState := notInitiated, trBlocking := False, trReply := packet_reset (trReply t),
     trCommand := packet_reset (trCommand t), trBuffer := None\<rparr>"

definition transaction_setReplyPacket :: "rmap_packet \<Rightarrow> transaction \<Rightarrow> transaction" where
  "transaction_setReplyPacket p t = t\<lparr>trReply := packet_assign (trReply t) p\<rparr>"

definition transaction_setBuffer :: "u8 list \<Rightarrow> transaction \<Rightarrow> transaction" where
  "transaction_setBuffer rx t = t\<lparr>trBuffer := Some rx\<rparr>"

definition transaction_setState :: "transaction_state \<Rightarrow> transaction \<Rightarrow> transaction" where
  "transaction_setState st t = t\<lparr>trState := st\<rparr>"

text \<open>
  The caller of \<open>blockTransaction\<close> never looks at its answer: afterwards the semaphore is taken,
  either by this call or, if it timed out, by the one before.
\<close>

definition transaction_block :: "transaction \<Rightarrow> transaction" where
  "transaction_block t = t\<lparr>trReleased := False\<rparr>"

definition transaction_release :: "transaction \<Rightarrow> transaction" where
  "transaction_release t = t\<lparr>trReleased := True\<rparr>"

subsection \<open>The list of transactions\<close>

definition maxConcurrentTransactions :: nat where "maxConcurrentTransactions = 10"

text \<open>The position of the first transaction that passes a test: the loops of \<open>TransactionsList\<close>.\<close>

fun tl_first :: "(transaction \<Rightarrow> bool) \<Rightarrow> transaction list \<Rightarrow> nat option" where
  "tl_first test [] = None"
| "tl_first test (t # ts) = (if test t then Some 0 else map_option Suc (tl_first test ts))"

fun tl_active_loop :: "transaction list \<Rightarrow> u8 \<Rightarrow> u8" where
  "tl_active_loop [] active = active"
| "tl_active_loop (t # ts) active = tl_active_loop ts (if trState t \<noteq> notInitiated then active + 1 else active)"

definition tl_getNumberOfActiveTransactions :: "transaction list \<Rightarrow> u8" where
  "tl_getNumberOfActiveTransactions ts = tl_active_loop ts 0"

definition tl_removeTransaction :: "u16 \<Rightarrow> transaction list \<Rightarrow> transaction list" where
  "tl_removeTransaction tid ts =
     (case tl_first (\<lambda>t. trId t = tid) ts of None \<Rightarrow> ts | Some i \<Rightarrow> ts[i := transaction_reset (ts ! i)])"

definition tl_getTransaction :: "u16 \<Rightarrow> transaction list \<Rightarrow> nat option" where
  "tl_getTransaction tid ts = tl_first (\<lambda>t. trId t = tid) ts"

definition tl_isTransactionIdUsed :: "u16 \<Rightarrow> transaction list \<Rightarrow> bool" where
  "tl_isTransactionIdUsed tid ts \<longleftrightarrow> tl_first (\<lambda>t. trId t = tid) ts \<noteq> None"

definition tl_getFreeTransaction :: "transaction list \<Rightarrow> transaction list \<times> nat option" where
  "tl_getFreeTransaction ts =
     (case tl_first (\<lambda>t. trState t = notInitiated) ts of
        None \<Rightarrow> (ts, None)
      | Some i \<Rightarrow> (ts[i := transaction_setState reserved (ts ! i)], Some i))"

subsection \<open>The initiator\<close>

record error_counters =
  ecUnknownTransactionID :: size_t
  ecPackageCrcError :: size_t
  ecIncorrectOperation :: size_t
  ecInvalidSize :: size_t
  ecOperationFailed :: size_t
  ecSpacewireFailure :: size_t

definition counters_new :: error_counters where
  "counters_new = \<lparr>ecUnknownTransactionID = 0, ecPackageCrcError = 0, ecIncorrectOperation = 0,
     ecInvalidSize = 0, ecOperationFailed = 0, ecSpacewireFailure = 0\<rparr>"

definition bufferSize :: nat where "bufferSize = 1024"
definition writeCommandOverhead :: nat where "writeCommandOverhead = 17"
definition maxCommandLength :: nat where
  "maxCommandLength = writeCommandOverhead + (2 * maxAddressLength) + bufferSize"

record initiator =
  inAddress :: u8
  inStopped :: bool
  inTransactionId :: u16
  inTransactions :: "transaction list"
  inCounters :: error_counters
  inSendBuffer :: "u8 list"

text \<open>The send buffer is not initialised (\<open>junk\<close>).\<close>

definition initiator_new :: "u8 list \<Rightarrow> u8 \<Rightarrow> initiator" where
  "initiator_new junk la = \<lparr>inAddress = la, inStopped = True, inTransactionId = 0,
     inTransactions = replicate maxConcurrentTransactions transaction_new, inCounters = counters_new,
     inSendBuffer = junk\<rparr>"

definition in_resetErrorCounters :: "initiator \<Rightarrow> initiator" where
  "in_resetErrorCounters s = s\<lparr>inCounters := counters_new\<rparr>"

definition in_stop :: "initiator \<Rightarrow> initiator" where
  "in_stop s = (if inStopped s = False then s\<lparr>inStopped := True\<rparr> else s)"

definition maxTransactionId :: u16 where "maxTransactionId = 65535"

text \<open>The search of \<open>getNextAvailableTransactionID\<close>; \<open>None\<close> when it is back at the last id.\<close>

function next_id_loop :: "transaction list \<Rightarrow> u16 \<Rightarrow> u16 \<Rightarrow> u16 option" where
  "next_id_loop ts latest i =
     (if i = latest then None
      else if \<not> tl_isTransactionIdUsed i ts then Some i
      else next_id_loop ts latest (if i \<ge> maxTransactionId then 0 else i + 1))"
  by pat_completeness auto

lemma next_id_step: "(if i \<ge> maxTransactionId then 0 else i + 1) = i + 1"
proof (cases "i \<ge> maxTransactionId")
  case True
  then have "65535 \<le> unat i" by (simp add: maxTransactionId_def word_le_nat_alt)
  moreover have "unat i < 65536" using unsigned_less [of i] by simp
  ultimately have "unat i = unat (65535 :: u16)" by simp
  then have "i = 65535" by (simp only: word_unat_eq_iff)
  with True show ?thesis by simp
qed simp

lemma distance_less: "i \<noteq> latest \<Longrightarrow> unat (latest - (i + 1) :: u16) < unat (latest - i)"
proof -
  assume "i \<noteq> latest"
  then have "latest - i \<noteq> 0" by simp
  then have "unat (latest - i - 1) < unat (latest - i)" by (rule measure_unat)
  then show ?thesis by (simp add: diff_diff_eq)
qed

termination next_id_loop
  by (relation "measure (\<lambda>(ts, latest, i). unat (latest - i))") (simp_all add: next_id_step distance_less)

declare next_id_loop.simps [simp del]

definition in_getNextAvailableTransactionID :: "initiator \<Rightarrow> initiator \<times> u16" where
  "in_getNextAvailableTransactionID s =
     (let i = (if inTransactionId s < maxTransactionId then inTransactionId s + 1 else 0);
          s = (case next_id_loop (inTransactions s) (inTransactionId s) i of
                 None \<Rightarrow> s | Some i \<Rightarrow> s\<lparr>inTransactionId := i\<rparr>)
      in (s, inTransactionId s))"

subsection \<open>The pieces of a call\<close>

record rmap_options =
  opIncrement :: bool
  opVerify :: bool
  opReply :: bool

datatype result_code = unknown | timed_out | invalidReply | executionFailed | noFreeTransactions |
  invalidParameters | sendFailed | replyTooShort | lockingError | success

record rmap_result =
  rrResult :: result_code
  rrErrorCode :: u8
  rrReadbytes :: u32

definition result_new :: rmap_result where
  "result_new = \<lparr>rrResult = unknown, rrErrorCode = status_unknown, rrReadbytes = 0\<rparr>"

definition result_code_only :: "result_code \<Rightarrow> rmap_result" where
  "result_code_only c = result_new\<lparr>rrResult := c\<rparr>"

definition in_update :: "nat \<Rightarrow> (transaction \<Rightarrow> transaction) \<Rightarrow> initiator \<Rightarrow> initiator option" where
  "in_update i f s = do {
     t \<leftarrow> aread (inTransactions s) i; ts \<leftarrow> awrite (inTransactions s) i (f t); Some (s\<lparr>inTransactions := ts\<rparr>) }"

text \<open>The part under the lock: a free transaction gets a number. \<open>locked\<close> is the answer of \<open>acquire\<close>.\<close>

definition in_begin :: "bool \<Rightarrow> initiator \<Rightarrow> (initiator \<times> (result_code + nat)) option" where
  "in_begin locked s =
     (if \<not> locked then Some (s, Inl lockingError)
      else case tl_getFreeTransaction (inTransactions s) of
        (ts, None) \<Rightarrow> Some (s\<lparr>inTransactions := ts\<rparr>, Inl noFreeTransactions)
      | (ts, Some i) \<Rightarrow> do {
          let (s, tid) = in_getNextAvailableTransactionID (s\<lparr>inTransactions := ts\<rparr>);
          s \<leftarrow> in_update i (\<lambda>t. t\<lparr>trId := tid\<rparr>) s;
          Some (s, Inr i) })"

definition write_prepare ::
    "u8 \<Rightarrow> rmap_node \<Rightarrow> rmap_options \<Rightarrow> u32 \<Rightarrow> u8 \<Rightarrow> u8 list \<Rightarrow> duration \<Rightarrow> transaction \<Rightarrow> transaction option" where
  "write_prepare la node options memoryAddress extended data timeout t = do {
     let cmd = packet_setInitiatorLogicalAddress la (trCommand t);
     let cmd = packet_setWrite cmd;
     let cmd = packet_setCommand cmd;
     let cmd = packet_setIncrementFlag (opIncrement options) cmd;
     let cmd = packet_setVerifyFlag (opVerify options) cmd;
     let cmd = packet_setReplyFlag (opReply options) cmd;
     let t = (if opReply options then transaction_block (t\<lparr>trBlocking := True\<rparr>) else t\<lparr>trBlocking := False\<rparr>);
     let cmd = packet_setExtendedAddress extended cmd;
     let cmd = packet_setAddress memoryAddress cmd;
     let cmd = packet_setData data cmd;
     cmd \<leftarrow> packet_setTargetInformation node cmd;
     Some (t\<lparr>trCommand := cmd, trTimeout := timeout\<rparr>) }"

definition read_prepare ::
    "u8 \<Rightarrow> rmap_node \<Rightarrow> rmap_options \<Rightarrow> u32 \<Rightarrow> u8 \<Rightarrow> nat \<Rightarrow> duration \<Rightarrow> transaction \<Rightarrow> transaction option" where
  "read_prepare la node options memoryAddress extended n timeout t = do {
     let t = transaction_block (t\<lparr>trBlocking := True\<rparr>);
     let cmd = packet_setInitiatorLogicalAddress la (trCommand t);
     let cmd = packet_setRead cmd;
     let cmd = packet_setCommand cmd;
     let cmd = packet_setIncrementFlag (opIncrement options) cmd;
     let cmd = packet_setVerifyFlag (opVerify options) cmd;
     let cmd = packet_setReplyFlag True cmd;
     let cmd = packet_setExtendedAddress extended cmd;
     let cmd = packet_setAddress memoryAddress cmd;
     let cmd = packet_setDataLength (of_nat n) cmd;
     cmd \<leftarrow> packet_setTargetInformation node cmd;
     Some (t\<lparr>trCommand := cmd, trInitiator := rpInitiator cmd, trTimeout := timeout\<rparr>) }"

text \<open>
  \<open>sendPacket\<close> runs without the lock, so its halves are apart: the packet is built in the buffer
  that all threads share, and what is in the buffer is given to the driver.
\<close>

definition send_construct :: "bool \<Rightarrow> nat \<Rightarrow> initiator \<Rightarrow> (initiator \<times> slice \<times> bool) option" where
  "send_construct big i s = do {
     t \<leftarrow> aread (inTransactions s) i;
     let cmd = packet_setTransactionID (trId t) (trCommand t);
     let txBuffer = \<lparr>mData = Some 0, mNumberOfElements = length (inSendBuffer s)\<rparr>;
     (m, txBuffer, cmd, ok) \<leftarrow> packet_constructPacket big (inSendBuffer s) txBuffer cmd;
     s \<leftarrow> in_update i (\<lambda>t. t\<lparr>trCommand := cmd\<rparr>) (s\<lparr>inSendBuffer := m\<rparr>);
     Some (s, txBuffer, ok) }"

definition send_transmit :: "(u8 list \<Rightarrow> duration \<Rightarrow> bool) \<Rightarrow> nat \<Rightarrow> slice \<Rightarrow> bool \<Rightarrow> initiator \<Rightarrow> bool option" where
  "send_transmit spw i txBuffer ok s =
     (if ok then do {
        t \<leftarrow> aread (inTransactions s) i;
        Some (spw (slice_view (inSendBuffer s) txBuffer) (trTimeout t)) }
      else Some False)"

definition in_sendPacket :: "bool \<Rightarrow> (u8 list \<Rightarrow> duration \<Rightarrow> bool) \<Rightarrow> nat \<Rightarrow> initiator \<Rightarrow> (initiator \<times> bool) option" where
  "in_sendPacket big spw i s = do {
     (s, txBuffer, ok) \<leftarrow> send_construct big i s;
     r \<leftarrow> send_transmit spw i txBuffer ok s;
     Some (s, r) }"

definition in_spacewireFailure :: "initiator \<Rightarrow> initiator" where
  "in_spacewireFailure s =
     s\<lparr>inCounters := (inCounters s)\<lparr>ecSpacewireFailure := szadd (ecSpacewireFailure (inCounters s)) 1\<rparr>\<rparr>"

text \<open>The end of \<open>write\<close> before the transaction is given back.\<close>

definition write_collect :: "rmap_options \<Rightarrow> bool \<Rightarrow> nat \<Rightarrow> initiator \<Rightarrow> (initiator \<times> rmap_result) option" where
  "write_collect options sent i s =
     (if sent then
        if opReply options then do {
          t \<leftarrow> aread (inTransactions s) i;
          case trState t of
            reserved \<Rightarrow> Some (s, result_code_only timed_out)
          | replyReceived \<Rightarrow>
              let result = result_new\<lparr>rrErrorCode := rpStatus (trReply t)\<rparr> in
              if rpStatus (trReply t) = 0 then Some (s, result\<lparr>rrResult := success\<rparr>)
              else Some (s\<lparr>inCounters := (inCounters s)\<lparr>ecPackageCrcError := szadd (ecPackageCrcError (inCounters s)) 1\<rparr>\<rparr>,
                         result\<lparr>rrResult := executionFailed\<rparr>)
          | notInitiated \<Rightarrow> Some (s, result_new) }
        else Some (s, result_code_only success)
      else Some (in_spacewireFailure s, result_code_only sendFailed))"

text \<open>\<open>memcpy\<close> of the data of the reply into the buffer of the caller.\<close>

definition copy_reply :: "rmap_packet \<Rightarrow> u8 list \<Rightarrow> u8 list option" where
  "copy_reply rply buffer =
     (if unat (rpDataLength rply) \<le> length (rpData rply)
      then acopy buffer 0 (take (unat (rpDataLength rply)) (rpData rply)) else None)"

definition read_collect ::
    "bool \<Rightarrow> nat \<Rightarrow> u8 list \<Rightarrow> initiator \<Rightarrow> (initiator \<times> rmap_result \<times> u8 list) option" where
  "read_collect sent i buffer s =
     (if sent then do {
        t \<leftarrow> aread (inTransactions s) i;
        if trState t = replyReceived then
          let rply = trReply t; result = result_new\<lparr>rrErrorCode := rpStatus rply\<rparr> in
          if rpStatus rply \<noteq> 0
          then Some (s\<lparr>inCounters := (inCounters s)\<lparr>ecOperationFailed := szadd (ecOperationFailed (inCounters s)) 1\<rparr>\<rparr>,
                     result\<lparr>rrResult := executionFailed\<rparr>, buffer)
          else
            let result = result\<lparr>rrReadbytes := rpDataLength rply\<rparr> in
            if length buffer < unat (rpDataLength rply)
            then Some (s\<lparr>inCounters := (inCounters s)\<lparr>ecIncorrectOperation := szadd (ecIncorrectOperation (inCounters s)) 1\<rparr>\<rparr>,
                       result\<lparr>rrResult := invalidReply\<rparr>, buffer)
            else if length buffer > unat (rpDataLength rply)
            then do { buffer \<leftarrow> copy_reply rply buffer; Some (s, result\<lparr>rrResult := replyTooShort\<rparr>, buffer) }
            else do { buffer \<leftarrow> copy_reply rply buffer; Some (s, result\<lparr>rrResult := success\<rparr>, buffer) }
        else Some (s, result_code_only timed_out, buffer) }
      else Some (in_spacewireFailure s, result_code_only sendFailed, buffer))"

definition in_end :: "nat \<Rightarrow> initiator \<Rightarrow> initiator option" where
  "in_end i s = do {
     t \<leftarrow> aread (inTransactions s) i;
     Some (s\<lparr>inTransactions := tl_removeTransaction (trId t) (inTransactions s)\<rparr>) }"

subsection \<open>The whole calls\<close>

text \<open>
  \<open>sleeping\<close> and \<open>waiting\<close> are what other threads do to the initiator while the caller sleeps before
  it sends and while it waits for the reply.
\<close>

definition in_write ::
    "bool \<Rightarrow> (u8 list \<Rightarrow> duration \<Rightarrow> bool) \<Rightarrow> bool \<Rightarrow> (initiator \<Rightarrow> initiator option) \<Rightarrow> (initiator \<Rightarrow> initiator option) \<Rightarrow>
     rmap_node \<Rightarrow> rmap_options \<Rightarrow> u32 \<Rightarrow> u8 \<Rightarrow> u8 list \<Rightarrow> duration \<Rightarrow> initiator \<Rightarrow> (initiator \<times> rmap_result) option" where
  "in_write big spw locked sleeping waiting node options memoryAddress extended data timeout s =
     (if length data = 0 then Some (s, result_code_only invalidParameters)
      else do {
        (s, r) \<leftarrow> in_begin locked s;
        case r of
          Inl code \<Rightarrow> Some (s, result_code_only code)
        | Inr i \<Rightarrow> do {
            t \<leftarrow> aread (inTransactions s) i;
            t \<leftarrow> write_prepare (inAddress s) node options memoryAddress extended data timeout t;
            s \<leftarrow> in_update i (\<lambda>u. t) s;
            s \<leftarrow> sleeping s;
            (s, sent) \<leftarrow> in_sendPacket big spw i s;
            s \<leftarrow> (if sent \<and> opReply options then do { s \<leftarrow> waiting s; in_update i transaction_block s } else Some s);
            (s, result) \<leftarrow> write_collect options sent i s;
            s \<leftarrow> in_end i s;
            Some (s, result) } })"

definition in_read ::
    "bool \<Rightarrow> (u8 list \<Rightarrow> duration \<Rightarrow> bool) \<Rightarrow> bool \<Rightarrow> (initiator \<Rightarrow> initiator option) \<Rightarrow> (initiator \<Rightarrow> initiator option) \<Rightarrow>
     rmap_node \<Rightarrow> rmap_options \<Rightarrow> u32 \<Rightarrow> u8 \<Rightarrow> u8 list \<Rightarrow> duration \<Rightarrow> initiator \<Rightarrow>
     (initiator \<times> rmap_result \<times> u8 list) option" where
  "in_read big spw locked sleeping waiting node options memoryAddress extended buffer timeout s =
     (if length buffer > bufferSize then Some (s, result_code_only invalidParameters, buffer)
      else if length buffer = 0 then Some (s, result_code_only invalidParameters, buffer)
      else do {
        (s, r) \<leftarrow> in_begin locked s;
        case r of
          Inl code \<Rightarrow> Some (s, result_code_only code, buffer)
        | Inr i \<Rightarrow> do {
            t \<leftarrow> aread (inTransactions s) i;
            t \<leftarrow> read_prepare (inAddress s) node options memoryAddress extended (length buffer) timeout t;
            s \<leftarrow> in_update i (\<lambda>u. t) s;
            s \<leftarrow> sleeping s;
            (s, sent) \<leftarrow> in_sendPacket big spw i s;
            s \<leftarrow> (if sent then do { s \<leftarrow> waiting s; in_update i transaction_block s } else Some s);
            (s, result, buffer) \<leftarrow> read_collect sent i buffer s;
            s \<leftarrow> in_end i s;
            Some (s, result, buffer) } })"

text \<open>The calls with the name of a node. \<open>targets\<close> is \<open>None\<close> for a null pointer.\<close>

definition in_write_named ::
    "bool \<Rightarrow> (u8 list \<Rightarrow> duration \<Rightarrow> bool) \<Rightarrow> bool \<Rightarrow> (initiator \<Rightarrow> initiator option) \<Rightarrow> (initiator \<Rightarrow> initiator option) \<Rightarrow>
     rmap_node list \<Rightarrow> targets option \<Rightarrow> string option \<Rightarrow> rmap_options \<Rightarrow> u32 \<Rightarrow> u8 \<Rightarrow> u8 list \<Rightarrow> duration \<Rightarrow> initiator \<Rightarrow>
     (initiator \<times> rmap_result) option" where
  "in_write_named big spw locked sleeping waiting heap tgs name options memoryAddress extended data timeout s =
     (case tgs of
        None \<Rightarrow> Some (s, result_code_only invalidParameters)
      | Some tg \<Rightarrow> do {
          target \<leftarrow> targets_getByName heap name tg;
          case target of
            None \<Rightarrow> Some (s, result_code_only invalidParameters)
          | Some p \<Rightarrow>
              if length data \<noteq> 0 then do {
                node \<leftarrow> aread heap p;
                in_write big spw locked sleeping waiting node options memoryAddress extended data timeout s }
              else Some (s, result_code_only invalidParameters) })"

definition in_read_named ::
    "bool \<Rightarrow> (u8 list \<Rightarrow> duration \<Rightarrow> bool) \<Rightarrow> bool \<Rightarrow> (initiator \<Rightarrow> initiator option) \<Rightarrow> (initiator \<Rightarrow> initiator option) \<Rightarrow>
     rmap_node list \<Rightarrow> targets option \<Rightarrow> string option \<Rightarrow> rmap_options \<Rightarrow> u32 \<Rightarrow> u8 \<Rightarrow> u8 list \<Rightarrow> duration \<Rightarrow> initiator \<Rightarrow>
     (initiator \<times> rmap_result \<times> u8 list) option" where
  "in_read_named big spw locked sleeping waiting heap tgs name options memoryAddress extended buffer timeout s =
     (case tgs of
        None \<Rightarrow> Some (s, result_code_only invalidParameters, buffer)
      | Some tg \<Rightarrow> do {
          target \<leftarrow> targets_getByName heap name tg;
          case target of
            None \<Rightarrow> Some (s, result_code_only invalidParameters, buffer)
          | Some p \<Rightarrow>
              if length buffer \<noteq> 0 then do {
                node \<leftarrow> aread heap p;
                in_read big spw locked sleeping waiting node options memoryAddress extended buffer timeout s }
              else Some (s, result_code_only invalidParameters, buffer) })"

subsection \<open>The receiver\<close>

text \<open>\<open>rx\<close> is what the channel delivers before \<open>receiveTimeout\<close>, if anything.\<close>

definition in_receivePacket :: "u8 list option \<Rightarrow> rmap_packet \<Rightarrow> initiator \<Rightarrow> (initiator \<times> rmap_packet \<times> bool) option" where
  "in_receivePacket rx packet s =
     (case rx of
        None \<Rightarrow> Some (s, packet, False)
      | Some rxData \<Rightarrow> do {
          (r, packet) \<leftarrow> packet_extractReplyPacket rxData (inAddress s) (packet_reset packet);
          case r of
            Success \<Rightarrow> Some (s, packet, True)
          | IncorrectAddress \<Rightarrow> Some (s, packet, False)
          | CrcError \<Rightarrow> Some (s\<lparr>inCounters := (inCounters s)\<lparr>ecPackageCrcError := szadd (ecPackageCrcError (inCounters s)) 1\<rparr>\<rparr>,
                              packet, False)
          | Invalid \<Rightarrow> Some (s\<lparr>inCounters := (inCounters s)\<lparr>ecInvalidSize := szadd (ecInvalidSize (inCounters s)) 1\<rparr>\<rparr>,
                             packet, False) })"

definition in_resolveTransaction :: "rmap_packet \<Rightarrow> initiator \<Rightarrow> nat option" where
  "in_resolveTransaction packet s = tl_getTransaction (rpTransaction packet) (inTransactions s)"

definition in_handleReplyPacket :: "rmap_packet \<Rightarrow> u8 list \<Rightarrow> initiator \<Rightarrow> initiator option" where
  "in_handleReplyPacket packet rx s =
     (case in_resolveTransaction packet s of
        None \<Rightarrow> Some (s\<lparr>inCounters := (inCounters s)\<lparr>ecUnknownTransactionID := szadd (ecUnknownTransactionID (inCounters s)) 1\<rparr>\<rparr>)
      | Some i \<Rightarrow> do {
          t \<leftarrow> aread (inTransactions s) i;
          if rpInstruction (trCommand t) AND 0x3c \<noteq> rpInstruction packet AND 0x3c
          then Some (s\<lparr>inCounters := (inCounters s)\<lparr>ecIncorrectOperation := szadd (ecIncorrectOperation (inCounters s)) 1\<rparr>\<rparr>)
          else do {
            let t = transaction_setReplyPacket packet t;
            let t = transaction_setBuffer rx t;
            let t = transaction_setState replyReceived t;
            let t = (if trBlocking t then transaction_release t else t);
            in_update i (\<lambda>u. t) s } })"

definition in_doSingleStep :: "u8 list option \<Rightarrow> initiator \<Rightarrow> initiator option" where
  "in_doSingleStep rx s = do {
     (s, packet, received) \<leftarrow> in_receivePacket rx packet_empty s;
     if received \<and> packet_isReply packet then in_handleReplyPacket packet (the rx) s else Some s }"

end
