(* ===== verification/Rmap_System.thy ===== *)
theory Rmap_System
  imports Rmap_Initiator Interfaces
begin

text \<open>
  Several threads that use one initiator. The theory shows that transactions never get mixed up: the
  threads hold different transactions with different numbers, a reply is stored only in the
  transaction that has its number, and only after its checksums were found right.
\<close>

subsection \<open>Finding transactions and numbers\<close>

lemma tl_first_Some:
  "tl_first test ts = Some i \<Longrightarrow> i < length ts \<and> test (ts ! i)"
  by (induction ts arbitrary: i) (auto split: if_splits)

lemma tl_first_None: "tl_first test ts = None \<longleftrightarrow> (\<forall>t \<in> set ts. \<not> test t)"
  by (induction ts) auto

lemma tl_first_only:
  "i < length ts \<Longrightarrow> test (ts ! i) \<Longrightarrow> (\<And>j. j < length ts \<Longrightarrow> test (ts ! j) \<Longrightarrow> j = i) \<Longrightarrow> tl_first test ts = Some i"
  by (metis not_None_eq nth_mem tl_first_None tl_first_Some)

lemma tl_isTransactionIdUsed_iff: "tl_isTransactionIdUsed tid ts \<longleftrightarrow> tid \<in> trId ` set ts"
  by (auto simp: tl_isTransactionIdUsed_def tl_first_None)

lemma next_id_loop_fresh: "next_id_loop ts latest i = Some k \<Longrightarrow> \<not> tl_isTransactionIdUsed k ts"
  by (induction ts latest i rule: next_id_loop.induct) (subst (asm) (2) next_id_loop.simps, auto split: if_splits)

lemma next_id_loop_all_used:
  "next_id_loop ts latest i = None \<Longrightarrow> unat (k - i) < unat (latest - i) \<Longrightarrow> tl_isTransactionIdUsed k ts"
proof (induction ts latest i rule: next_id_loop.induct)
  case (1 ts latest i)
  from "1.prems"(2) have ne: "i \<noteq> latest" by auto
  with "1.prems"(1) have used: "tl_isTransactionIdUsed i ts" and rest: "next_id_loop ts latest (i + 1) = None"
    by (auto simp: next_id_loop.simps [of ts latest i] next_id_step split: if_splits)
  show ?case
  proof (cases "k = i")
    case False
    have "unat (k - (i + 1)) = unat (k - i) - 1" "unat (latest - (i + 1)) = unat (latest - i) - 1"
      using False ne unat_minus_one [of "k - i"] unat_minus_one [of "latest - i"] by (simp_all add: diff_diff_eq)
    moreover have "unat (k - i) \<noteq> 0" using False by (simp add: unat_eq_zero)
    ultimately have "unat (k - (i + 1)) < unat (latest - (i + 1))" using "1.prems"(2) by linarith
    then show ?thesis using "1.IH" [OF ne] used rest by (simp add: next_id_step)
  qed (simp add: used)
qed

lemma next_id_found:
  assumes "length ts < 65535"
  shows "\<exists>k. next_id_loop ts latest (latest + 1) = Some k \<and> k \<notin> trId ` set ts"
proof (cases "next_id_loop ts latest (latest + 1)")
  case None
  have "k \<in> insert latest (trId ` set ts)" for k
  proof (cases "k = latest")
    case False
    have "latest - (latest + 1) = - 1" by simp
    moreover have "k - (latest + 1) \<noteq> - 1" using False by (simp add: algebra_simps)
    then have "unat (k - (latest + 1)) \<noteq> unat (- 1 :: u16)" by (metis word_unat_eq_iff)
    moreover have "unat (k - (latest + 1)) < 2 ^ 16" using unsigned_less [of "k - (latest + 1)"] by simp
    moreover have "unat (- 1 :: u16) = 2 ^ 16 - 1"
      by (simp add: unsigned_minus_1_eq_mask mask_eq_exp_minus_1)
    ultimately have "unat (k - (latest + 1)) < unat (latest - (latest + 1))" by simp
    from next_id_loop_all_used [OF None this] show ?thesis by (simp add: tl_isTransactionIdUsed_iff)
  qed simp
  then have "(UNIV :: u16 set) = insert latest (trId ` set ts)" by blast
  then have "CARD(u16) \<le> Suc (card (trId ` set ts))" by (metis card_insert_le_m1 card_insert_if finite_imageI finite_set le_SucI order_refl)
  moreover have "card (trId ` set ts) \<le> length ts" by (meson card_image_le card_length finite_set order_trans)
  moreover have "CARD(u16) = 65536" by (simp add: card_word)
  ultimately show ?thesis using assms by simp
next
  case (Some k)
  with next_id_loop_fresh [OF Some] show ?thesis by (simp add: tl_isTransactionIdUsed_iff)
qed

text \<open>The next number is one that no transaction has.\<close>

lemma getNext_fresh:
  assumes "length (inTransactions s) < 65535"
  shows "\<exists>k. in_getNextAvailableTransactionID s = (s\<lparr>inTransactionId := k\<rparr>, k) \<and> k \<notin> trId ` set (inTransactions s)"
proof -
  have "(if inTransactionId s < maxTransactionId then inTransactionId s + 1 else 0) = inTransactionId s + 1"
    using next_id_step [of "inTransactionId s"] by (simp add: not_le [symmetric] split: if_splits)
  with next_id_found [OF assms, of "inTransactionId s"] show ?thesis
    by (auto simp: in_getNextAvailableTransactionID_def Let_def)
qed

subsection \<open>What always holds of the transactions\<close>

text \<open>A message that is a good reply for the initiator with the address \<open>la\<close>.\<close>

definition accepted :: "u8 \<Rightarrow> u8 list \<Rightarrow> bool" where
  "accepted la rx \<longleftrightarrow> reply_result rx la = Success \<and> is_reply_byte (rx ! 2)"

definition holds_reply :: "u8 \<Rightarrow> u8 list set \<Rightarrow> transaction \<Rightarrow> bool" where
  "holds_reply la R t \<longleftrightarrow> (trState t = replyReceived \<longrightarrow> (\<exists>rx \<in> R. accepted la rx \<and> trBuffer t = Some rx \<and>
     trReply t = reply_packet rx packet_empty \<and> rpTransaction (trReply t) = trId t))"

text \<open>\<open>own\<close> are the positions of the transactions that threads hold.\<close>

definition tl_inv :: "nat set \<Rightarrow> transaction list \<Rightarrow> bool" where
  "tl_inv own ts \<longleftrightarrow> length ts = maxConcurrentTransactions \<and> own \<subseteq> {..<length ts} \<and>
     (\<forall>i \<in> own. trId (ts ! i) \<noteq> 0 \<and> trState (ts ! i) \<noteq> notInitiated) \<and>
     (\<forall>i < length ts. i \<notin> own \<longrightarrow> trId (ts ! i) = 0 \<and> trCommand (ts ! i) = packet_empty) \<and>
     (\<forall>i \<in> own. \<forall>j \<in> own. trId (ts ! i) = trId (ts ! j) \<longrightarrow> i = j)"

definition in_inv :: "u8 \<Rightarrow> u8 list set \<Rightarrow> nat set \<Rightarrow> initiator \<Rightarrow> bool" where
  "in_inv la R own s \<longleftrightarrow> inAddress s = la \<and> length (inSendBuffer s) = maxCommandLength \<and> tl_inv own (inTransactions s) \<and>
     (\<forall>t \<in> set (inTransactions s). holds_reply la R t \<and> packet_inv (trCommand t))"

lemma in_invD:
  assumes "in_inv la R own s"
  shows "inAddress s = la" "length (inSendBuffer s) = maxCommandLength" "length (inTransactions s) = maxConcurrentTransactions"
    "tl_inv own (inTransactions s)" "i \<in> own \<Longrightarrow> i < length (inTransactions s)"
    "i \<in> own \<Longrightarrow> holds_reply la R (inTransactions s ! i)" "i \<in> own \<Longrightarrow> packet_inv (trCommand (inTransactions s ! i))"
    "i \<in> own \<Longrightarrow> trState (inTransactions s ! i) \<noteq> notInitiated"
  using assms by (auto simp: in_inv_def tl_inv_def subset_iff)

lemma initiator_new_inv:
  "length junk = maxCommandLength \<Longrightarrow> in_inv la R {} (initiator_new junk la)"
  by (auto simp: in_inv_def tl_inv_def initiator_new_def transaction_new_def holds_reply_def packet_empty_inv)

lemma in_update_Some: "i < length (inTransactions s) \<Longrightarrow>
    in_update i f s = Some (s\<lparr>inTransactions := (inTransactions s)[i := f (inTransactions s ! i)]\<rparr>)"
  by (simp add: in_update_def mem_simps)

lemma tl_inv_update:
  assumes "tl_inv own ts" and "i \<in> own" and "trId t = trId (ts ! i)" and "trState t \<noteq> notInitiated"
  shows "tl_inv own (ts[i := t])"
  using assms by (auto simp: tl_inv_def nth_list_update subset_iff split: if_splits)

text \<open>A thread changes the transaction that it holds.\<close>

lemma own_update:
  assumes inv: "in_inv la R own s" and i: "i \<in> own"
    and t: "trId t = trId (inTransactions s ! i)" "trState t = trState (inTransactions s ! i)"
      "trReply t = trReply (inTransactions s ! i)" "trBuffer t = trBuffer (inTransactions s ! i)" "packet_inv (trCommand t)"
  shows "in_inv la R own (s\<lparr>inTransactions := (inTransactions s)[i := t]\<rparr>)"
proof -
  have "trState (inTransactions s ! i) \<noteq> notInitiated" using in_invD(8) [OF inv i] .
  then have "tl_inv own ((inTransactions s)[i := t])"
    using tl_inv_update [of own "inTransactions s" i t] in_invD(4) [OF inv] i t by simp
  moreover have "holds_reply la R t" using in_invD(6) [OF inv i] t by (simp add: holds_reply_def)
  ultimately show ?thesis using inv t(5) by (auto simp: in_inv_def dest!: set_update_subset_insert [THEN subsetD])
qed

lemma counters_inv: "in_inv la R own (s\<lparr>inCounters := c\<rparr>) = in_inv la R own s"
  by (simp add: in_inv_def)

lemma id_counter_inv: "in_inv la R own (s\<lparr>inTransactionId := k\<rparr>) = in_inv la R own s"
  by (simp add: in_inv_def)

text \<open>A new transaction: it was free, and its number is fresh.\<close>

lemma in_begin_ok:
  assumes inv: "in_inv la R own s" and "in_begin locked s = Some (s', r)"
  shows "case r of Inl code \<Rightarrow> in_inv la R own s' \<and> (locked \<longrightarrow> (\<forall>i < maxConcurrentTransactions. trState (inTransactions s ! i) \<noteq> notInitiated))
     | Inr i \<Rightarrow> i \<notin> own \<and> i < length (inTransactions s) \<and> in_inv la R (insert i own) s' \<and> trState (inTransactions s ! i) = notInitiated \<and>
         trState (inTransactions s' ! i) = reserved \<and> trCommand (inTransactions s' ! i) = packet_empty \<and>
         (\<forall>j. j \<noteq> i \<longrightarrow> inTransactions s' ! j = inTransactions s ! j) \<and> inSendBuffer s' = inSendBuffer s"
proof (cases "locked \<and> tl_first (\<lambda>t. trState t = notInitiated) (inTransactions s) \<noteq> None")
  case False
  show ?thesis
  proof (cases locked)
    case True
    with False have none: "tl_first (\<lambda>t. trState t = notInitiated) (inTransactions s) = None" by simp
    then have "\<forall>i < maxConcurrentTransactions. trState (inTransactions s ! i) \<noteq> notInitiated"
      using in_invD(3) [OF inv] by (auto simp: tl_first_None)
    then show ?thesis using assms(2) True inv by (auto simp: in_begin_def tl_getFreeTransaction_def none)
  qed (use assms in \<open>auto simp: in_begin_def\<close>)
next
  case True
  then obtain i where f: "tl_first (\<lambda>t. trState t = notInitiated) (inTransactions s) = Some i" and locked by auto
  let ?ts = "inTransactions s"
  have i: "i < length ?ts" "trState (?ts ! i) = notInitiated" using tl_first_Some [OF f] by simp_all
  have tl: "tl_inv own ?ts" using in_invD(4) [OF inv] .
  have new: "i \<notin> own" using tl i by (auto simp: tl_inv_def)
  have old: "trId (?ts ! i) = 0" "trCommand (?ts ! i) = packet_empty" using tl new i by (auto simp: tl_inv_def)
  let ?r = "(?ts ! i)\<lparr>trState := reserved\<rparr>"
  let ?s1 = "s\<lparr>inTransactions := ?ts[i := ?r]\<rparr>"
  obtain k where k: "in_getNextAvailableTransactionID ?s1 = (?s1\<lparr>inTransactionId := k\<rparr>, k)"
    "k \<notin> trId ` set (inTransactions ?s1)"
    using getNext_fresh [of ?s1] in_invD(3) [OF inv] by (auto simp: maxConcurrentTransactions_def)
  have s': "s' = ?s1\<lparr>inTransactionId := k, inTransactions := ?ts[i := ?r\<lparr>trId := k\<rparr>]\<rparr>" and r: "r = Inr i"
    using assms(2) f \<open>locked\<close> k(1) i
    by (simp_all add: in_begin_def tl_getFreeTransaction_def transaction_setState_def in_update_def mem_simps)
  have used: "k \<noteq> trId (?ts[i := ?r] ! j)" if "j < length ?ts" for j
    using k(2) that by (metis (no_types, lifting) imageI initiator.select_convs(4) initiator.surjective
        initiator.update_convs(4) length_list_update nth_mem)
  have fresh: "k \<noteq> trId (?ts ! j)" if "j < length ?ts" for j
    using used [OF that] that i by (cases "j = i") (auto simp: nth_list_update)
  have own_fresh: "k \<noteq> trId (?ts ! j) \<and> trId (?ts ! j) \<noteq> k" if "j \<in> own" for j
    using fresh [of j] in_invD(5) [OF inv that] by auto
  have "k \<noteq> 0" using fresh [OF i(1)] old by simp
  then have "tl_inv (insert i own) (?ts[i := ?r\<lparr>trId := k\<rparr>])"
    using tl i own_fresh new by (auto simp: tl_inv_def nth_list_update subset_iff)
  moreover have "holds_reply la R (?r\<lparr>trId := k\<rparr>)" by (simp add: holds_reply_def)
  moreover have "packet_inv (trCommand (?r\<lparr>trId := k\<rparr>))" by (simp add: old packet_empty_inv)
  ultimately have "in_inv la R (insert i own) s'"
    using inv unfolding s' by (auto simp: in_inv_def dest!: set_update_subset_insert [THEN subsetD])
  with new i old show ?thesis by (simp add: r s')
qed

text \<open>The end of a call gives back exactly its own transaction.\<close>

lemma tl_finds_own:
  assumes inv: "in_inv la R own s" and i: "i \<in> own"
  shows "tl_getTransaction (trId (inTransactions s ! i)) (inTransactions s) = Some i"
  unfolding tl_getTransaction_def
proof (rule tl_first_only)
  let ?ts = "inTransactions s"
  have tl: "tl_inv own ?ts" using in_invD(4) [OF inv] .
  fix j assume j: "j < length ?ts" "trId (?ts ! j) = trId (?ts ! i)"
  have "j \<in> own"
  proof (rule ccontr)
    assume "j \<notin> own"
    with tl j have "trId (?ts ! i) = 0" by (simp add: tl_inv_def)
    with tl i show False by (simp add: tl_inv_def)
  qed
  with tl i j(2) show "j = i" unfolding tl_inv_def by blast
qed (use in_invD(5) [OF inv i] in simp_all)

lemma tl_removes_own:
  assumes inv: "in_inv la R own s" and i: "i \<in> own"
  shows "tl_removeTransaction (trId (inTransactions s ! i)) (inTransactions s) =
    (inTransactions s)[i := transaction_reset (inTransactions s ! i)]"
  using tl_finds_own [OF assms] by (simp add: tl_removeTransaction_def tl_getTransaction_def)

lemma in_end_ok:
  assumes inv: "in_inv la R own s" and i: "i \<in> own"
  shows "\<exists>s'. in_end i s = Some s' \<and> in_inv la R (own - {i}) s' \<and> trState (inTransactions s' ! i) = notInitiated"
proof -
  let ?ts = "inTransactions s"
  have tl: "tl_inv own ?ts" using in_invD(4) [OF inv] .
  have e: "in_end i s = Some (s\<lparr>inTransactions := ?ts[i := transaction_reset (?ts ! i)]\<rparr>)"
    using in_invD(5) [OF inv i] by (simp add: in_end_def tl_removes_own [OF inv i] mem_simps)
  have "tl_inv (own - {i}) (?ts[i := transaction_reset (?ts ! i)])"
    using tl i by (auto simp: tl_inv_def nth_list_update subset_iff transaction_reset_def packet_reset_def split: if_splits)
  moreover have "holds_reply la R (transaction_reset (?ts ! i))" "packet_inv (trCommand (transaction_reset (?ts ! i)))"
    by (simp_all add: holds_reply_def transaction_reset_def packet_reset_def packet_empty_inv)
  ultimately show ?thesis using inv in_invD(5) [OF inv i]
    by (auto simp: e in_inv_def transaction_reset_def dest!: set_update_subset_insert [THEN subsetD])
qed

text \<open>
  The receiver. Whatever arrives, it changes at most one transaction: the one with the number of the
  reply, whose command fits it, and that one then has the reply.
\<close>

definition commands :: "initiator \<Rightarrow> rmap_packet list" where
  "commands s = map trCommand (inTransactions s)"

lemma packet_assign_eq: "packet_assign a b = b"
  by (simp add: packet_assign_def)

lemma in_inv_more: "in_inv la R own s \<Longrightarrow> R \<subseteq> R' \<Longrightarrow> in_inv la R' own s"
  by (fastforce simp: in_inv_def holds_reply_def)

lemma in_handleReply_ok:
  assumes inv: "in_inv la R own s" and rx: "accepted la rx" "rx \<in> R"
  defines "p \<equiv> reply_packet rx packet_empty"
  shows "\<exists>s'. in_handleReplyPacket p rx s = Some s' \<and> in_inv la R own s' \<and> commands s' = commands s"
proof (cases "in_resolveTransaction p s")
  case None
  then show ?thesis using inv by (simp add: in_handleReplyPacket_def counters_inv commands_def)
next
  case (Some i)
  let ?ts = "inTransactions s"
  let ?t = "(?ts ! i)\<lparr>trReply := p, trBuffer := Some rx, trState := replyReceived\<rparr>"
  define u where "u = (if trBlocking ?t then transaction_release ?t else ?t)"
  from Some have i: "i < length ?ts" "trId (?ts ! i) = rpTransaction p"
    using tl_first_Some by (auto simp: in_resolveTransaction_def tl_getTransaction_def)
  have u: "trId u = trId (?ts ! i)" "trCommand u = trCommand (?ts ! i)" "trState u = replyReceived"
      "trReply u = p" "trBuffer u = Some rx"
    by (simp_all add: transaction_release_def u_def)
  have e: "in_handleReplyPacket p rx s =
      (if rpInstruction (trCommand (?ts ! i)) AND 0x3c \<noteq> rpInstruction p AND 0x3c
       then Some (s\<lparr>inCounters := (inCounters s)\<lparr>ecIncorrectOperation := szadd (ecIncorrectOperation (inCounters s)) 1\<rparr>\<rparr>)
       else Some (s\<lparr>inTransactions := ?ts[i := u]\<rparr>))"
    using Some i(1) by (simp add: in_handleReplyPacket_def mem_simps in_update_def transaction_setReplyPacket_def
        transaction_setBuffer_def transaction_setState_def packet_assign_eq u_def Let_def)
  have "tl_inv own (?ts[i := u])"
    using in_invD(4) [OF inv] i u unfolding tl_inv_def by (auto simp: nth_list_update split: if_splits)
  moreover have "holds_reply la R u"
    using rx i u by (auto simp: holds_reply_def p_def)
  moreover have "packet_inv (trCommand u)" using inv i u(2) by (simp add: in_inv_def)
  ultimately have "in_inv la R own (s\<lparr>inTransactions := ?ts[i := u]\<rparr>)"
    using inv by (auto simp: in_inv_def dest!: set_update_subset_insert [THEN subsetD])
  moreover have "map trCommand (?ts[i := u]) = map trCommand ?ts"
    using i(1) u(2) by (simp add: map_update list_update_same_conv)
  ultimately show ?thesis using inv by (simp add: e counters_inv commands_def)
qed

lemma in_doSingleStep_ok:
  assumes inv: "in_inv la R own s"
  shows "\<exists>s'. in_doSingleStep rx s = Some s' \<and> in_inv la (R \<union> set_option rx) own s' \<and> commands s' = commands s"
proof (cases rx)
  case None
  then show ?thesis using inv by (simp add: in_doSingleStep_def in_receivePacket_def)
next
  case (Some data)
  have la: "inAddress s = la" using inv by (simp add: in_inv_def)
  obtain p' where x: "packet_extractReplyPacket data la (packet_reset packet_empty) = Some (reply_result data la, p')"
      "reply_result data la = Success \<longrightarrow> p' = reply_packet data (packet_reset packet_empty)"
    using extractReplyPacket_result [of data la "packet_reset packet_empty"] by blast
  have inv': "in_inv la (R \<union> set_option rx) own s" using in_inv_more [OF inv] by simp
  show ?thesis
  proof (cases "reply_result data la = Success \<and> packet_isReply p'")
    case True
    then have "accepted la data"
      using x(2) by (auto simp: accepted_def packet_isReply_bits reply_packet_def Let_def split: if_splits)
    then obtain s' where "in_handleReplyPacket (reply_packet data packet_empty) data s = Some s'"
        "in_inv la (R \<union> set_option rx) own s'" "commands s' = commands s"
      using in_handleReply_ok [OF inv', of data] Some by auto
    then show ?thesis using True x Some
      by (simp add: in_doSingleStep_def in_receivePacket_def la packet_reset_def)
  next
    case False
    then show ?thesis using x(1) Some inv'
      by (cases "reply_result data la") (auto simp: in_doSingleStep_def in_receivePacket_def la counters_inv commands_def)
  qed
qed

subsection \<open>The pieces of a call\<close>

datatype job =
    WriteJob rmap_options u32 u8 "u8 list" rmap_node duration
  | ReadJob rmap_options u32 u8 "u8 list" rmap_node duration

fun job_prepare :: "u8 \<Rightarrow> job \<Rightarrow> transaction \<Rightarrow> transaction option" where
  "job_prepare la (WriteJob options a e data node timeout) t = write_prepare la node options a e data timeout t"
| "job_prepare la (ReadJob options a e buffer node timeout) t = read_prepare la node options a e (length buffer) timeout t"

fun job_waits :: "job \<Rightarrow> bool" where
  "job_waits (WriteJob options a e data node timeout) = opReply options"
| "job_waits (ReadJob options a e buffer node timeout) = True"

fun job_collect :: "job \<Rightarrow> bool \<Rightarrow> nat \<Rightarrow> initiator \<Rightarrow> (initiator \<times> rmap_result \<times> u8 list) option" where
  "job_collect (WriteJob options a e data node timeout) sent i s =
     map_option (\<lambda>(s, r). (s, r, data)) (write_collect options sent i s)"
| "job_collect (ReadJob options a e buffer node timeout) sent i s = read_collect sent i buffer s"

text \<open>What the calls themselves check, and what they need of their arguments.\<close>

fun job_ok :: "job \<Rightarrow> bool" where
  "job_ok (WriteJob options a e data node timeout) \<longleftrightarrow> data \<noteq> [] \<and> length data < 2 ^ 31 \<and> node_inv node"
| "job_ok (ReadJob options a e buffer node timeout) \<longleftrightarrow> buffer \<noteq> [] \<and> length buffer \<le> bufferSize \<and> node_inv node"

definition cmd_ready :: "rmap_packet \<Rightarrow> bool" where
  "cmd_ready p \<longleftrightarrow> packet_isCommand p \<and> unat (rpDataLength p) < 2 ^ 31"

lemma packet_inv_cong:
  "rpSpwTargets p = rpSpwTargets q \<Longrightarrow> rpSpwLength p = rpSpwLength q \<Longrightarrow> rpReplyAddress p = rpReplyAddress q \<Longrightarrow>
     packet_inv p = packet_inv q"
  by (simp add: packet_inv_def)

lemmas setter_defs = packet_setInitiatorLogicalAddress_def packet_setWrite_def packet_setRead_def packet_setCommand_def
  packet_setIncrementFlag_def packet_setVerifyFlag_def packet_setReplyFlag_def packet_setExtendedAddress_def
  packet_setAddress_def packet_setData_def packet_setDataLength_def packet_setTransactionID_def

text \<open>\<open>setTargetInformation\<close> changes the addresses, the key and the length of the reply address only.\<close>

lemma setTargetInformation_fields:
  assumes "packet_setTargetInformation nd p = Some p'"
  shows "rpDataLength p' = rpDataLength p" "rpData p' = rpData p" "rpAddress p' = rpAddress p" "rpExtended p' = rpExtended p"
    "rpInitiator p' = rpInitiator p" "rpTransaction p' = rpTransaction p"
    "rpInstruction p' = instr_setReplyAddressLength (of_nat (length (node_getReplyAddress nd) div 4)) (rpInstruction p)"
  using assms by (auto simp: packet_setTargetInformation_def packet_setTargetSpaceWireAddress_def Let_def bind_eq_Some_conv)

lemma setReplyAddressLength_bit:
  assumes "n < 8"
  shows "bit (instr_setReplyAddressLength len f) n = (if n < 2 then bit len n else bit f n)"
proof -
  from ba_set_generic [of 0 1 f len] obtain r where
    r: "ba_set 1 0 f len = Some r" "\<forall>n < 8. bit r n \<longleftrightarrow> (if 0 \<le> n \<and> n \<le> 1 then bit len (n - 0) else bit f n)"
    by auto
  with assms show ?thesis by (auto simp: instr_setReplyAddressLength_def)
qed

lemma packet_isCommand_bits: "packet_isCommand p \<longleftrightarrow> bit (rpInstruction p) 6 \<and> \<not> bit (rpInstruction p) 7"
proof -
  let ?w = "take_bit 2 (drop_bit 6 (rpInstruction p))"
  have bits: "bit ?w n \<longleftrightarrow> n < 2 \<and> bit (rpInstruction p) (6 + n)" for n
    by (simp add: bit_take_bit_iff bit_drop_bit_eq)
  have "?w = 1 \<longleftrightarrow> (\<forall>n. bit ?w n \<longleftrightarrow> n = 0)"
  proof
    assume all: "\<forall>n. bit ?w n \<longleftrightarrow> n = 0"
    show "?w = 1" by (rule bit_word_eqI) (simp only: all [rule_format] bit_1_iff)
  next
    assume w: "?w = 1"
    show "\<forall>n. bit ?w n \<longleftrightarrow> n = 0" unfolding w by (simp add: bit_1_iff)
  qed
  also have "\<dots> \<longleftrightarrow> bit (rpInstruction p) 6 \<and> \<not> bit (rpInstruction p) 7"
    unfolding bits
  proof
    assume "\<forall>n. (n < 2 \<and> bit (rpInstruction p) (6 + n)) = (n = 0)"
    from this [rule_format, of 0] this [rule_format, of 1]
    show "bit (rpInstruction p) 6 \<and> \<not> bit (rpInstruction p) 7" by simp
  next
    assume *: "bit (rpInstruction p) 6 \<and> \<not> bit (rpInstruction p) 7"
    show "\<forall>n. (n < 2 \<and> bit (rpInstruction p) (6 + n)) = (n = 0)"
    proof
      fix n :: nat
      consider "n = 0" | "n = 1" | "2 \<le> n" by linarith
      then show "(n < 2 \<and> bit (rpInstruction p) (6 + n)) = (n = 0)" using * by cases simp_all
    qed
  qed
  finally show ?thesis by (simp add: packet_isCommand_def instr_getPacketType_value)
qed

lemma prepared_command:
  assumes "packet_inv p" and "node_inv nd"
    and "bit (rpInstruction p) 6" "\<not> bit (rpInstruction p) 7" "unat (rpDataLength p) < 2 ^ 31"
  shows "\<exists>p'. packet_setTargetInformation nd p = Some p' \<and> packet_inv p' \<and> cmd_ready p'"
proof -
  from packet_setTargetInformation_inv [OF assms(1,2)] obtain p' where
    p': "packet_setTargetInformation nd p = Some p'" "packet_inv p'" by blast
  with assms(3-5) have "cmd_ready p'"
    by (simp add: cmd_ready_def packet_isCommand_bits setTargetInformation_fields [OF p'(1)] setReplyAddressLength_bit)
  with p' show ?thesis by blast
qed

lemma job_prepare_ok:
  assumes "packet_inv (trCommand t)" and "job_ok job"
  shows "\<exists>t'. job_prepare la job t = Some t' \<and> packet_inv (trCommand t') \<and> cmd_ready (trCommand t') \<and>
    trId t' = trId t \<and> trState t' = trState t \<and> trReply t' = trReply t \<and> trBuffer t' = trBuffer t"
proof (cases job)
  case (WriteJob options a e data node timeout)
  define p where "p = packet_setData data (packet_setAddress a (packet_setExtendedAddress e (packet_setReplyFlag (opReply options)
    (packet_setVerifyFlag (opVerify options) (packet_setIncrementFlag (opIncrement options) (packet_setCommand
      (packet_setWrite (packet_setInitiatorLogicalAddress la (trCommand t)))))))))"
  have "packet_inv p" using assms(1) by (simp add: p_def setter_defs packet_inv_def)
  moreover have "bit (rpInstruction p) 6" "\<not> bit (rpInstruction p) 7" "unat (rpDataLength p) < 2 ^ 31"
    using assms(2) by (simp_all add: WriteJob p_def setter_defs instr_bits instr_setPacketType_bit u32_of_nat)
  ultimately obtain p' where p': "packet_setTargetInformation node p = Some p'" "packet_inv p'" "cmd_ready p'"
    using prepared_command [of p node] assms(2) by (auto simp: WriteJob)
  then show ?thesis
    by (simp add: WriteJob write_prepare_def p_def [symmetric] transaction_block_def Let_def)
next
  case (ReadJob options a e buffer node timeout)
  define p where "p = packet_setDataLength (of_nat (length buffer)) (packet_setAddress a (packet_setExtendedAddress e
    (packet_setReplyFlag True (packet_setVerifyFlag (opVerify options) (packet_setIncrementFlag (opIncrement options)
      (packet_setCommand (packet_setRead (packet_setInitiatorLogicalAddress la (trCommand t)))))))))"
  have "packet_inv p" using assms(1) by (simp add: p_def setter_defs packet_inv_def)
  moreover have "bit (rpInstruction p) 6" "\<not> bit (rpInstruction p) 7" "unat (rpDataLength p) < 2 ^ 31"
    using assms(2) by (simp_all add: ReadJob p_def setter_defs instr_bits instr_setPacketType_bit u32_of_nat bufferSize_def)
  ultimately obtain p' where p': "packet_setTargetInformation node p = Some p'" "packet_inv p'" "cmd_ready p'"
    using prepared_command [of p node] assms(2) by (auto simp: ReadJob)
  then show ?thesis
    by (simp add: ReadJob read_prepare_def p_def [symmetric] transaction_block_def Let_def)
qed

lemma header_small: "packet_inv p \<Longrightarrow> packet_headerLength p \<le> 60"
  using reply_length_less [of "rpInstruction p"]
  by (simp add: packet_headerLength_def packet_inv_def readCommandOverhead_def maxPhysicalRouterOutputPorts_def)

lemma packet_sealed_inv: "packet_inv (packet_sealed big p) = packet_inv p"
  by (simp add: packet_sealed_def packet_inv_def)

lemma send_construct_ok:
  assumes inv: "in_inv la R own s" and i: "i \<in> own" and ready: "cmd_ready (trCommand (inTransactions s ! i))"
  shows "\<exists>s' b ok cmd. send_construct big i s = Some (s', b, ok) \<and> in_inv la R own s' \<and>
    commands s' = (commands s)[i := cmd]"
proof -
  let ?t = "inTransactions s ! i" and ?b = "\<lparr>mData = Some 0, mNumberOfElements = length (inSendBuffer s)\<rparr>"
  let ?p = "packet_setTransactionID (trId ?t) (trCommand ?t)"
  have il: "i < length (inTransactions s)" using in_invD(5) [OF inv i] .
  have p: "packet_inv ?p" "packet_isCommand ?p"
    using in_invD(7) [OF inv i] ready by (simp_all add: packet_setTransactionID_def packet_inv_def cmd_ready_def packet_isCommand_def)
  have "packet_headerLength ?p + unat (rpDataLength ?p) + 1 < 2 ^ 32"
    using header_small [OF p(1)] ready by (simp add: cmd_ready_def packet_setTransactionID_def)
  from constructPacket_copies [OF p _ _ this, of ?b 0 "inSendBuffer s" big]
  obtain m' bytes where m': "acopy (inSendBuffer s) 0 bytes = Some m'" and c: "packet_constructPacket big (inSendBuffer s) ?b ?p =
      Some (m', if command_fits ?p (length (inSendBuffer s)) then slice_first ?b (length (command_bytes big ?p)) else ?b,
        if packet_headerLength ?p \<le> length (inSendBuffer s) then packet_sealed big ?p else ?p,
        command_fits ?p (length (inSendBuffer s)))"
    by auto
  define cmd where "cmd = (if packet_headerLength ?p \<le> length (inSendBuffer s) then packet_sealed big ?p else ?p)"
  let ?u = "?t\<lparr>trCommand := cmd\<rparr>" and ?s = "s\<lparr>inSendBuffer := m'\<rparr>"
  have "in_inv la R own ?s" using inv length_acopy [OF m'] by (simp add: in_inv_def)
  moreover have "packet_inv cmd" using p(1) by (simp add: cmd_def packet_sealed_inv)
  ultimately have "in_inv la R own (?s\<lparr>inTransactions := (inTransactions ?s)[i := ?u]\<rparr>)"
    using i by (intro own_update) simp_all
  moreover have "commands (?s\<lparr>inTransactions := (inTransactions ?s)[i := ?u]\<rparr>) = (commands s)[i := cmd]"
    by (simp add: commands_def map_update)
  moreover have "\<exists>b ok. send_construct big i s = Some (?s\<lparr>inTransactions := (inTransactions ?s)[i := ?u]\<rparr>, b, ok)"
    using c il by (simp add: send_construct_def mem_simps in_update_def cmd_def Let_def)
  ultimately show ?thesis by blast
qed

lemma own_block:
  assumes inv: "in_inv la R own s" and i: "i \<in> own"
  shows "\<exists>s'. in_update i transaction_block s = Some s' \<and> in_inv la R own s' \<and> commands s' = commands s"
proof -
  have "in_inv la R own (s\<lparr>inTransactions := (inTransactions s)[i := transaction_block (inTransactions s ! i)]\<rparr>)"
    using in_invD(7) [OF inv i] by (intro own_update [OF inv i]) (simp_all add: transaction_block_def)
  moreover have "map trCommand ((inTransactions s)[i := transaction_block (inTransactions s ! i)]) = map trCommand (inTransactions s)"
    using in_invD(5) [OF inv i] by (simp add: map_update list_update_same_conv transaction_block_def)
  ultimately show ?thesis using in_invD(5) [OF inv i] by (simp add: in_update_Some commands_def)
qed

text \<open>The data of an accepted reply is there as far as its length says.\<close>

lemma accepted_data:
  assumes "accepted la rx" and "p = reply_packet rx packet_empty"
  shows "unat (rpDataLength p) = length (rpData p)"
    and "rpData p = (if bit (rx ! 2) 5 then [] else reply_data rx)" and "rpStatus p = rx ! 3"
  using assms by (auto simp: accepted_def reply_packet_def packet_empty_def reply_data_def reply_result_def Let_def
      split: if_splits)

lemma read_collect_ok:
  assumes inv: "in_inv la R own s" and i: "i \<in> own"
  shows "\<exists>s' r b. read_collect sent i buffer s = Some (s', r, b) \<and> in_inv la R own s' \<and> commands s' = commands s \<and>
    (rrResult r = success \<longrightarrow> sent \<and> (\<exists>rx \<in> R. accepted la rx \<and> rpTransaction (reply_packet rx packet_empty) = trId (inTransactions s ! i) \<and>
       rx ! 3 = 0 \<and> length b = length buffer \<and> (buffer \<noteq> [] \<longrightarrow> b = reply_data rx)))"
proof (cases "sent \<and> trState (inTransactions s ! i) = replyReceived")
  case False
  then show ?thesis using inv in_invD(5) [OF inv i]
    by (auto simp: read_collect_def mem_simps in_spacewireFailure_def counters_inv commands_def result_code_only_def)
next
  case True
  let ?t = "inTransactions s ! i"
  from True in_invD(6) [OF inv i] obtain rx where rx: "rx \<in> R" "accepted la rx" "trReply ?t = reply_packet rx packet_empty"
      "rpTransaction (trReply ?t) = trId ?t"
    by (auto simp: holds_reply_def)
  note d = accepted_data [OF rx(2,3)]
  have c: "copy_reply (trReply ?t) buffer = Some (rpData (trReply ?t) @ drop (length (rpData (trReply ?t))) buffer)"
    if "length (rpData (trReply ?t)) \<le> length buffer"
    using that d(1) by (simp add: copy_reply_def mem_simps)
  show ?thesis
    using True inv rx in_invD(5) [OF inv i] c d
    by (auto simp: read_collect_def mem_simps counters_inv commands_def result_new_def Let_def not_less)
qed

lemma write_collect_ok:
  assumes inv: "in_inv la R own s" and i: "i \<in> own"
  shows "\<exists>s' r. write_collect options sent i s = Some (s', r) \<and> in_inv la R own s' \<and> commands s' = commands s \<and>
    (rrResult r = success \<and> opReply options \<longrightarrow> sent \<and> (\<exists>rx \<in> R. accepted la rx \<and>
       rpTransaction (reply_packet rx packet_empty) = trId (inTransactions s ! i) \<and> rx ! 3 = 0))"
proof (cases "sent \<and> opReply options \<and> trState (inTransactions s ! i) = replyReceived")
  case False
  then show ?thesis using inv in_invD(5,8) [OF inv i]
    by (auto simp: write_collect_def mem_simps in_spacewireFailure_def counters_inv commands_def result_code_only_def
        result_new_def split: transaction_state.splits)
next
  case True
  let ?t = "inTransactions s ! i"
  from True in_invD(6) [OF inv i] obtain rx where rx: "rx \<in> R" "accepted la rx" "trReply ?t = reply_packet rx packet_empty"
      "rpTransaction (trReply ?t) = trId ?t"
    by (auto simp: holds_reply_def)
  note d = accepted_data [OF rx(2,3)]
  show ?thesis
    using True inv rx in_invD(5) [OF inv i] d(3)
    by (auto simp: write_collect_def mem_simps counters_inv commands_def result_new_def Let_def)
qed

subsection \<open>The system\<close>

text \<open>
  Where a thread is. The positions of its transaction, the call, and what it keeps in local variables
  follow it from step to step.
\<close>

datatype pc =
    Idle
  | Begun nat job
  | Prepared nat job
  | Built nat job slice bool
  | Sent nat job bool
  | Woken nat job
  | Collected nat

fun slot_of :: "pc \<Rightarrow> nat option" where
  "slot_of Idle = None"
| "slot_of (Begun i job) = Some i"
| "slot_of (Prepared i job) = Some i"
| "slot_of (Built i job b ok) = Some i"
| "slot_of (Sent i job sent) = Some i"
| "slot_of (Woken i job) = Some i"
| "slot_of (Collected i) = Some i"

text \<open>The steps a call still has to do, at most.\<close>

fun remaining :: "pc \<Rightarrow> nat" where
  "remaining Idle = 0"
| "remaining (Begun i job) = 6"
| "remaining (Prepared i job) = 5"
| "remaining (Built i job b ok) = 4"
| "remaining (Sent i job sent) = 3"
| "remaining (Woken i job) = 2"
| "remaining (Collected i) = 1"

record system =
  syInitiator :: initiator
  syThreads :: "nat \<Rightarrow> pc"

datatype event =
    Refuses nat result_code
  | Begins nat job
  | Prepares nat
  | Builds nat
  | Transmits nat "u8 list option"
  | Wakes nat
  | Collects nat rmap_result "u8 list"
  | Ends nat
  | Receives "u8 list option"

definition sys_move :: "system \<Rightarrow> initiator \<Rightarrow> nat \<Rightarrow> pc \<Rightarrow> system" where
  "sys_move y s th c = y\<lparr>syInitiator := s, syThreads := (syThreads y)(th := c)\<rparr>"

inductive sys_step :: "bool \<Rightarrow> (u8 list \<Rightarrow> duration \<Rightarrow> bool) \<Rightarrow> system \<Rightarrow> event \<Rightarrow> system \<Rightarrow> bool" for big spw where
  step_refuse: "syThreads y th = Idle \<Longrightarrow> in_begin locked (syInitiator y) = Some (s, Inl code) \<Longrightarrow>
    sys_step big spw y (Refuses th code) (sys_move y s th Idle)"
| step_begin: "syThreads y th = Idle \<Longrightarrow> job_ok job \<Longrightarrow> in_begin True (syInitiator y) = Some (s, Inr i) \<Longrightarrow>
    sys_step big spw y (Begins th job) (sys_move y s th (Begun i job))"
| step_prepare: "syThreads y th = Begun i job \<Longrightarrow> aread (inTransactions (syInitiator y)) i = Some t \<Longrightarrow>
    job_prepare (inAddress (syInitiator y)) job t = Some t' \<Longrightarrow> in_update i (\<lambda>u. t') (syInitiator y) = Some s \<Longrightarrow>
    sys_step big spw y (Prepares th) (sys_move y s th (Prepared i job))"
| step_build: "syThreads y th = Prepared i job \<Longrightarrow> send_construct big i (syInitiator y) = Some (s, b, ok) \<Longrightarrow>
    sys_step big spw y (Builds th) (sys_move y s th (Built i job b ok))"
| step_transmit: "syThreads y th = Built i job b ok \<Longrightarrow> send_transmit spw i b ok (syInitiator y) = Some sent \<Longrightarrow>
    sys_step big spw y (Transmits th (if ok then Some (slice_view (inSendBuffer (syInitiator y)) b) else None))
      (sys_move y (syInitiator y) th (Sent i job sent))"
| step_wake: "syThreads y th = Sent i job True \<Longrightarrow> job_waits job \<Longrightarrow> in_update i transaction_block (syInitiator y) = Some s \<Longrightarrow>
    sys_step big spw y (Wakes th) (sys_move y s th (Woken i job))"
| step_collect: "syThreads y th = Woken i job \<Longrightarrow> job_collect job True i (syInitiator y) = Some (s, r, b) \<Longrightarrow>
    sys_step big spw y (Collects th r b) (sys_move y s th (Collected i))"
| step_collect_now: "syThreads y th = Sent i job sent \<Longrightarrow> \<not> (sent \<and> job_waits job) \<Longrightarrow>
    job_collect job sent i (syInitiator y) = Some (s, r, b) \<Longrightarrow>
    sys_step big spw y (Collects th r b) (sys_move y s th (Collected i))"
| step_end: "syThreads y th = Collected i \<Longrightarrow> in_end i (syInitiator y) = Some s \<Longrightarrow>
    sys_step big spw y (Ends th) (sys_move y s th Idle)"
| step_receive: "in_doSingleStep rx (syInitiator y) = Some s \<Longrightarrow> sys_step big spw y (Receives rx) (y\<lparr>syInitiator := s\<rparr>)"

inductive_cases sys_step_CollectsE: "sys_step big spw y (Collects th r b) y'"

definition sys_start :: "u8 list \<Rightarrow> u8 \<Rightarrow> system" where
  "sys_start junk la = \<lparr>syInitiator = initiator_new junk la, syThreads = (\<lambda>th. Idle)\<rparr>"

text \<open>The messages that have arrived.\<close>

definition arrived :: "event list \<Rightarrow> u8 list set" where
  "arrived es = {rx. Receives (Some rx) \<in> set es}"

fun pc_ok :: "rmap_packet list \<Rightarrow> pc \<Rightarrow> bool" where
  "pc_ok cmds Idle \<longleftrightarrow> True"
| "pc_ok cmds (Begun i job) \<longleftrightarrow> job_ok job"
| "pc_ok cmds (Prepared i job) \<longleftrightarrow> job_ok job \<and> cmd_ready (cmds ! i)"
| "pc_ok cmds (Built i job b ok) \<longleftrightarrow> job_ok job"
| "pc_ok cmds (Sent i job sent) \<longleftrightarrow> job_ok job"
| "pc_ok cmds (Woken i job) \<longleftrightarrow> job_ok job \<and> job_waits job"
| "pc_ok cmds (Collected i) \<longleftrightarrow> True"

definition owned :: "(nat \<Rightarrow> pc) \<Rightarrow> nat set" where
  "owned pcs = {i. \<exists>th. slot_of (pcs th) = Some i}"

definition sys_inv :: "u8 \<Rightarrow> u8 list set \<Rightarrow> system \<Rightarrow> bool" where
  "sys_inv la R y \<longleftrightarrow> in_inv la R (owned (syThreads y)) (syInitiator y) \<and>
     (\<forall>th th' i. slot_of (syThreads y th) = Some i \<longrightarrow> slot_of (syThreads y th') = Some i \<longrightarrow> th = th') \<and>
     (\<forall>th. pc_ok (commands (syInitiator y)) (syThreads y th))"

lemma sys_start_inv: "length junk = maxCommandLength \<Longrightarrow> sys_inv la R (sys_start junk la)"
  using initiator_new_inv [of junk la R] by (simp add: sys_inv_def sys_start_def owned_def)

text \<open>A step of a thread that keeps its transaction.\<close>

lemma owned_move: "slot_of c = slot_of (pcs th) \<Longrightarrow> owned (pcs(th := c)) = owned pcs"
  by (auto simp: owned_def split: if_splits)

lemma pc_ok_cong: "(\<And>i. slot_of c = Some i \<Longrightarrow> cmds ! i = cmds' ! i) \<Longrightarrow> pc_ok cmds c = pc_ok cmds' c"
  by (cases c) simp_all

lemma sys_inv_move:
  assumes inv: "sys_inv la R y" and slot: "slot_of (syThreads y th) = Some i" "slot_of c = Some i"
    and s: "in_inv la R (owned (syThreads y)) s" and cmds: "\<And>j. i \<noteq> j \<Longrightarrow> commands s ! j = commands (syInitiator y) ! j"
    and c: "pc_ok (commands s) c"
  shows "sys_inv la R (sys_move y s th c)"
proof -
  have "pc_ok (commands s) (syThreads y th')" if "th' \<noteq> th" for th'
  proof -
    have "pc_ok (commands (syInitiator y)) (syThreads y th')" using inv by (simp add: sys_inv_def)
    moreover have "slot_of (syThreads y th') \<noteq> Some i" using inv slot(1) that by (auto simp: sys_inv_def)
    ultimately show ?thesis using pc_ok_cong [of "syThreads y th'" "commands s" "commands (syInitiator y)"] cmds by fastforce
  qed
  moreover have "owned ((syThreads y)(th := c)) = owned (syThreads y)" using slot by (intro owned_move) simp
  ultimately show ?thesis using inv s slot c by (auto simp: sys_inv_def sys_move_def)
qed

lemma sys_invD:
  assumes "sys_inv la R y" and "slot_of (syThreads y th) = Some i"
  shows "in_inv la R (owned (syThreads y)) (syInitiator y)" "i \<in> owned (syThreads y)"
    "pc_ok (commands (syInitiator y)) (syThreads y th)"
  using assms by (auto simp: sys_inv_def owned_def)

lemma job_collect_ok:
  assumes "in_inv la R own s" and "i \<in> own"
  shows "\<exists>s' r b. job_collect job sent i s = Some (s', r, b) \<and> in_inv la R own s' \<and> commands s' = commands s"
proof (cases job)
  case (WriteJob options a e data node timeout)
  then show ?thesis using write_collect_ok [OF assms, of options sent] by auto
next
  case (ReadJob options a e buffer node timeout)
  then show ?thesis using read_collect_ok [OF assms, of sent buffer] by auto
qed

lemma sys_prepare:
  assumes inv: "sys_inv la R y" and pc: "syThreads y th = Begun i job"
  shows "\<exists>t t' s. aread (inTransactions (syInitiator y)) i = Some t \<and> job_prepare (inAddress (syInitiator y)) job t = Some t' \<and>
    in_update i (\<lambda>u. t') (syInitiator y) = Some s \<and> sys_inv la R (sys_move y s th (Prepared i job))"
proof -
  let ?s = "syInitiator y"
  have d: "in_inv la R (owned (syThreads y)) ?s" "i \<in> owned (syThreads y)" "job_ok job"
    using sys_invD [OF inv, of th i] pc by simp_all
  let ?t = "inTransactions ?s ! i"
  note il = in_invD(5) [OF d(1,2)]
  obtain t' where t': "job_prepare (inAddress ?s) job ?t = Some t'" "packet_inv (trCommand t')" "cmd_ready (trCommand t')"
      "trId t' = trId ?t" "trState t' = trState ?t" "trReply t' = trReply ?t" "trBuffer t' = trBuffer ?t"
    using job_prepare_ok [OF in_invD(7) [OF d(1,2)] d(3)] by blast
  let ?s' = "?s\<lparr>inTransactions := (inTransactions ?s)[i := t']\<rparr>"
  have "in_inv la R (owned (syThreads y)) ?s'" using t' by (intro own_update [OF d(1,2)])
  moreover have "commands ?s' = (commands ?s)[i := trCommand t']" by (simp add: commands_def map_update)
  ultimately have "sys_inv la R (sys_move y ?s' th (Prepared i job))"
    using pc d(3) t'(3) il by (intro sys_inv_move [OF inv, of th i]) (simp_all add: commands_def nth_list_update)
  then show ?thesis using t'(1) il by (simp add: mem_simps in_update_Some)
qed

lemma sys_build:
  assumes inv: "sys_inv la R y" and pc: "syThreads y th = Prepared i job"
  shows "\<exists>s b ok. send_construct big i (syInitiator y) = Some (s, b, ok) \<and> sys_inv la R (sys_move y s th (Built i job b ok))"
proof -
  let ?s = "syInitiator y"
  have d: "in_inv la R (owned (syThreads y)) ?s" "i \<in> owned (syThreads y)" "job_ok job" "cmd_ready (commands ?s ! i)"
    using sys_invD [OF inv, of th i] pc by simp_all
  then have "cmd_ready (trCommand (inTransactions ?s ! i))" using in_invD(5) [OF d(1,2)] by (simp add: commands_def)
  from send_construct_ok [OF d(1,2) this] obtain s b ok cmd where s: "send_construct big i ?s = Some (s, b, ok)"
      "in_inv la R (owned (syThreads y)) s" "commands s = (commands ?s)[i := cmd]"
    by blast
  have "sys_inv la R (sys_move y s th (Built i job b ok))"
    using pc d(3) s by (intro sys_inv_move [OF inv, of th i]) simp_all
  with s(1) show ?thesis by blast
qed

lemma sys_wake:
  assumes inv: "sys_inv la R y" and pc: "syThreads y th = Sent i job sent" and waits: "job_waits job"
  shows "\<exists>s. in_update i transaction_block (syInitiator y) = Some s \<and> sys_inv la R (sys_move y s th (Woken i job))"
proof -
  have d: "in_inv la R (owned (syThreads y)) (syInitiator y)" "i \<in> owned (syThreads y)" "job_ok job"
    using sys_invD [OF inv, of th i] pc by simp_all
  from own_block [OF d(1,2)] obtain s where s: "in_update i transaction_block (syInitiator y) = Some s"
      "in_inv la R (owned (syThreads y)) s" "commands s = commands (syInitiator y)"
    by blast
  have "sys_inv la R (sys_move y s th (Woken i job))"
    using pc d(3) s waits by (intro sys_inv_move [OF inv, of th i]) simp_all
  with s(1) show ?thesis by blast
qed

lemma sys_collect:
  assumes inv: "sys_inv la R y" and pc: "slot_of (syThreads y th) = Some i"
  shows "\<exists>s r b. job_collect job sent i (syInitiator y) = Some (s, r, b) \<and> sys_inv la R (sys_move y s th (Collected i))"
proof -
  note d = sys_invD(1,2) [OF inv pc]
  from job_collect_ok [OF d] obtain s r b where s: "job_collect job sent i (syInitiator y) = Some (s, r, b)"
      "in_inv la R (owned (syThreads y)) s" "commands s = commands (syInitiator y)"
    by blast
  have "sys_inv la R (sys_move y s th (Collected i))"
    using pc s by (intro sys_inv_move [OF inv, of th i]) simp_all
  with s(1) show ?thesis by blast
qed

lemma sys_end:
  assumes inv: "sys_inv la R y" and pc: "syThreads y th = Collected i"
  shows "\<exists>s. in_end i (syInitiator y) = Some s \<and> sys_inv la R (sys_move y s th Idle)"
proof -
  let ?s = "syInitiator y"
  have d: "in_inv la R (owned (syThreads y)) ?s" "i \<in> owned (syThreads y)"
    using sys_invD [OF inv, of th i] pc by simp_all
  obtain s where s: "in_end i ?s = Some s" "in_inv la R (owned (syThreads y) - {i}) s"
    using in_end_ok [OF d] by blast
  have others: "slot_of (syThreads y th') \<noteq> Some i" if "th' \<noteq> th" for th'
    using inv pc that by (auto simp: sys_inv_def)
  then have own: "owned ((syThreads y)(th := Idle)) = owned (syThreads y) - {i}"
    using pc by (auto simp: owned_def split: if_splits) (metis option.inject slot_of.simps(7))
  have "commands s ! j = commands ?s ! j" if "j \<noteq> i" for j
    using s(1) that in_invD(5) [OF d] tl_removes_own [OF d]
    by (auto simp: in_end_def commands_def mem_simps map_update)
  then have "pc_ok (commands s) (syThreads y th')" if "th' \<noteq> th" for th'
    using pc_ok_cong [of "syThreads y th'" "commands s" "commands ?s"] others [OF that] inv
    by (fastforce simp: sys_inv_def)
  then show ?thesis using s own inv by (auto simp: sys_inv_def sys_move_def)
qed

lemma sys_begin:
  assumes inv: "sys_inv la R y" and pc: "syThreads y th = Idle" and job: "\<And>i. r = Inr i \<Longrightarrow> job_ok job"
    and b: "in_begin locked (syInitiator y) = Some (s, r)"
  shows "case r of Inl code \<Rightarrow> sys_inv la R (sys_move y s th Idle) | Inr i \<Rightarrow> sys_inv la R (sys_move y s th (Begun i job))"
proof (cases r)
  case (Inl code)
  have "commands s = commands (syInitiator y)"
    using b Inl by (auto simp: in_begin_def tl_getFreeTransaction_def commands_def Let_def bind_eq_Some_conv
        split: if_splits option.splits prod.splits)
  moreover have "(syThreads y)(th := Idle) = syThreads y" using pc by auto
  moreover have "in_inv la R (owned (syThreads y)) (syInitiator y)" using inv by (simp add: sys_inv_def)
  from in_begin_ok [OF this b] Inl have "in_inv la R (owned (syThreads y)) s" by simp
  ultimately show ?thesis using inv by (simp add: Inl sys_inv_def sys_move_def)
next
  case (Inr i)
  let ?own = "owned (syThreads y)"
  have "in_inv la R ?own (syInitiator y)" using inv by (simp add: sys_inv_def)
  from in_begin_ok [OF this b] Inr have i: "i \<notin> ?own" "in_inv la R (insert i ?own) s" and
      same: "\<forall>j. j \<noteq> i \<longrightarrow> inTransactions s ! j = inTransactions (syInitiator y) ! j"
    by simp_all
  have len: "length (inTransactions s) = length (inTransactions (syInitiator y))"
    using in_invD(3) [OF i(2)] inv by (auto simp: sys_inv_def dest: in_invD(3))
  have free: "slot_of (syThreads y th') \<noteq> Some i" for th' using i(1) by (auto simp: owned_def)
  have own: "owned ((syThreads y)(th := Begun i job)) = insert i ?own"
    using pc by (auto simp: owned_def split: if_splits) (metis option.distinct(1) slot_of.simps(1))
  have "pc_ok (commands s) (syThreads y th')" for th'
  proof -
    have "commands s ! j = commands (syInitiator y) ! j" if j: "slot_of (syThreads y th') = Some j" for j
    proof -
      have "j \<in> ?own" using j by (auto simp: owned_def)
      then have "j < length (inTransactions (syInitiator y))"
        using inv by (auto simp: sys_inv_def dest: in_invD(5))
      moreover have "j \<noteq> i" using free j by auto
      ultimately show ?thesis using same len by (simp add: commands_def)
    qed
    then show ?thesis
      using pc_ok_cong [of "syThreads y th'" "commands s" "commands (syInitiator y)"] inv by (simp add: sys_inv_def)
  qed
  then show ?thesis using inv i(2) own free job by (auto simp: Inr sys_inv_def sys_move_def)
qed

lemma sys_step_inv:
  assumes "sys_step big spw y e y'" and inv: "sys_inv la R y"
  shows "sys_inv la (R \<union> arrived [e]) y'"
  using assms(1)
proof cases
  case (step_receive rx s)
  have "in_inv la R (owned (syThreads y)) (syInitiator y)" using inv by (simp add: sys_inv_def)
  from in_doSingleStep_ok [OF this, of rx] step_receive
  have "in_inv la (R \<union> set_option rx) (owned (syThreads y)) s" "commands s = commands (syInitiator y)" by auto
  moreover have "set_option rx = arrived [e]" by (auto simp: arrived_def step_receive)
  ultimately show ?thesis using inv by (simp add: sys_inv_def step_receive)
next
  case (step_transmit th i job b ok sent)
  then show ?thesis
    using sys_inv_move [OF inv, of th i "Sent i job sent" "syInitiator y"] sys_invD [OF inv, of th i] by (simp add: arrived_def)
next
  case (step_refuse th locked s code)
  then show ?thesis using sys_begin [OF inv, of th "Inl code" undefined locked s] by (simp add: arrived_def)
next
  case (step_begin th job s i)
  then show ?thesis using sys_begin [OF inv, of th "Inr i" job True s] by (simp add: arrived_def)
next
  case (step_prepare th i job t t' s)
  then show ?thesis using sys_prepare [OF inv, of th i job] by (auto simp: arrived_def)
next
  case (step_build th i job s b ok)
  then show ?thesis using sys_build [OF inv, of th i job big] by (auto simp: arrived_def)
next
  case (step_wake th i job s)
  then show ?thesis using sys_wake [OF inv, of th i job True] by (auto simp: arrived_def)
next
  case (step_collect th i job s r b)
  then show ?thesis using sys_collect [OF inv, of th i job True] by (auto simp: arrived_def)
next
  case (step_collect_now th i job sent s r b)
  then show ?thesis using sys_collect [OF inv, of th i job sent] by (auto simp: arrived_def)
next
  case (step_end th i s)
  then show ?thesis using sys_end [OF inv, of th i] by (auto simp: arrived_def)
qed

lemma arrived_append: "arrived (es @ es') = arrived es \<union> arrived es'"
  by (auto simp: arrived_def)

lemma sys_steps_inv:
  "steps (sys_step big spw) y es y' \<Longrightarrow> sys_inv la R y \<Longrightarrow> sys_inv la (R \<union> arrived es) y'"
proof (induction arbitrary: R rule: steps.induct)
  case (steps_Nil y)
  then show ?case by (simp add: arrived_def)
next
  case (steps_Cons y e y1 es y2)
  from steps_Cons.IH [OF sys_step_inv [OF steps_Cons.hyps(1) steps_Cons.prems]]
  show ?case using arrived_append [of "[e]" es] by (simp add: Un_assoc)
qed

lemma reachable_inv:
  assumes "steps (sys_step big spw) (sys_start junk la) es y" and "length junk = maxCommandLength"
  shows "sys_inv la (arrived es) y"
  using sys_steps_inv [OF assms(1) sys_start_inv [OF assms(2), of la "{}"]] by simp

subsection \<open>Transactions are never mixed up\<close>

text \<open>
  C4. However the steps of the threads and the arrivals of messages interleave, two threads never
  hold the same transaction or two transactions with the same number, no number in use is zero, and a
  transaction that has a reply has one that arrived on the bus, passed the checksums and carries the
  number of the transaction.\<close>

theorem rmap_transactions_separate:
  assumes "steps (sys_step big spw) (sys_start junk la) es y" and "length junk = maxCommandLength"
    and "slot_of (syThreads y th) = Some i"
  defines "t \<equiv> inTransactions (syInitiator y) ! i"
  shows "trId t \<noteq> 0 \<and> trState t \<noteq> notInitiated \<and>
    (\<forall>th' j. th' \<noteq> th \<and> slot_of (syThreads y th') = Some j \<longrightarrow> j \<noteq> i \<and> trId (inTransactions (syInitiator y) ! j) \<noteq> trId t) \<and>
    (trState t = replyReceived \<longrightarrow> (\<exists>rx \<in> arrived es. accepted la rx \<and> trBuffer t = Some rx \<and>
       trReply t = reply_packet rx packet_empty \<and> rpTransaction (trReply t) = trId t))"
proof -
  have inv: "sys_inv la (arrived es) y" using reachable_inv [OF assms(1,2)] .
  note d = sys_invD(1,2) [OF inv assms(3)]
  have tl: "tl_inv (owned (syThreads y)) (inTransactions (syInitiator y))" using in_invD(4) [OF d(1)] .
  have "j \<noteq> i \<and> trId (inTransactions (syInitiator y) ! j) \<noteq> trId t"
    if "th' \<noteq> th" "slot_of (syThreads y th') = Some j" for th' j
  proof -
    have "j \<noteq> i" using inv that assms(3) by (auto simp: sys_inv_def)
    with tl d(2) sys_invD(2) [OF inv that(2)] show ?thesis unfolding tl_inv_def t_def by blast
  qed
  moreover have "trId t \<noteq> 0" "trState t \<noteq> notInitiated" using tl d(2) by (simp_all add: tl_inv_def t_def)
  ultimately show ?thesis using in_invD(6) [OF d] by (auto simp: holds_reply_def t_def)
qed



subsection \<open>A read from a target that answers\<close>

text \<open>
  What a target does with a read command, from the bytes that reach it behind the path: it sends the
  bytes of its memory with the number and the instruction of the command.
\<close>

definition make_reply :: "u8 list \<Rightarrow> u8 list \<Rightarrow> u8 list" where
  "make_reply h data = h @ [crc8r_calculate h] @ data @ [crc8r_calculate data]"

definition target_answer :: "(u8 \<Rightarrow> u32 \<Rightarrow> nat \<Rightarrow> u8 list) \<Rightarrow> u8 list \<Rightarrow> u8 list" where
  "target_answer memory c =
     (let d = drop (4 + 4 * unat (take_bit 2 (c ! 2))) c;
          n = push_bit 16 (ucast (d ! 8)) OR push_bit 8 (ucast (d ! 9)) OR (ucast (d ! 10) :: u32)
      in make_reply [d ! 0, 1, c ! 2 AND 0x3F, 0, c ! 0, d ! 1, d ! 2, 0, d ! 8, d ! 9, d ! 10]
           (memory (d ! 3) (be_u32_value [d ! 4, d ! 5, d ! 6, d ! 7]) (unat n)))"

lemma make_reply_accepted:
  assumes h: "h = [la, 1, instr, 0, tgt, hi, lo, 0, l2, l1, l0]" and instr: "is_reply_byte instr" "\<not> bit instr 5"
    and n: "n = push_bit 16 (ucast l2) OR push_bit 8 (ucast l1) OR ucast l0" "unat n = length data"
  shows "accepted la (make_reply h data)" (is ?a)
    and "reply_packet (make_reply h data) packet_empty =
      packet_empty\<lparr>rpInstruction := instr, rpReplyAddress := replicate 12 0, rpInitiator := la, rpStatus := 0, rpTarget := tgt,
        rpTransaction := be_u16_value [hi, lo], rpDataLength := n, rpHeaderCRC := crc8r_calculate h, rpData := data,
        rpDataCRC := crc8r_calculate data, rpHeaderLength := 11\<rparr>" (is ?p)
proof -
  let ?r = "make_reply h data"
  have len: "length ?r = 13 + length data" by (simp add: make_reply_def h)
  have rl: "reply_length ?r = n" by (simp add: reply_length_def make_reply_def h n(1))
  have rd: "reply_data ?r = data" by (simp add: reply_data_def rl n(2)) (simp add: make_reply_def h)
  have t: "take 11 ?r = h" "?r ! 11 = crc8r_calculate h" by (simp_all add: make_reply_def h)
  have l: "?r ! (12 + length data) = crc8r_calculate data" by (simp add: make_reply_def h nth_append)
  have b: "?r ! 0 = la" "?r ! 1 = 1" "?r ! 2 = instr" "?r ! 3 = 0" "?r ! 4 = tgt" "?r ! 5 = hi" "?r ! 6 = lo"
    by (simp_all add: make_reply_def h)
  show ?a using len instr by (simp add: accepted_def reply_result_def b t rl rd l n(2) len del: One_nat_def)
  show ?p using instr by (simp add: reply_packet_def b t rl rd l len Let_def del: One_nat_def)
qed

lemma answered_command:
  assumes inv: "packet_inv p" and read: "\<not> packet_isWrite p" and n: "unat (rpDataLength p) < 2 ^ 24"
    and len: "\<And>e a k. length (memory e a k) = k"
  shows "\<exists>h. target_answer memory (header_bytes big p @ rest) = make_reply h (memory (rpExtended p) (rpAddress p) (unat (rpDataLength p))) \<and>
    accepted (rpInitiator p) (target_answer memory (header_bytes big p @ rest)) \<and>
    reply_packet (target_answer memory (header_bytes big p @ rest)) packet_empty =
      packet_empty\<lparr>rpInstruction := rpInstruction p AND 0x3F, rpReplyAddress := replicate 12 0, rpInitiator := rpInitiator p,
        rpStatus := 0, rpTarget := rpTarget p, rpTransaction := rpTransaction p, rpDataLength := rpDataLength p,
        rpHeaderCRC := crc8r_calculate h, rpData := memory (rpExtended p) (rpAddress p) (unat (rpDataLength p)),
        rpDataCRC := crc8r_calculate (memory (rpExtended p) (rpAddress p) (unat (rpDataLength p))), rpHeaderLength := 11\<rparr>"
proof -
  let ?c = "header_bytes big p @ rest" and ?v = "rpDataLength p"
  let ?w = "concat (map (\<lambda>i. be_u32_bytes (reply_word big p i)) [0..<reply_words p])"
  have w: "length ?w = 4 * reply_words p" by (simp add: length_concat comp_def sum_list_triv sb_lengths)
  have rw: "unat (take_bit 2 (rpInstruction p)) = reply_words p"
    by (simp add: reply_words_def instr_getReplyAddressLength_value)
  have c: "?c ! 0 = rpTarget p" "?c ! 2 = rpInstruction p" by (simp_all add: header_bytes_def)
  obtain t1 t0 where t: "be_u16_bytes (rpTransaction p) = [t1, t0]" by (simp add: be_u16_bytes_def)
  obtain a3 a2 a1 a0 where a: "be_u32_bytes (rpAddress p) = [a3, a2, a1, a0]" by (simp add: be_u32_bytes_def)
  let ?l2 = "ucast (drop_bit 16 ?v) :: u8" and ?l1 = "ucast (drop_bit 8 ?v) :: u8" and ?l0 = "ucast ?v :: u8"
  let ?front = "[rpTarget p, protocolIdentifier, rpInstruction p, rpKey p] @ ?w"
  let ?tail = "[rpInitiator p, t1, t0, rpExtended p, a3, a2, a1, a0, ?l2, ?l1, ?l0] @ rest"
  have "?c = ?front @ ?tail" by (simp add: header_bytes_def t a)
  moreover have "length ?front = 4 + 4 * reply_words p" by (simp add: w)
  ultimately have d: "drop (4 + 4 * reply_words p) ?c = ?tail" by (metis append_eq_conv_conj)
  have v: "push_bit 16 (ucast ?l2) OR push_bit 8 (ucast ?l1) OR (ucast ?l0 :: u32) = ?v"
    using value24 [of ?v] n by (simp add: word_less_nat_alt)
  define h where "h = [rpInitiator p, 1, rpInstruction p AND 0x3F, 0, rpTarget p, t1, t0, 0, ?l2, ?l1, ?l0]"
  have addr: "be_u32_value [a3, a2, a1, a0] = rpAddress p" using be_u32_value_bytes [of "rpAddress p"] a by simp
  have tid: "be_u16_value [t1, t0] = rpTransaction p" using be_u16_value_bytes [of "rpTransaction p"] t by simp
  have ans: "target_answer memory ?c = make_reply h (memory (rpExtended p) (rpAddress p) (unat ?v))"
    by (simp only: target_answer_def c rw d Let_def) (simp add: addr v h_def)
  have i: "is_reply_byte (rpInstruction p AND 0x3F)" "\<not> bit (rpInstruction p AND 0x3F) 5"
    using read by (simp_all add: is_reply_byte_def bit_and_iff packet_isWrite_def instr_isWrite_bit)
  from make_reply_accepted [OF h_def i v [symmetric], of "memory (rpExtended p) (rpAddress p) (unat ?v)"]
  show ?thesis by (intro exI [of _ h]) (simp add: ans len tid)
qed

lemma read_prepare_fields:
  assumes "packet_inv (trCommand t)" and "node_inv node" and "n \<le> bufferSize"
  shows "\<exists>t'. read_prepare la node options a e n timeout t = Some t' \<and>
    trId t' = trId t \<and> trState t' = trState t \<and> trReply t' = trReply t \<and> trBuffer t' = trBuffer t \<and> trBlocking t' \<and>
    packet_inv (trCommand t') \<and> cmd_ready (trCommand t') \<and> \<not> packet_isWrite (trCommand t') \<and>
    rpInitiator (trCommand t') = la \<and> rpAddress (trCommand t') = a \<and> rpExtended (trCommand t') = e \<and>
    rpDataLength (trCommand t') = of_nat n \<and> spw_path (trCommand t') = node_getTargetSpaceWireAddress node"
proof -
  define p where "p = packet_setDataLength (of_nat n) (packet_setAddress a (packet_setExtendedAddress e
    (packet_setReplyFlag True (packet_setVerifyFlag (opVerify options) (packet_setIncrementFlag (opIncrement options)
      (packet_setCommand (packet_setRead (packet_setInitiatorLogicalAddress la (trCommand t)))))))))"
  have p: "packet_inv p" "bit (rpInstruction p) 6" "\<not> bit (rpInstruction p) 7" "\<not> bit (rpInstruction p) 5"
      "rpInitiator p = la" "rpAddress p = a" "rpExtended p = e" "rpDataLength p = of_nat n" "unat (rpDataLength p) = n"
    using assms(1,3) by (simp_all add: p_def setter_defs packet_inv_def instr_bits instr_setPacketType_bit u32_of_nat bufferSize_def)
  have "unat (rpDataLength p) < 2 ^ 31" using assms(3) p(9) by (simp add: bufferSize_def)
  from prepared_command [OF p(1) assms(2) p(2,3) this] packet_setTargetInformation_inv [OF p(1) assms(2)] obtain p' where
    p': "packet_setTargetInformation node p = Some p'" "packet_inv p'" "cmd_ready p'"
      "take (unat (rpSpwLength p')) (rpSpwTargets p') = node_getTargetSpaceWireAddress node"
    by auto
  note f = setTargetInformation_fields [OF p'(1)]
  have "\<not> packet_isWrite p'" using p(4) by (simp add: packet_isWrite_def instr_isWrite_bit f setReplyAddressLength_bit)
  with p' p f show ?thesis
    by (simp add: read_prepare_def p_def [symmetric] transaction_block_def Let_def spw_path_def)
qed

lemma send_construct_read:
  assumes inv: "in_inv la R own s" and i: "i \<in> own" and ready: "cmd_ready (trCommand (inTransactions s ! i))"
    and read: "\<not> packet_isWrite (trCommand (inTransactions s ! i))"
  defines "p \<equiv> packet_setTransactionID (trId (inTransactions s ! i)) (trCommand (inTransactions s ! i))"
  shows "\<exists>m b rest. send_construct big i s = Some (s\<lparr>inSendBuffer := m, inTransactions := (inTransactions s)[i :=
      (inTransactions s ! i)\<lparr>trCommand := packet_sealed big p\<rparr>]\<rparr>, b, True) \<and>
    slice_view m b = command_bytes big p \<and> length m = maxCommandLength \<and> drop (length (spw_path p)) m = header_bytes big p @ rest \<and>
    b = \<lparr>mData = Some 0, mNumberOfElements = length (command_bytes big p)\<rparr>"
proof -
  let ?t = "inTransactions s ! i" and ?b = "\<lparr>mData = Some 0, mNumberOfElements = length (inSendBuffer s)\<rparr>"
  have il: "i < length (inTransactions s)" using in_invD(5) [OF inv i] .
  have len: "length (inSendBuffer s) = 1065"
    using in_invD(2) [OF inv] by (simp add: maxCommandLength_def writeCommandOverhead_def bufferSize_def maxAddressLength_def)
  have p: "packet_inv p" "packet_isCommand p" "\<not> packet_isWrite p"
    using in_invD(7) [OF inv i] ready read
    by (simp_all add: p_def packet_setTransactionID_def packet_inv_def cmd_ready_def packet_isCommand_def packet_isWrite_def)
  have h: "packet_headerLength p \<le> 60" using header_small [OF p(1)] .
  have small: "packet_headerLength p + unat (rpDataLength p) + 1 < 2 ^ 32"
    using h ready by (simp add: p_def cmd_ready_def packet_setTransactionID_def)
  have fits: "command_fits p (length (inSendBuffer s))" using h p(3) len by (simp add: command_fits_def)
  from constructPacket_copies [OF p(1,2) _ _ small, of ?b 0 "inSendBuffer s" big] fits h len
  obtain m where m: "acopy (inSendBuffer s) 0 (command_bytes big p) = Some m" and
    c: "packet_constructPacket big (inSendBuffer s) ?b p = Some (m, slice_first ?b (length (command_bytes big p)), packet_sealed big p, True)"
    by auto
  have "slice_view m (slice_first ?b (length (command_bytes big p))) = command_bytes big p"
    using m length_acopy [OF m] acopy_view [OF m] by (simp add: slice_view_first) (auto simp: slice_view_def acopy_eq_Some)
  moreover have "\<exists>rest. drop (length (spw_path p)) m = header_bytes big p @ rest"
    using m p(3) by (auto simp: acopy_eq_Some command_bytes_def)
  moreover have "send_construct big i s = Some (s\<lparr>inSendBuffer := m, inTransactions := (inTransactions s)[i :=
      ?t\<lparr>trCommand := packet_sealed big p\<rparr>]\<rparr>, slice_first ?b (length (command_bytes big p)), True)"
    using c il by (simp add: send_construct_def mem_simps in_update_def p_def [symmetric] Let_def)
  moreover have "slice_first ?b (length (command_bytes big p)) = \<lparr>mData = Some 0, mNumberOfElements = length (command_bytes big p)\<rparr>"
    using m by (simp add: slice_first_def acopy_eq_Some)
  ultimately show ?thesis using length_acopy [OF m] in_invD(2) [OF inv] by auto
qed

text \<open>
  The send buffer is shared and \<open>sendPacket\<close> does not take the lock. When a second thread builds its
  command between the two halves of \<open>sendPacket\<close> of the first, and both commands have the same length,
  the first thread sends the command of the second.
\<close>

lemma send_buffer_race:
  assumes inv: "in_inv la R own s" and ij: "i \<in> own" "j \<in> own"
    and "cmd_ready (trCommand (inTransactions s ! j))" "\<not> packet_isWrite (trCommand (inTransactions s ! j))"
    and b: "b = \<lparr>mData = Some 0, mNumberOfElements = length (command_bytes big p)\<rparr>"
    and p: "p = packet_setTransactionID (trId (inTransactions s ! j)) (trCommand (inTransactions s ! j))"
  shows "\<exists>s' b'. send_construct big j s = Some (s', b', True) \<and> slice_view (inSendBuffer s') b = command_bytes big p"
  using send_construct_read [OF inv ij(2) assms(4,5), of big] unfolding b p by fastforce

text \<open>The reply reaches the transaction that waits for it.\<close>

lemma reply_stored:
  assumes la: "inAddress s = la" and rx: "accepted la rx"
    and i: "tl_getTransaction (rpTransaction (reply_packet rx packet_empty)) (inTransactions s) = Some i"
    and instr: "rpInstruction (trCommand (inTransactions s ! i)) AND 0x3c = rpInstruction (reply_packet rx packet_empty) AND 0x3c"
  shows "\<exists>t. in_doSingleStep (Some rx) s = Some (s\<lparr>inTransactions := (inTransactions s)[i := t]\<rparr>) \<and>
    trState t = replyReceived \<and> trReply t = reply_packet rx packet_empty \<and> trId t = trId (inTransactions s ! i)"
proof -
  let ?t = "(inTransactions s ! i)\<lparr>trReply := reply_packet rx packet_empty, trBuffer := Some rx, trState := replyReceived\<rparr>"
  have il: "i < length (inTransactions s)" using tl_first_Some i by (simp add: tl_getTransaction_def)
  obtain p' where x: "packet_extractReplyPacket rx la packet_empty = Some (Success, p')" "p' = reply_packet rx packet_empty"
    using extractReplyPacket_result [of rx la packet_empty] rx by (auto simp: accepted_def)
  have rp: "packet_isReply p'" using rx x(2) by (simp add: packet_isReply_bits accepted_def reply_packet_def Let_def)
  have r: "in_resolveTransaction p' s = Some i"
    using i x(2) by (simp add: in_resolveTransaction_def)
  have "in_doSingleStep (Some rx) s = in_handleReplyPacket p' rx s"
    using x(1) rp la by (simp add: in_doSingleStep_def in_receivePacket_def packet_reset_def)
  also have "\<dots> = Some (s\<lparr>inTransactions := (inTransactions s)[i := (if trBlocking ?t then transaction_release ?t else ?t)]\<rparr>)"
    using r il instr x(2) by (simp add: in_handleReplyPacket_def mem_simps in_update_def transaction_setReplyPacket_def
        transaction_setBuffer_def transaction_setState_def packet_assign_eq Let_def)
  finally show ?thesis
    by (intro exI [of _ "if trBlocking ?t then transaction_release ?t else ?t"]) (simp add: transaction_release_def)
qed

lemma reply_delivered:
  assumes inv: "in_inv la R own s" and i: "i \<in> own" and rx: "accepted la rx"
    and tid: "rpTransaction (reply_packet rx packet_empty) = trId (inTransactions s ! i)"
    and instr: "rpInstruction (trCommand (inTransactions s ! i)) AND 0x3c = rpInstruction (reply_packet rx packet_empty) AND 0x3c"
  shows "\<exists>t. in_doSingleStep (Some rx) s = Some (s\<lparr>inTransactions := (inTransactions s)[i := t]\<rparr>) \<and>
    trState t = replyReceived \<and> trReply t = reply_packet rx packet_empty \<and> trId t = trId (inTransactions s ! i)"
  using reply_stored [OF in_invD(1) [OF inv] rx _ instr] tl_finds_own [OF inv i] tid by simp

lemma getNext_keeps: "inTransactions (fst (in_getNextAvailableTransactionID s)) = inTransactions s"
  by (simp add: in_getNextAvailableTransactionID_def Let_def split: option.split)

lemma in_begin_free:
  assumes inv: "in_inv la R own s" and free: "\<exists>t \<in> set (inTransactions s). trState t = notInitiated"
  shows "\<exists>s' i. in_begin True s = Some (s', Inr i) \<and> i \<notin> own \<and> in_inv la R (insert i own) s' \<and>
    trCommand (inTransactions s' ! i) = packet_empty"
proof -
  obtain i where i: "tl_first (\<lambda>t. trState t = notInitiated) (inTransactions s) = Some i"
    using free tl_first_None [of "\<lambda>t. trState t = notInitiated" "inTransactions s"] by fastforce
  then have "i < length (inTransactions s)" using tl_first_Some by blast
  let ?s1 = "s\<lparr>inTransactions := (inTransactions s)[i := transaction_setState reserved (inTransactions s ! i)]\<rparr>"
  obtain s2 tid where s2: "in_getNextAvailableTransactionID ?s1 = (s2, tid)" by fastforce
  then have "inTransactions s2 = inTransactions ?s1" using getNext_keeps [of ?s1] by simp
  moreover have "i < length (inTransactions s)" using tl_first_Some [OF i] by simp
  ultimately have "\<exists>s'. in_begin True s = Some (s', Inr i)"
    using i s2 by (simp add: in_begin_def tl_getFreeTransaction_def in_update_def mem_simps)
  then obtain s' where s': "in_begin True s = Some (s', Inr i)" by blast
  from in_begin_ok [OF inv s'] s' show ?thesis by auto
qed

text \<open>The pieces of such a read, one after the other.\<close>

lemma read_pieces:
  assumes "in_inv la R own s" and "\<exists>t \<in> set (inTransactions s). trState t = notInitiated"
    and "node_inv node" and "0 < length buffer" and "length buffer \<le> 1024" and "\<And>e a k. length (memory e a k) = k"
  obtains s1 i t1 t2 s2 s3 b rx s4 s5 s6 where "in_begin True s = Some (s1, Inr i)" "aread (inTransactions s1) i = Some t1"
    "read_prepare (inAddress s1) node options a e (length buffer) timeout t1 = Some t2" "in_update i (\<lambda>u. t2) s1 = Some s2"
    "send_construct big i s2 = Some (s3, b, True)" "in_doSingleStep (Some rx) s3 = Some s4"
    "in_update i transaction_block s4 = Some s5"
    "read_collect True i buffer s5 = Some (s5, \<lparr>rrResult = success, rrErrorCode = 0, rrReadbytes = of_nat (length buffer)\<rparr>,
       memory e a (length buffer))"
    "in_end i s5 = Some s6" "in_inv la (R \<union> {rx}) own s6"
    "rx = target_answer memory (drop (length (node_getTargetSpaceWireAddress node)) (inSendBuffer s3))"
proof -
  obtain s1 i where s1: "in_begin True s = Some (s1, Inr i)" "i \<notin> own" "in_inv la R (insert i own) s1"
      "trCommand (inTransactions s1 ! i) = packet_empty"
    using in_begin_free [OF assms(1,2)] by blast
  have i: "i \<in> insert i own" by simp
  have il: "i < length (inTransactions s1)" using in_invD(5) [OF s1(3) i] .
  have la: "inAddress s1 = la" using in_invD(1) [OF s1(3)] .
  let ?t1 = "inTransactions s1 ! i"
  obtain t2 where t2: "read_prepare la node options a e (length buffer) timeout ?t1 = Some t2"
      "trId t2 = trId ?t1" "trState t2 = trState ?t1" "trReply t2 = trReply ?t1" "trBuffer t2 = trBuffer ?t1"
      "packet_inv (trCommand t2)" "cmd_ready (trCommand t2)" "\<not> packet_isWrite (trCommand t2)"
      "rpInitiator (trCommand t2) = la" "rpAddress (trCommand t2) = a" "rpExtended (trCommand t2) = e"
      "rpDataLength (trCommand t2) = of_nat (length buffer)" "spw_path (trCommand t2) = node_getTargetSpaceWireAddress node"
    using read_prepare_fields [of ?t1 node "length buffer" la options a e timeout] assms(3,5) s1(4) packet_empty_inv
    by (auto simp: bufferSize_def)
  let ?s2 = "s1\<lparr>inTransactions := (inTransactions s1)[i := t2]\<rparr>"
  have inv2: "in_inv la R (insert i own) ?s2" using t2 by (intro own_update [OF s1(3) i])
  have ts2: "inTransactions ?s2 ! i = t2" using il by simp
  define p where "p = packet_setTransactionID (trId t2) (trCommand t2)"
  obtain m b rest where m: "send_construct big i ?s2 = Some (?s2\<lparr>inSendBuffer := m,
        inTransactions := (inTransactions ?s2)[i := t2\<lparr>trCommand := packet_sealed big p\<rparr>]\<rparr>, b, True)"
      "drop (length (spw_path p)) m = header_bytes big p @ rest"
    using send_construct_read [OF inv2 i, of big] t2(7,8) unfolding ts2 p_def by fastforce
  define t3 where "t3 = t2\<lparr>trCommand := packet_sealed big p\<rparr>"
  define s3 where "s3 = ?s2\<lparr>inSendBuffer := m, inTransactions := (inTransactions ?s2)[i := t3]\<rparr>"
  have c: "send_construct big i ?s2 = Some (s3, b, True)" using m(1) by (simp add: s3_def t3_def)
  have inv3: "in_inv la R (insert i own) s3"
    using send_construct_ok [OF inv2 i, of big] t2(7) c unfolding ts2 by auto
  have ts3: "inTransactions s3 ! i = t3" using il by (simp add: s3_def)
  have path: "spw_path p = node_getTargetSpaceWireAddress node"
    using t2(13) by (simp add: p_def packet_setTransactionID_def spw_path_def)
  have n: "unat (rpDataLength p) = length buffer" using assms(5) t2(12)
    by (simp add: p_def packet_setTransactionID_def u32_of_nat)
  have p: "packet_inv p" "\<not> packet_isWrite p" "unat (rpDataLength p) < 2 ^ 24" "rpInitiator p = la" "rpAddress p = a" "rpExtended p = e"
    "rpTransaction p = trId t2"
    using t2 n assms(5) by (simp_all add: p_def packet_setTransactionID_def packet_inv_def packet_isWrite_def)
  define rx where "rx = target_answer memory (drop (length (node_getTargetSpaceWireAddress node)) (inSendBuffer s3))"
  have wire: "rx = target_answer memory (header_bytes big p @ rest)" using m(2) path by (simp add: rx_def s3_def)
  from answered_command [OF p(1-3), of memory big rest] assms(6) obtain h where
    rx: "accepted la rx" "rpTransaction (reply_packet rx packet_empty) = trId t2"
      "rpInstruction (reply_packet rx packet_empty) = rpInstruction p AND 0x3F" "rpStatus (reply_packet rx packet_empty) = 0"
      "rpDataLength (reply_packet rx packet_empty) = rpDataLength p" "rpData (reply_packet rx packet_empty) = memory e a (length buffer)"
    unfolding wire by (auto simp: p n)
  have "rpInstruction (trCommand t3) AND 0x3c = rpInstruction (reply_packet rx packet_empty) AND 0x3c"
    by (simp add: rx(3) t3_def packet_sealed_def and.assoc)
  from reply_delivered [OF inv3 i rx(1)] this rx(2) obtain t4 where t4: "in_doSingleStep (Some rx) s3 = Some (s3\<lparr>inTransactions := (inTransactions s3)[i := t4]\<rparr>)"
      "trState t4 = replyReceived" "trReply t4 = reply_packet rx packet_empty"
    unfolding ts3 by (auto simp: t3_def)
  let ?s4 = "s3\<lparr>inTransactions := (inTransactions s3)[i := t4]\<rparr>"
  have inv4: "in_inv la (R \<union> {rx}) (insert i own) ?s4" using in_doSingleStep_ok [OF inv3, of "Some rx"] t4(1) by auto
  have il3: "i < length (inTransactions s3)" using in_invD(5) [OF inv3 i] .
  obtain s5 where s5: "in_update i transaction_block ?s4 = Some s5" "in_inv la (R \<union> {rx}) (insert i own) s5"
    using own_block [OF inv4 i] by blast
  have ts5: "inTransactions s5 ! i = transaction_block t4" using s5(1) il3 by (auto simp: in_update_def mem_simps)
  have col: "read_collect True i buffer s5 = Some (s5, \<lparr>rrResult = success, rrErrorCode = 0, rrReadbytes = of_nat (length buffer)\<rparr>,
      memory e a (length buffer))"
    using in_invD(5) [OF s5(2) i] t4(2,3) rx(4-6) n assms(6) t2(12)
    by (simp add: read_collect_def mem_simps ts5 transaction_block_def copy_reply_def result_new_def Let_def p_def packet_setTransactionID_def)
  obtain s6 where s6: "in_end i s5 = Some s6" "in_inv la (R \<union> {rx}) (insert i own - {i}) s6"
    using in_end_ok [OF s5(2) i] by blast
  have "insert i own - {i} = own" using s1(2) by auto
  then have inv6: "in_inv la (R \<union> {rx}) own s6" using s6(2) by simp
  have upd: "in_update i (\<lambda>u. t2) s1 = Some ?s2" "aread (inTransactions s1) i = Some ?t1"
    using il by (simp_all add: in_update_Some mem_simps)
  have "read_prepare (inAddress s1) node options a e (length buffer) timeout ?t1 = Some t2" using t2(1) la by simp
  then show thesis by (rule that [OF s1(1) upd(2) _ upd(1) c _ s5(1) col s6(1) inv6 rx_def]) (rule t4(1))
qed


text \<open>An initiator with the address 118 and a node that is reached without a path.\<close>

definition sample_initiator :: initiator where
  "sample_initiator = initiator_new (replicate maxCommandLength 0) 118"

lemma sample_initiator_inv: "in_inv 118 {} {} sample_initiator"
  by (simp add: sample_initiator_def initiator_new_inv)

lemma sample_initiator_free: "\<exists>t \<in> set (inTransactions sample_initiator). trState t = notInitiated"
  by (simp add: sample_initiator_def initiator_new_def transaction_new_def maxConcurrentTransactions_def)


text \<open>The run of the system in which one thread reads three bytes.\<close>

definition sample_job :: job where
  "sample_job = ReadJob \<lparr>opIncrement = True, opVerify = False, opReply = True\<rparr> 4096 0 [0, 0, 0] node_default (Duration 1000)"

lemma sample_job_ok: "job_ok sample_job"
  using node_new_inv(2) by (simp add: sample_job_def bufferSize_def)

lemma sys_start_initiator: "sys_start (replicate maxCommandLength 0) 118 = \<lparr>syInitiator = sample_initiator, syThreads = (\<lambda>th. Idle)\<rparr>"
  by (simp add: sys_start_def sample_initiator_def)

lemma sample_begun:
  "\<exists>y i. steps (sys_step False (\<lambda>bytes timeout. True)) (sys_start (replicate maxCommandLength 0) 118) [Begins 0 sample_job] y \<and>
     syThreads y 0 = Begun i sample_job"
proof -
  obtain s i where b: "in_begin True sample_initiator = Some (s, Inr i)"
    using in_begin_free [OF sample_initiator_inv sample_initiator_free] by blast
  let ?y = "sys_start (replicate maxCommandLength 0) 118"
  have "sys_step False (\<lambda>bytes timeout. True) ?y (Begins 0 sample_job) (sys_move ?y s 0 (Begun i sample_job))"
    by (rule step_begin) (simp_all add: sys_start_initiator sample_job_ok b)
  then show ?thesis
    by (intro exI [of _ "sys_move ?y s 0 (Begun i sample_job)"] exI [of _ i]) (auto simp: sys_move_def intro: steps.intros)
qed

theorem rmap_transactions_separate_witness:
  "\<exists>(y :: system) i. syThreads y 0 = Begun i sample_job \<and> trId (inTransactions (syInitiator y) ! i) \<noteq> 0"
proof -
  obtain y i where y: "steps (sys_step False (\<lambda>bytes timeout. True)) (sys_start (replicate maxCommandLength 0) 118) [Begins 0 sample_job] y"
    "syThreads y 0 = Begun i sample_job" using sample_begun by blast
  have "slot_of (syThreads y 0) = Some i" by (simp add: y(2))
  from rmap_transactions_separate [OF y(1) _ this]
  have "trId (inTransactions (syInitiator y) ! i) \<noteq> 0" by simp
  with y(2) show ?thesis by blast
qed


lemma sample_woken:
  "\<exists>y i es y' r b. steps (sys_step False (\<lambda>bytes timeout. True)) (sys_start (replicate maxCommandLength 0) 118) es y \<and>
     syThreads y 0 = Woken i sample_job \<and> sys_step False (\<lambda>bytes timeout. True) y (Collects 0 r b) y' \<and>
     rrResult r = success \<and> b = [7, 7, 7]"
proof -
  let ?o = "\<lparr>opIncrement = True, opVerify = False, opReply = True\<rparr>"
  have three: "0 < length [0 :: u8, 0, 0]" "length [0 :: u8, 0, 0] \<le> 1024" by simp_all
  obtain s1 i t1 t2 s2 s3 b rx s4 s5 s6 where p: "in_begin True sample_initiator = Some (s1, Inr i)"
    "aread (inTransactions s1) i = Some t1"
    "read_prepare (inAddress s1) node_default ?o 4096 0 (length [0 :: u8, 0, 0]) (Duration 1000) t1 = Some t2"
    "in_update i (\<lambda>u. t2) s1 = Some s2" "send_construct False i s2 = Some (s3, b, True)"
    "in_doSingleStep (Some rx) s3 = Some s4" "in_update i transaction_block s4 = Some s5"
    "read_collect True i [0, 0, 0] s5 = Some (s5, \<lparr>rrResult = success, rrErrorCode = 0, rrReadbytes = of_nat (length [0 :: u8, 0, 0])\<rparr>,
       replicate (length [0 :: u8, 0, 0]) 7)"
    by (rule read_pieces [OF sample_initiator_inv sample_initiator_free node_new_inv(2) three, of "\<lambda>e a k. replicate k 7"
        ?o 4096 0 "Duration 1000" False]) (simp, blast)
  have "of_nat (length [0 :: u8, 0, 0]) = (3 :: u32)" "replicate (length [0 :: u8, 0, 0]) 7 = [7, 7, 7 :: u8]" by simp_all
  then have collected: "job_collect sample_job True i s5 =
      Some (s5, \<lparr>rrResult = success, rrErrorCode = 0, rrReadbytes = 3\<rparr>, [7, 7, 7])"
    by (simp only: sample_job_def job_collect.simps) (simp only: p(8))
  let ?step = "sys_step False (\<lambda>bytes timeout. True)"
  let ?y0 = "sys_start (replicate maxCommandLength 0) 118"
  let ?y1 = "sys_move ?y0 s1 0 (Begun i sample_job)"
  let ?y2 = "sys_move ?y1 s2 0 (Prepared i sample_job)"
  let ?y3 = "sys_move ?y2 s3 0 (Built i sample_job b True)"
  let ?y4 = "sys_move ?y3 s3 0 (Sent i sample_job True)"
  let ?y5 = "?y4\<lparr>syInitiator := s4\<rparr>"
  let ?y6 = "sys_move ?y5 s5 0 (Woken i sample_job)"
  have "?step ?y0 (Begins 0 sample_job) ?y1"
    by (rule step_begin) (simp_all add: sys_start_initiator sample_job_ok p(1))
  moreover have "?step ?y1 (Prepares 0) ?y2"
    by (rule step_prepare [of _ _ i sample_job t1 t2]) (use p(2-4) in \<open>simp_all add: sys_move_def sample_job_def\<close>)
  moreover have "?step ?y2 (Builds 0) ?y3"
    by (rule step_build) (use p(5) in \<open>simp_all add: sys_move_def\<close>)
  moreover have "\<exists>e. ?step ?y3 e ?y4"
  proof -
    have "\<exists>t. aread (inTransactions s3) i = Some t"
      using p(5) by (auto simp: send_construct_def in_update_def bind_eq_Some_conv awrite_eq_Some aread_def split: prod.splits)
    then have "send_transmit (\<lambda>bytes timeout. True) i b True s3 = Some True" by (auto simp: send_transmit_def)
    then show ?thesis
      using step_transmit [of ?y3 0 i sample_job b True "\<lambda>bytes timeout. True" True False] by (fastforce simp: sys_move_def)
  qed
  moreover have "?step ?y4 (Receives (Some rx)) ?y5"
    by (rule step_receive) (use p(6) in \<open>simp add: sys_move_def\<close>)
  moreover have "?step ?y5 (Wakes 0) ?y6"
    by (rule step_wake) (use p(7) in \<open>simp_all add: sys_move_def sample_job_def\<close>)
  moreover have "?step ?y6 (Collects 0 \<lparr>rrResult = success, rrErrorCode = 0, rrReadbytes = 3\<rparr> [7, 7, 7]) (sys_move ?y6 s5 0 (Collected i))"
    by (rule step_collect [of _ _ i sample_job]) (simp_all add: sys_move_def collected)
  moreover have "syThreads ?y6 0 = Woken i sample_job" by (simp add: sys_move_def)
  moreover have "rrResult \<lparr>rrResult = success, rrErrorCode = 0, rrReadbytes = 3\<rparr> = success" by simp
  ultimately show ?thesis by (blast intro: steps.intros)
qed


subsection \<open>A stray reply\<close>

text \<open>
  Transactions that are not in use keep the number zero, and \<open>handleReplyPacket\<close> does not look at
  their state. A reply with the number zero, to which nobody waits, therefore occupies a free
  transaction; and because no thread holds it, no call ever gives it back.
\<close>

lemma stray_reply_occupies:
  "\<exists>rx s. in_doSingleStep (Some rx) sample_initiator = Some s \<and> trState (inTransactions s ! 0) = replyReceived \<and>
     in_inv 118 {rx} {} s"
proof -
  let ?h = "[118, 1, 0, 0, 254, 0, 0, 0, 0, 0, 0] :: u8 list"
  define rx where "rx = make_reply ?h []"
  have i0: "is_reply_byte 0" "\<not> bit (0 :: u8) 5" by (simp_all add: is_reply_byte_def)
  have rx: "accepted 118 rx" "rpTransaction (reply_packet rx packet_empty) = 0" "rpInstruction (reply_packet rx packet_empty) = 0"
    using make_reply_accepted [OF refl i0, where la = 118 and tgt = 254 and hi = 0 and lo = 0 and ?l2.0 = 0 and ?l1.0 = 0 and ?l0.0 = 0
        and n = 0 and data = "[]"]
    by (simp_all add: rx_def be_u16_value_def)
  have ts: "inTransactions sample_initiator = transaction_new # replicate 9 transaction_new"
    by (simp add: sample_initiator_def initiator_new_def maxConcurrentTransactions_def eval_nat_numeral)
  have "tl_getTransaction (rpTransaction (reply_packet rx packet_empty)) (inTransactions sample_initiator) = Some 0"
    by (simp add: tl_getTransaction_def ts rx(2)) (simp add: transaction_new_def)
  moreover have "rpInstruction (trCommand (inTransactions sample_initiator ! 0)) = 0"
    by (simp add: ts transaction_new_def packet_empty_def)
  moreover have "inAddress sample_initiator = 118" by (simp add: sample_initiator_def initiator_new_def)
  ultimately obtain s where s: "in_doSingleStep (Some rx) sample_initiator = Some s"
      "trState (inTransactions s ! 0) = replyReceived"
    using reply_stored [of sample_initiator 118 rx 0] rx by (auto simp: ts)
  obtain s' where "in_doSingleStep (Some rx) sample_initiator = Some s'" "in_inv 118 {rx} {} s'"
    using in_doSingleStep_ok [OF sample_initiator_inv, of "Some rx"] by auto
  with s show ?thesis by (intro exI [of _ rx] exI [of _ s]) simp
qed

lemma in_end_keeps_others:
  assumes "in_inv la R own s" and "i \<in> own" and "in_end i s = Some s'" and "j \<notin> own"
  shows "inTransactions s' ! j = inTransactions s ! j"
proof -
  have "i \<noteq> j" using assms(2,4) by auto
  then show ?thesis
    using assms(3) tl_removes_own [OF assms(1,2)] by (auto simp: in_end_def bind_eq_Some_conv aread_eq_Some)
qed

text \<open>A write that the target refuses is counted as a checksum error, not as a failed operation.\<close>

lemma write_failure_counted_as_crc_error:
  assumes "aread (inTransactions s) i = Some t" and "trState t = replyReceived" and "rpStatus (trReply t) \<noteq> 0" and "opReply options"
  shows "\<exists>s' r. write_collect options True i s = Some (s', r) \<and> rrResult r = executionFailed \<and>
    ecOperationFailed (inCounters s') = ecOperationFailed (inCounters s) \<and>
    ecPackageCrcError (inCounters s') = szadd (ecPackageCrcError (inCounters s)) 1"
  using assms by (simp add: write_collect_def result_new_def Let_def)

end
