(* ===== verification/Nls_Coder.thy ===== *)
theory Nls_Coder
  imports Bit_Stream
begin

text \<open>
  \<open>NLSEncoder\<close> (compression/nls_encoder): wavelet coefficients are coded bit plane by bit plane, and
  whole sets of coefficients that are still below the plane cost one bit. The coefficients form a
  tree; a table of markers says which of them are coded on their own, which lead a set, and how many
  entries a scan may skip.

  \<open>uint16_t\<close> indices are natural numbers with the wrap around written out (\<open>wrap_u16\<close>), \<open>int16_t\<close>
  values are integers cut to 16 bits where the code stores them (\<open>wrap_i16\<close>). Reading or writing a
  table beyond its end is \<open>None\<close>, and so is a loop that does not end (\<open>nls_while\<close>). \<open>encode\<close> and
  \<open>decode\<close> scan the table in the same way; the steps of the three passes are written once, with the
  operations on the stream and the values as arguments.
\<close>

definition wrap_u16 :: "nat \<Rightarrow> nat" where
  "wrap_u16 n = n mod 65536"

definition wrap_i16 :: "int \<Rightarrow> int" where
  "wrap_i16 v = (v + 32768) mod 65536 - 32768"

text \<open>\<open>outpost::utils::max<int16_t>\<close> and \<open>Log2\<close>\<close>

fun max_i16 :: "int list \<Rightarrow> int" where
  "max_i16 [] = 0"
| "max_i16 [a] = wrap_i16 a"
| "max_i16 (a # bs) = (let sub = max_i16 bs in if sub < wrap_i16 a then wrap_i16 a else sub)"

fun Log2 :: "size_t \<Rightarrow> size_t" where
  "Log2 n = (if n < 2 then 0 else 1 + Log2 (n div 2))"

declare Log2.simps [simp del]

subsection \<open>Markers\<close>

text \<open>\<open>MN k\<close> stands for \<open>MN2\<close> to \<open>MN14\<close>; other values of \<open>k\<close> are not enumerators.\<close>

datatype marker = NM | MIP | MNP | MSP | MCP | MD | MG | MN nat

fun skip :: "marker \<Rightarrow> nat" where
  "skip MD = 2"
| "skip MG = 4"
| "skip (MN k) = (if 2 \<le> k \<and> k \<le> 14 then 2 ^ (k - 1) else 1)"
| "skip c = 1"

fun isSkip :: "marker \<Rightarrow> nat" where
  "isSkip MCP = 1"
| "isSkip NM = 1"
| "isSkip MG = 4"
| "isSkip (MN k) = (if 2 \<le> k \<and> k \<le> 14 then 2 ^ (k - 1) else 1)"
| "isSkip c = 2"

definition MAX_LENGTH :: nat where "MAX_LENGTH = 4096"

record nls =
  nsMark :: "marker list"
  nsDmax :: "int list"
  nsGmax :: "int list"

definition nls_new :: nls where
  "nls_new = \<lparr>nsMark = replicate MAX_LENGTH NM, nsDmax = replicate (MAX_LENGTH div 2) 0,
     nsGmax = replicate (MAX_LENGTH div 4) 0\<rparr>"

text \<open>The loop of \<open>push\<close> does not end when \<open>pI\<close> is 0.\<close>

partial_function (option) nls_push_loop :: "nat \<Rightarrow> marker list \<Rightarrow> nat \<Rightarrow> nat \<Rightarrow> marker list option" where
  "nls_push_loop len mk pI offset =
     (if pI < len then do {
        mk \<leftarrow> awrite mk pI (MN (2 + offset));
        nls_push_loop len mk (wrap_u16 (2 * pI)) ((offset + 1) mod 256) }
      else Some mk)"

definition nls_push :: "marker list \<Rightarrow> nat \<Rightarrow> nat \<Rightarrow> marker list option" where
  "nls_push mk pI len = nls_push_loop len mk (wrap_u16 (2 * pI)) 0"

subsection \<open>The passes\<close>

text \<open>\<open>while (j < N) { ... if (stop) break; }\<close>\<close>

partial_function (option) nls_while ::
    "nat \<Rightarrow> ('s \<Rightarrow> nat \<Rightarrow> ('s \<times> nat) option) \<Rightarrow> ('s \<Rightarrow> bool) \<Rightarrow> 's \<Rightarrow> nat \<Rightarrow> 's option" where
  "nls_while N step stop c j =
     (if j < N then do {
        (c, j) \<leftarrow> step c j;
        if stop c then Some c else nls_while N step stop c j }
      else Some c)"

text \<open>
  \<open>marks\<close> and \<open>remark\<close> read and replace the table of markers. \<open>coef j\<close> codes the significance and the
  sign of a coefficient, \<open>test_d\<close> and \<open>test_g\<close> that of a set, \<open>refine\<close> one more bit of a coefficient.
\<close>

definition nls_ip_step ::
    "('s \<Rightarrow> marker list) \<Rightarrow> (nat \<Rightarrow> 's \<Rightarrow> (bool \<times> 's) option) \<Rightarrow> 's \<Rightarrow> nat \<Rightarrow> ('s \<times> nat) option" where
  "nls_ip_step marks coef c j = do {
     a \<leftarrow> aread (marks c) j;
     if a = MIP then do { (sig, c) \<leftarrow> coef j c; Some (c, wrap_u16 (j + 1)) }
     else Some (c, wrap_u16 (j + skip a)) }"

definition nls_is_step ::
    "('s \<Rightarrow> marker list) \<Rightarrow> (marker list \<Rightarrow> 's \<Rightarrow> 's) \<Rightarrow> (nat \<Rightarrow> 's \<Rightarrow> (bool \<times> 's) option) \<Rightarrow>
     (nat \<Rightarrow> 's \<Rightarrow> (bool \<times> 's) option) \<Rightarrow> (nat \<Rightarrow> 's \<Rightarrow> (bool \<times> 's) option) \<Rightarrow> nat \<Rightarrow> 's \<Rightarrow> nat \<Rightarrow> ('s \<times> nat) option" where
  "nls_is_step marks remark coef test_d test_g N c j = do {
     a \<leftarrow> aread (marks c) j;
     if a = MD then do {
       (sig, c) \<leftarrow> test_d (j div 2) c;
       if sig then do {
         mk \<leftarrow> awrite (marks c) (j + 1) MCP;
         mk \<leftarrow> awrite mk j MCP;
         mk \<leftarrow> (if 2 * j < N then awrite mk (2 * j) MG else Some mk);
         Some (remark mk c, j) }
       else Some (c, wrap_u16 (j + 2)) }
     else if a = MG then do {
       (sig, c) \<leftarrow> test_g (j div 4) c;
       if sig then do {
         mk \<leftarrow> awrite (marks c) (j + 2) MD;
         mk \<leftarrow> awrite mk j MD;
         mk \<leftarrow> nls_push mk j N;
         mk \<leftarrow> nls_push mk (wrap_u16 (j + 2)) N;
         Some (remark mk c, j) }
       else Some (c, wrap_u16 (j + 4)) }
     else if a = MCP then do {
       (sig, c) \<leftarrow> coef j c;
       c \<leftarrow> (if sig then Some c else do { mk \<leftarrow> awrite (marks c) j MIP; Some (remark mk c) });
       Some (c, wrap_u16 (j + 1)) }
     else Some (c, wrap_u16 (j + isSkip a)) }"

definition nls_ref_step ::
    "('s \<Rightarrow> marker list) \<Rightarrow> (marker list \<Rightarrow> 's \<Rightarrow> 's) \<Rightarrow> (nat \<Rightarrow> 's \<Rightarrow> 's option) \<Rightarrow> 's \<Rightarrow> nat \<Rightarrow> ('s \<times> nat) option" where
  "nls_ref_step marks remark refine c j = do {
     a \<leftarrow> aread (marks c) j;
     if a = MSP then do { c \<leftarrow> refine j c; Some (c, wrap_u16 (j + 1)) }
     else if a = MNP then do { mk \<leftarrow> awrite (marks c) j MSP; Some (remark mk c, wrap_u16 (j + 1)) }
     else Some (c, wrap_u16 (j + skip a)) }"

declare nls_push_loop.simps [code] nls_while.simps [code]

subsection \<open>Encoding\<close>

record encoding =
  enMark :: "marker list"
  enValues :: "int list"
  enMemory :: "u8 list"
  enStream :: bitstream

definition en_remark :: "marker list \<Rightarrow> encoding \<Rightarrow> encoding" where
  "en_remark mk c = c\<lparr>enMark := mk\<rparr>"

definition en_push :: "bool \<Rightarrow> encoding \<Rightarrow> encoding option" where
  "en_push b c = do {
     (m, bs) \<leftarrow> bs_pushBit (enMemory c) (enStream c) b;
     Some (c\<lparr>enMemory := m, enStream := bs\<rparr>) }"

definition en_coef :: "int \<Rightarrow> nat \<Rightarrow> encoding \<Rightarrow> (bool \<times> encoding) option" where
  "en_coef s j c = do {
     v \<leftarrow> aread (enValues c) j;
     let sig = (\<bar>v\<bar> \<ge> s);
     c \<leftarrow> en_push sig c;
     if sig then do {
       c \<leftarrow> en_push (v < 0) c;
       mk \<leftarrow> awrite (enMark c) j MNP;
       xs \<leftarrow> awrite (enValues c) j (wrap_i16 \<bar>v\<bar>);
       Some (True, c\<lparr>enMark := mk, enValues := xs\<rparr>) }
     else Some (False, c) }"

definition en_test :: "int list \<Rightarrow> int \<Rightarrow> nat \<Rightarrow> encoding \<Rightarrow> (bool \<times> encoding) option" where
  "en_test maxima s k c = do {
     v \<leftarrow> aread maxima k;
     let sig = (v \<ge> s);
     c \<leftarrow> en_push sig c;
     Some (sig, c) }"

definition en_refine :: "int \<Rightarrow> nat \<Rightarrow> encoding \<Rightarrow> encoding option" where
  "en_refine s j c = do {
     v \<leftarrow> aread (enValues c) j;
     en_push (v AND s > 0) c }"

definition en_stop :: "size_t \<Rightarrow> encoding \<Rightarrow> bool" where
  "en_stop maxBytes c \<longleftrightarrow> unat (bs_getSize (enStream c)) > maxBytes"

fun nls_enc_planes :: "int list \<Rightarrow> int list \<Rightarrow> nat \<Rightarrow> size_t \<Rightarrow> nat \<Rightarrow> int \<Rightarrow> encoding \<Rightarrow> encoding option" where
  "nls_enc_planes dmax gmax N maxBytes 0 s c = Some c"
| "nls_enc_planes dmax gmax N maxBytes (Suc n) s c = do {
     c \<leftarrow> nls_while N (nls_ip_step enMark (en_coef s)) (en_stop maxBytes) c 0;
     if en_stop maxBytes c then Some c else do {
     c \<leftarrow> nls_while N (nls_is_step enMark en_remark (en_coef s) (en_test dmax s) (en_test gmax s) N)
            (en_stop maxBytes) c 0;
     if en_stop maxBytes c then Some c else do {
     c \<leftarrow> nls_while N (nls_ref_step enMark en_remark (en_refine s)) (en_stop maxBytes) c 0;
     if en_stop maxBytes c then Some c
     else nls_enc_planes dmax gmax N maxBytes n (s div 2) c }}}"

text \<open>The largest of the first \<open>dcComponents\<close> values; the first one is taken with its sign.\<close>

fun nls_dc_max :: "int list \<Rightarrow> nat list \<Rightarrow> int \<Rightarrow> int option" where
  "nls_dc_max xs [] mx = Some mx"
| "nls_dc_max xs (i # is) mx = do {
     v \<leftarrow> aread xs i;
     nls_dc_max xs is (if mx < \<bar>v\<bar> then wrap_i16 \<bar>v\<bar> else mx) }"

function nls_dmax_loop :: "int list \<Rightarrow> nat \<Rightarrow> int list \<Rightarrow> int \<Rightarrow> (int list \<times> int) option" where
  "nls_dmax_loop xs i dmax mx =
     (if i \<ge> 2 then do {
        v \<leftarrow> aread xs i;
        let mx = (if \<bar>v\<bar> > mx then wrap_i16 \<bar>v\<bar> else mx);
        w \<leftarrow> aread xs (i - 1);
        let mx = (if \<bar>w\<bar> > mx then wrap_i16 \<bar>w\<bar> else mx);
        d \<leftarrow> (if i < length xs div 2 then do {
                a \<leftarrow> aread dmax i;
                b \<leftarrow> aread dmax (i - 1);
                Some (max_i16 [\<bar>w\<bar>, \<bar>v\<bar>, a, b]) }
              else Some (max_i16 [\<bar>w\<bar>, \<bar>v\<bar>]));
        dmax \<leftarrow> awrite dmax (i div 2) d;
        nls_dmax_loop xs (i - 2) dmax mx }
      else Some (dmax, mx))"
  by pat_completeness auto

termination by (relation "measure (\<lambda>(xs, i, dmax, mx). i)") auto

declare nls_dmax_loop.simps [simp del]

fun nls_gmax_loop :: "int list \<Rightarrow> nat list \<Rightarrow> int list \<Rightarrow> int list option" where
  "nls_gmax_loop dmax [] gmax = Some gmax"
| "nls_gmax_loop dmax (i # is) gmax = do {
     a \<leftarrow> aread dmax (2 * i);
     b \<leftarrow> aread dmax (2 * i + 1);
     gmax \<leftarrow> awrite gmax i (max_i16 [a, b]);
     nls_gmax_loop dmax is gmax }"

text \<open>Four bits of a number, the highest first.\<close>

definition en_push4 :: "nat \<Rightarrow> encoding \<Rightarrow> encoding option" where
  "en_push4 v c = do {
     c \<leftarrow> en_push (bit v 3) c;
     c \<leftarrow> en_push (bit v 2) c;
     c \<leftarrow> en_push (bit v 1) c;
     en_push (bit v 0) c }"

fun nls_fill :: "marker \<Rightarrow> nat list \<Rightarrow> marker list \<Rightarrow> marker list option" where
  "nls_fill a [] mk = Some mk"
| "nls_fill a (i # is) mk = do { mk \<leftarrow> awrite mk i a; nls_fill a is mk }"

fun nls_fill_md :: "nat \<Rightarrow> nat list \<Rightarrow> marker list \<Rightarrow> marker list option" where
  "nls_fill_md N [] mk = Some mk"
| "nls_fill_md N (i # is) mk = do {
     mk \<leftarrow> awrite mk i MD;
     mk \<leftarrow> nls_push mk i N;
     nls_fill_md N is mk }"

text \<open>
  \<open>encode\<close> with all its arguments. A shift by more bits than an \<open>int\<close> has is undefined. The result
  is the coder, the values (which the coder changes), and the stream with its memory.
\<close>

definition nls_encode_n ::
    "nls \<Rightarrow> int list \<Rightarrow> u8 list \<Rightarrow> bitstream \<Rightarrow> u8 \<Rightarrow> size_t \<Rightarrow> (nls \<times> int list \<times> u8 list \<times> bitstream) option" where
  "nls_encode_n e xs m bs dcComponents maxBytes = do {
     let N = length xs;
     let dc = unat dcComponents;
     let maxBytes = (if maxBytes = 0 then 2 * N else maxBytes);
     dmax \<leftarrow> awrite (nsDmax e) 0 0;
     gmax \<leftarrow> awrite (nsGmax e) 0 0;
     x0 \<leftarrow> aread xs 0;
     mx \<leftarrow> nls_dc_max xs [1..<dc] x0;
     (dmax, mx) \<leftarrow> nls_dmax_loop xs (wrap_u16 (N - 1)) dmax mx;
     gmax \<leftarrow> nls_gmax_loop dmax [1..<N div 4] gmax;
     let n = Log2 (nat (mx mod 2 ^ size_bits));
     s \<leftarrow> (if n < 31 then Some (int (wrap_u16 (2 ^ n))) else None);
     let c = \<lparr>enMark = nsMark e, enValues = xs, enMemory = m, enStream = bs\<rparr>;
     c \<leftarrow> en_push4 n c;
     c \<leftarrow> en_push4 dc c;
     c \<leftarrow> en_push4 (Log2 N) c;
     mk \<leftarrow> nls_fill MIP [0..<dc] (enMark c);
     mk \<leftarrow> nls_fill_md N [dc..<2 * dc] mk;
     mk \<leftarrow> nls_fill NM [2 * dc..<N] mk;
     c \<leftarrow> nls_enc_planes dmax gmax N maxBytes (Suc n) s (c\<lparr>enMark := mk\<rparr>);
     Some (\<lparr>nsMark = enMark c, nsDmax = dmax, nsGmax = gmax\<rparr>, enValues c, enMemory c, enStream c) }"

definition nls_encode :: "nls \<Rightarrow> int list \<Rightarrow> u8 list \<Rightarrow> bitstream \<Rightarrow> (nls \<times> int list \<times> u8 list \<times> bitstream) option" where
  "nls_encode e xs m bs = nls_encode_n e xs m bs 2 0"

subsection \<open>Decoding\<close>

record decoding =
  deMark :: "marker list"
  deValues :: "int list"
  deSigns :: "bool list"
  dePointer :: nat

definition de_remark :: "marker list \<Rightarrow> decoding \<Rightarrow> decoding" where
  "de_remark mk c = c\<lparr>deMark := mk\<rparr>"

definition de_bit :: "u8 list \<Rightarrow> bitstream \<Rightarrow> decoding \<Rightarrow> (bool \<times> decoding) option" where
  "de_bit m bs c = do {
     b \<leftarrow> bs_getBit m bs (of_nat (dePointer c));
     Some (b, c\<lparr>dePointer := wrap_u16 (dePointer c + 1)\<rparr>) }"

definition de_test :: "u8 list \<Rightarrow> bitstream \<Rightarrow> nat \<Rightarrow> decoding \<Rightarrow> (bool \<times> decoding) option" where
  "de_test m bs k c = de_bit m bs c"

text \<open>\<open>outBuffer[i] += (1 - 2 * signs[i]) * d\<close>\<close>

definition de_add :: "nat \<Rightarrow> int \<Rightarrow> decoding \<Rightarrow> decoding option" where
  "de_add j d c = do {
     sign \<leftarrow> aread (deSigns c) j;
     v \<leftarrow> aread (deValues c) j;
     vs \<leftarrow> awrite (deValues c) j (wrap_i16 (v + (1 - 2 * of_bool sign) * d));
     Some (c\<lparr>deValues := vs\<rparr>) }"

definition de_coef :: "u8 list \<Rightarrow> bitstream \<Rightarrow> int \<Rightarrow> nat \<Rightarrow> decoding \<Rightarrow> (bool \<times> decoding) option" where
  "de_coef m bs s j c = do {
     (sig, c) \<leftarrow> de_bit m bs c;
     if sig then do {
       (sign, c) \<leftarrow> de_bit m bs c;
       signs \<leftarrow> awrite (deSigns c) j sign;
       mk \<leftarrow> awrite (deMark c) j MNP;
       c \<leftarrow> de_add j (s + s div 2) (c\<lparr>deSigns := signs, deMark := mk\<rparr>);
       Some (True, c) }
     else Some (False, c) }"

definition de_refine :: "u8 list \<Rightarrow> bitstream \<Rightarrow> int \<Rightarrow> nat \<Rightarrow> decoding \<Rightarrow> decoding option" where
  "de_refine m bs s j c = do {
     (sig, c) \<leftarrow> de_bit m bs c;
     de_add j (if sig then s div 2 else s div 2 - s) c }"

definition de_end :: "bitstream \<Rightarrow> decoding \<Rightarrow> bool" where
  "de_end bs c \<longleftrightarrow> dePointer c div 8 > unat (bs_getSize bs)"

fun nls_dec_planes :: "u8 list \<Rightarrow> bitstream \<Rightarrow> nat \<Rightarrow> nat \<Rightarrow> int \<Rightarrow> decoding \<Rightarrow> decoding option" where
  "nls_dec_planes m bs N 0 s c = Some c"
| "nls_dec_planes m bs N (Suc n) s c = do {
     c \<leftarrow> nls_while N (nls_ip_step deMark (de_coef m bs s)) (\<lambda>c. False) c 0;
     if de_end bs c then Some c else do {
     c \<leftarrow> nls_while N (nls_is_step deMark de_remark (de_coef m bs s) (de_test m bs) (de_test m bs) N)
            (\<lambda>c. False) c 0;
     if de_end bs c then Some c else do {
     c \<leftarrow> nls_while N (nls_ref_step deMark de_remark (de_refine m bs s)) (\<lambda>c. False) c 0;
     if de_end bs c then Some c
     else nls_dec_planes m bs N n (s div 2) c }}}"

fun nls_clear :: "'a \<Rightarrow> nat list \<Rightarrow> 'a list \<Rightarrow> 'a list option" where
  "nls_clear v [] xs = Some xs"
| "nls_clear v (i # is) xs = do { xs \<leftarrow> awrite xs i v; nls_clear v is xs }"

text \<open>
  \<open>signs\<close> is what the stack holds before. The result is the coder, the buffer of the caller, and the
  part of it that \<open>decode\<close> returns.
\<close>

definition nls_decode ::
    "nls \<Rightarrow> u8 list \<Rightarrow> bitstream \<Rightarrow> int list \<Rightarrow> bool list \<Rightarrow> (nls \<times> int list \<times> int list) option" where
  "nls_decode e m bs out signs = do {
     b0 \<leftarrow> bs_getByte m bs 0;
     let n = unat b0 div 16;
     let dc = unat b0 mod 16;
     let s = int (wrap_u16 (2 ^ n));
     b1 \<leftarrow> bs_getByte m bs 1;
     let N = 2 ^ (unat b1 div 16);
     if N < 8 \<or> length out < N then Some (e, out, [])
     else do {
       mk \<leftarrow> nls_fill NM [0..<N] (nsMark e);
       out \<leftarrow> nls_clear 0 [0..<N] out;
       signs \<leftarrow> nls_clear False [0..<N] signs;
       mk \<leftarrow> nls_fill MIP [0..<dc] mk;
       mk \<leftarrow> nls_fill_md N [dc..<2 * dc] mk;
       c \<leftarrow> nls_dec_planes m bs N (Suc n) s
              \<lparr>deMark = mk, deValues = out, deSigns = signs, dePointer = 12\<rparr>;
       Some (e\<lparr>nsMark := deMark c\<rparr>, deValues c, take N (deValues c)) } }"

end
