(* ===== verification/Nls_Tree.thy ===== *)
theory Nls_Tree
  imports Nls_Coder
begin

text \<open>
  The table of markers of the NLS coder as a tree. Entries \<open>2 q\<close> and \<open>2 q + 1\<close> are the pair \<open>q\<close>; the
  children of the pair \<open>q\<close> are the pairs \<open>2 q\<close> and \<open>2 q + 1\<close>. A pair is coded on its own (\<open>Pix\<close>),
  leads the set of all pairs below and including it (\<open>Dset\<close>), leads the two sets of itself and its
  right neighbour (\<open>Gset\<close>), or belongs to the set of another pair (\<open>Hidden\<close>). \<open>marks_rel\<close> says what the
  table holds for each pair; the updates of the code keep it.
\<close>

datatype pstate = Hidden | Dset | Gset | Pix marker marker

definition is_pix :: "pstate \<Rightarrow> bool" where
  "is_pix a \<longleftrightarrow> (\<exists>x y. a = Pix x y)"

lemma is_pix_simps [simp]: "is_pix (Pix x y)" "\<not> is_pix Hidden" "\<not> is_pix Dset" "\<not> is_pix Gset"
  by (simp_all add: is_pix_def)

text \<open>The states of the children of a pair fit to its own; \<open>P\<close> is the number of pairs.\<close>

definition children_ok :: "(nat \<Rightarrow> pstate) \<Rightarrow> nat \<Rightarrow> bool" where
  "children_ok st p \<longleftrightarrow>
     (if is_pix (st p) then (st (2 * p) = Gset \<and> st (2 * p + 1) = Hidden) \<or>
        ((st (2 * p) = Dset \<or> is_pix (st (2 * p))) \<and> (st (2 * p + 1) = Dset \<or> is_pix (st (2 * p + 1))))
      else st (2 * p) = Hidden \<and> st (2 * p + 1) = Hidden)"

definition tree_ok :: "nat \<Rightarrow> (nat \<Rightarrow> pstate) \<Rightarrow> bool" where
  "tree_ok P st \<longleftrightarrow> is_pix (st 0) \<and> (st 1 = Dset \<or> is_pix (st 1)) \<and> (\<forall>p\<ge>1. 2 * p < P \<longrightarrow> children_ok st p)"

definition hidden_ok :: "(nat \<Rightarrow> pstate) \<Rightarrow> marker list \<Rightarrow> nat \<Rightarrow> bool" where
  "hidden_ok st mk q \<longleftrightarrow> mk ! (2 * q + 1) = NM \<and> (mk ! (2 * q) = NM \<or>
     (\<exists>t\<le>12. mk ! (2 * q) = MN (t + 2) \<and> 2 ^ t dvd q \<and> (st (q div 2 ^ t) = Hidden \<or> st (q div 2 ^ t) = Gset)))"

definition pair_ok :: "(nat \<Rightarrow> pstate) \<Rightarrow> marker list \<Rightarrow> nat \<Rightarrow> bool" where
  "pair_ok st mk q \<longleftrightarrow>
     (case st q of
        Pix a b \<Rightarrow> mk ! (2 * q) = a \<and> mk ! (2 * q + 1) = b
      | Dset \<Rightarrow> mk ! (2 * q) = MD
      | Gset \<Rightarrow> mk ! (2 * q) = MG
      | Hidden \<Rightarrow> hidden_ok st mk q)"

definition marks_rel :: "nat \<Rightarrow> marker list \<Rightarrow> (nat \<Rightarrow> pstate) \<Rightarrow> bool" where
  "marks_rel P mk st \<longleftrightarrow> length mk = MAX_LENGTH \<and> (\<forall>q<P. pair_ok st mk q)"

text \<open>The sizes that the coder can work with.\<close>

definition size_ok :: "nat \<Rightarrow> bool" where
  "size_ok P \<longleftrightarrow> (\<exists>k. P = 2 ^ k \<and> 2 \<le> k \<and> k \<le> 11)"

lemma size_okD: "size_ok P \<Longrightarrow> 4 \<le> P \<and> P \<le> 2048 \<and> even P"
proof -
  assume "size_ok P"
  then obtain k where k: "P = 2 ^ k" "2 \<le> k" "k \<le> 11" by (auto simp: size_ok_def)
  have "(2 :: nat) ^ 2 \<le> 2 ^ k" "(2 :: nat) ^ k \<le> 2 ^ 11" using k by (intro power_increasing; simp)+
  with k show ?thesis by simp
qed

lemma size_ok_double: "size_ok P \<Longrightarrow> 2 * q < P \<Longrightarrow> 2 * q + 1 < P"
  using size_okD [of P] by (auto elim!: evenE)

subsection \<open>Pairs below a set are hidden\<close>

lemma below_hidden:
  assumes "tree_ok P st" and "1 \<le> p" and "\<not> is_pix (st p)" and "r < P" and "r div 2 ^ k = p" and "1 \<le> k"
  shows "st r = Hidden"
  using assms
proof (induction k arbitrary: r)
  case (Suc k)
  define h where "h = r div 2"
  have h: "h div 2 ^ k = p" using Suc.prems(5) by (simp add: h_def div_mult2_eq [symmetric] mult.commute)
  have "1 \<le> h" using h Suc.prems(2) by (cases "h = 0") auto
  have hP: "2 * h < P" "h < P" using Suc.prems(4) by (auto simp: h_def)
  have "\<not> is_pix (st h)"
  proof (cases "k = 0")
    case True
    with h Suc.prems(3) show ?thesis by simp
  next
    case False
    then have "st h = Hidden" using Suc.IH [OF Suc.prems(1-3) hP(2) h] by simp
    then show ?thesis by simp
  qed
  moreover have "children_ok st h" using Suc.prems(1) \<open>1 \<le> h\<close> hP(1) by (simp add: tree_ok_def)
  ultimately have "st (2 * h) = Hidden" "st (2 * h + 1) = Hidden" by (simp_all add: children_ok_def)
  moreover have "r = 2 * h \<or> r = 2 * h + 1" by (auto simp: h_def)
  ultimately show ?case by auto
qed simp

lemma parent_of: "1 < (q :: nat) \<Longrightarrow> 1 \<le> q div 2 \<and> (q = 2 * (q div 2) \<or> q = 2 * (q div 2) + 1)"
  by auto

text \<open>What the state of a pair says about its neighbourhood.\<close>

lemma tree_children:
  assumes "tree_ok P st" and "1 \<le> p" and "2 * p < P" and "\<not> is_pix (st p)"
  shows "st (2 * p) = Hidden" and "st (2 * p + 1) = Hidden"
  using assms by (auto simp: tree_ok_def children_ok_def)

lemma tree_parent:
  assumes "tree_ok P st" and "1 < q" and "q < P" and "st q \<noteq> Hidden"
  shows "is_pix (st (q div 2))"
proof (rule ccontr)
  assume "\<not> is_pix (st (q div 2))"
  moreover have "children_ok st (q div 2)" using assms(1-3) by (auto simp: tree_ok_def)
  ultimately show False using assms(4) parent_of [OF assms(2)] by (auto simp: children_ok_def)
qed

lemma gset_even:
  assumes "tree_ok P st" and "st q = Gset" and "q < P"
  shows "2 \<le> q" and "even q" and "is_pix (st (q div 2))" and "st (q + 1) = Hidden"
proof -
  have "q \<noteq> 0" "q \<noteq> 1" using assms(1,2) unfolding tree_ok_def by (metis is_pix_simps(4), metis is_pix_simps(4) pstate.distinct(7))
  then show q: "2 \<le> q" by simp
  then show p: "is_pix (st (q div 2))" using tree_parent [OF assms(1) _ assms(3)] assms(2) by simp
  have "children_ok st (q div 2)" using assms(1,3) q by (auto simp: tree_ok_def)
  with p q assms(2) parent_of [of q] have r: "q = 2 * (q div 2)" "st (q + 1) = Hidden" by (auto simp: children_ok_def)
  show "even q" by (subst r(1)) simp
  show "st (q + 1) = Hidden" by (rule r(2))
qed

text \<open>An entry that a scan may jump over hides all it jumps over.\<close>

lemma hidden_run:
  assumes "tree_ok P st" and "1 \<le> q" and "2 ^ t dvd q" and "st (q div 2 ^ t) = Hidden \<or> st (q div 2 ^ t) = Gset"
    and "st q = Hidden" and "q \<le> r" and "r < q + 2 ^ t" and "r < P"
  shows "st r = Hidden"
proof (cases "t = 0")
  case True
  with assms show ?thesis by (metis One_nat_def add.commute le_antisym less_Suc_eq_le plus_1_eq_Suc power_0)
next
  case False
  obtain u where u: "q = 2 ^ t * u" using assms(3) by blast
  then have "q div 2 ^ t = u" "1 \<le> u" using assms(2) by (auto simp: Suc_le_eq)
  moreover have "r div 2 ^ t = u"
  proof (rule div_nat_eqI)
    show "2 ^ t * u \<le> r" using u assms(6) by simp
    show "r < 2 ^ t * Suc u" using u assms(7) by simp
  qed
  ultimately show ?thesis
    using below_hidden [OF assms(1), of u r t] assms(4,8) False by auto
qed

subsection \<open>Updates\<close>

lemma pair_ok_cong:
  "st' q = st q \<Longrightarrow> mk' ! (2 * q) = mk ! (2 * q) \<Longrightarrow> mk' ! (2 * q + 1) = mk ! (2 * q + 1) \<Longrightarrow>
   (\<And>t. st q = Hidden \<Longrightarrow> mk ! (2 * q) = MN (t + 2) \<Longrightarrow> 2 ^ t dvd q \<Longrightarrow> st (q div 2 ^ t) = Hidden \<or> st (q div 2 ^ t) = Gset \<Longrightarrow>
      st' (q div 2 ^ t) = Hidden \<or> st' (q div 2 ^ t) = Gset) \<Longrightarrow>
   pair_ok st mk q \<Longrightarrow> pair_ok st' mk' q"
  by (cases "st q") (auto simp: pair_ok_def hidden_ok_def)

lemma marks_rel_pixel:
  assumes "marks_rel P mk st" and "st q = Pix a b" and "q < P" and "P \<le> 2048"
  shows "marks_rel P (mk[2 * q := a']) (st(q := Pix a' b))"
    and "marks_rel P (mk[2 * q + 1 := b']) (st(q := Pix a b'))"
proof -
  have l: "length mk = MAX_LENGTH" and ok: "\<And>r. r < P \<Longrightarrow> pair_ok st mk r"
    using assms(1) by (auto simp: marks_rel_def)
  have in_range: "2 * q + 1 < length mk" using assms(3,4) l by (simp add: MAX_LENGTH_def)
  have "pair_ok (st(q := Pix a' b)) (mk[2 * q := a']) r" "pair_ok (st(q := Pix a b')) (mk[2 * q + 1 := b']) r" if "r < P" for r
  proof -
    have odd: "2 * r + 1 \<noteq> 2 * q" "2 * q + 1 \<noteq> 2 * r" by presburger+
    show "pair_ok (st(q := Pix a' b)) (mk[2 * q := a']) r"
    proof (cases "r = q")
      case True
      with ok [OF that] assms(2) in_range show ?thesis by (simp add: pair_ok_def)
    next
      case False
      with odd assms(2) show ?thesis by (intro pair_ok_cong [OF _ _ _ _ ok [OF that]]) auto
    qed
    show "pair_ok (st(q := Pix a b')) (mk[2 * q + 1 := b']) r"
    proof (cases "r = q")
      case True
      with ok [OF that] assms(2) in_range show ?thesis by (simp add: pair_ok_def)
    next
      case False
      with odd assms(2) show ?thesis by (intro pair_ok_cong [OF _ _ _ _ ok [OF that]]) auto
    qed
  qed
  with l show "marks_rel P (mk[2 * q := a']) (st(q := Pix a' b))" "marks_rel P (mk[2 * q + 1 := b']) (st(q := Pix a b'))"
    by (simp_all add: marks_rel_def)
qed

lemma children_ok_pix:
  assumes "is_pix (st q)"
  shows "children_ok (st(q := Pix a b)) p = children_ok st p"
proof -
  have "is_pix ((st(q := Pix a b)) r) = is_pix (st r)" "((st(q := Pix a b)) r = x) = (st r = x)"
    if "\<not> is_pix x" for r x
    using assms that by (auto simp: is_pix_def)
  from this [of Hidden] this [of Gset] this [of Dset] show ?thesis unfolding children_ok_def by simp
qed

text \<open>\<open>push\<close> marks the first entry of each level below an entry.\<close>

lemma nls_push_loop_ok:
  assumes "1 \<le> b" and "1 \<le> m" and "b * 2 ^ m \<le> 8192" and "len \<le> length mk" and "length mk = MAX_LENGTH"
  shows "\<exists>mk'. nls_push_loop len mk (b * 2 ^ m) (m - 1) = Some mk' \<and> length mk' = length mk \<and>
    (\<forall>k\<ge>m. b * 2 ^ k < len \<longrightarrow> mk' ! (b * 2 ^ k) = MN (k + 1)) \<and>
    (\<forall>p. (\<forall>k\<ge>m. p = b * 2 ^ k \<longrightarrow> len \<le> p) \<longrightarrow> mk' ! p = mk ! p)"
  using assms
proof (induction "len - b * 2 ^ m" arbitrary: m mk rule: less_induct)
  case less
  show ?case
  proof (cases "b * 2 ^ m < len")
    case False
    then have "len \<le> b * 2 ^ k" if "m \<le> k" for k
    proof -
      have "b * 2 ^ m \<le> b * 2 ^ k" using that by (intro mult_le_mono2 power_increasing) simp_all
      with \<open>\<not> b * 2 ^ m < len\<close> show ?thesis by linarith
    qed
    with False show ?thesis by (subst nls_push_loop.simps) (auto dest: leD)
  next
    case True
    let ?mk = "mk[b * 2 ^ m := MN (m + 1)]"
    have b: "b * 2 ^ m < 4096" using True less.prems(4,5) by (simp add: MAX_LENGTH_def)
    moreover have "(2 :: nat) ^ m \<le> b * 2 ^ m" using less.prems(1) by simp
    ultimately have "(2 :: nat) ^ m < 4096" by linarith
    then have "(2 :: nat) ^ m < 2 ^ 12" by simp
    then have m: "m < 12" by (simp only: power_strict_increasing_iff)
    have nxt: "wrap_u16 (2 * (b * 2 ^ m)) = b * 2 ^ Suc m" using b by (simp add: wrap_u16_def)
    have "b * 2 ^ m < b * 2 ^ Suc m" using less.prems(1) by simp
    then have dec: "len - b * 2 ^ Suc m < len - b * 2 ^ m" using True by (intro diff_less_mono2)
    obtain mk' where mk': "nls_push_loop len ?mk (b * 2 ^ Suc m) (Suc m - 1) = Some mk'" "length mk' = length ?mk"
        "\<And>k. Suc m \<le> k \<Longrightarrow> b * 2 ^ k < len \<Longrightarrow> mk' ! (b * 2 ^ k) = MN (k + 1)"
        "\<And>p. (\<forall>k\<ge>Suc m. p = b * 2 ^ k \<longrightarrow> len \<le> p) \<Longrightarrow> mk' ! p = ?mk ! p"
      using less.hyps [OF dec, of ?mk] less.prems b by auto
    have "nls_push_loop len mk (b * 2 ^ m) (m - 1) = Some mk'"
      using True less.prems(2,4) m mk'(1) nxt
      by (subst nls_push_loop.simps) (simp add: mem_simps)
    moreover have "mk' ! (b * 2 ^ k) = MN (k + 1)" if "m \<le> k" "b * 2 ^ k < len" for k
    proof (cases "k = m")
      case True
      have "b * 2 ^ m < b * 2 ^ l" if "Suc m \<le> l" for l
        using that less.prems(1) by (simp add: power_strict_increasing_iff)
      then have "mk' ! (b * 2 ^ m) = ?mk ! (b * 2 ^ m)" by (intro mk'(4)) auto
      with True \<open>b * 2 ^ m < len\<close> less.prems(4) show ?thesis by simp
    qed (use mk'(3) that in simp)
    moreover have "mk' ! p = mk ! p" if p: "\<forall>k\<ge>m. p = b * 2 ^ k \<longrightarrow> len \<le> p" for p
    proof -
      have "mk' ! p = ?mk ! p" by (rule mk'(4)) (use p in auto)
      moreover have "p \<noteq> b * 2 ^ m" using p True by auto
      ultimately show ?thesis by simp
    qed
    ultimately show ?thesis using mk'(2) by auto
  qed
qed

lemma nls_push_ok:
  assumes "1 \<le> q" and "q < P" and "P \<le> 2048" and "length mk = MAX_LENGTH"
  shows "\<exists>mk'. nls_push mk (2 * q) (2 * P) = Some mk' \<and> length mk' = MAX_LENGTH \<and>
    (\<forall>k\<ge>1. q * 2 ^ k < P \<longrightarrow> mk' ! (2 * (q * 2 ^ k)) = MN (k + 1)) \<and>
    (\<forall>p. (\<forall>k\<ge>1. p = 2 * (q * 2 ^ k) \<longrightarrow> P \<le> q * 2 ^ k) \<longrightarrow> mk' ! p = mk ! p)"
proof -
  have "wrap_u16 (2 * (2 * q)) = 2 * q * 2 ^ 1" using assms by (simp add: wrap_u16_def)
  then have e: "nls_push mk (2 * q) (2 * P) = nls_push_loop (2 * P) mk (2 * q * 2 ^ 1) (1 - 1)"
    by (simp add: nls_push_def)
  obtain mk' where mk': "nls_push_loop (2 * P) mk (2 * q * 2 ^ 1) (1 - 1) = Some mk'" "length mk' = length mk"
    "\<And>k. 1 \<le> k \<Longrightarrow> 2 * q * 2 ^ k < 2 * P \<Longrightarrow> mk' ! (2 * q * 2 ^ k) = MN (k + 1)"
    "\<And>p. (\<forall>k\<ge>1. p = 2 * q * 2 ^ k \<longrightarrow> 2 * P \<le> p) \<Longrightarrow> mk' ! p = mk ! p"
    using nls_push_loop_ok [of "2 * q" 1 "2 * P" mk] assms by (auto simp: MAX_LENGTH_def)
  have "mk' ! (2 * (q * 2 ^ k)) = MN (k + 1)" if "1 \<le> k" "q * 2 ^ k < P" for k
    using mk'(3) [OF that(1)] that(2) by (simp add: mult.assoc)
  moreover have "mk' ! p = mk ! p" if "\<forall>k\<ge>1. p = 2 * (q * 2 ^ k) \<longrightarrow> P \<le> q * 2 ^ k" for p
    by (rule mk'(4)) (use that in \<open>auto simp: mult.assoc\<close>)
  ultimately show ?thesis using mk'(1,2) assms(4) e by auto
qed

subsection \<open>Splitting a set\<close>

text \<open>A set that is not below the plane any more: its pair is coded on its own, its children form a set.\<close>

lemma split_d:
  assumes "marks_rel P mk st" and "tree_ok P st" and "st q = Dset" and "q < P" and "P \<le> 2048" and "even P"
  defines "mk1 \<equiv> mk[2 * q + 1 := MCP, 2 * q := MCP]"
  defines "mk' \<equiv> if 2 * q < P then mk1[2 * (2 * q) := MG] else mk1"
    and "st' \<equiv> if 2 * q < P then st(q := Pix MCP MCP, 2 * q := Gset) else st(q := Pix MCP MCP)"
  shows "marks_rel P mk' st'" and "tree_ok P st'"
proof -
  have l: "length mk = MAX_LENGTH" and ok: "\<And>r. r < P \<Longrightarrow> pair_ok st mk r"
    using assms(1) by (auto simp: marks_rel_def)
  have q0: "1 \<le> q" using assms(2,3) unfolding tree_ok_def by (metis One_nat_def Suc_leI is_pix_simps(3) neq0_conv)
  have hid: "st (2 * q) = Hidden" "st (2 * q + 1) = Hidden" if "2 * q < P"
    using tree_children [OF assms(2) q0 that] assms(3) by simp_all
  have set: "st' r = Hidden \<or> st' r = Gset" if "st r = Hidden \<or> st r = Gset" for r
    using that assms(3) by (auto simp: st'_def)
  have "pair_ok st' mk' r" if r: "r < P" for r
  proof -
    have odd: "2 * r + 1 \<noteq> 2 * q" "2 * q + 1 \<noteq> 2 * r" "2 * r + 1 \<noteq> 2 * (2 * q)" by presburger+
    consider "r = q" | "r \<noteq> q" "2 * q < P" "r = 2 * q" | "r \<noteq> q" "2 * q < P \<Longrightarrow> r \<noteq> 2 * q" by blast
    then show ?thesis
    proof cases
      case 1
      then show ?thesis using q0 assms(4,5) l odd by (simp add: pair_ok_def st'_def mk'_def mk1_def MAX_LENGTH_def)
    next
      case 2
      then show ?thesis using assms(5) l by (simp add: pair_ok_def st'_def mk'_def mk1_def MAX_LENGTH_def)
    next
      case 3
      show ?thesis
        by (rule pair_ok_cong [OF _ _ _ set ok [OF r]]) (use 3 odd in \<open>auto simp: st'_def mk'_def mk1_def\<close>)
    qed
  qed
  with l show "marks_rel P mk' st'" by (simp add: marks_rel_def mk'_def mk1_def)
  have other: "st' r = st r" if "r \<noteq> q" "r \<noteq> 2 * q" for r using that by (simp add: st'_def)
  have "children_ok st' p" if p: "1 \<le> p" "2 * p < P" for p
  proof -
    have c: "children_ok st p" using assms(2) p by (simp add: tree_ok_def)
    consider "p = q" | "p = 2 * q" | "q = 2 * p \<or> q = 2 * p + 1" "p \<noteq> q" "p \<noteq> 2 * q"
      | "p \<noteq> q" "p \<noteq> 2 * q" "q \<noteq> 2 * p" "q \<noteq> 2 * p + 1" by blast
    then show ?thesis
    proof cases
      case 1
      then show ?thesis using p q0 hid by (simp add: children_ok_def st'_def)
    next
      case 2
      with p have "2 * q < P" by simp
      with 2 c hid q0 show ?thesis by (simp add: children_ok_def st'_def)
    next
      case 3
      have "st' p = st p" using 3 other by simp
      moreover have "is_pix (st p)" using 3(1) c assms(3) by (auto simp: children_ok_def split: if_splits)
      moreover have "st' q = Pix MCP MCP" using q0 by (simp add: st'_def)
      moreover have "2 * p \<noteq> 2 * q" "2 * p + 1 \<noteq> 2 * q" using 3 by presburger+
      then have "2 * p \<noteq> q \<Longrightarrow> st' (2 * p) = st (2 * p)" "2 * p + 1 \<noteq> q \<Longrightarrow> st' (2 * p + 1) = st (2 * p + 1)"
        by (simp_all only: other not_False_eq_True)
      ultimately show ?thesis using 3(1) c assms(3) by (auto simp: children_ok_def)
    next
      case 4
      then have "2 * p \<noteq> 2 * q" "2 * p + 1 \<noteq> 2 * q" by presburger+
      with 4 have "st' p = st p" "st' (2 * p) = st (2 * p)" "st' (2 * p + 1) = st (2 * p + 1)"
        by (simp_all only: other not_False_eq_True)
      with c show ?thesis unfolding children_ok_def by (simp only:)
    qed
  qed
  moreover have "is_pix (st' 0)" using other [of 0] q0 assms(2) by (simp add: tree_ok_def)
  moreover have "st' 1 = Dset \<or> is_pix (st' 1)"
  proof (cases "q = 1")
    case False
    with other [of 1] q0 assms(2) show ?thesis by (simp add: tree_ok_def)
  qed (simp add: st'_def)
  ultimately show "tree_ok P st'" by (simp add: tree_ok_def)
qed

text \<open>A pair of sets that is not below the plane any more: two sets.\<close>

lemma pushed_pair:
  assumes "tree_ok P st" and "1 \<le> b" and "\<not> is_pix (st b)" and "b * 2 ^ k < P" and "1 \<le> k" and "P \<le> 2048"
    and "mk' ! (2 * (b * 2 ^ k)) = MN (k + 1)" and "mk' ! (2 * (b * 2 ^ k) + 1) = mk ! (2 * (b * 2 ^ k) + 1)"
    and "pair_ok st mk (b * 2 ^ k)" and "\<And>r. b * 2 \<le> r \<Longrightarrow> st' r = st r"
  shows "pair_ok st' mk' (b * 2 ^ k)"
proof -
  obtain t where t: "k = Suc t" using assms(5) by (cases k) auto
  have h: "st (b * 2 ^ k) = Hidden" using below_hidden [OF assms(1,2,3,4) _ assms(5)] by simp
  have le: "b * 2 \<le> b * 2 ^ k" by (simp add: t)
  then have "b * 2 < P" using assms(4) by (rule le_less_trans)
  then have "st (b * 2) = Hidden" using below_hidden [OF assms(1,2,3), of "b * 2" 1] by simp
  moreover have "st' (b * 2 ^ k) = st (b * 2 ^ k)" "st' (b * 2) = st (b * 2)" using assms(10) le by blast+
  moreover have e: "b * 2 ^ k = (b * 2) * 2 ^ t" by (simp add: t)
  have "b * 2 ^ k div 2 ^ t = b * 2" "2 ^ t dvd b * 2 ^ k" unfolding e by simp_all
  moreover have "t \<le> 12"
  proof -
    have "(2 :: nat) ^ k \<le> b * 2 ^ k" using assms(2) by simp
    then have "(2 :: nat) ^ k < 2048" using assms(4,6) by linarith
    then have "(2 :: nat) ^ k < 2 ^ 11" by simp
    then have "k < 11" by (simp only: power_strict_increasing_iff)
    with t show ?thesis by simp
  qed
  ultimately show ?thesis
    using h assms(7-9) unfolding pair_ok_def hidden_ok_def by (auto simp: t)
qed

lemma split_g:
  assumes "marks_rel P mk st" and "tree_ok P st" and "st q = Gset" and "q < P" and "P \<le> 2048" and "even P"
  defines "st' \<equiv> st(q := Dset, q + 1 := Dset)"
  shows "\<exists>mk1 mk'. nls_push (mk[2 * q + 2 := MD, 2 * q := MD]) (2 * q) (2 * P) = Some mk1 \<and>
    nls_push mk1 (2 * (q + 1)) (2 * P) = Some mk' \<and> marks_rel P mk' st' \<and> tree_ok P st'"
proof -
  let ?mk = "mk[2 * q + 2 := MD, 2 * q := MD]"
  have l: "length mk = MAX_LENGTH" and ok: "\<And>r. r < P \<Longrightarrow> pair_ok st mk r"
    using assms(1) by (auto simp: marks_rel_def)
  note q = gset_even [OF assms(2,3,4)]
  have q1: "q + 1 < P" using q(2) assms(4,6) by (metis Suc_eq_plus1 Suc_lessI even_Suc)
  obtain mk1 where mk1: "nls_push ?mk (2 * q) (2 * P) = Some mk1" "length mk1 = MAX_LENGTH"
      "\<And>k. 1 \<le> k \<Longrightarrow> q * 2 ^ k < P \<Longrightarrow> mk1 ! (2 * (q * 2 ^ k)) = MN (k + 1)"
      "\<And>p. (\<forall>k\<ge>1. p = 2 * (q * 2 ^ k) \<longrightarrow> P \<le> q * 2 ^ k) \<Longrightarrow> mk1 ! p = ?mk ! p"
    using nls_push_ok [of q P ?mk] q(1) assms(4,5) l by auto
  obtain mk' where mk': "nls_push mk1 (2 * (q + 1)) (2 * P) = Some mk'" "length mk' = MAX_LENGTH"
      "\<And>k. 1 \<le> k \<Longrightarrow> (q + 1) * 2 ^ k < P \<Longrightarrow> mk' ! (2 * ((q + 1) * 2 ^ k)) = MN (k + 1)"
      "\<And>p. (\<forall>k\<ge>1. p = 2 * ((q + 1) * 2 ^ k) \<longrightarrow> P \<le> (q + 1) * 2 ^ k) \<Longrightarrow> mk' ! p = mk1 ! p"
    using nls_push_ok [of "q + 1" P mk1] q1 assms(5) mk1(2) by auto
  have odd1: "mk1 ! (2 * r + 1) = mk ! (2 * r + 1)" for r
  proof -
    have ne: "2 * q \<noteq> 2 * r + 1" "2 * q + 2 \<noteq> 2 * r + 1" "\<And>x. 2 * r + 1 \<noteq> 2 * x" by presburger+
    have "mk1 ! (2 * r + 1) = ?mk ! (2 * r + 1)" by (rule mk1(4)) (use ne(3) in blast)
    then show ?thesis by (simp only: nth_list_update_neq ne not_False_eq_True)
  qed
  have odd: "mk' ! (2 * r + 1) = mk ! (2 * r + 1)" for r
  proof -
    have ne: "\<And>x. 2 * r + 1 \<noteq> 2 * x" by presburger
    have "mk' ! (2 * r + 1) = mk1 ! (2 * r + 1)" by (rule mk'(4)) (use ne in blast)
    then show ?thesis by (simp only: odd1)
  qed
  have st': "st' r = st r" if "q + 1 < r \<or> r < q" for r using that by (auto simp: st'_def)
  have dbl: "(2 * x = 2 * y) = (x = y)" for x y :: nat by simp
  have qk: "r \<noteq> b * 2 ^ k" if "1 \<le> k" "r < 2 * b" for r b k :: nat
  proof -
    have "(2 :: nat) ^ 1 \<le> 2 ^ k" using that(1) by (intro power_increasing) simp_all
    then have "2 * b \<le> b * 2 ^ k" by simp
    with that(2) show ?thesis by linarith
  qed
  have "pair_ok st' mk' r" if r: "r < P" for r
  proof -
    consider (own) "r = q \<or> r = q + 1" | (right) k where "r \<noteq> q" "r \<noteq> q + 1" "1 \<le> k" "r = (q + 1) * 2 ^ k"
      | (left) k where "r \<noteq> q" "r \<noteq> q + 1" "1 \<le> k" "r = q * 2 ^ k" "\<And>k. 1 \<le> k \<Longrightarrow> r \<noteq> (q + 1) * 2 ^ k"
      | (other) "r \<noteq> q" "r \<noteq> q + 1" "\<And>k. 1 \<le> k \<Longrightarrow> r \<noteq> q * 2 ^ k" "\<And>k. 1 \<le> k \<Longrightarrow> r \<noteq> (q + 1) * 2 ^ k"
      by blast
    then show ?thesis
    proof cases
      case own
      then have "mk' ! (2 * r) = ?mk ! (2 * r)"
        using q(1) qk [of _ r "q + 1"] qk [of _ r q] by (subst mk'(4), simp only: dbl, force) (rule mk1(4), simp only: dbl, force)
      with own assms(4,5) q1 l show ?thesis by (auto simp: pair_ok_def st'_def MAX_LENGTH_def)
    next
      case right
      have "(q + 1) * 2 ^ k < P" "\<not> is_pix (st (q + 1))" using right(4) r q(4) by simp_all
      then show ?thesis
        unfolding right(4) using right(3)
        by (intro pushed_pair [OF assms(2) _ _ _ _ assms(5) mk'(3) odd ok]) (use q(1) in \<open>auto intro: st'\<close>)
    next
      case left
      have "mk' ! (2 * r) = mk1 ! (2 * r)" by (rule mk'(4)) (use left(5) in \<open>simp only: dbl, blast\<close>)
      then have m: "mk' ! (2 * (q * 2 ^ k)) = MN (k + 1)" using mk1(3) [of k] left r by simp
      have "1 \<le> q" "\<not> is_pix (st q)" "q * 2 ^ k < P" using q(1) assms(3) left(4) r by simp_all
      then show ?thesis
        unfolding left(4) using left(3)
        by (intro pushed_pair [OF assms(2) _ _ _ _ assms(5) m odd ok]) (use q(1) in \<open>auto intro: st'\<close>)
    next
      case other
      have "mk' ! (2 * r) = ?mk ! (2 * r)"
        using other(3,4) by (subst mk'(4), simp only: dbl, blast) (rule mk1(4), simp only: dbl, blast)
      then have m: "mk' ! (2 * r) = mk ! (2 * r)" using other(1,2) by simp
      show ?thesis
      proof (rule pair_ok_cong [OF _ m odd _ ok [OF r]])
        show "st' r = st r" using other(1,2) by (simp add: st'_def)
        fix t assume t: "2 ^ t dvd r" and s: "st (r div 2 ^ t) = Hidden \<or> st (r div 2 ^ t) = Gset"
        have "r div 2 ^ t \<noteq> b" if "b = q \<or> b = q + 1" for b
        proof
          assume "r div 2 ^ t = b"
          then have "r = b * 2 ^ t" using t by auto
          with that other(1,2) other(3,4) [of t] show False by (cases "t = 0") auto
        qed
        with s show "st' (r div 2 ^ t) = Hidden \<or> st' (r div 2 ^ t) = Gset" by (auto simp: st'_def)
      qed
    qed
  qed
  then have "marks_rel P mk' st'" using mk'(2) by (simp add: marks_rel_def)
  moreover have "children_ok st' p" if p: "1 \<le> p" "2 * p < P" for p
  proof -
    have c: "children_ok st p" using assms(2) p by (simp add: tree_ok_def)
    obtain h where h: "q = 2 * h" using q(2) by (elim evenE)
    consider "p = q \<or> p = q + 1" | "p = h" "p \<noteq> q" | "p \<noteq> q" "p \<noteq> q + 1" "p \<noteq> h" by blast
    then show ?thesis
    proof cases
      case 1
      then have "\<not> is_pix (st p)" using assms(3) q(4) by auto
      then have "st (2 * p) = Hidden" "st (2 * p + 1) = Hidden" using c by (simp_all add: children_ok_def)
      moreover have "q + 1 < 2 * p" using 1 q(1) by auto
      ultimately show ?thesis using 1 by (auto simp: children_ok_def st'_def)
    next
      case 2
      then show ?thesis using q(1,3) h by (simp add: children_ok_def st'_def)
    next
      case 3
      have "2 * p \<noteq> q" "2 * p \<noteq> q + 1" "2 * p + 1 \<noteq> q" "2 * p + 1 \<noteq> q + 1" using 3(3) h by presburger+
      then have "st' p = st p" "st' (2 * p) = st (2 * p)" "st' (2 * p + 1) = st (2 * p + 1)"
        using 3 by (simp_all add: st'_def)
      with c show ?thesis unfolding children_ok_def by (simp only:)
    qed
  qed
  moreover have "is_pix (st' 0)" "st' 1 = Dset \<or> is_pix (st' 1)"
    using st' [of 0] st' [of 1] q(1) assms(2) by (simp_all add: tree_ok_def)
  ultimately show ?thesis using mk1(1) mk'(1) by (auto simp: tree_ok_def)
qed

lemma tree_ok_pixel: "tree_ok P st \<Longrightarrow> is_pix (st q) \<Longrightarrow> tree_ok P (st(q := Pix a b))"
  by (auto simp: tree_ok_def children_ok_pix)

subsection \<open>The table at the start\<close>

definition start_state :: "nat \<Rightarrow> pstate" where
  "start_state q = (if q = 0 then Pix MIP MIP else if q = 1 then Dset else Hidden)"

lemma start_tree: "tree_ok P start_state"
  by (auto simp: tree_ok_def start_state_def children_ok_def)

lemma nls_clear_ok:
  assumes "\<forall>i \<in> set is. i < length xs"
  shows "\<exists>xs'. nls_clear v is xs = Some xs' \<and> length xs' = length xs \<and>
    (\<forall>p<length xs. xs' ! p = (if p \<in> set is then v else xs ! p))"
  using assms
proof (induction "is" arbitrary: xs)
  case (Cons i "is")
  from Cons.IH [of "xs[i := v]"] Cons.prems obtain xs' where "nls_clear v is (xs[i := v]) = Some xs'"
    "length xs' = length xs" "\<forall>p<length xs. xs' ! p = (if p \<in> set is then v else xs[i := v] ! p)" by auto
  with Cons.prems show ?case by (auto simp: mem_simps nth_list_update)
qed simp

lemma nls_fill_clear: "nls_fill a is mk = nls_clear a is mk"
  by (induction "is" arbitrary: mk) (simp_all add: awrite_def)

lemma nls_fill_ok:
  "\<forall>i \<in> set is. i < length mk \<Longrightarrow> \<exists>mk'. nls_fill a is mk = Some mk' \<and> length mk' = length mk \<and>
    (\<forall>p<length mk. mk' ! p = (if p \<in> set is then a else mk ! p))"
  unfolding nls_fill_clear by (rule nls_clear_ok)

lemma nls_fill_md_ok:
  assumes "8 \<le> N" and "N \<le> MAX_LENGTH" and "length mk = MAX_LENGTH"
  shows "\<exists>mk'. nls_fill_md N [2..<4] mk = Some mk' \<and> length mk' = MAX_LENGTH \<and> mk' ! 2 = MD \<and>
    (\<forall>p<MAX_LENGTH. p \<noteq> 2 \<longrightarrow> p \<noteq> 3 \<longrightarrow> mk' ! p = mk ! p \<or>
       (\<exists>t u. p = 2 * (u * 2 ^ t) \<and> (u = 2 \<or> u = 3) \<and> mk' ! p = MN (t + 2) \<and> p < N))"
proof -
  have push: "nls_push m b N = nls_push_loop N m (b * 2 ^ 1) (1 - 1)" if "b \<le> 3" for m b
    using that by (simp add: nls_push_def wrap_u16_def mult.commute)
  have two: "(2 :: nat) \<noteq> 2 * 2 ^ k" "(2 :: nat) \<noteq> 3 * 2 ^ k" if "1 \<le> k" for k
    using that power_increasing [OF that, of "2 :: nat"] by simp_all
  obtain m1 where m1: "nls_push_loop N (mk[2 := MD]) (2 * 2 ^ 1) (1 - 1) = Some m1" "length m1 = length (mk[2 := MD])"
      "\<And>k. 1 \<le> k \<Longrightarrow> 2 * 2 ^ k < N \<Longrightarrow> m1 ! (2 * 2 ^ k) = MN (k + 1)"
      "\<And>p. (\<forall>k\<ge>1. p = 2 * 2 ^ k \<longrightarrow> N \<le> p) \<Longrightarrow> m1 ! p = mk[2 := MD] ! p"
    using nls_push_loop_ok [of 2 1 N "mk[2 := MD]"] assms by auto
  obtain m2 where m2: "nls_push_loop N (m1[3 := MD]) (3 * 2 ^ 1) (1 - 1) = Some m2" "length m2 = length (m1[3 := MD])"
      "\<And>k. 1 \<le> k \<Longrightarrow> 3 * 2 ^ k < N \<Longrightarrow> m2 ! (3 * 2 ^ k) = MN (k + 1)"
      "\<And>p. (\<forall>k\<ge>1. p = 3 * 2 ^ k \<longrightarrow> N \<le> p) \<Longrightarrow> m2 ! p = m1[3 := MD] ! p"
    using nls_push_loop_ok [of 3 1 N "m1[3 := MD]"] assms m1(2) by auto
  have "[2..<4] = [2, 3 :: nat]" by (simp add: upt_rec)
  then have run: "nls_fill_md N [2..<4] mk = Some m2"
    using assms m1(1,2) m2(1) push [of 2] push [of 3] by (simp add: mem_simps MAX_LENGTH_def)
  have "m2 ! p = mk ! p \<or> (\<exists>t u. p = 2 * (u * 2 ^ t) \<and> (u = 2 \<or> u = 3) \<and> m2 ! p = MN (t + 2) \<and> p < N)"
    if p: "p < MAX_LENGTH" "p \<noteq> 2" "p \<noteq> 3" for p
  proof -
    consider (three) k where "1 \<le> k" "p = 3 * 2 ^ k" "p < N" | (two) k where "1 \<le> k" "p = 2 * 2 ^ k" "p < N" "m2 ! p = m1 ! p"
      | (no) "m2 ! p = m1 ! p" "m1 ! p = mk ! p"
      using m2(4) [of p] m1(4) [of p] p by (metis leI nth_list_update_neq)
    then show ?thesis
    proof cases
      case three
      then obtain t where t: "k = Suc t" by (cases k) auto
      show ?thesis using m2(3) [of k] three t by (intro disjI2 exI [of _ t] exI [of _ 3]) simp
    next
      case two
      then obtain t where t: "k = Suc t" by (cases k) auto
      show ?thesis using m1(3) [of k] two t by (intro disjI2 exI [of _ t] exI [of _ 2]) simp
    qed simp
  qed
  moreover have "m2 ! 2 = MD"
  proof -
    have "m2 ! 2 = m1[3 := MD] ! 2" by (rule m2(4)) (use two(2) in blast)
    also have "\<dots> = mk[2 := MD] ! 2" by (simp, rule m1(4)) (use two(1) in blast)
    finally show ?thesis using assms(3) by (simp add: MAX_LENGTH_def)
  qed
  ultimately show ?thesis using run m1(2) m2(2) assms(3) by auto
qed

lemma start_marks:
  assumes "length mk = MAX_LENGTH" and "P \<le> 2048" and "mk ! 0 = MIP" and "mk ! 1 = MIP" and "mk ! 2 = MD"
    and "\<And>p. 4 \<le> p \<Longrightarrow> p < 2 * P \<Longrightarrow> mk ! p = NM \<or>
       (\<exists>t u. p = 2 * (u * 2 ^ t) \<and> (u = 2 \<or> u = 3) \<and> mk ! p = MN (t + 2) \<and> p < 2 * P)"
  shows "marks_rel P mk start_state"
proof -
  have "hidden_ok start_state mk q" if q: "2 \<le> q" "q < P" for q
  proof -
    have "2 * q + 1 \<noteq> 2 * x" for x by presburger
    then have "mk ! (2 * q + 1) = NM" using assms(6) [of "2 * q + 1"] q by auto
    moreover have "mk ! (2 * q) = NM \<or>
      (\<exists>t\<le>12. mk ! (2 * q) = MN (t + 2) \<and> 2 ^ t dvd q \<and> (start_state (q div 2 ^ t) = Hidden \<or> start_state (q div 2 ^ t) = Gset))"
    proof (cases "mk ! (2 * q) = NM")
      case False
      then obtain t u where t: "2 * q = 2 * (u * 2 ^ t)" "u = 2 \<or> u = 3" "mk ! (2 * q) = MN (t + 2)"
        using assms(6) [of "2 * q"] q by auto
      then have q': "q = u * 2 ^ t" by (simp del: mult_cancel2)
      have "(2 :: nat) ^ t \<le> u * 2 ^ t" using t(2) by auto
      then have "(2 :: nat) ^ t < 2048" using q q' assms(2) by linarith
      then have "(2 :: nat) ^ t < 2 ^ 11" by simp
      then have "t \<le> 12" by (simp only: power_strict_increasing_iff)
      moreover have "2 ^ t dvd q" "q div 2 ^ t = u" by (simp_all add: q')
      ultimately show ?thesis using t(2,3) by (auto simp: start_state_def)
    qed simp
    ultimately show ?thesis by (simp add: hidden_ok_def)
  qed
  then have "pair_ok start_state mk q" if "q < P" for q
    using that assms(3-5) by (cases "q = 0"; cases "q = 1") (auto simp: pair_ok_def start_state_def)
  with assms(1) show ?thesis by (simp add: marks_rel_def)
qed

text \<open>The table that \<open>encode\<close> and that \<open>decode\<close> sets up.\<close>

lemma start_encode:
  assumes "size_ok P" and "length mk = MAX_LENGTH"
  shows "\<exists>mk1 mk2 mk3. nls_fill MIP [0..<2] mk = Some mk1 \<and> nls_fill_md (2 * P) [2..<4] mk1 = Some mk2 \<and>
    nls_fill NM [4..<2 * P] mk2 = Some mk3 \<and> marks_rel P mk3 start_state"
proof -
  have P: "8 \<le> 2 * P" "2 * P \<le> MAX_LENGTH" using size_okD [OF assms(1)] by (simp_all add: MAX_LENGTH_def)
  obtain mk1 where mk1: "nls_fill MIP [0..<2] mk = Some mk1" "length mk1 = MAX_LENGTH" "mk1 ! 0 = MIP" "mk1 ! 1 = MIP"
    using nls_fill_ok [of "[0..<2]" mk MIP] assms(2) by (auto simp: MAX_LENGTH_def)
  obtain mk2 where mk2: "nls_fill_md (2 * P) [2..<4] mk1 = Some mk2" "length mk2 = MAX_LENGTH" "mk2 ! 2 = MD"
      "\<And>p. p < MAX_LENGTH \<Longrightarrow> p \<noteq> 2 \<Longrightarrow> p \<noteq> 3 \<Longrightarrow> mk2 ! p = mk1 ! p \<or> (\<exists>t u. p = 2 * (u * 2 ^ t) \<and> (u = 2 \<or> u = 3))"
    using nls_fill_md_ok [OF P mk1(2)] by blast
  have low: "mk2 ! 0 = mk1 ! 0" "mk2 ! 1 = mk1 ! 1" using mk2(4) [of 0] mk2(4) [of 1] by (auto simp: MAX_LENGTH_def)
  obtain mk3 where mk3: "nls_fill NM [4..<2 * P] mk2 = Some mk3" "length mk3 = length mk2"
      "\<And>p. p < length mk2 \<Longrightarrow> mk3 ! p = (if p \<in> set [4..<2 * P] then NM else mk2 ! p)"
    using nls_fill_ok [of "[4..<2 * P]" mk2 NM] P mk2(2) by auto
  have "marks_rel P mk3 start_state"
    by (rule start_marks) (use mk3 mk2 mk1 low P in \<open>auto simp: MAX_LENGTH_def\<close>)
  with mk1(1) mk2(1) mk3(1) show ?thesis by blast
qed

lemma start_decode:
  assumes "size_ok P" and "length mk = MAX_LENGTH"
  shows "\<exists>mk1 mk2 mk3. nls_fill NM [0..<2 * P] mk = Some mk1 \<and> nls_fill MIP [0..<2] mk1 = Some mk2 \<and>
    nls_fill_md (2 * P) [2..<4] mk2 = Some mk3 \<and> marks_rel P mk3 start_state"
proof -
  have P: "8 \<le> 2 * P" "2 * P \<le> MAX_LENGTH" using size_okD [OF assms(1)] by (simp_all add: MAX_LENGTH_def)
  obtain mk1 where mk1: "nls_fill NM [0..<2 * P] mk = Some mk1" "length mk1 = MAX_LENGTH"
      "\<And>p. p < 2 * P \<Longrightarrow> mk1 ! p = NM"
    using nls_fill_ok [of "[0..<2 * P]" mk NM] assms(2) P by auto
  obtain mk2 where mk2: "nls_fill MIP [0..<2] mk1 = Some mk2" "length mk2 = MAX_LENGTH" "mk2 ! 0 = MIP" "mk2 ! 1 = MIP"
      "\<And>p. 2 \<le> p \<Longrightarrow> p < MAX_LENGTH \<Longrightarrow> mk2 ! p = mk1 ! p"
    using nls_fill_ok [of "[0..<2]" mk1 MIP] mk1(2) by (auto simp: MAX_LENGTH_def)
  obtain mk3 where mk3: "nls_fill_md (2 * P) [2..<4] mk2 = Some mk3" "length mk3 = MAX_LENGTH" "mk3 ! 2 = MD"
      "\<And>p. p < MAX_LENGTH \<Longrightarrow> p \<noteq> 2 \<Longrightarrow> p \<noteq> 3 \<Longrightarrow> mk3 ! p = mk2 ! p \<or>
         (\<exists>t u. p = 2 * (u * 2 ^ t) \<and> (u = 2 \<or> u = 3) \<and> mk3 ! p = MN (t + 2) \<and> p < 2 * P)"
    using nls_fill_md_ok [OF P mk2(2)] by blast
  have low: "mk3 ! 0 = mk2 ! 0" "mk3 ! 1 = mk2 ! 1" using mk3(4) [of 0] mk3(4) [of 1] by (auto simp: MAX_LENGTH_def)
  have high: "mk3 ! p = NM \<or> (\<exists>t u. p = 2 * (u * 2 ^ t) \<and> (u = 2 \<or> u = 3) \<and> mk3 ! p = MN (t + 2) \<and> p < 2 * P)"
    if "4 \<le> p" "p < 2 * P" for p
    using mk3(4) [of p] mk2(5) [of p] mk1(3) [of p] that P by auto
  have "marks_rel P mk3 start_state"
    by (rule start_marks [OF mk3(2) _ _ _ mk3(3) high]) (use low mk2 size_okD [OF assms(1)] in auto)
  with mk1(1) mk2(1) mk3(1) show ?thesis by blast
qed

end
