(* ===== verification/Nls_Passes.thy ===== *)
theory Nls_Passes
  imports Nls_Tree
begin

text \<open>
  The three passes over one bit plane as a machine on pairs. The machine knows the coefficients \<open>X\<close>
  and says which bits a pass writes and how the states of the pairs change. The locale \<open>nls_plane\<close>
  states what the passes need from their operations; every scan of the table that uses such
  operations follows the machine. The encoder and the decoder are two such sets of operations.
\<close>

subsection \<open>The machine\<close>

function subtree_max :: "(nat \<Rightarrow> int) \<Rightarrow> nat \<Rightarrow> nat \<Rightarrow> int" where
  "subtree_max X P q = (if q = 0 \<or> P \<le> q then 0 else
     max (max \<bar>X (2 * q)\<bar> \<bar>X (2 * q + 1)\<bar>) (max (subtree_max X P (2 * q)) (subtree_max X P (2 * q + 1))))"
  by pat_completeness auto

termination by (relation "measure (\<lambda>(X, P, q). P - q)") auto

declare subtree_max.simps [simp del]

lemma subtree_max_child:
  assumes "1 < q" and "q < P"
  shows "subtree_max X P q \<le> subtree_max X P (q div 2)"
  using parent_of [OF assms(1)] assms(2) by (subst (2) subtree_max.simps) (auto simp: le_max_iff_disj)

lemma subtree_max_elem:
  assumes "1 \<le> i div 2" and "i div 2 < P"
  shows "\<bar>X i\<bar> \<le> subtree_max X P (i div 2)"
proof -
  have "i = 2 * (i div 2) \<or> i = 2 * (i div 2) + 1" by presburger
  with assms show ?thesis by (subst subtree_max.simps) (auto simp: le_max_iff_disj)
qed

definition sig_bits :: "(nat \<Rightarrow> int) \<Rightarrow> int \<Rightarrow> nat \<Rightarrow> bool list" where
  "sig_bits X s i = (if s \<le> \<bar>X i\<bar> then [True, X i < 0] else [False])"

definition sig_mark :: "(nat \<Rightarrow> int) \<Rightarrow> int \<Rightarrow> nat \<Rightarrow> marker" where
  "sig_mark X s i = (if s \<le> \<bar>X i\<bar> then MNP else MIP)"

definition ip_bits :: "(nat \<Rightarrow> int) \<Rightarrow> int \<Rightarrow> nat \<Rightarrow> marker \<Rightarrow> bool list" where
  "ip_bits X s i a = (if a = MIP then sig_bits X s i else [])"

definition ip_mark :: "(nat \<Rightarrow> int) \<Rightarrow> int \<Rightarrow> nat \<Rightarrow> marker \<Rightarrow> marker" where
  "ip_mark X s i a = (if a = MIP then sig_mark X s i else a)"

definition ref_bits :: "(nat \<Rightarrow> int) \<Rightarrow> int \<Rightarrow> nat \<Rightarrow> marker \<Rightarrow> bool list" where
  "ref_bits X s i a = (if a = MSP then [\<bar>X i\<bar> AND s > 0] else [])"

definition ref_mark :: "marker \<Rightarrow> marker" where
  "ref_mark a = (if a = MNP then MSP else a)"

text \<open>A pass that looks at each entry on its own\<close>

definition local_pair :: "(nat \<Rightarrow> marker \<Rightarrow> bool list) \<Rightarrow> (nat \<Rightarrow> marker \<Rightarrow> marker) \<Rightarrow> nat \<Rightarrow> (nat \<Rightarrow> pstate) \<Rightarrow>
    bool list \<times> (nat \<Rightarrow> pstate)" where
  "local_pair bits mark q st = (case st q of
     Pix a b \<Rightarrow> (bits (2 * q) a @ bits (2 * q + 1) b, st(q := Pix (mark (2 * q) a) (mark (2 * q + 1) b)))
   | _ \<Rightarrow> ([], st))"

definition ip_pair :: "(nat \<Rightarrow> int) \<Rightarrow> int \<Rightarrow> nat \<Rightarrow> (nat \<Rightarrow> pstate) \<Rightarrow> bool list \<times> (nat \<Rightarrow> pstate)" where
  "ip_pair X s = local_pair (ip_bits X s) (ip_mark X s)"

definition ref_pair :: "(nat \<Rightarrow> int) \<Rightarrow> int \<Rightarrow> nat \<Rightarrow> (nat \<Rightarrow> pstate) \<Rightarrow> bool list \<times> (nat \<Rightarrow> pstate)" where
  "ref_pair X s = local_pair (ref_bits X s) (\<lambda>i. ref_mark)"

lemma local_pair_idle: "\<not> is_pix (st q) \<Longrightarrow> local_pair bits mark q st = ([], st)"
  by (cases "st q") (simp_all add: local_pair_def)

definition d_pair :: "(nat \<Rightarrow> int) \<Rightarrow> nat \<Rightarrow> int \<Rightarrow> nat \<Rightarrow> (nat \<Rightarrow> pstate) \<Rightarrow> bool list \<times> (nat \<Rightarrow> pstate)" where
  "d_pair X P s q st =
     (if s \<le> subtree_max X P q then
        (True # sig_bits X s (2 * q) @ sig_bits X s (2 * q + 1),
         (if 2 * q < P then st(q := Pix (sig_mark X s (2 * q)) (sig_mark X s (2 * q + 1)), 2 * q := Gset)
          else st(q := Pix (sig_mark X s (2 * q)) (sig_mark X s (2 * q + 1)))))
      else ([False], st))"

definition is_pair :: "(nat \<Rightarrow> int) \<Rightarrow> nat \<Rightarrow> int \<Rightarrow> nat \<Rightarrow> (nat \<Rightarrow> pstate) \<Rightarrow> bool list \<times> (nat \<Rightarrow> pstate)" where
  "is_pair X P s q st = (case st q of
     Dset \<Rightarrow> d_pair X P s q st
   | Gset \<Rightarrow>
       if s \<le> max (subtree_max X P q) (subtree_max X P (q + 1)) then
         (let (bs, st) = d_pair X P s q (st(q := Dset, q + 1 := Dset)) in (True # bs, st))
       else ([False], st)
   | _ \<Rightarrow> ([], st))"

fun run_pairs :: "(nat \<Rightarrow> 'st \<Rightarrow> bool list \<times> 'st) \<Rightarrow> nat list \<Rightarrow> 'st \<Rightarrow> bool list \<times> 'st" where
  "run_pairs f [] st = ([], st)"
| "run_pairs f (q # qs) st = (let (b, st1) = f q st; (bs, st2) = run_pairs f qs st1 in (b @ bs, st2))"

lemma run_pairs_idle:
  "(\<And>r. r \<in> set qs \<Longrightarrow> f r st = ([], st)) \<Longrightarrow> run_pairs f (qs @ rs) st = run_pairs f rs st"
  by (induction qs) auto

lemma run_pairs_upto:
  assumes "\<And>r. q \<le> r \<Longrightarrow> r < q' \<Longrightarrow> r < P \<Longrightarrow> f r st = ([], st)" and "q \<le> q'"
  shows "run_pairs f [q..<P] st = run_pairs f [q'..<P] st"
proof (cases "q' \<le> P")
  case True
  then have "[q..<P] = [q..<q'] @ [q'..<P]" using assms(2) by (metis le_Suc_ex upt_add_eq_append)
  moreover have "f r st = ([], st)" if "r \<in> set [q..<q']" for r using assms(1) [of r] that True by auto
  ultimately show ?thesis by (simp only: run_pairs_idle)
next
  case False
  then have "run_pairs f ([q..<P] @ []) st = run_pairs f [] st" using assms(1) by (intro run_pairs_idle) auto
  with False show ?thesis by simp
qed

text \<open>The marker of one entry, and the plane down to which its value is coded.\<close>

definition elem :: "(nat \<Rightarrow> pstate) \<Rightarrow> nat \<Rightarrow> marker" where
  "elem st i = (case st (i div 2) of Pix a b \<Rightarrow> if even i then a else b | _ \<Rightarrow> NM)"

definition lev :: "int \<Rightarrow> nat \<Rightarrow> (nat \<Rightarrow> pstate) \<Rightarrow> nat \<Rightarrow> int option" where
  "lev s K st i = (case elem st i of
     MNP \<Rightarrow> Some s
   | MSP \<Rightarrow> if i < K then Some s else Some (2 * s)
   | _ \<Rightarrow> None)"

subsection \<open>What a plane achieves\<close>

definition quiet :: "(nat \<Rightarrow> int) \<Rightarrow> nat \<Rightarrow> int \<Rightarrow> (nat \<Rightarrow> pstate) \<Rightarrow> bool" where
  "quiet X n s st \<longleftrightarrow> (\<forall>i<n. elem st i = MIP \<longrightarrow> \<bar>X i\<bar> < s)"

definition plain :: "marker \<Rightarrow> bool" where
  "plain a \<longleftrightarrow> a = MIP \<or> a = MNP \<or> a = MSP"

definition no_mcp :: "(nat \<Rightarrow> pstate) \<Rightarrow> bool" where
  "no_mcp st \<longleftrightarrow> (\<forall>q a b. st q = Pix a b \<longrightarrow> plain a \<and> plain b)"

definition tested :: "(nat \<Rightarrow> int) \<Rightarrow> nat \<Rightarrow> int \<Rightarrow> nat \<Rightarrow> (nat \<Rightarrow> pstate) \<Rightarrow> bool" where
  "tested X P s q st \<longleftrightarrow> (\<forall>r<q. (st r = Dset \<longrightarrow> subtree_max X P r < s) \<and>
     (st r = Gset \<longrightarrow> subtree_max X P r < s \<and> subtree_max X P (r + 1) < s))"

lemma elem_upd: "elem (st(q := a)) i = (if i div 2 = q then (case a of Pix a b \<Rightarrow> if even i then a else b | _ \<Rightarrow> NM) else elem st i)"
  by (simp add: elem_def)

lemma no_mcp_upd:
  "no_mcp st \<Longrightarrow> plain x \<Longrightarrow> plain y \<Longrightarrow> no_mcp (st(q := Pix x y))"
  "no_mcp st \<Longrightarrow> no_mcp (st(q := Dset))" "no_mcp st \<Longrightarrow> no_mcp (st(q := Gset))"
  by (simp_all add: no_mcp_def)

lemma no_mcp_pix: "no_mcp st \<Longrightarrow> st q = Pix a b \<Longrightarrow> plain a \<and> plain b"
  by (simp add: no_mcp_def)

lemma plain_mark: "plain (sig_mark X s i)" "plain a \<Longrightarrow> plain (ip_mark X s i a)" "plain a \<Longrightarrow> plain (ref_mark a)"
  by (auto simp: sig_mark_def ip_mark_def ref_mark_def plain_def)

lemma ip_run_quiet:
  assumes "quiet X (2 * q) s st" and "no_mcp st" and "q \<le> P"
  shows "quiet X (2 * P) s (snd (run_pairs (ip_pair X s) [q..<P] st)) \<and> no_mcp (snd (run_pairs (ip_pair X s) [q..<P] st))"
  using assms
proof (induction "P - q" arbitrary: q st)
  case (Suc n)
  then have q: "q < P" by simp
  let ?st = "snd (ip_pair X s q st)"
  have "quiet X (2 * Suc q) s ?st" unfolding quiet_def
  proof (intro allI impI)
    fix i assume i: "i < 2 * Suc q" "elem ?st i = MIP"
    show "\<bar>X i\<bar> < s"
    proof (cases "i div 2 = q")
      case True
      then have "i = 2 * q \<and> even i \<or> i = 2 * q + 1 \<and> odd i" by presburger
      with True i(2) show ?thesis
        by (auto simp: ip_pair_def local_pair_def elem_def ip_mark_def sig_mark_def split: pstate.splits if_splits)
    next
      case False
      with i have "elem st i = MIP" "i < 2 * q" by (auto simp: ip_pair_def local_pair_def elem_def split: pstate.splits)
      with Suc.prems(1) show ?thesis by (simp add: quiet_def)
    qed
  qed
  moreover have "no_mcp ?st" using Suc.prems(2)
    by (cases "st q") (simp_all add: ip_pair_def local_pair_def no_mcp_upd plain_mark no_mcp_pix)
  ultimately show ?case using Suc.hyps(1) [of "Suc q" ?st] Suc.hyps(2) q
    by (auto simp: upt_conv_Cons split_beta)
qed simp

lemma d_pair_tested:
  assumes "tested X P s q st" and "quiet X (2 * P) s st" and "no_mcp st" and "1 \<le> q" and "st q = Dset"
  shows "tested X P s (Suc q) (snd (d_pair X P s q st))" and "quiet X (2 * P) s (snd (d_pair X P s q st))"
    and "no_mcp (snd (d_pair X P s q st))"
proof -
  show "tested X P s (Suc q) (snd (d_pair X P s q st))"
    using assms(1,4,5) by (auto simp: tested_def d_pair_def less_Suc_eq)
  have "\<bar>X i\<bar> < s" if "i < 2 * P" "i div 2 = q" "(if even i then sig_mark X s (2 * q) else sig_mark X s (2 * q + 1)) = MIP" for i
  proof -
    have "i = 2 * q \<and> even i \<or> i = 2 * q + 1 \<and> odd i" using that(2) by presburger
    with that(3) show ?thesis by (auto simp: sig_mark_def split: if_splits)
  qed
  then show "quiet X (2 * P) s (snd (d_pair X P s q st))"
    using assms(2) by (auto simp: quiet_def d_pair_def elem_upd)
  show "no_mcp (snd (d_pair X P s q st))"
    using assms(3) by (simp add: d_pair_def no_mcp_upd plain_mark)
qed

lemma is_run_tested:
  assumes "tested X P s q st" and "quiet X (2 * P) s st" and "no_mcp st" and "is_pix (st 0)" and "q \<le> P"
  shows "tested X P s P (snd (run_pairs (is_pair X P s) [q..<P] st)) \<and>
    quiet X (2 * P) s (snd (run_pairs (is_pair X P s) [q..<P] st)) \<and> no_mcp (snd (run_pairs (is_pair X P s) [q..<P] st))"
  using assms
proof (induction "P - q" arbitrary: q st)
  case (Suc n)
  then have q: "q < P" by simp
  let ?st = "snd (is_pair X P s q st)"
  have "tested X P s (Suc q) ?st \<and> quiet X (2 * P) s ?st \<and> no_mcp ?st \<and> is_pix (?st 0)"
  proof (cases "st q")
    case Dset
    then have "1 \<le> q" using Suc.prems(4) by (cases q) auto
    then have "is_pix (?st 0)" using Dset Suc.prems(4) by (simp add: is_pair_def d_pair_def)
    with d_pair_tested [OF Suc.prems(1-3) \<open>1 \<le> q\<close> Dset] Dset show ?thesis by (simp add: is_pair_def)
  next
    case Gset
    then have q1: "1 \<le> q" using Suc.prems(4) by (cases q) auto
    let ?st2 = "st(q := Dset, q + 1 := Dset)"
    have t2: "tested X P s q ?st2" "quiet X (2 * P) s ?st2" "no_mcp ?st2"
      using Suc.prems(1-3) by (auto simp: tested_def quiet_def elem_upd intro: no_mcp_upd)
    show ?thesis
    proof (cases "s \<le> max (subtree_max X P q) (subtree_max X P (q + 1))")
      case True
      then have e: "?st = snd (d_pair X P s q ?st2)" by (simp add: is_pair_def Gset split_beta)
      have "is_pix (?st 0)" unfolding e using q1 Suc.prems(4) by (simp add: d_pair_def)
      with d_pair_tested [OF t2 q1] show ?thesis unfolding e by simp
    next
      case False
      then have "?st = st" by (simp add: is_pair_def Gset)
      with Suc.prems False Gset show ?thesis by (auto simp: tested_def less_Suc_eq)
    qed
  qed (use Suc.prems in \<open>auto simp: is_pair_def tested_def less_Suc_eq\<close>)
  then show ?case using Suc.hyps(1) [of "Suc q" ?st] Suc.hyps(2) q
    by (auto simp: upt_conv_Cons split_beta)
qed simp

lemma tested_sets:
  assumes "tested X P s P st" and "tree_ok P st" and "1 \<le> q" and "q < P" and "\<not> is_pix (st q)"
  shows "subtree_max X P q < s"
  using assms(3-5)
proof (induction q rule: less_induct)
  case (less q)
  show ?case
  proof (cases "st q")
    case Hidden
    then have q1: "1 < q" using assms(2) less.prems(1) by (cases "q = 1") (auto simp: tree_ok_def)
    let ?p = "q div 2"
    have p: "1 \<le> ?p" "?p < q" "2 * ?p < P" "q = 2 * ?p \<or> q = 2 * ?p + 1" using q1 less.prems(2) by auto
    show ?thesis
    proof (cases "is_pix (st ?p)")
      case True
      have "children_ok st ?p" using assms(2) p by (simp add: tree_ok_def)
      with True Hidden p(4) have "st (2 * ?p) = Gset" "q = 2 * ?p + 1" by (auto simp: children_ok_def)
      then show ?thesis using assms(1) p(3) by (metis tested_def)
    next
      case False
      then have "subtree_max X P ?p < s" using less.IH [OF p(2,1)] p(3) by simp
      with subtree_max_child [OF q1 less.prems(2), of X] show ?thesis by simp
    qed
  qed (use assms(1) less.prems in \<open>auto simp: tested_def\<close>)
qed

lemma ref_run_facts:
  assumes "q \<le> P"
  shows "snd (run_pairs (ref_pair X s) [q..<P] st) r = (case st r of Pix a b \<Rightarrow> if q \<le> r \<and> r < P then Pix (ref_mark a) (ref_mark b) else Pix a b | x \<Rightarrow> x)"
  using assms
proof (induction "P - q" arbitrary: q st)
  case 0
  then show ?case by (auto split: pstate.split)
next
  case (Suc n)
  then have q: "q < P" by simp
  let ?st = "snd (ref_pair X s q st)"
  have "?st r = (case st r of Pix a b \<Rightarrow> if r = q then Pix (ref_mark a) (ref_mark b) else Pix a b | x \<Rightarrow> x)"
    by (auto simp: ref_pair_def local_pair_def split: pstate.split)
  with Suc.hyps(1) [of "Suc q" ?st] Suc.hyps(2) q show ?case
    by (auto simp: upt_conv_Cons split_beta split: pstate.split)
qed

definition plane_run :: "(nat \<Rightarrow> int) \<Rightarrow> nat \<Rightarrow> int \<Rightarrow> (nat \<Rightarrow> pstate) \<Rightarrow> bool list \<times> (nat \<Rightarrow> pstate)" where
  "plane_run X P s st =
     (let (b1, st1) = run_pairs (ip_pair X s) [0..<P] st;
          (b2, st2) = run_pairs (is_pair X P s) [0..<P] st1;
          (b3, st3) = run_pairs (ref_pair X s) [0..<P] st2
      in (b1 @ b2 @ b3, st3))"

text \<open>After a plane, what is not coded yet is below it.\<close>

lemma plane_done:
  fixes st :: "nat \<Rightarrow> pstate" and X :: "nat \<Rightarrow> int" and s :: int and P :: nat
  defines "st1 \<equiv> snd (run_pairs (ip_pair X s) [0..<P] st)"
  defines "st2 \<equiv> snd (run_pairs (is_pair X P s) [0..<P] st1)"
  defines "st3 \<equiv> snd (run_pairs (ref_pair X s) [0..<P] st2)"
  assumes "no_mcp st" and "is_pix (st1 0)" and "tree_ok P st3"
  shows "no_mcp st1" and "no_mcp st2" and "no_mcp st3" and "\<And>i. i < 2 * P \<Longrightarrow> elem st3 i \<noteq> MNP"
    and "\<And>i K. i < 2 * P \<Longrightarrow> lev s K st3 i = None \<Longrightarrow> \<bar>X i\<bar> < s"
proof -
  have q1: "quiet X (2 * P) s st1" and n1: "no_mcp st1"
    using ip_run_quiet [of X 0 s st P] assms(4) by (simp_all add: quiet_def st1_def)
  have t2: "tested X P s P st2" and q2: "quiet X (2 * P) s st2" and n2: "no_mcp st2"
    using is_run_tested [of X P s 0 st1] q1 n1 assms(5) by (simp_all add: tested_def st2_def)
  note r = ref_run_facts [of 0 P X s st2, folded st3_def, simplified]
  show "no_mcp st1" "no_mcp st2" by fact+
  show n3: "no_mcp st3"
    using n2 by (auto simp: no_mcp_def r plain_mark split: pstate.splits if_splits)
  have e3: "elem st3 i = ref_mark (elem st2 i)" if "i < 2 * P" for i
    using that by (auto simp: elem_def r ref_mark_def split: pstate.split)
  then show "elem st3 i \<noteq> MNP" if "i < 2 * P" for i using that by (simp add: ref_mark_def)
  have t3: "tested X P s P st3"
    using t2 by (auto simp: tested_def r split: pstate.splits if_splits)
  fix i K assume i: "i < 2 * P" and none: "lev s K st3 i = None"
  show "\<bar>X i\<bar> < s"
  proof (cases "is_pix (st3 (i div 2))")
    case True
    then have "plain (elem st3 i)" using n3 by (auto simp: is_pix_def elem_def dest: no_mcp_pix)
    with none have "elem st3 i = MIP" by (auto simp: plain_def lev_def split: if_splits)
    then have "elem st2 i = MIP" using e3 [OF i] by (auto simp: ref_mark_def split: if_splits)
    with q2 i show ?thesis by (simp add: quiet_def)
  next
    case False
    moreover have "is_pix (st3 0)" using assms(6) by (simp add: tree_ok_def)
    ultimately have "1 \<le> i div 2" by (metis One_nat_def Suc_leI neq0_conv)
    moreover have "i div 2 < P" using i by simp
    ultimately show ?thesis using tested_sets [OF t3 assms(6) _ _ False] subtree_max_elem [of i P X] by fastforce
  qed
qed

subsection \<open>Scanning the table\<close>

text \<open>One entry of a pair that is coded on its own gets another marker.\<close>

definition put :: "(nat \<Rightarrow> pstate) \<Rightarrow> nat \<Rightarrow> marker \<Rightarrow> (nat \<Rightarrow> pstate)" where
  "put st i m = (case st (i div 2) of
     Pix a b \<Rightarrow> st(i div 2 := if even i then Pix m b else Pix a m)
   | _ \<Rightarrow> st)"

lemma put_simps:
  "st q = Pix a b \<Longrightarrow> put st (2 * q) m = st(q := Pix m b)"
  "st q = Pix a b \<Longrightarrow> put st (2 * q + 1) m = st(q := Pix a m)"
  by (simp_all add: put_def)

lemma put_pair: "st q = Pix a b \<Longrightarrow> put (put st (2 * q) m) (2 * q + 1) n = st(q := Pix m n)"
  by (simp add: put_def)

lemma elem_simps [simp]: "st q = Pix a b \<Longrightarrow> elem st (2 * q) = a" "st q = Pix a b \<Longrightarrow> elem st (Suc (2 * q)) = b"
  by (simp_all add: elem_def)

lemma elem_put:
  assumes "is_pix (st (i div 2))"
  shows "elem (put st i m) j = (if j = i then m else elem st j)"
proof -
  have "i div 2 = j div 2 \<Longrightarrow> even i = even j \<Longrightarrow> j = i" by presburger
  with assms show ?thesis by (auto simp: put_def elem_def is_pix_def)
qed

lemma is_pix_put [simp]: "is_pix (put st i m q) = is_pix (st q)"
  by (auto simp: put_def is_pix_def split: pstate.splits)

lemma put_marks:
  assumes "marks_rel P mk st" and "tree_ok P st" and "is_pix (st (i div 2))" and "i < 2 * P" and "P \<le> 2048"
  shows "marks_rel P (mk[i := m]) (put st i m)" and "tree_ok P (put st i m)"
proof -
  obtain q where q: "i = 2 * q \<or> i = 2 * q + 1" "q = i div 2" "q < P"
  proof
    show "i = 2 * (i div 2) \<or> i = 2 * (i div 2) + 1" by presburger
    show "i div 2 < P" using assms(4) by simp
  qed simp
  obtain a b where ab: "st q = Pix a b" using assms(3) q(2) by (auto simp: is_pix_def)
  show "marks_rel P (mk[i := m]) (put st i m)"
    using q(1) marks_rel_pixel [OF assms(1) ab q(3) assms(5), of m] put_simps [where st = st and q = q, OF ab, of m] by auto
  show "tree_ok P (put st i m)"
    using q(1) tree_ok_pixel [OF assms(2), of q] ab put_simps [where st = st and q = q, OF ab, of m] by auto
qed

definition plane :: "int \<Rightarrow> bool" where
  "plane s \<longleftrightarrow> (\<exists>n\<le>14. s = 2 ^ n)"

definition nls_rel :: "(nat \<Rightarrow> int) \<Rightarrow> nat \<Rightarrow> ('c \<Rightarrow> marker list) \<Rightarrow> (int option \<Rightarrow> nat \<Rightarrow> 'c \<Rightarrow> bool) \<Rightarrow> int \<Rightarrow> nat \<Rightarrow>
    'c \<Rightarrow> (nat \<Rightarrow> pstate) \<Rightarrow> bool" where
  "nls_rel X P marks val s K c st \<longleftrightarrow> marks_rel P (marks c) st \<and> tree_ok P st \<and>
     (\<forall>i<2 * P. val (lev s K st i) i c \<and> (lev s K st i = None \<longrightarrow> \<bar>X i\<bar> < 2 * s))"

lemma nls_relD:
  assumes "nls_rel X P marks val s K c st"
  shows "marks_rel P (marks c) st" and "tree_ok P st" and "length (marks c) = MAX_LENGTH"
    and "\<And>i. i < 2 * P \<Longrightarrow> val (lev s K st i) i c" and "\<And>i. i < 2 * P \<Longrightarrow> lev s K st i = None \<Longrightarrow> \<bar>X i\<bar> < 2 * s"
    and "\<And>q. q < P \<Longrightarrow> pair_ok st (marks c) q"
  using assms by (auto simp: nls_rel_def marks_rel_def)

lemma pixel_mark:
  assumes "\<And>q. q < P \<Longrightarrow> pair_ok st mk q" and "i < 2 * P" and "is_pix (st (i div 2))" and "elem st i = a"
  shows "mk ! i = a"
proof -
  obtain x y where xy: "st (i div 2) = Pix x y" using assms(3) by (auto simp: is_pix_def)
  have "i = 2 * (i div 2) \<and> even i \<or> i = 2 * (i div 2) + 1 \<and> odd i" by presburger
  with assms(1) [of "i div 2"] assms(2,4) xy show ?thesis by (auto simp: pair_ok_def elem_def)
qed

lemma rel_put:
  assumes "nls_rel X P marks val s K c st" and "i < 2 * P" and "is_pix (st (i div 2))" and "P \<le> 2048"
    and "marks c' = (marks c)[i := m]" and "\<And>j v. j \<noteq> i \<Longrightarrow> val v j c \<Longrightarrow> val v j c'" and "\<And>j. j \<noteq> i \<Longrightarrow> (j < K') = (j < K)"
    and "val (lev s K' (put st i m) i) i c'" and "lev s K' (put st i m) i = None \<Longrightarrow> \<bar>X i\<bar> < 2 * s"
  shows "nls_rel X P marks val s K' c' (put st i m)"
proof -
  note d = nls_relD [OF assms(1)]
  have other: "lev s K' (put st i m) j = lev s K st j" if "j \<noteq> i" for j
    using that assms(7) [OF that] by (simp add: lev_def elem_put [where st = st and i = i, OF assms(3)] cong: marker.case_cong)
  have "val (lev s K' (put st i m) j) j c' \<and> (lev s K' (put st i m) j = None \<longrightarrow> \<bar>X j\<bar> < 2 * s)" if "j < 2 * P" for j
    using other [of j] assms(6) [of j "lev s K st j"] assms(8,9) d(4,5) [OF that] by (cases "j = i") auto
  with put_marks [OF d(1,2) assms(3,2,4), of m] assms(5) show ?thesis by (auto simp: nls_rel_def)
qed

text \<open>Between the steps a scan may stop; the state then is one that some steps reach.\<close>

definition nls_outcome :: "('c \<Rightarrow> bool) \<Rightarrow> (bool list \<Rightarrow> 'c \<Rightarrow> bool) \<Rightarrow> ('c \<Rightarrow> bool) \<Rightarrow> bool list \<Rightarrow> 'c option \<Rightarrow> bool" where
  "nls_outcome stop at rel bs r \<longleftrightarrow> (\<exists>c. r = Some c \<and> (stop c \<and> (\<exists>ks. at ks c) \<or> rel c \<and> at bs c))"

lemma nls_while_step:
  "step c j = Some (c', j') \<Longrightarrow> j < N \<Longrightarrow>
   nls_while N step stop c j = (if stop c' then Some c' else nls_while N step stop c' j')"
  by (subst nls_while.simps) simp

lemma outcome_step:
  assumes "step c j = Some (c', j')" and "j < N" and "at ks c'"
    and "\<not> stop c' \<Longrightarrow> nls_outcome stop at rel bs (nls_while N step stop c' j')"
  shows "nls_outcome stop at rel bs (nls_while N step stop c j)"
  using assms(3,4) unfolding nls_while_step [where step = step and c = c and j = j and stop = stop, OF assms(1,2)] nls_outcome_def by auto

lemma wrap_small: "n < 65536 \<Longrightarrow> wrap_u16 n = n"
  by (simp add: wrap_u16_def)

text \<open>A scan over pairs that are hidden\<close>

lemma hidden_outcome:
  assumes rel: "nls_rel X P marks val s K c st" and q: "st q = Hidden" "1 \<le> q" "q < P" "P \<le> 2048"
    and idle: "\<And>j. j < 2 * P \<Longrightarrow> marks c ! j = NM \<or> (\<exists>k. marks c ! j = MN k) \<Longrightarrow>
      step c j = Some (c, wrap_u16 (j + skip (marks c ! j)))"
    and at: "at ks c"
    and next_pair: "\<And>q'. q < q' \<Longrightarrow> (\<And>r. q \<le> r \<Longrightarrow> r < q' \<Longrightarrow> r < P \<Longrightarrow> st r = Hidden) \<Longrightarrow>
      nls_outcome stop at R bs (nls_while (2 * P) step stop c (2 * q'))"
  shows "nls_outcome stop at R bs (nls_while (2 * P) step stop c (2 * q))"
proof -
  note d = nls_relD [OF rel]
  have h: "hidden_ok st (marks c) q" using d(6) [OF q(3)] q(1) by (simp add: pair_ok_def)
  show ?thesis
  proof (cases "marks c ! (2 * q) = NM")
    case True
    have s1: "step c (2 * q) = Some (c, 2 * q + 1)" using idle [of "2 * q"] True q by (simp add: wrap_small)
    have s2: "step c (2 * q + 1) = Some (c, 2 * (q + 1))"
      using idle [of "2 * q + 1"] h q by (simp add: wrap_small hidden_ok_def)
    show ?thesis
      by (rule outcome_step [where step = step and c = c and at = at, OF s1 _ at], use q in simp)
        (rule outcome_step [where step = step and c = c and at = at, OF s2 _ at], use q in simp, rule next_pair, use q in \<open>auto simp: less_Suc_eq\<close>)
  next
    case False
    then obtain t where t: "t \<le> 12" "marks c ! (2 * q) = MN (t + 2)" "2 ^ t dvd q"
        "st (q div 2 ^ t) = Hidden \<or> st (q div 2 ^ t) = Gset"
      using h by (auto simp: hidden_ok_def)
    have "(2 :: nat) ^ (t + 1) \<le> 2 ^ 13" using t(1) by (intro power_increasing) simp_all
    then have "2 * q + 2 ^ (t + 1) < 65536" using q by simp
    then have s: "step c (2 * q) = Some (c, 2 * (q + 2 ^ t))"
      using idle [of "2 * q"] t(1,2) q by (simp add: wrap_small)
    show ?thesis
    proof (rule outcome_step [where step = step and c = c and at = at, OF s _ at])
      show "nls_outcome stop at R bs (nls_while (2 * P) step stop c (2 * (q + 2 ^ t)))"
        by (rule next_pair) (use hidden_run [OF d(2) q(2) t(3,4) q(1)] in auto)
    qed (use q in simp)
  qed
qed

subsection \<open>The interface\<close>

text \<open>
  \<open>at bs c\<close>: the bits \<open>bs\<close> were written to or read from the stream. \<open>fits bs\<close>: the stream has them.
  \<open>val v i c\<close>: the value of the coefficient \<open>i\<close> is known down to the plane \<open>v\<close>, or not at all.
\<close>

locale nls_plane =
  fixes X :: "nat \<Rightarrow> int" and P :: nat
    and marks :: "'c \<Rightarrow> marker list" and remark :: "marker list \<Rightarrow> 'c \<Rightarrow> 'c"
    and coef :: "int \<Rightarrow> nat \<Rightarrow> 'c \<Rightarrow> (bool \<times> 'c) option"
    and test_d :: "int \<Rightarrow> nat \<Rightarrow> 'c \<Rightarrow> (bool \<times> 'c) option" and test_g :: "int \<Rightarrow> nat \<Rightarrow> 'c \<Rightarrow> (bool \<times> 'c) option"
    and refine :: "int \<Rightarrow> nat \<Rightarrow> 'c \<Rightarrow> 'c option"
    and stop :: "'c \<Rightarrow> bool" and at :: "bool list \<Rightarrow> 'c \<Rightarrow> bool" and fits :: "bool list \<Rightarrow> bool"
    and val :: "int option \<Rightarrow> nat \<Rightarrow> 'c \<Rightarrow> bool"
  assumes at_size: "at bs c \<Longrightarrow> size_ok P"
    and fits_prefix: "fits (bs @ cs) \<Longrightarrow> fits bs"
    and remark_laws [simp]: "marks (remark mk c) = mk" "at bs (remark mk c) = at bs c" "val v i (remark mk c) = val v i c"
    and coef_law: "plane s \<Longrightarrow> at bs c \<Longrightarrow> i < 2 * P \<Longrightarrow> length (marks c) = MAX_LENGTH \<Longrightarrow> val None i c \<Longrightarrow> \<bar>X i\<bar> < 2 * s \<Longrightarrow>
      fits (bs @ sig_bits X s i) \<Longrightarrow>
      \<exists>c'. coef s i c = Some (s \<le> \<bar>X i\<bar>, c') \<and> at (bs @ sig_bits X s i) c' \<and>
        marks c' = (if s \<le> \<bar>X i\<bar> then (marks c)[i := MNP] else marks c) \<and>
        val (if s \<le> \<bar>X i\<bar> then Some s else None) i c' \<and> (\<forall>j v. j \<noteq> i \<longrightarrow> val v j c \<longrightarrow> val v j c')"
    and test_d_law: "plane s \<Longrightarrow> at bs c \<Longrightarrow> 1 \<le> q \<Longrightarrow> q < P \<Longrightarrow> fits (bs @ [s \<le> subtree_max X P q]) \<Longrightarrow>
      \<exists>c'. test_d s q c = Some (s \<le> subtree_max X P q, c') \<and> at (bs @ [s \<le> subtree_max X P q]) c' \<and>
        marks c' = marks c \<and> (\<forall>j v. val v j c \<longrightarrow> val v j c')"
    and test_g_law: "plane s \<Longrightarrow> at bs c \<Longrightarrow> 1 \<le> k \<Longrightarrow> 2 * k < P \<Longrightarrow>
      b = (s \<le> max (subtree_max X P (2 * k)) (subtree_max X P (2 * k + 1))) \<Longrightarrow> fits (bs @ [b]) \<Longrightarrow>
      \<exists>c'. test_g s k c = Some (b, c') \<and> at (bs @ [b]) c' \<and> marks c' = marks c \<and> (\<forall>j v. val v j c \<longrightarrow> val v j c')"
    and refine_law: "plane s \<Longrightarrow> at bs c \<Longrightarrow> i < 2 * P \<Longrightarrow> val (Some (2 * s)) i c \<Longrightarrow> fits (bs @ [\<bar>X i\<bar> AND s > 0]) \<Longrightarrow>
      \<exists>c'. refine s i c = Some c' \<and> at (bs @ [\<bar>X i\<bar> AND s > 0]) c' \<and> marks c' = marks c \<and>
        val (Some s) i c' \<and> (\<forall>j v. j \<noteq> i \<longrightarrow> val v j c \<longrightarrow> val v j c')"
begin

lemma range_ok: "at bs c \<Longrightarrow> P \<le> 2048 \<and> even P"
  using at_size size_okD by blast

lemma lev_put_sig:
  assumes "is_pix (st (i div 2))"
  shows "lev s 0 (put st i (sig_mark X s i)) i = (if s \<le> \<bar>X i\<bar> then Some s else None)"
  by (simp add: lev_def elem_put [where st = st, OF assms] sig_mark_def)

text \<open>Coding one coefficient\<close>

lemma coef_step:
  assumes "plane s" and rel: "nls_rel X P marks val s 0 c st" and "at bs c" and "i < 2 * P" and "is_pix (st (i div 2))"
    and "elem st i = MIP \<or> elem st i = MCP" and "fits (bs @ sig_bits X s i)"
  shows "\<exists>c'. coef s i c = Some (s \<le> \<bar>X i\<bar>, c') \<and> at (bs @ sig_bits X s i) c' \<and>
    marks c' = (if s \<le> \<bar>X i\<bar> then (marks c)[i := MNP] else marks c) \<and>
    (\<forall>c2. marks c2 = (marks c)[i := sig_mark X s i] \<and> (\<forall>v j. val v j c2 = val v j c') \<longrightarrow>
       nls_rel X P marks val s 0 c2 (put st i (sig_mark X s i)))"
proof -
  note d = nls_relD [OF rel]
  have none: "lev s 0 st i = None" using assms(6) by (auto simp: lev_def)
  have "val None i c" "\<bar>X i\<bar> < 2 * s" using d(4,5) [OF assms(4)] none by auto
  from coef_law [OF assms(1,3,4) d(3) this assms(7)] obtain c' where
    c': "coef s i c = Some (s \<le> \<bar>X i\<bar>, c')" "at (bs @ sig_bits X s i) c'"
      "marks c' = (if s \<le> \<bar>X i\<bar> then (marks c)[i := MNP] else marks c)"
      "val (if s \<le> \<bar>X i\<bar> then Some s else None) i c'" "\<And>j v. j \<noteq> i \<Longrightarrow> val v j c \<Longrightarrow> val v j c'" by blast
  have "nls_rel X P marks val s 0 c2 (put st i (sig_mark X s i))"
    if "marks c2 = (marks c)[i := sig_mark X s i]" "\<And>v j. val v j c2 = val v j c'" for c2
    by (rule rel_put [OF rel assms(4,5) _ that(1)])
      (use range_ok [OF assms(3)] c'(4,5) that(2) lev_put_sig [where st = st and i = i, OF assms(5)] \<open>\<bar>X i\<bar> < 2 * s\<close> in auto)
  with c'(1-3) show ?thesis by blast
qed

text \<open>The pass over insignificant coefficients\<close>

lemma ip_elem:
  assumes "plane s" and rel: "nls_rel X P marks val s 0 c st" and "at bs c" and i: "i < 2 * P" and pix: "is_pix (st (i div 2))"
    and "elem st i = a" and "plain a" and "fits (bs @ ip_bits X s i a)"
  shows "\<exists>c'. nls_ip_step marks (coef s) c i = Some (c', i + 1) \<and> at (bs @ ip_bits X s i a) c' \<and>
    nls_rel X P marks val s 0 c' (put st i (ip_mark X s i a))"
proof -
  note d = nls_relD [OF rel]
  have P: "P \<le> 2048" using range_ok [OF assms(3)] by simp
  have mi: "marks c ! i = a" by (rule pixel_mark [OF d(6) i pix assms(6)])
  have at_i: "aread (marks c) i = Some a" using mi i P d(3) by (simp add: mem_simps MAX_LENGTH_def)
  show ?thesis
  proof (cases "a = MIP")
    case True
    have f: "fits (bs @ sig_bits X s i)" using assms(8) True by (simp add: ip_bits_def)
    obtain c' where c': "coef s i c = Some (s \<le> \<bar>X i\<bar>, c')" "at (bs @ sig_bits X s i) c'"
        "marks c' = (if s \<le> \<bar>X i\<bar> then (marks c)[i := MNP] else marks c)"
        "\<And>c2. marks c2 = (marks c)[i := sig_mark X s i] \<Longrightarrow> (\<And>v j. val v j c2 = val v j c') \<Longrightarrow>
           nls_rel X P marks val s 0 c2 (put st i (sig_mark X s i))"
      using coef_step [OF assms(1,2,3) i pix _ f] assms(6) True by auto
    have "marks c' = (marks c)[i := sig_mark X s i]"
      using c'(3) mi True list_update_id [of "marks c" i] by (auto simp: sig_mark_def)
    from c'(4) [OF this] c'(1,2) at_i True i P show ?thesis
      by (auto simp: nls_ip_step_def ip_bits_def ip_mark_def wrap_small)
  next
    case False
    then have "skip a = 1" using assms(7) by (auto simp: plain_def)
    moreover have "nls_rel X P marks val s 0 c (put st i a)"
      by (rule rel_put [OF rel i pix P]) (use mi d(4,5) [OF i] assms(6) in \<open>auto simp: lev_def elem_put pix\<close>)
    ultimately show ?thesis using False at_i i P assms(3)
      by (simp add: nls_ip_step_def ip_bits_def ip_mark_def wrap_small)
  qed
qed

text \<open>A pass over the pairs that are coded on their own; \<open>K\<close> says how far refinement has come.\<close>

lemma local_run:
  fixes step :: "'c \<Rightarrow> nat \<Rightarrow> ('c \<times> nat) option" and bits :: "nat \<Rightarrow> marker \<Rightarrow> bool list"
    and mark :: "nat \<Rightarrow> marker \<Rightarrow> marker" and K :: "nat \<Rightarrow> nat" and s :: int
  defines "f \<equiv> local_pair bits mark" and "R \<equiv> \<lambda>k. nls_rel X P marks val s (K k)"
  assumes elem_law: "\<And>c st bs i a. R i c st \<Longrightarrow> at bs c \<Longrightarrow> i < 2 * P \<Longrightarrow> is_pix (st (i div 2)) \<Longrightarrow> elem st i = a \<Longrightarrow> plain a \<Longrightarrow>
      fits (bs @ bits i a) \<Longrightarrow>
      \<exists>c'. step c i = Some (c', i + 1) \<and> at (bs @ bits i a) c' \<and> R (i + 1) c' (put st i (mark i a))"
    and idle_law: "\<And>c j a. aread (marks c) j = Some a \<Longrightarrow> a = NM \<or> a = MD \<or> a = MG \<or> (\<exists>k. a = MN k) \<Longrightarrow>
      step c j = Some (c, wrap_u16 (j + skip a))"
    and plain_law: "\<And>i a. plain a \<Longrightarrow> plain (mark i a)"
    and K_law: "\<And>c st q q'. R (2 * q) c st \<Longrightarrow> q \<le> q' \<Longrightarrow> (\<And>r. q \<le> r \<Longrightarrow> r < q' \<Longrightarrow> r < P \<Longrightarrow> \<not> is_pix (st r)) \<Longrightarrow> R (2 * q') c st"
  shows "R (2 * q) c st \<Longrightarrow> at bs c \<Longrightarrow> no_mcp st \<Longrightarrow> fits (bs @ fst (run_pairs f [q..<P] st)) \<Longrightarrow> q \<le> P \<Longrightarrow>
    nls_outcome stop at (\<lambda>c. R (2 * P) c (snd (run_pairs f [q..<P] st)))
      (bs @ fst (run_pairs f [q..<P] st)) (nls_while (2 * P) step stop c (2 * q))"
proof (induction "P - q" arbitrary: q st bs c rule: less_induct)
  case less
  note rel = less.prems(1) [unfolded R_def]
  note d = nls_relD [OF rel]
  show ?case
  proof (cases "q < P")
    case False
    with less.prems show ?thesis by (subst nls_while.simps) (auto simp: nls_outcome_def)
  next
    case True
    note P = range_ok [OF less.prems(2)]
    have m: "aread (marks c) j = Some (marks c ! j)" if "j < 2 * P" for j
      using that d(3) P by (simp add: mem_simps MAX_LENGTH_def)
    have jump: "nls_outcome stop at (\<lambda>c. R (2 * P) c (snd (run_pairs f [q..<P] st)))
        (bs @ fst (run_pairs f [q..<P] st)) (nls_while (2 * P) step stop c (2 * q'))"
      if q': "q < q'" "\<And>r. q \<le> r \<Longrightarrow> r < q' \<Longrightarrow> r < P \<Longrightarrow> \<not> is_pix (st r)" for q'
    proof -
      define u where "u = min q' P"
      have u: "q < u" "u \<le> P" "\<And>r. q \<le> r \<Longrightarrow> r < u \<Longrightarrow> \<not> is_pix (st r)" using q' True by (auto simp: u_def)
      have e: "run_pairs f [q..<P] st = run_pairs f [u..<P] st"
        using u by (intro run_pairs_upto) (auto simp: f_def local_pair_idle)
      have "nls_while (2 * P) step stop c (2 * q') = nls_while (2 * P) step stop c (2 * u)"
        by (cases "q' \<le> P") (simp_all add: u_def nls_while.simps)
      moreover have "R (2 * u) c st" by (rule K_law [OF less.prems(1)]) (use u in auto)
      ultimately show ?thesis
        using less.hyps [of u c st bs] less.prems u True by (simp add: e diff_less_mono2)
    qed
    have skip_to: ?thesis
      if "q < q'" "\<And>r. q \<le> r \<Longrightarrow> r < q' \<Longrightarrow> r < P \<Longrightarrow> \<not> is_pix (st r)" and "step c (2 * q) = Some (c, 2 * q')" for q'
      by (rule outcome_step [where step = step and c = c and at = at, OF that(3) _ less.prems(2) jump [OF that(1,2)]])
        (use True in simp_all)
    show ?thesis
    proof (cases "st q")
      case Hidden
      then have "1 \<le> q" using d(2) by (cases q) (auto simp: tree_ok_def)
      show ?thesis
        by (rule hidden_outcome [where step = step, OF rel Hidden \<open>1 \<le> q\<close> True _ _ less.prems(2) jump])
          (use P m idle_law in auto)
    next
      case Dset
      then have "marks c ! (2 * q) = MD" using d(6) [OF True] by (simp add: pair_ok_def)
      with Dset True P m [of "2 * q"] idle_law [of c "2 * q" MD] show ?thesis
        by (intro skip_to [of "q + 1"]) (auto simp: wrap_small le_less_Suc_eq)
    next
      case Gset
      then have "marks c ! (2 * q) = MG" using d(6) [OF True] by (simp add: pair_ok_def)
      moreover have "\<not> is_pix (st r)" if "q \<le> r" "r < q + 2" for r
        using that gset_even(4) [OF d(2) Gset True] Gset by (cases "r = q") (auto simp: le_less_Suc_eq)
      ultimately show ?thesis using True P m [of "2 * q"] idle_law [of c "2 * q" MG]
        by (intro skip_to [of "q + 2"]) (auto simp: wrap_small)
    next
      case (Pix a b)
      let ?a = "mark (2 * q) a" and ?b = "mark (2 * q + 1) b"
      let ?st1 = "put st (2 * q) ?a" and ?st2 = "st(q := Pix ?a ?b)"
      let ?bs1 = "bs @ bits (2 * q) a" and ?rest = "run_pairs f [Suc q..<P] ?st2"
      let ?bs2 = "?bs1 @ bits (2 * q + 1) b"
      have run: "run_pairs f [q..<P] st = (bits (2 * q) a @ bits (2 * q + 1) b @ fst ?rest, snd ?rest)"
        using True Pix by (simp add: upt_conv_Cons f_def local_pair_def split_beta)
      have plain: "plain a" "plain b" using less.prems(3) Pix by (auto dest: no_mcp_pix)
      have f2: "fits (?bs2 @ fst ?rest)" using less.prems(4) run by simp
      then have f: "fits ?bs1" "fits ?bs2" by (metis append_assoc fits_prefix)+
      have e1: "?st1 = st(q := Pix ?a b)" using Pix by (rule put_simps)
      obtain c1 where c1: "step c (2 * q) = Some (c1, 2 * q + 1)" "at ?bs1 c1" "R (2 * q + 1) c1 ?st1"
        using elem_law [OF less.prems(1,2), of a] True Pix plain f(1) by auto
      obtain c2 where c2: "step c1 (2 * q + 1) = Some (c2, 2 * (q + 1))" "at ?bs2 c2"
          "R (2 * (q + 1)) c2 (put ?st1 (2 * q + 1) ?b)"
        using elem_law [OF c1(3,2), of b] True plain f(2) by (auto simp: e1)
      have e2: "put ?st1 (2 * q + 1) ?b = ?st2" using Pix by (rule put_pair)
      have "no_mcp ?st2" using less.prems(3) plain by (simp add: no_mcp_upd plain_law)
      then have IH: "nls_outcome stop at (\<lambda>c. R (2 * P) c (snd ?rest)) (?bs2 @ fst ?rest)
          (nls_while (2 * P) step stop c2 (2 * (q + 1)))"
        using less.hyps [of "q + 1" c2 ?st2 ?bs2] c2(2,3) True f2 unfolding e2 by simp
      show ?thesis
        by (rule outcome_step [where step = step and c = c and at = at, OF c1(1) _ c1(2)], use True in simp)
          (rule outcome_step [where step = step and c = c1 and at = at, OF c2(1) _ c2(2)], use True IH run in simp_all)
    qed
  qed
qed

lemma ip_run:
  assumes "plane s" and "nls_rel X P marks val s 0 c st" and "at bs c" and "no_mcp st"
    and "fits (bs @ fst (run_pairs (ip_pair X s) [0..<P] st))"
  shows "nls_outcome stop at (\<lambda>c. nls_rel X P marks val s 0 c (snd (run_pairs (ip_pair X s) [0..<P] st)))
    (bs @ fst (run_pairs (ip_pair X s) [0..<P] st)) (nls_while (2 * P) (nls_ip_step marks (coef s)) stop c 0)"
proof -
  have "nls_outcome stop at (\<lambda>c. nls_rel X P marks val s 0 c (snd (run_pairs (local_pair (ip_bits X s) (ip_mark X s)) [0..<P] st)))
      (bs @ fst (run_pairs (local_pair (ip_bits X s) (ip_mark X s)) [0..<P] st))
      (nls_while (2 * P) (nls_ip_step marks (coef s)) stop c (2 * 0))"
  proof (rule local_run [where K = "\<lambda>i. 0" and q = 0, OF ip_elem [OF assms(1)]])
    fix c :: 'c and j a
    assume "aread (marks c) j = Some a" "a = NM \<or> a = MD \<or> a = MG \<or> (\<exists>k. a = MN k)"
    then show "nls_ip_step marks (coef s) c j = Some (c, wrap_u16 (j + skip a))" by (auto simp: nls_ip_step_def)
  qed (use assms in \<open>simp_all add: ip_pair_def plain_mark\<close>)
  then show ?thesis by (simp add: ip_pair_def)
qed

text \<open>The refinement pass\<close>

lemma ref_elem:
  assumes "plane s" and rel: "nls_rel X P marks val s i c st" and "at bs c" and i: "i < 2 * P" and pix: "is_pix (st (i div 2))"
    and a: "elem st i = a" and "plain a" and "fits (bs @ ref_bits X s i a)"
  shows "\<exists>c'. nls_ref_step marks remark (refine s) c i = Some (c', i + 1) \<and> at (bs @ ref_bits X s i a) c' \<and>
    nls_rel X P marks val s (i + 1) c' (put st i (ref_mark a))"
proof -
  note d = nls_relD [OF rel]
  have P: "P \<le> 2048" using range_ok [OF assms(3)] by simp
  have mi: "marks c ! i = a" by (rule pixel_mark [OF d(6) i pix a])
  have at_i: "aread (marks c) i = Some a" using mi i P d(3) by (simp add: mem_simps MAX_LENGTH_def)
  have w: "wrap_u16 (i + 1) = i + 1" using i P by (simp add: wrap_small)
  note put = rel_put [OF rel i pix P]
  consider "a = MSP" | "a = MNP" | "a = MIP" using assms(7) by (auto simp: plain_def)
  then show ?thesis
  proof cases
    case 1
    have "val (Some (2 * s)) i c" using d(4) [OF i] a 1 by (simp add: lev_def)
    moreover have "fits (bs @ [\<bar>X i\<bar> AND s > 0])" using assms(8) 1 by (simp add: ref_bits_def)
    ultimately obtain c' where c': "refine s i c = Some c'" "at (bs @ [\<bar>X i\<bar> AND s > 0]) c'" "marks c' = marks c"
        "val (Some s) i c'" "\<And>j v. j \<noteq> i \<Longrightarrow> val v j c \<Longrightarrow> val v j c'"
      using refine_law [OF assms(1,3) i] by blast
    have "nls_rel X P marks val s (i + 1) c' (put st i MSP)"
      by (rule put) (use c' mi 1 pix list_update_id [of "marks c" i] in \<open>auto simp: lev_def elem_put\<close>)
    then show ?thesis using c'(1,2) at_i 1 w by (simp add: nls_ref_step_def ref_bits_def ref_mark_def)
  next
    case 2
    let ?c = "remark ((marks c)[i := MSP]) c"
    have "val (Some s) i c" using d(4) [OF i] a 2 by (simp add: lev_def)
    then have "nls_rel X P marks val s (i + 1) ?c (put st i MSP)"
      by (intro put) (use pix in \<open>auto simp: lev_def elem_put\<close>)
    then show ?thesis using assms(3) at_i 2 w i P d(3)
      by (simp add: nls_ref_step_def ref_bits_def ref_mark_def mem_simps MAX_LENGTH_def)
  next
    case 3
    have "nls_rel X P marks val s (i + 1) c (put st i MIP)"
      by (rule put) (use mi 3 pix a d(4,5) [OF i] list_update_id [of "marks c" i] in \<open>auto simp: lev_def elem_put\<close>)
    then show ?thesis using assms(3) at_i 3 w by (simp add: nls_ref_step_def ref_bits_def ref_mark_def)
  qed
qed

lemma rel_further:
  assumes "nls_rel X P marks val s (2 * q) c st" and "q \<le> q'" and "\<And>r. q \<le> r \<Longrightarrow> r < q' \<Longrightarrow> r < P \<Longrightarrow> \<not> is_pix (st r)"
  shows "nls_rel X P marks val s (2 * q') c st"
proof -
  have "lev s (2 * q') st i = lev s (2 * q) st i" if "i < 2 * P" for i
  proof (cases "2 * q \<le> i \<and> i < 2 * q'")
    case True
    then have "\<not> is_pix (st (i div 2))" using that by (intro assms(3)) auto
    then have "elem st i = NM" by (auto simp: elem_def split: pstate.split)
    then show ?thesis by (simp add: lev_def)
  next
    case False
    then have "(i < 2 * q') = (i < 2 * q)" using assms(2) by auto
    then show ?thesis by (simp add: lev_def cong: marker.case_cong)
  qed
  with assms(1) show ?thesis by (simp add: nls_rel_def)
qed

lemma ref_run:
  assumes "plane s" and "nls_rel X P marks val s 0 c st" and "at bs c" and "no_mcp st"
    and "fits (bs @ fst (run_pairs (ref_pair X s) [0..<P] st))"
  shows "nls_outcome stop at (\<lambda>c. nls_rel X P marks val s (2 * P) c (snd (run_pairs (ref_pair X s) [0..<P] st)))
    (bs @ fst (run_pairs (ref_pair X s) [0..<P] st)) (nls_while (2 * P) (nls_ref_step marks remark (refine s)) stop c 0)"
proof -
  have "nls_outcome stop at (\<lambda>c. nls_rel X P marks val s (2 * P) c (snd (run_pairs (local_pair (ref_bits X s) (\<lambda>i. ref_mark)) [0..<P] st)))
      (bs @ fst (run_pairs (local_pair (ref_bits X s) (\<lambda>i. ref_mark)) [0..<P] st))
      (nls_while (2 * P) (nls_ref_step marks remark (refine s)) stop c (2 * 0))"
  proof (rule local_run [where K = "\<lambda>i. i" and q = 0, OF ref_elem [OF assms(1)]])
    fix c :: 'c and j a
    assume "aread (marks c) j = Some a" "a = NM \<or> a = MD \<or> a = MG \<or> (\<exists>k. a = MN k)"
    then show "nls_ref_step marks remark (refine s) c j = Some (c, wrap_u16 (j + skip a))" by (auto simp: nls_ref_step_def)
  qed (use assms rel_further in \<open>simp_all add: ref_pair_def plain_mark\<close>)
  then show ?thesis by (simp add: ref_pair_def)
qed

text \<open>The pass over sets\<close>

lemma rel_keep:
  assumes "nls_rel X P marks val s 0 c st" and "marks_rel P (marks c') st'" and "tree_ok P st'"
    and "\<And>j v. val v j c \<Longrightarrow> val v j c'" and "\<And>i. elem st' i = elem st i \<or> elem st' i \<in> {NM, MCP} \<and> elem st i \<in> {NM, MCP}"
  shows "nls_rel X P marks val s 0 c' st'"
proof -
  have "lev s 0 st' i = lev s 0 st i" for i using assms(5) [of i] by (auto simp: lev_def)
  with assms(1-4) show ?thesis by (simp add: nls_rel_def)
qed

lemma mcp_elem:
  assumes "plane s" and rel: "nls_rel X P marks val s 0 c st" and "at bs c" and i: "i < 2 * P" and pix: "is_pix (st (i div 2))"
    and "elem st i = MCP" and "fits (bs @ sig_bits X s i)"
  shows "\<exists>c'. nls_is_step marks remark (coef s) (test_d s) (test_g s) (2 * P) c i = Some (c', i + 1) \<and>
    at (bs @ sig_bits X s i) c' \<and> nls_rel X P marks val s 0 c' (put st i (sig_mark X s i))"
proof -
  note d = nls_relD [OF rel]
  have P: "P \<le> 2048" using range_ok [OF assms(3)] by simp
  have mi: "marks c ! i = MCP" by (rule pixel_mark [OF d(6) i pix assms(6)])
  have at_i: "aread (marks c) i = Some MCP" using mi i P d(3) by (simp add: mem_simps MAX_LENGTH_def)
  obtain c' where c': "coef s i c = Some (s \<le> \<bar>X i\<bar>, c')" "at (bs @ sig_bits X s i) c'"
      "marks c' = (if s \<le> \<bar>X i\<bar> then (marks c)[i := MNP] else marks c)"
      "\<And>c2. marks c2 = (marks c)[i := sig_mark X s i] \<Longrightarrow> (\<And>v j. val v j c2 = val v j c') \<Longrightarrow>
         nls_rel X P marks val s 0 c2 (put st i (sig_mark X s i))"
    using coef_step [OF assms(1,2,3) i pix _ assms(7)] assms(6) by auto
  let ?c = "if s \<le> \<bar>X i\<bar> then c' else remark ((marks c)[i := MIP]) c'"
  have "nls_rel X P marks val s 0 ?c (put st i (sig_mark X s i))" using c'(3) by (intro c'(4)) (auto simp: sig_mark_def)
  moreover have "nls_is_step marks remark (coef s) (test_d s) (test_g s) (2 * P) c i = Some (?c, i + 1)"
    using at_i c'(1,3) i P d(3) by (simp add: nls_is_step_def wrap_small mem_simps MAX_LENGTH_def)
  ultimately show ?thesis using c'(2) by auto
qed

lemma d_outcome:
  fixes c :: 'c and st and s and q
  defines "step \<equiv> nls_is_step marks remark (coef s) (test_d s) (test_g s) (2 * P)"
    and "bits \<equiv> fst (d_pair X P s q st)" and "st' \<equiv> snd (d_pair X P s q st)"
  assumes "plane s" and rel: "nls_rel X P marks val s 0 c st" and at: "at bs c" and q: "st q = Dset" "1 \<le> q" "q < P"
    and fits: "fits (bs @ bits)"
    and next_pair: "\<And>c'. nls_rel X P marks val s 0 c' st' \<Longrightarrow> at (bs @ bits) c' \<Longrightarrow>
      nls_outcome stop at R ks (nls_while (2 * P) step stop c' (2 * (q + 1)))"
  shows "nls_outcome stop at R ks (nls_while (2 * P) step stop c (2 * q))"
proof -
  note d = nls_relD [OF rel]
  note P = range_ok [OF at]
  have mi: "aread (marks c) (2 * q) = Some MD"
    using d(6) [OF q(3)] q d(3) P by (simp add: pair_ok_def mem_simps MAX_LENGTH_def)
  let ?sig = "s \<le> subtree_max X P q"
  have "fits (bs @ [?sig])"
    by (rule fits_prefix [of _ "tl bits"]) (use fits in \<open>simp add: bits_def d_pair_def split: if_splits\<close>)
  then obtain c1 where c1: "test_d s q c = Some (?sig, c1)" "at (bs @ [?sig]) c1" "marks c1 = marks c"
      "\<And>j v. val v j c \<Longrightarrow> val v j c1"
    using test_d_law [OF assms(4) at q(2,3)] by blast
  show ?thesis
  proof (cases ?sig)
    case False
    then have e: "bits = [False]" "st' = st" by (simp_all add: bits_def st'_def d_pair_def)
    have s1: "step c (2 * q) = Some (c1, 2 * (q + 1))" using mi c1(1) False q P by (simp add: step_def nls_is_step_def wrap_small)
    have "nls_rel X P marks val s 0 c1 st" using d(1,2) c1(3,4) by (intro rel_keep [OF rel]) simp_all
    then have "nls_outcome stop at R ks (nls_while (2 * P) step stop c1 (2 * (q + 1)))"
      using c1(2) False by (intro next_pair) (simp_all add: e)
    then show ?thesis
      using q(3) by (intro outcome_step [where step = step and c = c and at = at, OF s1 _ c1(2)]) simp_all
  next
    case True
    let ?m1 = "sig_mark X s (2 * q)" and ?m2 = "sig_mark X s (2 * q + 1)"
    define st1 where "st1 = (if 2 * q < P then st(q := Pix MCP MCP, 2 * q := Gset) else st(q := Pix MCP MCP))"
    define mk1 where "mk1 = (if 2 * q < P then (marks c)[2 * q + 1 := MCP, 2 * q := MCP, 2 * (2 * q) := MG]
      else (marks c)[2 * q + 1 := MCP, 2 * q := MCP])"
    have split: "marks_rel P mk1 st1" "tree_ok P st1"
      using split_d [OF d(1,2) q(1,3)] P by (simp_all add: mk1_def st1_def split: if_splits)
    let ?c2 = "remark mk1 c1"
    have s1: "step c (2 * q) = Some (?c2, 2 * q)"
      using mi c1(1,3) True q P d(3) by (simp add: step_def nls_is_step_def mk1_def mem_simps MAX_LENGTH_def)
    have h: "2 * q < P \<Longrightarrow> st (2 * q) = Hidden" using tree_children [OF d(2) q(2)] q(1) by simp
    have r2: "nls_rel X P marks val s 0 ?c2 st1"
      using split c1(4) q h by (intro rel_keep [OF rel]) (auto simp: st1_def elem_upd elem_def)
    have a2: "at (bs @ [True]) ?c2" using c1(2) True by simp
    have e: "bits = [True] @ sig_bits X s (2 * q) @ sig_bits X s (2 * q + 1)"
      and st': "st' = (if 2 * q < P then st(q := Pix ?m1 ?m2, 2 * q := Gset) else st(q := Pix ?m1 ?m2))"
      using True by (simp_all add: bits_def st'_def d_pair_def)
    have pix: "st1 q = Pix MCP MCP" using q(2) by (simp add: st1_def)
    have f: "fits ((bs @ [True]) @ sig_bits X s (2 * q))" "fits (((bs @ [True]) @ sig_bits X s (2 * q)) @ sig_bits X s (2 * q + 1))"
      using fits fits_prefix [of "(bs @ [True]) @ sig_bits X s (2 * q)" "sig_bits X s (2 * q + 1)"] by (simp_all add: e)
    obtain c3 where c3: "step ?c2 (2 * q) = Some (c3, 2 * q + 1)" "at ((bs @ [True]) @ sig_bits X s (2 * q)) c3"
        "nls_rel X P marks val s 0 c3 (put st1 (2 * q) ?m1)"
      using mcp_elem [OF assms(4) r2 a2, of "2 * q"] pix q(3) f(1) unfolding step_def by auto
    have p1: "put st1 (2 * q) ?m1 = st1(q := Pix ?m1 MCP)" using pix by (rule put_simps)
    obtain c4 where c4: "step c3 (2 * q + 1) = Some (c4, 2 * (q + 1))"
        "at (((bs @ [True]) @ sig_bits X s (2 * q)) @ sig_bits X s (2 * q + 1)) c4"
        "nls_rel X P marks val s 0 c4 (put (put st1 (2 * q) ?m1) (2 * q + 1) ?m2)"
      using mcp_elem [OF assms(4) c3(3,2), of "2 * q + 1"] q(3) f(2) unfolding step_def by (auto simp: p1)
    have "put (put st1 (2 * q) ?m1) (2 * q + 1) ?m2 = st'"
      unfolding put_pair [where st = st1 and q = q, OF pix] using q(2) by (auto simp: st1_def st' fun_upd_twist)
    then have last: "nls_outcome stop at R ks (nls_while (2 * P) step stop c4 (2 * (q + 1)))"
      using c4(2,3) by (intro next_pair) (simp_all add: e)
    note go = outcome_step [where step = step and at = at]
    show ?thesis
      by (rule go [where c = c, OF s1 _ a2], use q(3) in simp, rule go [where c = ?c2, OF c3(1) _ c3(2)], use q(3) in simp,
          rule go [where c = c3, OF c4(1) _ c4(2)], use q(3) last in simp_all)
  qed
qed

lemma is_run:
  fixes s :: int
  defines "step \<equiv> nls_is_step marks remark (coef s) (test_d s) (test_g s) (2 * P)" and "f \<equiv> is_pair X P s"
  assumes "plane s"
  shows "nls_rel X P marks val s 0 c st \<Longrightarrow> at bs c \<Longrightarrow> no_mcp st \<Longrightarrow> fits (bs @ fst (run_pairs f [q..<P] st)) \<Longrightarrow>
    nls_outcome stop at (\<lambda>c. nls_rel X P marks val s 0 c (snd (run_pairs f [q..<P] st)))
      (bs @ fst (run_pairs f [q..<P] st)) (nls_while (2 * P) step stop c (2 * q))"
proof (induction "P - q" arbitrary: q st bs c rule: less_induct)
  case less
  note rel = less.prems(1)
  note d = nls_relD [OF rel]
  show ?case
  proof (cases "q < P")
    case False
    with less.prems show ?thesis by (subst nls_while.simps) (auto simp: nls_outcome_def)
  next
    case True
    note P = range_ok [OF less.prems(2)]
    have m: "aread (marks c) j = Some (marks c ! j)" if "j < 2 * P" for j
      using that d(3) P by (simp add: mem_simps MAX_LENGTH_def)
    have jump: "nls_outcome stop at (\<lambda>c. nls_rel X P marks val s 0 c (snd (run_pairs f [q..<P] st)))
        (bs @ fst (run_pairs f [q..<P] st)) (nls_while (2 * P) step stop c' (2 * q'))"
      if "q < q'" "\<And>r. q \<le> r \<Longrightarrow> r < q' \<Longrightarrow> r < P \<Longrightarrow> f r st = ([], st)" "nls_rel X P marks val s 0 c' st" "at bs c'" for q' c'
    proof -
      have e: "run_pairs f [q..<P] st = run_pairs f [q'..<P] st" using that(1,2) by (intro run_pairs_upto) auto
      show ?thesis
        using less.hyps [of q' c' st bs] less.prems(3,4) that(1,3,4) True by (simp add: e diff_less_mono2)
    qed
    show ?thesis
    proof (cases "st q")
      case Hidden
      then have "1 \<le> q" using d(2) by (cases q) (auto simp: tree_ok_def)
      show ?thesis
      proof (rule hidden_outcome [where st = st and q = q and c = c and at = at and step = step, OF rel Hidden \<open>1 \<le> q\<close> True _ _ less.prems(2)])
        fix q' assume "q < q'" "\<And>r. q \<le> r \<Longrightarrow> r < q' \<Longrightarrow> r < P \<Longrightarrow> st r = Hidden"
        then show "nls_outcome stop at (\<lambda>c. nls_rel X P marks val s 0 c (snd (run_pairs f [q..<P] st)))
            (bs @ fst (run_pairs f [q..<P] st)) (nls_while (2 * P) step stop c (2 * q'))"
          by (intro jump rel less.prems(2)) (auto simp: f_def is_pair_def)
      qed (use P m in \<open>auto simp: step_def nls_is_step_def\<close>)
    next
      case (Pix a b)
      then have "marks c ! (2 * q) = a" using d(6) [OF True] by (simp add: pair_ok_def)
      moreover have "plain a" using less.prems(3) Pix by (auto dest: no_mcp_pix)
      ultimately have s1: "step c (2 * q) = Some (c, 2 * (q + 1))"
        using m [of "2 * q"] True P by (auto simp: step_def nls_is_step_def plain_def wrap_small)
      have "nls_outcome stop at (\<lambda>c. nls_rel X P marks val s 0 c (snd (run_pairs f [q..<P] st)))
          (bs @ fst (run_pairs f [q..<P] st)) (nls_while (2 * P) step stop c (2 * (q + 1)))"
        by (intro jump rel less.prems(2)) (use Pix in \<open>auto simp: f_def is_pair_def less_Suc_eq\<close>)
      then show ?thesis
        using True by (intro outcome_step [where step = step and c = c and at = at, OF s1 _ less.prems(2)]) simp_all
    next
      case Dset
      then have q1: "1 \<le> q" using d(2) by (cases q) (auto simp: tree_ok_def)
      let ?bits = "fst (d_pair X P s q st)" and ?st = "snd (d_pair X P s q st)"
      let ?rest = "run_pairs f [Suc q..<P] ?st"
      have run: "run_pairs f [q..<P] st = (?bits @ fst ?rest, snd ?rest)"
        using True Dset by (simp add: upt_conv_Cons f_def is_pair_def split_beta)
      have fits: "fits (bs @ ?bits)" using less.prems(4) run fits_prefix [of "bs @ ?bits" "fst ?rest"] by simp
      have n: "no_mcp ?st" using less.prems(3) by (simp add: d_pair_def no_mcp_upd plain_mark)
      show ?thesis
        by (rule d_outcome [OF assms(3) rel less.prems(2) Dset q1 True fits, folded step_def])
          (use less.hyps [of "q + 1" _ ?st "bs @ ?bits"] n less.prems(4) True run in simp)
    next
      case Gset
      note g = gset_even [OF d(2) Gset True]
      obtain k where k: "q = 2 * k" "1 \<le> k" "2 * k < P" using g(1,2) True by (elim evenE) auto
      let ?sig = "s \<le> max (subtree_max X P q) (subtree_max X P (q + 1))"
      let ?st2 = "st(q := Dset, q + 1 := Dset)"
      have mi: "marks c ! (2 * q) = MG" using d(6) [OF True] Gset by (simp add: pair_ok_def)
      obtain more where more: "fst (run_pairs f [q..<P] st) = [?sig] @ more"
        using True Gset by (cases ?sig) (simp_all add: upt_conv_Cons f_def is_pair_def split_beta)
      then have "fits (bs @ [?sig])" using less.prems(4) fits_prefix [of "bs @ [?sig]" more] by simp
      then obtain c1 where c1: "test_g s k c = Some (?sig, c1)" "at (bs @ [?sig]) c1" "marks c1 = marks c"
          "\<And>j v. val v j c \<Longrightarrow> val v j c1"
        using test_g_law [OF assms(3) less.prems(2) k(2,3), of ?sig] k(1) by (auto simp: add.commute)
      have quarter: "2 * q div 4 = k" using k(1) by simp
      show ?thesis
      proof (cases ?sig)
        case False
        have s1: "step c (2 * q) = Some (c1, 2 * (q + 2))"
          using m [of "2 * q"] mi c1(1) False True P quarter by (simp add: step_def nls_is_step_def wrap_small)
        have r1: "nls_rel X P marks val s 0 c1 st" using d(1,2) c1(3,4) by (intro rel_keep [OF rel]) simp_all
        have "run_pairs f [q..<P] st = ([False] @ fst (run_pairs f [q + 2..<P] st), snd (run_pairs f [q + 2..<P] st))"
        proof -
          have "run_pairs f [Suc q..<P] st = run_pairs f [q + 2..<P] st"
            using g(4) by (intro run_pairs_upto) (auto simp: f_def is_pair_def le_less_Suc_eq)
          then show ?thesis using True False Gset by (simp add: upt_conv_Cons f_def is_pair_def split_beta)
        qed
        then have "nls_outcome stop at (\<lambda>c. nls_rel X P marks val s 0 c (snd (run_pairs f [q..<P] st)))
            (bs @ fst (run_pairs f [q..<P] st)) (nls_while (2 * P) step stop c1 (2 * (q + 2)))"
          using less.hyps [of "q + 2" c1 st "bs @ [False]"] r1 c1(2) False less.prems(3,4) True by simp
        then show ?thesis
          using True by (intro outcome_step [where step = step and c = c and at = at, OF s1 _ c1(2)]) simp_all
      next
        case sig: True
        obtain mk1 mk' where mk': "nls_push ((marks c)[2 * q + 2 := MD, 2 * q := MD]) (2 * q) (2 * P) = Some mk1"
            "nls_push mk1 (2 * (q + 1)) (2 * P) = Some mk'" "marks_rel P mk' ?st2" "tree_ok P ?st2"
          using split_g [OF d(1,2) Gset True] P by blast
        let ?c2 = "remark mk' c1"
        have q1: "q + 1 < P" using k(1,3) P by presburger
        have "wrap_u16 (2 * q + 2) = 2 * (q + 1)" using True P by (simp add: wrap_small)
        then have s1: "step c (2 * q) = Some (?c2, 2 * q)"
          using m [of "2 * q"] mi c1(1,3) sig True P quarter mk'(1,2) d(3) q1
          by (simp add: step_def nls_is_step_def mem_simps MAX_LENGTH_def)
        have r2: "nls_rel X P marks val s 0 ?c2 ?st2"
          using mk'(3,4) c1(4) Gset g(4) by (intro rel_keep [OF rel]) (auto simp: elem_upd elem_def)
        have a2: "at (bs @ [True]) ?c2" using c1(2) sig by simp
        let ?bits = "fst (d_pair X P s q ?st2)" and ?st = "snd (d_pair X P s q ?st2)"
        let ?rest = "run_pairs f [Suc q..<P] ?st"
        have run: "run_pairs f [q..<P] st = ([True] @ ?bits @ fst ?rest, snd ?rest)"
          using True Gset sig by (simp add: upt_conv_Cons f_def is_pair_def split_beta)
        have fits: "fits ((bs @ [True]) @ ?bits)"
          using less.prems(4) run fits_prefix [of "(bs @ [True]) @ ?bits" "fst ?rest"] by simp
        have n: "no_mcp ?st" using less.prems(3) by (simp add: d_pair_def no_mcp_upd plain_mark)
        have D: "?st2 q = Dset" "1 \<le> q" using g(1) by simp_all
        have "nls_outcome stop at (\<lambda>c. nls_rel X P marks val s 0 c (snd (run_pairs f [q..<P] st)))
            (bs @ fst (run_pairs f [q..<P] st)) (nls_while (2 * P) step stop ?c2 (2 * q))"
          by (rule d_outcome [OF assms(3) r2 a2 D True fits, folded step_def])
            (use less.hyps [of "q + 1" _ ?st "(bs @ [True]) @ ?bits"] n less.prems(4) True run in simp)
        then show ?thesis
          using True by (intro outcome_step [where step = step and c = c and at = at, OF s1 _ a2]) simp_all
      qed
    qed
  qed
qed

text \<open>The three passes over one plane; a scan that stops in between ends the coding.\<close>

lemma plane_passes:
  fixes c :: 'c and st and s :: int
  defines "W1 \<equiv> nls_while (2 * P) (nls_ip_step marks (coef s)) stop"
    and "W2 \<equiv> nls_while (2 * P) (nls_is_step marks remark (coef s) (test_d s) (test_g s) (2 * P)) stop"
    and "W3 \<equiv> nls_while (2 * P) (nls_ref_step marks remark (refine s)) stop"
    and "halted \<equiv> \<lambda>c. stop c \<and> (\<exists>ks. at ks c)" and "bits \<equiv> fst (plane_run X P s st)" and "st' \<equiv> snd (plane_run X P s st)"
  assumes "plane s" and "nls_rel X P marks val s 0 c st" and "at bs c" and "no_mcp st" and "fits (bs @ bits)"
  shows "\<exists>c1. W1 c 0 = Some c1 \<and> (halted c1 \<or> (\<exists>bs1. at bs1 c1) \<and>
    (\<exists>c2. W2 c1 0 = Some c2 \<and> (halted c2 \<or> (\<exists>bs2. at bs2 c2) \<and>
    (\<exists>c3. W3 c2 0 = Some c3 \<and> (halted c3 \<or> at (bs @ bits) c3 \<and> nls_rel X P marks val s (2 * P) c3 st' \<and> no_mcp st' \<and>
       (\<forall>i<2 * P. elem st' i \<noteq> MNP) \<and> (\<forall>i<2 * P. lev s (2 * P) st' i = None \<longrightarrow> \<bar>X i\<bar> < s))))))"
proof -
  let ?r1 = "run_pairs (ip_pair X s) [0..<P] st"
  let ?r2 = "run_pairs (is_pair X P s) [0..<P] (snd ?r1)"
  let ?r3 = "run_pairs (ref_pair X s) [0..<P] (snd ?r2)"
  have run: "bits = fst ?r1 @ fst ?r2 @ fst ?r3" "st' = snd ?r3"
    by (simp_all add: bits_def st'_def plane_run_def split_beta)
  have f3: "fits (((bs @ fst ?r1) @ fst ?r2) @ fst ?r3)" using assms(11) run(1) by simp
  have f2: "fits ((bs @ fst ?r1) @ fst ?r2)" using f3 by (rule fits_prefix)
  have f1: "fits (bs @ fst ?r1)" using f2 by (rule fits_prefix)
  obtain c1 where c1: "W1 c 0 = Some c1" "halted c1 \<or> nls_rel X P marks val s 0 c1 (snd ?r1) \<and> at (bs @ fst ?r1) c1"
    using ip_run [OF assms(7-10) f1] unfolding nls_outcome_def W1_def halted_def by blast
  show ?thesis
  proof (cases "halted c1")
    case False
    with c1(2) have r1: "nls_rel X P marks val s 0 c1 (snd ?r1)" "at (bs @ fst ?r1) c1" by simp_all
    have n1: "no_mcp (snd ?r1)" using ip_run_quiet [of X 0 s st P] assms(10) by (simp add: quiet_def)
    obtain c2 where c2: "W2 c1 0 = Some c2" "halted c2 \<or> nls_rel X P marks val s 0 c2 (snd ?r2) \<and> at ((bs @ fst ?r1) @ fst ?r2) c2"
      using is_run [OF assms(7) r1 n1 f2] unfolding nls_outcome_def W2_def halted_def by auto
    show ?thesis
    proof (cases "halted c2")
      case False
      with c2(2) have r2: "nls_rel X P marks val s 0 c2 (snd ?r2)" "at ((bs @ fst ?r1) @ fst ?r2) c2" by simp_all
      have pix: "is_pix (snd ?r1 0)" using nls_relD(2) [OF r1(1)] by (simp add: tree_ok_def)
      have n2: "no_mcp (snd ?r2)"
        using is_run_tested [of X P s 0 "snd ?r1"] ip_run_quiet [of X 0 s st P] n1 assms(10) pix
        by (simp add: quiet_def tested_def)
      obtain c3 where c3: "W3 c2 0 = Some c3"
          "halted c3 \<or> nls_rel X P marks val s (2 * P) c3 (snd ?r3) \<and> at (((bs @ fst ?r1) @ fst ?r2) @ fst ?r3) c3"
        using ref_run [OF assms(7) r2 n2 f3] unfolding nls_outcome_def W3_def halted_def by blast
      show ?thesis
      proof (cases "halted c3")
        case False
        with c3(2) have r3: "nls_rel X P marks val s (2 * P) c3 (snd ?r3)" "at (((bs @ fst ?r1) @ fst ?r2) @ fst ?r3) c3" by simp_all
        note fin = plane_done [OF assms(10) pix nls_relD(2) [OF r3(1)]]
        show ?thesis using c1(1) c2(1) c3(1) r1(2) r2(2) r3 fin(3-5) unfolding run by auto
      qed (use c1(1) r1(2) c2(1) r2(2) c3(1) in auto)
    qed (use c1(1) r1(2) c2(1) in auto)
  qed (use c1(1) in auto)
qed

end

text \<open>From one plane to the next\<close>

lemma next_plane:
  assumes "nls_rel X P marks val (2 * h) (2 * P) c st" and "\<forall>i<2 * P. elem st i \<noteq> MNP"
    and "\<forall>i<2 * P. lev (2 * h) (2 * P) st i = None \<longrightarrow> \<bar>X i\<bar> < 2 * h"
  shows "nls_rel X P marks val h 0 c st"
proof -
  have "lev h 0 st i = lev (2 * h) (2 * P) st i" if "i < 2 * P" for i
    using assms(2) that by (auto simp: lev_def split: marker.split)
  with assms(1,3) show ?thesis by (simp add: nls_rel_def)
qed

fun planes_run :: "(nat \<Rightarrow> int) \<Rightarrow> nat \<Rightarrow> nat \<Rightarrow> int \<Rightarrow> (nat \<Rightarrow> pstate) \<Rightarrow> bool list" where
  "planes_run X P 0 s st = []"
| "planes_run X P (Suc n) s st = (let (bits, st) = plane_run X P s st in bits @ planes_run X P n (s div 2) st)"

end
