(* ===== verification/Nls_Roundtrip.thy ===== *)
theory Nls_Roundtrip
  imports Nls_Passes
begin

text \<open>
  The encoder and the decoder of the NLS coder both follow the machine of \<open>Nls_Passes\<close>
  (interpretations \<open>en\<close> and \<open>de\<close> of \<open>nls_plane\<close>), so the decoder takes from the stream what the
  encoder put there. Together with the header and the search for the largest values of the sets this
  gives: what was encoded completely is decoded exactly.
\<close>

subsection \<open>The encoder\<close>

lemma bs_pushAll_append:
  "bs_pushAll m s (xs @ ys) = do { (m, s) \<leftarrow> bs_pushAll m s xs; bs_pushAll m s ys }"
  by (induction xs arbitrary: m s) (auto split: Option.bind_splits)

definition sets_ok :: "(nat \<Rightarrow> int) \<Rightarrow> nat \<Rightarrow> int list \<Rightarrow> int list \<Rightarrow> bool" where
  "sets_ok X P dmax gmax \<longleftrightarrow>
     (\<forall>q. 1 \<le> q \<longrightarrow> q < P \<longrightarrow> q < length dmax \<and> dmax ! q = subtree_max X P q) \<and>
     (\<forall>k. 1 \<le> k \<longrightarrow> 2 * k < P \<longrightarrow> k < length gmax \<and>
        gmax ! k = max (subtree_max X P (2 * k)) (subtree_max X P (2 * k + 1)))"

definition en_at :: "(nat \<Rightarrow> int) \<Rightarrow> nat \<Rightarrow> int list \<Rightarrow> int list \<Rightarrow> u8 list \<Rightarrow> bitstream \<Rightarrow> nat \<Rightarrow> bool list \<Rightarrow> encoding \<Rightarrow> bool" where
  "en_at X P dmax gmax m0 bs0 base bs c \<longleftrightarrow> size_ok P \<and> sets_ok X P dmax gmax \<and> length (enValues c) = 2 * P \<and>
     bs_wf (enMemory c) base (enStream c) \<and> bs_pushAll m0 bs0 bs = Some (enMemory c, enStream c)"

definition en_val :: "(nat \<Rightarrow> int) \<Rightarrow> int option \<Rightarrow> nat \<Rightarrow> encoding \<Rightarrow> bool" where
  "en_val X v i c \<longleftrightarrow> enValues c ! i = (case v of None \<Rightarrow> X i | Some t \<Rightarrow> \<bar>X i\<bar>)"

lemma en_push_law:
  assumes "en_at X P dmax gmax m0 bs0 base bs c"
  shows "\<exists>m s. en_push b c = Some (c\<lparr>enMemory := m, enStream := s\<rparr>) \<and>
    en_at X P dmax gmax m0 bs0 base (bs @ [b]) (c\<lparr>enMemory := m, enStream := s\<rparr>)"
proof -
  have wf: "bs_wf (enMemory c) base (enStream c)" and all: "bs_pushAll m0 bs0 bs = Some (enMemory c, enStream c)"
    using assms by (simp_all add: en_at_def)
  have "\<exists>m s. bs_pushBit (enMemory c) (enStream c) b = Some (m, s) \<and> bs_wf m base s"
    using bs_pushBit_step [OF wf, of b] wf bs_pushBit_full [of "enStream c" "enMemory c" b]
    by (cases "bs_isFull (enStream c)") (auto simp: bs_pushed_def)
  then obtain m s where "bs_pushBit (enMemory c) (enStream c) b = Some (m, s)" "bs_wf m base s" by blast
  with assms all show ?thesis by (auto simp: en_push_def en_at_def bs_pushAll_append)
qed

lemma plane_pos: "plane s \<Longrightarrow> 0 < s \<and> s \<le> 16384"
proof -
  assume "plane s"
  then obtain n where n: "s = 2 ^ n" "n \<le> 14" by (auto simp: plane_def)
  have "(2 :: int) ^ n \<le> 2 ^ 14" using n(2) by (intro power_increasing) simp_all
  with n show ?thesis by simp
qed

lemma wrap_i16_small: "- 32768 \<le> v \<Longrightarrow> v < 32768 \<Longrightarrow> wrap_i16 v = v"
  by (simp add: wrap_i16_def)

lemma en_test_law:
  assumes "en_at X P dmax gmax m0 bs0 base bs c" and "k < length maxima" and "b = (s \<le> maxima ! k)"
  shows "\<exists>c'. en_test maxima s k c = Some (b, c') \<and> en_at X P dmax gmax m0 bs0 base (bs @ [b]) c' \<and>
    enMark c' = enMark c \<and> (\<forall>j v. en_val X v j c \<longrightarrow> en_val X v j c')"
  using en_push_law [OF assms(1), of b] assms(2,3) by (auto simp: en_test_def mem_simps en_val_def)

lemma en_coef_law:
  assumes "plane s" and at: "en_at X P dmax gmax m0 bs0 base bs c" and i: "i < 2 * P" and "length (enMark c) = MAX_LENGTH"
    and v: "en_val X None i c" and small: "\<bar>X i\<bar> < 2 * s"
  shows "\<exists>c'. en_coef s i c = Some (s \<le> \<bar>X i\<bar>, c') \<and> en_at X P dmax gmax m0 bs0 base (bs @ sig_bits X s i) c' \<and>
    enMark c' = (if s \<le> \<bar>X i\<bar> then (enMark c)[i := MNP] else enMark c) \<and>
    en_val X (if s \<le> \<bar>X i\<bar> then Some s else None) i c' \<and> (\<forall>j v. j \<noteq> i \<longrightarrow> en_val X v j c \<longrightarrow> en_val X v j c')"
proof -
  let ?sig = "s \<le> \<bar>X i\<bar>"
  have len: "length (enValues c) = 2 * P" "P \<le> 2048" using at size_okD [of P] by (auto simp: en_at_def)
  have x: "aread (enValues c) i = Some (X i)" using v i len by (simp add: en_val_def mem_simps)
  obtain m1 s1 where p1: "en_push ?sig c = Some (c\<lparr>enMemory := m1, enStream := s1\<rparr>)"
      "en_at X P dmax gmax m0 bs0 base (bs @ [?sig]) (c\<lparr>enMemory := m1, enStream := s1\<rparr>)"
    using en_push_law [OF at, of ?sig] by blast
  show ?thesis
  proof (cases ?sig)
    case False
    with x p1 v show ?thesis by (auto simp: en_coef_def sig_bits_def en_val_def)
  next
    case True
    let ?c1 = "c\<lparr>enMemory := m1, enStream := s1\<rparr>"
    obtain m2 s2 where p2: "en_push (X i < 0) ?c1 = Some (?c1\<lparr>enMemory := m2, enStream := s2\<rparr>)"
        "en_at X P dmax gmax m0 bs0 base ((bs @ [?sig]) @ [X i < 0]) (?c1\<lparr>enMemory := m2, enStream := s2\<rparr>)"
      using en_push_law [OF p1(2), of "X i < 0"] by blast
    have w: "wrap_i16 \<bar>X i\<bar> = \<bar>X i\<bar>" using small plane_pos [OF assms(1)] by (intro wrap_i16_small) auto
    show ?thesis
      using True x p1(1) p2 w i len assms(4)
      by (auto simp: en_coef_def sig_bits_def mem_simps MAX_LENGTH_def en_at_def en_val_def)
  qed
qed

lemma en_refine_law:
  assumes at: "en_at X P dmax gmax m0 bs0 base bs c" and i: "i < 2 * P" and "en_val X (Some t) i c"
  shows "\<exists>c'. en_refine s i c = Some c' \<and> en_at X P dmax gmax m0 bs0 base (bs @ [\<bar>X i\<bar> AND s > 0]) c' \<and>
    enMark c' = enMark c \<and> en_val X (Some s) i c' \<and> (\<forall>j v. j \<noteq> i \<longrightarrow> en_val X v j c \<longrightarrow> en_val X v j c')"
proof -
  have "aread (enValues c) i = Some \<bar>X i\<bar>" using assms by (simp add: en_at_def en_val_def mem_simps)
  with en_push_law [OF at, of "\<bar>X i\<bar> AND s > 0"] assms(3) show ?thesis by (auto simp: en_refine_def en_val_def)
qed

interpretation en: nls_plane X P enMark en_remark en_coef "en_test dmax" "en_test gmax" en_refine "en_stop maxBytes"
    "en_at X P dmax gmax m0 bs0 base" "\<lambda>bs. True" "en_val X"
  for X P dmax gmax maxBytes m0 bs0 base
proof unfold_locales
  fix s bs c q assume "plane s" and at: "en_at X P dmax gmax m0 bs0 base bs c" and q: "1 \<le> q" "q < P"
  then show "\<exists>c'. en_test dmax s q c = Some (s \<le> subtree_max X P q, c') \<and>
      en_at X P dmax gmax m0 bs0 base (bs @ [s \<le> subtree_max X P q]) c' \<and> enMark c' = enMark c \<and>
      (\<forall>j v. en_val X v j c \<longrightarrow> en_val X v j c')"
    by (intro en_test_law [OF at]) (auto simp: en_at_def sets_ok_def)
next
  fix s bs c k b assume "plane s" and at: "en_at X P dmax gmax m0 bs0 base bs c" and k: "1 \<le> k" "2 * k < P"
    and "b = (s \<le> max (subtree_max X P (2 * k)) (subtree_max X P (2 * k + 1)))"
  then show "\<exists>c'. en_test gmax s k c = Some (b, c') \<and> en_at X P dmax gmax m0 bs0 base (bs @ [b]) c' \<and>
      enMark c' = enMark c \<and> (\<forall>j v. en_val X v j c \<longrightarrow> en_val X v j c')"
    by (intro en_test_law [OF at]) (auto simp: en_at_def sets_ok_def)
qed (assumption | rule en_coef_law en_refine_law | simp add: en_remark_def en_at_def en_val_def)+

lemma enc_planes_ok:
  assumes "n \<le> 14" and "nls_rel X P enMark (en_val X) (2 ^ n) 0 c st" and "en_at X P dmax gmax m0 bs0 base bs c" and "no_mcp st"
  shows "\<exists>c'. nls_enc_planes dmax gmax (2 * P) maxBytes (Suc n) (2 ^ n) c = Some c' \<and>
    (en_stop maxBytes c' \<and> (\<exists>ks. en_at X P dmax gmax m0 bs0 base ks c') \<or>
     en_at X P dmax gmax m0 bs0 base (bs @ planes_run X P (Suc n) (2 ^ n) st) c')"
  using assms
proof (induction n arbitrary: c st bs)
  case 0
  have "plane (2 ^ 0)" unfolding plane_def by (intro exI [of _ 0]) simp
  from en.plane_passes [OF this 0(2-4), of maxBytes] show ?case
    by (auto simp: split_beta)
next
  case (Suc n)
  have "plane (2 ^ Suc n)" unfolding plane_def using Suc.prems(1) by blast
  note p = en.plane_passes [OF this Suc.prems(2-4), of maxBytes]
  have half: "(2 :: int) ^ Suc n div 2 = 2 ^ n" by simp
  let ?b = "fst (plane_run X P (2 ^ Suc n) st)" and ?st = "snd (plane_run X P (2 ^ Suc n) st)"
  have IH: "\<exists>c'. nls_enc_planes dmax gmax (2 * P) maxBytes (Suc n) (2 ^ n) c3 = Some c' \<and>
      (en_stop maxBytes c' \<and> (\<exists>ks. en_at X P dmax gmax m0 bs0 base ks c') \<or>
       en_at X P dmax gmax m0 bs0 base ((bs @ ?b) @ planes_run X P (Suc n) (2 ^ n) ?st) c')"
    if "en_at X P dmax gmax m0 bs0 base (bs @ ?b) c3" "nls_rel X P enMark (en_val X) (2 ^ Suc n) (2 * P) c3 ?st" "no_mcp ?st"
      "\<forall>i<2 * P. elem ?st i \<noteq> MNP" "\<forall>i<2 * P. lev (2 ^ Suc n) (2 * P) ?st i = None \<longrightarrow> \<bar>X i\<bar> < 2 ^ Suc n" for c3
  proof (rule Suc.IH [OF _ _ that(1,3)])
    show "nls_rel X P enMark (en_val X) (2 ^ n) 0 c3 ?st" using next_plane [of X P enMark "en_val X" "2 ^ n"] that by simp
  qed (use Suc.prems(1) in simp)
  have e: "planes_run X P (Suc (Suc n)) (2 ^ Suc n) st = ?b @ planes_run X P (Suc n) (2 ^ n) ?st"
    unfolding planes_run.simps(2) [of X P "Suc n"] half by (simp add: split_beta)
  from p IH show ?case
    unfolding nls_enc_planes.simps(2) [of dmax gmax "2 * P" maxBytes "Suc n"] half e append_assoc [symmetric]
    by (fastforce simp del: nls_enc_planes.simps planes_run.simps)
qed

subsection \<open>The decoder\<close>

text \<open>The middle of the interval in which a value is known to be.\<close>

definition recon :: "int \<Rightarrow> int \<Rightarrow> int" where
  "recon t x = (1 - 2 * of_bool (x < 0)) * (\<bar>x\<bar> div t * t + t div 2)"

text \<open>\<open>T\<close> are the bits of the stream, \<open>hdr\<close> the twelve of its header.\<close>

definition de_at :: "(nat \<Rightarrow> int) \<Rightarrow> nat \<Rightarrow> bool list \<Rightarrow> bool list \<Rightarrow> u8 list \<Rightarrow> nat \<Rightarrow> bitstream \<Rightarrow> bool list \<Rightarrow> decoding \<Rightarrow> bool" where
  "de_at X P hdr T m base st bs c \<longleftrightarrow> size_ok P \<and> (\<forall>i<2 * P. \<bar>X i\<bar> < 32768) \<and> 2 * P \<le> length (deValues c) \<and>
     length (deSigns c) = MAX_LENGTH \<and> length hdr = 12 \<and> dePointer c = (12 + length bs) mod 65536 \<and>
     (\<exists>tail. T = hdr @ bs @ tail) \<and> length T \<le> 65536 \<and> bs_wf m base st \<and> bs_length st = length T \<and> bits_of m base (length T) = T"

definition de_val :: "(nat \<Rightarrow> int) \<Rightarrow> int option \<Rightarrow> nat \<Rightarrow> decoding \<Rightarrow> bool" where
  "de_val X v i c \<longleftrightarrow> (case v of None \<Rightarrow> deValues c ! i = 0
     | Some t \<Rightarrow> deValues c ! i = recon t (X i) \<and> deSigns c ! i = (X i < 0))"

lemma de_val_pointer [simp]: "de_val X v i (c\<lparr>dePointer := p\<rparr>) = de_val X v i c"
  by (cases v) (simp_all add: de_val_def)

lemma de_val_remark: "de_val X v i (de_remark mk c) = de_val X v i c"
  by (cases v) (simp_all add: de_val_def de_remark_def)

lemma de_bit_law:
  assumes at: "de_at X P hdr T m base st bs c" and T: "T = hdr @ bs @ [b] @ tail"
  shows "de_bit m st c = Some (b, c\<lparr>dePointer := wrap_u16 (dePointer c + 1)\<rparr>)"
    and "de_at X P hdr T m base st (bs @ [b]) (c\<lparr>dePointer := wrap_u16 (dePointer c + 1)\<rparr>)"
proof -
  have l: "length hdr = 12" "length T \<le> 65536" using at by (simp_all add: de_at_def)
  then have ptr: "dePointer c = 12 + length bs" "12 + length bs < length T"
    using at T by (simp_all add: de_at_def)
  have u: "unat (of_nat (dePointer c) :: u32) = 12 + length bs"
  proof -
    have "unat (of_nat k :: u32) = k" if "k < 65536" for k using that by (simp add: unat_of_nat)
    then show ?thesis unfolding ptr(1) using ptr(2) l by (meson less_le_trans)
  qed
  have wf: "bs_wf m base st" using at by (simp add: de_at_def)
  have "T ! (12 + length bs) = b" using l(1) T by (simp add: nth_append)
  then show "de_bit m st c = Some (b, c\<lparr>dePointer := wrap_u16 (dePointer c + 1)\<rparr>)"
    using at ptr u by (simp add: de_bit_def bs_getBit_bits [OF wf] de_at_def)
  have T': "\<exists>tail. T = hdr @ (bs @ [b]) @ tail" using T by auto
  have "wrap_u16 (dePointer c + 1) = (12 + length (bs @ [b])) mod 65536" by (simp add: ptr wrap_u16_def)
  then show "de_at X P hdr T m base st (bs @ [b]) (c\<lparr>dePointer := wrap_u16 (dePointer c + 1)\<rparr>)"
    using at T' unfolding de_at_def by simp
qed

lemma recon_bound:
  assumes "plane s" and "\<bar>x\<bar> < 32768"
  shows "- 32768 \<le> recon s x \<and> recon s x < 32768"
proof -
  obtain n where n: "s = 2 ^ n" "n \<le> 14" using assms(1) by (auto simp: plane_def)
  have e: "(32768 :: int) = 2 ^ (15 - n) * s" using n by (simp add: power_add [symmetric])
  have s: "0 < s" using plane_pos [OF assms(1)] by simp
  have "\<bar>x\<bar> < 2 ^ (15 - n) * s" using assms(2) by (simp only: e)
  moreover have "\<bar>x\<bar> div s * s \<le> \<bar>x\<bar>" using s by (simp add: minus_mod_eq_div_mult [symmetric])
  ultimately have "\<bar>x\<bar> div s * s < 2 ^ (15 - n) * s" by simp
  then have "\<bar>x\<bar> div s < 2 ^ (15 - n)" using s by (simp add: mult_less_cancel_right_pos)
  then have "(\<bar>x\<bar> div s + 1) * s \<le> 32768" unfolding e using s by (intro mult_right_mono) simp_all
  moreover have "s div 2 < s" using s by simp
  moreover have "0 \<le> \<bar>x\<bar> div s * s" using s by (simp add: pos_imp_zdiv_nonneg_iff)
  ultimately have "0 \<le> \<bar>x\<bar> div s * s + s div 2" "\<bar>x\<bar> div s * s + s div 2 < 32768"
    using s by (simp_all add: distrib_right)
  then show ?thesis by (auto simp: recon_def)
qed

lemma recon_first: "0 < s \<Longrightarrow> s \<le> \<bar>x\<bar> \<Longrightarrow> \<bar>x\<bar> < 2 * s \<Longrightarrow> recon s x = (1 - 2 * of_bool (x < 0)) * (s + s div 2)"
proof -
  assume "0 < s" "s \<le> \<bar>x\<bar>" "\<bar>x\<bar> < 2 * s"
  then have "\<bar>x\<bar> div s = 1" by (intro int_div_pos_eq [where r = "\<bar>x\<bar> - s"]) auto
  then show ?thesis by (simp add: recon_def)
qed

lemma recon_next:
  assumes "plane s" and "b = (\<bar>x\<bar> AND s > 0)"
  shows "recon (2 * s) x + (1 - 2 * of_bool (x < 0)) * (if b then s div 2 else s div 2 - s) = recon s x"
proof -
  obtain n where n: "s = 2 ^ n" using assms(1) by (auto simp: plane_def)
  have s: "0 < s" using plane_pos [OF assms(1)] by simp
  have "b \<longleftrightarrow> bit \<bar>x\<bar> n"
    unfolding assms(2) n by (simp add: and_exp_eq_0_iff_not_bit less_le)
  then have b: "b \<longleftrightarrow> odd (\<bar>x\<bar> div s)" by (simp add: n bit_iff_odd)
  have "\<bar>x\<bar> div (2 * s) = \<bar>x\<bar> div s div 2" by (simp add: zdiv_zmult2_eq s less_imp_le mult.commute)
  moreover have "\<bar>x\<bar> div s = 2 * (\<bar>x\<bar> div s div 2) + of_bool b" 
    by (cases "odd (\<bar>x\<bar> div s)") (simp_all add: b)
  ultimately have "\<bar>x\<bar> div s * s = \<bar>x\<bar> div (2 * s) * (2 * s) + of_bool b * s"
    by (metis (no_types, lifting) distrib_right mult.assoc mult.commute)
  then show ?thesis by (simp add: recon_def algebra_simps)
qed

lemma de_coef_law:
  assumes "plane s" and at: "de_at X P hdr T m base st bs c" and i: "i < 2 * P" and len: "length (deMark c) = MAX_LENGTH"
    and v: "de_val X None i c" and small: "\<bar>X i\<bar> < 2 * s" and fits: "\<exists>tail. T = hdr @ (bs @ sig_bits X s i) @ tail"
  shows "\<exists>c'. de_coef m st s i c = Some (s \<le> \<bar>X i\<bar>, c') \<and> de_at X P hdr T m base st (bs @ sig_bits X s i) c' \<and>
    deMark c' = (if s \<le> \<bar>X i\<bar> then (deMark c)[i := MNP] else deMark c) \<and>
    de_val X (if s \<le> \<bar>X i\<bar> then Some s else None) i c' \<and> (\<forall>j v. j \<noteq> i \<longrightarrow> de_val X v j c \<longrightarrow> de_val X v j c')"
proof (cases "s \<le> \<bar>X i\<bar>")
  case False
  then obtain tail where "T = hdr @ bs @ [False] @ tail" using fits by (auto simp: sig_bits_def)
  from de_bit_law [OF at this] False v show ?thesis by (auto simp: de_coef_def sig_bits_def)
next
  case True
  then obtain tail where T: "T = hdr @ bs @ [True] @ (X i < 0) # tail" using fits by (auto simp: sig_bits_def)
  have r: "P \<le> 2048" "length (deSigns c) = MAX_LENGTH" "2 * P \<le> length (deValues c)" "\<bar>X i\<bar> < 32768"
    using at i size_okD [of P] by (auto simp: de_at_def)
  note s = plane_pos [OF assms(1)]
  let ?c1 = "c\<lparr>dePointer := wrap_u16 (dePointer c + 1)\<rparr>"
  note b1 = de_bit_law [OF at T]
  have "T = hdr @ (bs @ [True]) @ [X i < 0] @ tail" using T by simp
  note b2 = de_bit_law [OF b1(2) this]
  let ?c2 = "?c1\<lparr>dePointer := wrap_u16 (dePointer ?c1 + 1)\<rparr>"
  have first: "recon s (X i) = (1 - 2 * of_bool (X i < 0)) * (s + s div 2)"
    using s True small by (intro recon_first) simp_all
  then have w: "wrap_i16 ((1 - 2 * of_bool (X i < 0)) * (s + s div 2)) = recon s (X i)"
    using recon_bound [OF assms(1) r(4)] by (simp add: wrap_i16_small)
  have zero: "deValues c ! i = 0" using v by (simp add: de_val_def)
  have ri: "i < MAX_LENGTH" "i < length (deValues c)" using i r by (simp_all add: MAX_LENGTH_def)
  show ?thesis
    using True b1(1) b2 w zero ri len r(2)
    by (auto simp: de_coef_def de_add_def sig_bits_def mem_simps de_at_def de_val_def split: option.splits)
qed

lemma de_refine_law:
  assumes "plane s" and at: "de_at X P hdr T m base st bs c" and i: "i < 2 * P" and v: "de_val X (Some (2 * s)) i c"
    and fits: "\<exists>tail. T = hdr @ (bs @ [\<bar>X i\<bar> AND s > 0]) @ tail"
  shows "\<exists>c'. de_refine m st s i c = Some c' \<and> de_at X P hdr T m base st (bs @ [\<bar>X i\<bar> AND s > 0]) c' \<and>
    deMark c' = deMark c \<and> de_val X (Some s) i c' \<and> (\<forall>j v. j \<noteq> i \<longrightarrow> de_val X v j c \<longrightarrow> de_val X v j c')"
proof -
  define b where "b = (\<bar>X i\<bar> AND s > 0)"
  obtain tail where T: "T = hdr @ bs @ [b] @ tail" using fits by (auto simp: b_def)
  note b1 = de_bit_law [OF at T]
  have r: "P \<le> 2048" "length (deSigns c) = MAX_LENGTH" "2 * P \<le> length (deValues c)" "\<bar>X i\<bar> < 32768"
    using at i size_okD [of P] by (auto simp: de_at_def)
  have ri: "i < MAX_LENGTH" "i < length (deValues c)" using i r by (simp_all add: MAX_LENGTH_def)
  have w: "wrap_i16 (recon (2 * s) (X i) + (1 - 2 * of_bool (X i < 0)) * (if b then s div 2 else s div 2 - s)) = recon s (X i)"
    unfolding recon_next [OF assms(1) b_def] using recon_bound [OF assms(1) r(4)] by (simp add: wrap_i16_small)
  show ?thesis
    unfolding b_def [symmetric] using b1 w v ri r(2)
    by (auto simp: de_refine_def de_add_def mem_simps de_at_def de_val_def split: option.splits)
qed

interpretation de: nls_plane X P deMark de_remark "de_coef m st" "\<lambda>s. de_test m st" "\<lambda>s. de_test m st" "de_refine m st"
    "\<lambda>c. False" "de_at X P hdr T m base st" "\<lambda>bs. \<exists>tail. T = hdr @ bs @ tail" "de_val X"
  for X P m st hdr T base
proof unfold_locales
  fix bs cs :: "bool list" assume "\<exists>tail. T = hdr @ (bs @ cs) @ tail"
  then show "\<exists>tail. T = hdr @ bs @ tail" by auto
next
  fix s bs c q assume at: "de_at X P hdr T m base st bs c" and "\<exists>tail. T = hdr @ (bs @ [s \<le> subtree_max X P q]) @ tail"
  then obtain tail where "T = hdr @ bs @ [s \<le> subtree_max X P q] @ tail" by auto
  from de_bit_law [OF at this] show "\<exists>c'. de_test m st q c = Some (s \<le> subtree_max X P q, c') \<and>
      de_at X P hdr T m base st (bs @ [s \<le> subtree_max X P q]) c' \<and> deMark c' = deMark c \<and>
      (\<forall>j v. de_val X v j c \<longrightarrow> de_val X v j c')"
    by (auto simp: de_test_def)
next
  fix s :: int and bs c k b assume at: "de_at X P hdr T m base st bs c" and "\<exists>tail. T = hdr @ (bs @ [b]) @ tail"
  then obtain tail where "T = hdr @ bs @ [b] @ tail" by auto
  from de_bit_law [OF at this] show "\<exists>c'. de_test m st k c = Some (b, c') \<and>
      de_at X P hdr T m base st (bs @ [b]) c' \<and> deMark c' = deMark c \<and> (\<forall>j v. de_val X v j c \<longrightarrow> de_val X v j c')"
    by (auto simp: de_test_def)
qed (assumption | rule de_coef_law de_refine_law de_val_remark | simp add: de_remark_def de_at_def)+

lemma not_de_end: "de_at X P hdr T m base st bs c \<Longrightarrow> \<not> de_end st c"
proof -
  assume at: "de_at X P hdr T m base st bs c"
  then have "dePointer c \<le> length T" "unat (bs_getSize st) = (length T + 7) div 8"
    using bs_getSize_bytes [of m base st] by (auto simp: de_at_def)
  moreover from this(1) have "dePointer c div 8 \<le> (length T + 7) div 8" by (intro div_le_mono) simp
  ultimately show ?thesis by (simp add: de_end_def)
qed

lemma dec_plane:
  assumes "plane s" and "nls_rel X P deMark (de_val X) s 0 c cst" and "de_at X P hdr T m base st bs c" and "no_mcp cst"
    and "\<exists>tail. T = hdr @ (bs @ fst (plane_run X P s cst)) @ tail"
  obtains c3 where
    "nls_dec_planes m st (2 * P) (Suc n) s c = nls_dec_planes m st (2 * P) n (s div 2) c3"
    "nls_rel X P deMark (de_val X) s (2 * P) c3 (snd (plane_run X P s cst))"
    "de_at X P hdr T m base st (bs @ fst (plane_run X P s cst)) c3" "no_mcp (snd (plane_run X P s cst))"
    "\<forall>i<2 * P. elem (snd (plane_run X P s cst)) i \<noteq> MNP"
    "\<forall>i<2 * P. lev s (2 * P) (snd (plane_run X P s cst)) i = None \<longrightarrow> \<bar>X i\<bar> < s"
proof -
  from de.plane_passes [OF assms] obtain c1 c2 c3 bs1 bs2 where
    w: "nls_while (2 * P) (nls_ip_step deMark (de_coef m st s)) (\<lambda>c. False) c 0 = Some c1"
      "nls_while (2 * P) (nls_is_step deMark de_remark (de_coef m st s) (de_test m st) (de_test m st) (2 * P)) (\<lambda>c. False) c1 0 = Some c2"
      "nls_while (2 * P) (nls_ref_step deMark de_remark (de_refine m st s)) (\<lambda>c. False) c2 0 = Some c3"
    and at: "de_at X P hdr T m base st bs1 c1" "de_at X P hdr T m base st bs2 c2"
      "de_at X P hdr T m base st (bs @ fst (plane_run X P s cst)) c3"
    and rest: "nls_rel X P deMark (de_val X) s (2 * P) c3 (snd (plane_run X P s cst))" "no_mcp (snd (plane_run X P s cst))"
      "\<forall>i<2 * P. elem (snd (plane_run X P s cst)) i \<noteq> MNP"
      "\<forall>i<2 * P. lev s (2 * P) (snd (plane_run X P s cst)) i = None \<longrightarrow> \<bar>X i\<bar> < s"
    by blast
  have "nls_dec_planes m st (2 * P) (Suc n) s c = nls_dec_planes m st (2 * P) n (s div 2) c3"
    using w at [THEN not_de_end] by simp
  from this rest(1) at(3) rest(2-4) show thesis by (rule that)
qed

lemma dec_planes_ok:
  assumes "n \<le> 14" and "nls_rel X P deMark (de_val X) (2 ^ n) 0 c cst" and "de_at X P hdr T m base st bs c" and "no_mcp cst"
    and "\<exists>tail. T = hdr @ (bs @ planes_run X P (Suc n) (2 ^ n) cst) @ tail"
  shows "\<exists>c'. nls_dec_planes m st (2 * P) (Suc n) (2 ^ n) c = Some c' \<and> 2 * P \<le> length (deValues c') \<and>
    (\<forall>i<2 * P. deValues c' ! i = X i)"
  using assms
proof (induction n arbitrary: c cst bs)
  case 0
  have pl: "plane (2 ^ 0)" unfolding plane_def by (intro exI [of _ 0]) simp
  have fits: "\<exists>tail. T = hdr @ (bs @ fst (plane_run X P (2 ^ 0) cst)) @ tail" using 0(5) by (simp add: split_beta)
  obtain c3 where
    w: "nls_dec_planes m st (2 * P) (Suc 0) (2 ^ 0) c = nls_dec_planes m st (2 * P) 0 (2 ^ 0 div 2) c3"
    and rel: "nls_rel X P deMark (de_val X) (2 ^ 0) (2 * P) c3 (snd (plane_run X P (2 ^ 0) cst))"
    and at: "de_at X P hdr T m base st (bs @ fst (plane_run X P (2 ^ 0) cst)) c3"
    and no: "\<forall>i<2 * P. elem (snd (plane_run X P (2 ^ 0) cst)) i \<noteq> MNP"
    and small: "\<forall>i<2 * P. lev (2 ^ 0) (2 * P) (snd (plane_run X P (2 ^ 0) cst)) i = None \<longrightarrow> \<bar>X i\<bar> < 2 ^ 0"
    using dec_plane [OF pl 0(2-4) fits, of 0] by metis
  have "deValues c3 ! i = X i" if i: "i < 2 * P" for i
  proof -
    let ?st = "snd (plane_run X P (2 ^ 0) cst)"
    have v: "de_val X (lev (2 ^ 0) (2 * P) ?st i) i c3" using nls_relD(4) [OF rel i] .
    have "lev (2 ^ 0) (2 * P) ?st i = None \<or> lev (2 ^ 0) (2 * P) ?st i = Some 1"
      using i by (auto simp: lev_def split: marker.split)
    then show ?thesis
    proof
      assume none: "lev (2 ^ 0) (2 * P) ?st i = None"
      then have "X i = 0" using small i by auto
      with v none show ?thesis by (simp add: de_val_def)
    next
      assume "lev (2 ^ 0) (2 * P) ?st i = Some 1"
      with v show ?thesis by (auto simp: de_val_def recon_def)
    qed
  qed
  moreover have "2 * P \<le> length (deValues c3)" using at by (simp add: de_at_def)
  ultimately show ?case unfolding w by simp
next
  case (Suc n)
  have pl: "plane (2 ^ Suc n)" unfolding plane_def using Suc.prems(1) by blast
  have half: "(2 :: int) ^ Suc n div 2 = 2 ^ n" by simp
  let ?b = "fst (plane_run X P (2 ^ Suc n) cst)" and ?st = "snd (plane_run X P (2 ^ Suc n) cst)"
  have e: "planes_run X P (Suc (Suc n)) (2 ^ Suc n) cst = ?b @ planes_run X P (Suc n) (2 ^ n) ?st"
    unfolding planes_run.simps(2) [of X P "Suc n"] half by (simp add: split_beta)
  have f: "\<exists>tail. T = hdr @ (bs @ ?b) @ tail" "\<exists>tail. T = hdr @ ((bs @ ?b) @ planes_run X P (Suc n) (2 ^ n) ?st) @ tail"
    using Suc.prems(5) unfolding e by auto
  from dec_plane [OF pl Suc.prems(2-4) f(1), of "Suc n"] obtain c3 where
    w: "nls_dec_planes m st (2 * P) (Suc (Suc n)) (2 ^ Suc n) c = nls_dec_planes m st (2 * P) (Suc n) (2 ^ n) c3"
    and rel: "nls_rel X P deMark (de_val X) (2 ^ Suc n) (2 * P) c3 ?st" and at: "de_at X P hdr T m base st (bs @ ?b) c3" and "no_mcp ?st"
    and no: "\<forall>i<2 * P. elem ?st i \<noteq> MNP" and small: "\<forall>i<2 * P. lev (2 ^ Suc n) (2 * P) ?st i = None \<longrightarrow> \<bar>X i\<bar> < 2 ^ Suc n"
    unfolding half by blast
  have "nls_rel X P deMark (de_val X) (2 ^ n) 0 c3 ?st"
    using next_plane [of X P deMark "de_val X" "2 ^ n"] rel no small by simp
  from Suc.IH [OF _ this at \<open>no_mcp ?st\<close> f(2)] Suc.prems(1) show ?case unfolding w by simp
qed

end
