(* ===== verification/Nls_Lossless.thy ===== *)
theory Nls_Lossless
  imports Nls_Roundtrip
begin

text \<open>
  \<open>encode\<close> and \<open>decode\<close> as a whole: the search for the largest values, the header of twelve bits, and
  the theorem that a block whose code is complete is decoded exactly, directly or after its stream
  went through \<open>serialize\<close> and \<open>deserialize\<close>.
\<close>

subsection \<open>The largest values\<close>

lemma Log2_bounds: "0 < n \<Longrightarrow> 2 ^ Log2 n \<le> n \<and> n < 2 ^ (Log2 n + 1)"
proof (induction n rule: Log2.induct)
  case (1 n)
  show ?case
  proof (cases "n < 2")
    case True
    with 1(2) have "n = 1" by simp
    then show ?thesis by (simp add: Log2.simps)
  next
    case False
    then have "2 ^ Log2 (n div 2) \<le> n div 2" "n div 2 < 2 ^ (Log2 (n div 2) + 1)" using 1(1) by simp_all
    moreover have "Log2 n = 1 + Log2 (n div 2)" using False by (subst Log2.simps) simp
    ultimately show ?thesis by auto
  qed
qed

lemma Log2_exact: "Log2 (2 ^ k) = k"
proof (induction k)
  case (Suc k)
  have "\<not> (2 :: nat) ^ Suc k < 2" by simp
  then have "Log2 (2 ^ Suc k) = 1 + Log2 (2 ^ Suc k div 2)" by (subst Log2.simps) (simp only: if_False)
  with Suc show ?case by simp
qed (simp add: Log2.simps)

lemma Log2_less: "n < 2 ^ (k + 1) \<Longrightarrow> Log2 n \<le> k"
proof (cases "n = 0")
  case False
  assume "n < 2 ^ (k + 1)"
  then have "(2 :: nat) ^ Log2 n < 2 ^ (k + 1)" using Log2_bounds [of n] False by linarith
  then have "Log2 n < k + 1" by (rule power_less_imp_less_exp [rotated]) simp
  then show ?thesis by simp
qed (simp add: Log2.simps)

lemma subtree_max_bounds:
  assumes "\<And>i. i < 2 * P \<Longrightarrow> \<bar>X i\<bar> \<le> B" and "0 \<le> B"
  shows "0 \<le> subtree_max X P q \<and> subtree_max X P q \<le> B"
  using assms
proof (induction X P q rule: subtree_max.induct)
  case (1 X P q)
  then show ?case by (subst (1 2) subtree_max.simps) (auto simp: le_max_iff_disj)
qed

lemma max_i16_two: "\<bar>a\<bar> \<le> 32767 \<Longrightarrow> \<bar>b\<bar> \<le> 32767 \<Longrightarrow> max_i16 [a, b] = max a b"
  by (simp add: wrap_i16_small Let_def max_def)

lemma max_i16_four:
  "\<bar>a\<bar> \<le> 32767 \<Longrightarrow> \<bar>b\<bar> \<le> 32767 \<Longrightarrow> \<bar>c\<bar> \<le> 32767 \<Longrightarrow> \<bar>d\<bar> \<le> 32767 \<Longrightarrow>
   max_i16 [a, b, c, d] = max (max a b) (max c d)"
  by (simp add: wrap_i16_small Let_def max_def)

lemma nls_dmax_loop_ok:
  assumes "size_ok P" and "length xs = 2 * P" and "\<And>i. i < 2 * P \<Longrightarrow> \<bar>xs ! i\<bar> \<le> 32767"
  shows "q < P \<Longrightarrow> length dmax = MAX_LENGTH div 2 \<Longrightarrow> (\<And>r. q < r \<Longrightarrow> r < P \<Longrightarrow> dmax ! r = subtree_max (\<lambda>i. xs ! i) P r) \<Longrightarrow>
    0 \<le> mx \<Longrightarrow> mx \<le> 32767 \<Longrightarrow>
    \<exists>dmax' mx'. nls_dmax_loop xs (2 * q + 1) dmax mx = Some (dmax', mx') \<and> length dmax' = MAX_LENGTH div 2 \<and>
      (\<forall>r. 1 \<le> r \<longrightarrow> r < P \<longrightarrow> dmax' ! r = subtree_max (\<lambda>i. xs ! i) P r) \<and> mx \<le> mx' \<and> mx' \<le> 32767 \<and>
      (\<forall>j. 2 \<le> j \<longrightarrow> j \<le> 2 * q + 1 \<longrightarrow> \<bar>xs ! j\<bar> \<le> mx') \<and> (mx' = mx \<or> (\<exists>j<2 * P. mx' = \<bar>xs ! j\<bar>))"
proof (induction q arbitrary: dmax mx)
  case 0
  then show ?case by (subst nls_dmax_loop.simps) auto
next
  case (Suc q)
  let ?X = "\<lambda>i. xs ! i" and ?i = "2 * Suc q + 1"
  let ?v = "\<bar>xs ! ?i\<bar>" and ?w = "\<bar>xs ! (2 * Suc q)\<bar>"
  note P = size_okD [OF assms(1)]
  have iN: "?i < 2 * P" using Suc.prems(1) by simp
  have v: "?v \<le> 32767" "?w \<le> 32767" using assms(3) iN by simp_all
  define mx2 where "mx2 = max mx (max ?v ?w)"
  have mx2: "(let mx = (if mx < ?v then wrap_i16 ?v else mx) in if mx < ?w then wrap_i16 ?w else mx) = mx2"
    using v by (simp add: mx2_def wrap_i16_small Let_def max_def)
  have B: "\<bar>subtree_max ?X P r\<bar> \<le> 32767" for r
    using subtree_max_bounds [of P ?X 32767 r] assms(3) by simp
  have sub: "subtree_max ?X P (Suc q) = max (max ?w ?v) (max (subtree_max ?X P (2 * Suc q)) (subtree_max ?X P (2 * Suc q + 1)))"
    using Suc.prems(1) by (subst subtree_max.simps) simp
  have d: "(if ?i < length xs div 2 then do { a \<leftarrow> aread dmax ?i; b \<leftarrow> aread dmax (?i - 1); Some (max_i16 [?w, ?v, a, b]) }
      else Some (max_i16 [?w, ?v])) = Some (subtree_max ?X P (Suc q))"
  proof (cases "?i < P")
    case True
    have "aread dmax ?i = Some (subtree_max ?X P (2 * Suc q + 1))" "aread dmax (?i - 1) = Some (subtree_max ?X P (2 * Suc q))"
      using True Suc.prems(2,3) P by (simp_all add: mem_simps MAX_LENGTH_def)
    with True assms(2) v B show ?thesis by (simp add: sub max_i16_four max.commute max.left_commute del: max_i16.simps)
  next
    case False
    then have "P \<le> 2 * Suc q" using P by (metis Suc_eq_plus1 Suc_leI dvd_triv_left even_Suc le_neq_implies_less linorder_not_le not_less_eq_eq)
    then have "subtree_max ?X P (2 * Suc q) = 0" "subtree_max ?X P (2 * Suc q + 1) = 0"
      by (subst subtree_max.simps, simp)+
    with False assms(2) v show ?thesis by (simp add: sub max_i16_two del: max_i16.simps)
  qed
  let ?dmax = "dmax[Suc q := subtree_max ?X P (Suc q)]"
  have run: "nls_dmax_loop xs ?i dmax mx = nls_dmax_loop xs (2 * q + 1) ?dmax mx2"
  proof -
    have "aread xs ?i = Some (xs ! ?i)" "aread xs (?i - 1) = Some (xs ! (2 * Suc q))" using iN assms(2) by (simp_all add: mem_simps)
    moreover have "awrite dmax (?i div 2) (subtree_max ?X P (Suc q)) = Some ?dmax"
      using Suc.prems(1,2) P by (simp add: mem_simps MAX_LENGTH_def)
    moreover have "2 \<le> ?i" "?i - 2 = 2 * q + 1" by simp_all
    ultimately show ?thesis
      by (subst nls_dmax_loop.simps) (simp only: if_True bind.bind_lunit d mx2 [unfolded Let_def] Let_def)
  qed
  have "?dmax ! r = subtree_max ?X P r" if "q < r" "r < P" for r
    using that Suc.prems(1-3) P by (cases "r = Suc q") (simp_all add: MAX_LENGTH_def)
  moreover have mb: "0 \<le> mx2" "mx2 \<le> 32767" using Suc.prems(4,5) v by (simp_all add: mx2_def)
  ultimately obtain dmax' mx' where r: "nls_dmax_loop xs (2 * q + 1) ?dmax mx2 = Some (dmax', mx')" "length dmax' = MAX_LENGTH div 2"
      "\<forall>r. 1 \<le> r \<longrightarrow> r < P \<longrightarrow> dmax' ! r = subtree_max ?X P r" "mx2 \<le> mx'" "mx' \<le> 32767"
      "\<forall>j. 2 \<le> j \<longrightarrow> j \<le> 2 * q + 1 \<longrightarrow> \<bar>xs ! j\<bar> \<le> mx'" "mx' = mx2 \<or> (\<exists>j<2 * P. mx' = \<bar>xs ! j\<bar>)"
    using Suc.IH [of ?dmax mx2] Suc.prems(1,2) by auto
  moreover have "\<bar>xs ! j\<bar> \<le> mx'" if "2 \<le> j" "j \<le> ?i" for j
  proof -
    have "j \<le> 2 * q + 1 \<or> j = 2 * Suc q \<or> j = ?i" using that(2) by auto
    then show ?thesis using r(4,6) that(1) by (auto simp: mx2_def)
  qed
  moreover have "mx \<le> mx2" by (simp add: mx2_def)
  moreover have "mx2 = mx \<or> mx2 = ?v \<or> mx2 = ?w" by (simp add: mx2_def max_def)
  then have "mx' = mx \<or> (\<exists>j<2 * P. mx' = \<bar>xs ! j\<bar>)" using r(7) iN by (metis Suc_lessD add.commute plus_1_eq_Suc)
  ultimately show ?case unfolding run by (intro exI [of _ dmax'] exI [of _ mx']) auto
qed

lemma nls_gmax_loop_ok:
  assumes "\<forall>i \<in> set is. 2 * i + 1 < length dmax \<and> i < length gmax"
  shows "\<exists>gmax'. nls_gmax_loop dmax is gmax = Some gmax' \<and> length gmax' = length gmax \<and>
    (\<forall>i<length gmax. gmax' ! i = (if i \<in> set is then max_i16 [dmax ! (2 * i), dmax ! (2 * i + 1)] else gmax ! i))"
  using assms
proof (induction "is" arbitrary: gmax)
  case (Cons i "is")
  let ?g = "gmax[i := max_i16 [dmax ! (2 * i), dmax ! (2 * i + 1)]]"
  from Cons.IH [of ?g] Cons.prems obtain g' where "nls_gmax_loop dmax is ?g = Some g'" "length g' = length gmax"
    "\<forall>j<length gmax. g' ! j = (if j \<in> set is then max_i16 [dmax ! (2 * j), dmax ! (2 * j + 1)] else ?g ! j)" by auto
  with Cons.prems show ?case by (auto simp: mem_simps nth_list_update simp del: max_i16.simps)
qed simp

subsection \<open>Encoding a block\<close>

definition nib :: "nat \<Rightarrow> bool list" where
  "nib v = [bit v 3, bit v 2, bit v 1, bit v 0]"

lemma en_push4_law:
  assumes "en_at X P dmax gmax m0 bs0 base bs c"
  shows "\<exists>m s. en_push4 v c = Some (c\<lparr>enMemory := m, enStream := s\<rparr>) \<and>
    en_at X P dmax gmax m0 bs0 base (bs @ nib v) (c\<lparr>enMemory := m, enStream := s\<rparr>)"
proof -
  obtain m1 s1 where 1: "en_push (bit v 3) c = Some (c\<lparr>enMemory := m1, enStream := s1\<rparr>)"
    "en_at X P dmax gmax m0 bs0 base (bs @ [bit v 3]) (c\<lparr>enMemory := m1, enStream := s1\<rparr>)"
    using en_push_law [OF assms] by blast
  obtain m2 s2 where 2: "en_push (bit v 2) (c\<lparr>enMemory := m1, enStream := s1\<rparr>) = Some (c\<lparr>enMemory := m2, enStream := s2\<rparr>)"
    "en_at X P dmax gmax m0 bs0 base ((bs @ [bit v 3]) @ [bit v 2]) (c\<lparr>enMemory := m2, enStream := s2\<rparr>)"
    using en_push_law [OF 1(2), of "bit v 2"] by auto
  obtain m3 s3 where 3: "en_push (bit v 1) (c\<lparr>enMemory := m2, enStream := s2\<rparr>) = Some (c\<lparr>enMemory := m3, enStream := s3\<rparr>)"
    "en_at X P dmax gmax m0 bs0 base (((bs @ [bit v 3]) @ [bit v 2]) @ [bit v 1]) (c\<lparr>enMemory := m3, enStream := s3\<rparr>)"
    using en_push_law [OF 2(2), of "bit v 1"] by auto
  obtain m4 s4 where 4: "en_push (bit v 0) (c\<lparr>enMemory := m3, enStream := s3\<rparr>) = Some (c\<lparr>enMemory := m4, enStream := s4\<rparr>)"
    "en_at X P dmax gmax m0 bs0 base ((((bs @ [bit v 3]) @ [bit v 2]) @ [bit v 1]) @ [bit v 0]) (c\<lparr>enMemory := m4, enStream := s4\<rparr>)"
    using en_push_law [OF 3(2), of "bit v 0"] by auto
  from 1(1) 2(1) 3(1) 4 show ?thesis by (auto simp: en_push4_def nib_def)
qed

text \<open>
  The blocks that can be coded, and the objects the coder works on. The search for the largest value
  takes the first coefficient with its sign, so a negative one must not be the largest.\<close>

definition block_ok :: "int list \<Rightarrow> bool" where
  "block_ok xs \<longleftrightarrow> size_ok (length xs div 2) \<and> even (length xs) \<and> (\<forall>x \<in> set xs. \<bar>x\<bar> \<le> 32767) \<and>
     (0 \<le> xs ! 0 \<or> (\<exists>i. 0 < i \<and> i < length xs \<and> \<bar>xs ! 0\<bar> \<le> \<bar>xs ! i\<bar>))"

definition coder_ok :: "nls \<Rightarrow> bool" where
  "coder_ok e \<longleftrightarrow> length (nsMark e) = MAX_LENGTH \<and> length (nsDmax e) = MAX_LENGTH div 2 \<and> length (nsGmax e) = MAX_LENGTH div 4"

lemma coder_new_ok: "coder_ok nls_new"
  by (simp add: coder_ok_def nls_new_def)

lemma start_elem: "elem start_state i = MIP \<or> elem start_state i = NM"
  by (simp add: elem_def start_state_def)

lemma start_rel:
  assumes "marks_rel P (marks c) start_state" and "\<And>i. i < 2 * P \<Longrightarrow> val None i c" and "\<And>i. i < 2 * P \<Longrightarrow> \<bar>X i\<bar> < 2 * s"
  shows "nls_rel X P marks val s 0 c start_state" and "no_mcp start_state"
proof -
  have "lev s 0 start_state i = None" for i using start_elem [of i] by (auto simp: lev_def)
  with assms show "nls_rel X P marks val s 0 c start_state" by (simp add: nls_rel_def start_tree)
  show "no_mcp start_state" by (simp add: no_mcp_def start_state_def plain_def)
qed

lemma largest_ok:
  assumes "block_ok xs" and "coder_ok e" and P: "P = length xs div 2"
  shows "\<exists>mx1 dmax mx gmax. nls_dc_max xs [1..<2] (xs ! 0) = Some mx1 \<and>
    nls_dmax_loop xs (wrap_u16 (length xs - 1)) ((nsDmax e)[0 := 0]) mx1 = Some (dmax, mx) \<and>
    nls_gmax_loop dmax [1..<length xs div 4] ((nsGmax e)[0 := 0]) = Some gmax \<and>
    sets_ok (\<lambda>i. xs ! i) P dmax gmax \<and> 0 \<le> mx \<and> mx \<le> 32767 \<and> mx = Max (set (map abs xs))"
proof -
  let ?X = "\<lambda>i. xs ! i"
  have len: "length xs = 2 * P" and size: "size_ok P" using assms(1) by (auto simp: block_ok_def P)
  note Pb = size_okD [OF size]
  have B: "\<bar>xs ! i\<bar> \<le> 32767" if "i < 2 * P" for i using assms(1) len that by (auto simp: block_ok_def)
  have l: "length (nsDmax e) = MAX_LENGTH div 2" "length (nsGmax e) = MAX_LENGTH div 4" using assms(2) by (simp_all add: coder_ok_def)
  define mx1 where "mx1 = max (xs ! 0) \<bar>xs ! 1\<bar>"
  have mx1: "0 \<le> mx1" "mx1 \<le> 32767" using B [of 0] B [of 1] Pb by (auto simp: mx1_def)
  have dc: "nls_dc_max xs [1..<2] (xs ! 0) = Some mx1"
  proof -
    have "[1..<2] = [1 :: nat]" by (simp add: upt_rec)
    moreover have "aread xs 1 = Some (xs ! 1)" using len Pb by (simp add: mem_simps)
    ultimately show ?thesis using B [of 1] Pb by (simp add: mx1_def wrap_i16_small max_def)
  qed
  have w: "wrap_u16 (length xs - 1) = 2 * (P - 1) + 1"
  proof -
    have "length xs - 1 = 2 * (P - 1) + 1" using len Pb by linarith
    moreover have "2 * (P - 1) + 1 < 65536" using Pb by linarith
    ultimately show ?thesis by (simp only: wrap_small)
  qed
  have start: "P - 1 < P" using Pb by linarith
  have vac: "((nsDmax e)[0 := 0]) ! r = subtree_max ?X P r" if "P - 1 < r" "r < P" for r using that by linarith
  obtain dmax mx where d: "nls_dmax_loop xs (2 * (P - 1) + 1) ((nsDmax e)[0 := 0]) mx1 = Some (dmax, mx)"
      "length dmax = MAX_LENGTH div 2" "\<forall>r. 1 \<le> r \<longrightarrow> r < P \<longrightarrow> dmax ! r = subtree_max ?X P r"
      "mx1 \<le> mx" "mx \<le> 32767" "\<forall>j. 2 \<le> j \<longrightarrow> j \<le> 2 * (P - 1) + 1 \<longrightarrow> \<bar>xs ! j\<bar> \<le> mx"
      "mx = mx1 \<or> (\<exists>j<2 * P. mx = \<bar>xs ! j\<bar>)"
    using nls_dmax_loop_ok [OF size len B start _ vac mx1] l(1) by auto
  have small: "\<bar>subtree_max ?X P r\<bar> \<le> 32767" for r using subtree_max_bounds [of P ?X 32767 r] B by simp
  have in_range: "\<forall>i \<in> set [1..<length xs div 4]. 2 * i + 1 < length dmax \<and> i < length ((nsGmax e)[0 := 0])"
    using len Pb d(2) l by (auto simp: MAX_LENGTH_def)
  obtain gmax where g: "nls_gmax_loop dmax [1..<length xs div 4] ((nsGmax e)[0 := 0]) = Some gmax" "length gmax = MAX_LENGTH div 4"
      "\<And>k. 1 \<le> k \<Longrightarrow> 2 * k < P \<Longrightarrow> gmax ! k = max_i16 [dmax ! (2 * k), dmax ! (2 * k + 1)]"
  proof -
    have "k < length xs div 4" "k < MAX_LENGTH div 4" if "2 * k < P" for k
      using that len Pb by (auto elim!: evenE simp: MAX_LENGTH_def)
    then show thesis using nls_gmax_loop_ok [OF in_range] l that by (auto simp del: max_i16.simps)
  qed
  have sets: "sets_ok ?X P dmax gmax"
    unfolding sets_ok_def
  proof (intro conjI allI impI)
    fix q assume q: "1 \<le> q" "q < P"
    then show "q < length dmax" "dmax ! q = subtree_max ?X P q" using d(2,3) Pb by (simp_all add: MAX_LENGTH_def)
  next
    fix k assume k: "1 \<le> k" "2 * k < P"
    then have "2 * k + 1 < P" using size_ok_double [OF size] by simp
    then have "dmax ! (2 * k) = subtree_max ?X P (2 * k)" "dmax ! (2 * k + 1) = subtree_max ?X P (2 * k + 1)"
      using d(3) k by simp_all
    then show "gmax ! k = max (subtree_max ?X P (2 * k)) (subtree_max ?X P (2 * k + 1))"
      using g(3) [OF k] max_i16_two [OF small small] by (simp del: max_i16.simps)
    show "k < length gmax" using k g(2) Pb by (simp add: MAX_LENGTH_def)
  qed
  have rest: "\<bar>xs ! i\<bar> \<le> mx" if "i < 2 * P" "0 < i" for i
    using that d(4,6) by (cases "i = 1") (auto simp: mx1_def)
  moreover have "\<bar>xs ! 0\<bar> \<le> mx"
    using assms(1) rest len d(4) by (fastforce simp: block_ok_def mx1_def)
  ultimately have all: "\<bar>xs ! i\<bar> \<le> mx" if "i < length xs" for i using len that by (cases "i = 0") auto
  have "\<exists>j<length xs. mx = \<bar>xs ! j\<bar>"
  proof (cases "mx = xs ! 0")
    case True
    then have "mx = \<bar>xs ! 0\<bar>" using all [of 0] len Pb by simp
    then show ?thesis using len Pb by (intro exI [of _ 0]) simp
  next
    case False
    then have "mx = \<bar>xs ! 1\<bar> \<or> (\<exists>j<2 * P. mx = \<bar>xs ! j\<bar>)" using d(7) by (auto simp: mx1_def max_def split: if_splits)
    then show ?thesis using len Pb by (auto intro: exI [of _ 1])
  qed
  then have "mx \<in> set (map abs xs)" by auto
  then have "mx = Max (set (map abs xs))" using all by (intro Max_eqI [symmetric]) (auto simp: in_set_conv_nth)
  moreover have "0 \<le> mx" using d(4) mx1(1) by linarith
  ultimately show ?thesis unfolding w using dc d(1,5) g(1) sets by blast
qed

text \<open>The highest plane of a block, and its code: three nibbles of header and the bits of the machine.\<close>

definition top_plane :: "int list \<Rightarrow> nat" where
  "top_plane xs = Log2 (nat (Max (set (map abs xs))))"

definition block_bits :: "int list \<Rightarrow> bool list" where
  "block_bits xs = nib (top_plane xs) @ nib 2 @ nib (Log2 (length xs)) @
     planes_run (\<lambda>i. xs ! i) (length xs div 2) (Suc (top_plane xs)) (2 ^ top_plane xs) start_state"

lemma top_plane_bounds:
  assumes "block_ok xs"
  shows "top_plane xs \<le> 14" and "i < length xs \<Longrightarrow> \<bar>xs ! i\<bar> < 2 * 2 ^ top_plane xs"
proof -
  let ?mx = "Max (set (map abs xs))"
  have "size_ok (length xs div 2)" using assms by (simp add: block_ok_def)
  from size_okD [OF this] have ne: "xs \<noteq> []" by auto
  have "?mx \<in> set (map abs xs)" using ne by (intro Max_in) auto
  then have mx: "0 \<le> ?mx" "?mx \<le> 32767" using assms by (auto simp: block_ok_def)
  have "nat ?mx < 2 ^ (14 + 1)" using mx(2) by simp
  then show "top_plane xs \<le> 14" unfolding top_plane_def by (rule Log2_less)
  have "?mx < 2 * 2 ^ top_plane xs"
  proof (cases "?mx = 0")
    case False
    then have "nat ?mx < 2 ^ (top_plane xs + 1)" using Log2_bounds [of "nat ?mx"] mx(1) by (simp add: top_plane_def)
    then show ?thesis using mx(1) by (simp add: nat_less_iff)
  qed simp
  then show "\<bar>xs ! i\<bar> < 2 * 2 ^ top_plane xs" if "i < length xs"
    using that Max_ge [of "set (map abs xs)" "\<bar>xs ! i\<bar>"] by (fastforce simp: in_set_conv_nth)
qed

lemma encode_run:
  assumes "block_ok xs" and "coder_ok e" and "bs_wf m base bs0"
  shows "\<exists>e1 xs1 m1 bs1. nls_encode e xs m bs0 = Some (e1, xs1, m1, bs1) \<and> bs_wf m1 base bs1 \<and>
    (\<exists>ks. bs_pushAll m bs0 ks = Some (m1, bs1)) \<and>
    (2 * length xs < unat (bs_getSize bs1) \<or> bs_pushAll m bs0 (block_bits xs) = Some (m1, bs1))"
proof -
  let ?X = "\<lambda>i. xs ! i"
  define P where "P = length xs div 2"
  have len: "length xs = 2 * P" and size: "size_ok P" using assms(1) by (auto simp: block_ok_def P_def)
  note Pb = size_okD [OF size]
  obtain mx1 dmax mx gmax where lg: "nls_dc_max xs [1..<2] (xs ! 0) = Some mx1"
      "nls_dmax_loop xs (wrap_u16 (length xs - 1)) ((nsDmax e)[0 := 0]) mx1 = Some (dmax, mx)"
      "nls_gmax_loop dmax [1..<length xs div 4] ((nsGmax e)[0 := 0]) = Some gmax"
      "sets_ok ?X P dmax gmax" "0 \<le> mx" "mx \<le> 32767" "mx = Max (set (map abs xs))"
    using largest_ok [OF assms(1,2) P_def] by blast
  define n where "n = top_plane xs"
  have "mx < 2 ^ size_bits" using lg(6) by (simp add: size_bits_def)
  then have nm: "Log2 (nat (mx mod 2 ^ size_bits)) = n"
    using lg(5) by (simp only: n_def top_plane_def lg(7) mod_pos_pos_trivial)
  have n: "n \<le> 14" and bound: "\<And>i. i < length xs \<Longrightarrow> \<bar>xs ! i\<bar> < 2 * 2 ^ n"
    using top_plane_bounds [OF assms(1)] by (simp_all add: n_def)
  have pw: "(2 :: nat) ^ n \<le> 2 ^ 14" using n by (intro power_increasing) simp_all
  then have s: "n < 31" "int (wrap_u16 (2 ^ n)) = 2 ^ n" using n by (simp_all add: wrap_small)
  let ?at = "en_at ?X P dmax gmax m bs0 base"
  let ?c0 = "\<lparr>enMark = nsMark e, enValues = xs, enMemory = m, enStream = bs0\<rparr>"
  have a0: "?at [] ?c0" using size lg(4) len assms(3) by (simp add: en_at_def)
  obtain m1 s1 where c1: "en_push4 n ?c0 = Some (?c0\<lparr>enMemory := m1, enStream := s1\<rparr>)" "?at (nib n) (?c0\<lparr>enMemory := m1, enStream := s1\<rparr>)"
    using en_push4_law [OF a0, of n] by auto
  obtain m2 s2 where c2: "en_push4 2 (?c0\<lparr>enMemory := m1, enStream := s1\<rparr>) = Some (?c0\<lparr>enMemory := m2, enStream := s2\<rparr>)"
      "?at (nib n @ nib 2) (?c0\<lparr>enMemory := m2, enStream := s2\<rparr>)"
    using en_push4_law [OF c1(2), of 2] by auto
  let ?k = "Log2 (length xs)"
  obtain m3 s3 where c3: "en_push4 ?k (?c0\<lparr>enMemory := m2, enStream := s2\<rparr>) = Some (?c0\<lparr>enMemory := m3, enStream := s3\<rparr>)"
      "?at (nib n @ nib 2 @ nib ?k) (?c0\<lparr>enMemory := m3, enStream := s3\<rparr>)"
    using en_push4_law [OF c2(2), of ?k] by auto
  have le: "length (nsMark e) = MAX_LENGTH" "length (nsDmax e) = MAX_LENGTH div 2" "length (nsGmax e) = MAX_LENGTH div 4"
    using assms(2) by (simp_all add: coder_ok_def)
  obtain mk1 mk2 mk where mk: "nls_fill MIP [0..<2] (nsMark e) = Some mk1" "nls_fill_md (2 * P) [2..<4] mk1 = Some mk2"
      "nls_fill NM [4..<2 * P] mk2 = Some mk" "marks_rel P mk start_state"
    using start_encode [OF size le(1)] by blast
  let ?c = "?c0\<lparr>enMark := mk, enMemory := m3, enStream := s3\<rparr>"
  have rel: "nls_rel ?X P enMark (en_val ?X) (2 ^ n) 0 ?c start_state" "no_mcp start_state"
    using mk(4) bound len by (auto intro!: start_rel simp: en_val_def)
  have at: "?at (nib n @ nib 2 @ nib ?k) ?c" using c3(2) unfolding en_at_def by auto
  obtain c' where c': "nls_enc_planes dmax gmax (2 * P) (2 * length xs) (Suc n) (2 ^ n) ?c = Some c'"
      "en_stop (2 * length xs) c' \<and> (\<exists>ks. ?at ks c') \<or>
       ?at ((nib n @ nib 2 @ nib ?k) @ planes_run ?X P (Suc n) (2 ^ n) start_state) c'"
    using enc_planes_ok [OF n rel(1) at rel(2), of "2 * length xs"] by blast
  have "nls_encode e xs m bs0 = Some (\<lparr>nsMark = enMark c', nsDmax = dmax, nsGmax = gmax\<rparr>, enValues c', enMemory c', enStream c')"
  proof -
    have "awrite (nsDmax e) 0 0 = Some ((nsDmax e)[0 := 0])" "awrite (nsGmax e) 0 0 = Some ((nsGmax e)[0 := 0])"
      "aread xs 0 = Some (xs ! 0)"
      using le len Pb by (simp_all add: mem_simps MAX_LENGTH_def)
    moreover have "unat (2 :: u8) = 2" "2 * 2 = (4 :: nat)" "2 * length xs \<noteq> 0" using len Pb by simp_all
    moreover have "nls_fill_md (length xs) [2..<4] mk1 = Some mk2" "nls_fill NM [4..<length xs] mk2 = Some mk"
      "nls_enc_planes dmax gmax (length xs) (2 * length xs) (Suc n) (2 ^ n) ?c = Some c'"
      using mk c'(1) len by simp_all
    ultimately show ?thesis
      using c1(1) c2(1) c3(1) lg(1-3) mk(1) s
      unfolding nls_encode_def nls_encode_n_def Let_def
      by (simp add: nm del: nls_enc_planes.simps nls_fill.simps nls_fill_md.simps upt_rec_numeral One_nat_def)
  qed
  moreover have "bs_wf (enMemory c') base (enStream c')" "\<exists>ks. bs_pushAll m bs0 ks = Some (enMemory c', enStream c')"
    using c'(2) by (auto simp: en_at_def)
  moreover have "2 * length xs < unat (bs_getSize (enStream c')) \<or> bs_pushAll m bs0 (block_bits xs) = Some (enMemory c', enStream c')"
    using c'(2) by (auto simp: en_at_def en_stop_def block_bits_def P_def n_def)
  ultimately show ?thesis by blast
qed

subsection \<open>Decoding a block\<close>

text \<open>A stream that is not full has kept all bits.\<close>

lemma bs_pushAll_full: "bs_isFull s \<Longrightarrow> bs_pushAll m s xs = Some (m, s)"
  by (induction xs) (simp_all add: bs_pushBit_full)

lemma bs_pushAll_complete:
  assumes "bs_wf m base s" and "bs_pushAll m s xs = Some (m', s')" and "\<not> bs_isFull s'"
  shows "bs_length s + length xs \<le> bs_capacity s"
proof (rule ccontr)
  assume more: "\<not> bs_length s + length xs \<le> bs_capacity s"
  let ?k = "bs_capacity s - bs_length s"
  have "bs_length s + length (take ?k xs) = bs_capacity s" using more bs_length_bound(1) [OF assms(1)] by simp
  then obtain m1 s1 where 1: "bs_pushAll m s (take ?k xs) = Some (m1, s1)" "bs_wf m1 base s1"
      "bs_length s1 = bs_capacity s" "bsData s1 = bsData s"
    using bs_pushAll_appends [OF assms(1), of "take ?k xs"] by auto
  then have full: "bs_isFull s1" using bs_isFull_iff [OF 1(2)] by (simp add: bs_capacity_def)
  have "bs_pushAll m s (take ?k xs @ drop ?k xs) = Some (m1, s1)"
    unfolding bs_pushAll_append 1(1) by (simp add: bs_pushAll_full [OF full])
  with assms(2,3) full show False by simp
qed

lemma nib_value:
  fixes v :: nat
  assumes "v < 16"
  shows "v = 8 * of_bool (bit v 3) + 4 * of_bool (bit v 2) + 2 * of_bool (bit v 1) + of_bool (bit v 0)"
proof -
  have d: "v div 4 = v div 2 div 2" "v div 8 = v div 2 div 2 div 2" by (simp_all add: div_mult2_eq [symmetric])
  have step: "u = 2 * (u div 2) + u mod 2" for u :: nat by simp
  have "v div 8 < 2" using assms by simp
  then have "v div 8 mod 2 = v div 8" by simp
  then have "v = 8 * (v div 8 mod 2) + 4 * (v div 4 mod 2) + 2 * (v div 2 mod 2) + v mod 2"
    using step [of v] step [of "v div 2"] step [of "v div 2 div 2"] unfolding d by linarith
  note sum = this
  have bits: "bit v 3 = odd (v div 8)" "bit v 2 = odd (v div 4)" "bit v 1 = odd (v div 2)" "bit v 0 = odd v"
    by (simp_all add: bit_iff_odd)
  show ?thesis unfolding bits of_bool_odd_eq_mod_2 by (rule sum)
qed

lemma nibble_bits:
  fixes v :: u8
  assumes "w < 16"
  shows "(\<And>j. j < 4 \<Longrightarrow> bit v (4 + j) = bit w j) \<Longrightarrow> unat v div 16 = w"
    and "(\<And>j. j < 4 \<Longrightarrow> bit v j = bit w j) \<Longrightarrow> unat v mod 16 = w"
proof -
  have b: "bit (unat v) j = bit v j" for j by (simp add: bit_unsigned_iff bit_imp_le_length [of v j, simplified] impossible_bit conj_commute)
  have eq: "u = w" if "u < 16" "\<And>j. j < 4 \<Longrightarrow> bit u j = bit w j" for u
    using nib_value [OF that(1)] nib_value [OF assms] that(2) by simp
  have "unat v < 2 ^ 8" using unsigned_less [of v] by simp
  then have hi: "unat v div 16 < 16" by simp
  have "unat v div 16 = drop_bit 4 (unat v)" "unat v mod 16 = take_bit 4 (unat v)"
    by (simp_all add: drop_bit_eq_div take_bit_eq_mod)
  then have bits: "bit (unat v div 16) j = bit v (4 + j)" "j < 4 \<Longrightarrow> bit (unat v mod 16) j = bit v j" for j
    by (simp_all add: bit_drop_bit_eq bit_take_bit_iff b)
  show "(\<And>j. j < 4 \<Longrightarrow> bit v (4 + j) = bit w j) \<Longrightarrow> unat v div 16 = w"
    by (rule eq [OF hi]) (simp add: bits)
  show "(\<And>j. j < 4 \<Longrightarrow> bit v j = bit w j) \<Longrightarrow> unat v mod 16 = w"
    by (rule eq) (simp_all add: bits)
qed

lemma header_bytes:
  assumes wf: "bs_wf m base st" and "n < 16" "dc < 16" "k < 16"
    and bits: "bits_of m base (bs_length st) = nib n @ nib dc @ nib k @ rest"
  shows "\<exists>b0 b1. bs_getByte m st 0 = Some b0 \<and> unat b0 div 16 = n \<and> unat b0 mod 16 = dc \<and>
    bs_getByte m st 1 = Some b1 \<and> unat b1 div 16 = k"
proof -
  let ?T = "bits_of m base (bs_length st)"
  have "length ?T = length (nib n @ nib dc @ nib k @ rest)" by (simp only: bits)
  then have l: "12 \<le> bs_length st" by (simp add: nib_def)
  have w: "mData (bsData st) = Some base" "base + mNumberOfElements (bsData st) \<le> length m"
    "headerSize \<le> unat (bytePointer st)" "unat (bytePointer st) \<le> mNumberOfElements (bsData st)" "0 \<le> bitPointer st" "bitPointer st \<le> 7"
    "unat (bytePointer st) = mNumberOfElements (bsData st) \<longrightarrow> bitPointer st = 7"
    using wf by (auto simp: bs_wf_def)
  have "nat (7 - bitPointer st) \<le> 7" using w(5) by simp
  then have bp: "headerSize + 1 \<le> unat (bytePointer st)" using l w(3) unfolding bs_length_def by linarith
  have bn: "1 + headerSize < mNumberOfElements (bsData st)"
  proof (cases "unat (bytePointer st) = mNumberOfElements (bsData st)")
    case True
    with w(7) have "bitPointer st = 7" by simp
    with l have "headerSize + 2 \<le> unat (bytePointer st)" by (simp add: bs_length_def)
    with True show ?thesis by simp
  qed (use bp w(4) in simp)
  have at: "msb_bit (drop (base + headerSize) m) j = (nib n @ nib dc @ nib k @ rest) ! j" if "j < 12" for j
    using nth_bits_of [of j "bs_length st" m base] l that unfolding bits by simp
  let ?b = "\<lambda>i. m ! (base + headerSize + i)"
  have bit: "bit (?b i) j = (nib n @ nib dc @ nib k @ rest) ! (8 * i + (7 - j))" if "8 * i + (7 - j) < 12" "j < 8" for i j
  proof -
    define r where "r = 7 - j"
    have "r < 8" "7 - r = j" using that(2) by (simp_all add: r_def)
    then have "(8 * i + r) div 8 = i" "7 - (8 * i + r) mod 8 = j" by simp_all
    moreover have "base + headerSize \<le> length m" using bn w(2) by simp
    ultimately show ?thesis using at [OF that(1)] unfolding r_def [symmetric] by (simp add: msb_bit_def)
  qed
  have nibs: "(nib n @ nib dc @ nib k @ rest) ! (8 * 0 + (7 - (4 + j))) = bit n j"
      "(nib n @ nib dc @ nib k @ rest) ! (8 * 0 + (7 - j)) = bit dc j"
      "(nib n @ nib dc @ nib k @ rest) ! (8 * 1 + (7 - (4 + j))) = bit k j" if "j < 4" for j
  proof -
    have "j = 0 \<or> j = 1 \<or> j = 2 \<or> j = 3" using that by auto
    then show "(nib n @ nib dc @ nib k @ rest) ! (8 * 0 + (7 - (4 + j))) = bit n j"
      "(nib n @ nib dc @ nib k @ rest) ! (8 * 0 + (7 - j)) = bit dc j"
      "(nib n @ nib dc @ nib k @ rest) ! (8 * 1 + (7 - (4 + j))) = bit k j"
      by (elim disjE; simp add: nib_def)+
  qed
  have get: "slice_get m (bsData st) (i + headerSize) = Some (?b i)" if "i \<le> 1" for i
  proof -
    have "base + (i + headerSize) < length m" using that bn w(2) by linarith
    from slice_get_at [OF w(1) this] show ?thesis by (simp only: ac_simps)
  qed
  have "uint (bytePointer st) = int (unat (bytePointer st))" by simp
  then have "int headerSize + 1 \<le> uint (bytePointer st)" using bp by linarith
  then have "uint (0 :: u16) \<le> uint (bytePointer st) - int headerSize" "uint (1 :: u16) \<le> uint (bytePointer st) - int headerSize"
    by simp_all
  then have "bs_getByte m st 0 = Some (?b 0)" "bs_getByte m st 1 = Some (?b 1)"
    unfolding bs_getByte_def using get [of 0] get [of 1] by simp_all
  moreover have "unat (?b 0) div 16 = n"
    by (rule nibble_bits [OF assms(2)], rule trans [OF bit nibs(1)]) simp_all
  moreover have "unat (?b 0) mod 16 = dc"
    by (rule nibble_bits [OF assms(3)], rule trans [OF bit nibs(2)]) simp_all
  moreover have "unat (?b 1) div 16 = k"
    by (rule nibble_bits [OF assms(4)], rule trans [OF bit nibs(3)]) simp_all
  ultimately show ?thesis by blast
qed

lemma decode_ok:
  assumes "block_ok xs" and "coder_ok e" and wf: "bs_wf m base st" and small: "bs_length st \<le> 65536"
    and bits: "bits_of m base (bs_length st) = block_bits xs"
    and out: "length xs \<le> length out" and signs: "length signs = MAX_LENGTH"
  shows "\<exists>e2 out2. nls_decode e m st out signs = Some (e2, out2, xs)"
proof -
  let ?X = "\<lambda>i. xs ! i"
  define P where "P = length xs div 2"
  have len: "length xs = 2 * P" and size: "size_ok P" using assms(1) by (auto simp: block_ok_def P_def)
  note Pb = size_okD [OF size]
  define k where "k = Log2 (length xs)"
  obtain j where j: "P = 2 ^ j" "2 \<le> j" "j \<le> 11" using size by (auto simp: size_ok_def)
  then have k: "length xs = 2 ^ k" "k < 16" using Log2_exact [of "Suc j"] by (simp_all add: k_def len)
  define n where "n = top_plane xs"
  have n: "n \<le> 14" and bound: "\<And>i. i < length xs \<Longrightarrow> \<bar>xs ! i\<bar> < 2 * 2 ^ n"
    using top_plane_bounds [OF assms(1)] by (simp_all add: n_def)
  let ?rest = "planes_run ?X P (Suc n) (2 ^ n) start_state" and ?T = "block_bits xs"
  let ?hdr = "nib n @ nib 2 @ nib k"
  have T: "?T = nib n @ nib 2 @ nib k @ ?rest" by (simp add: block_bits_def k_def P_def n_def)
  obtain b0 b1 where b: "bs_getByte m st 0 = Some b0" "unat b0 div 16 = n" "unat b0 mod 16 = 2"
      "bs_getByte m st 1 = Some b1" "unat b1 div 16 = k"
    using header_bytes [OF wf _ _ k(2) bits [unfolded T]] n by auto
  have l: "length (nsMark e) = MAX_LENGTH" using assms(2) by (simp add: coder_ok_def)
  obtain mk1 mk2 mk where mk: "nls_fill NM [0..<2 * P] (nsMark e) = Some mk1" "nls_fill MIP [0..<2] mk1 = Some mk2"
      "nls_fill_md (2 * P) [2..<4] mk2 = Some mk" "marks_rel P mk start_state"
    using start_decode [OF size l] by blast
  obtain out1 where o: "nls_clear 0 [0..<2 * P] out = Some out1" "length out1 = length out" "\<And>i. i < 2 * P \<Longrightarrow> out1 ! i = 0"
    using nls_clear_ok [of "[0..<2 * P]" out 0] out len by auto
  obtain signs1 where sg: "nls_clear False [0..<2 * P] signs = Some signs1" "length signs1 = MAX_LENGTH"
    using nls_clear_ok [of "[0..<2 * P]" signs False] signs Pb by (auto simp: MAX_LENGTH_def)
  let ?c = "\<lparr>deMark = mk, deValues = out1, deSigns = signs1, dePointer = 12\<rparr>"
  have rel: "nls_rel ?X P deMark (de_val ?X) (2 ^ n) 0 ?c start_state" "no_mcp start_state"
    using mk(4) bound len o(3) by (auto intro!: start_rel simp: de_val_def)
  have lT: "length ?T = bs_length st" unfolding bits [symmetric] by simp
  have pw: "(2 :: int) ^ n \<le> 2 ^ 14" using n by (intro power_increasing) simp_all
  have hl: "length ?hdr = 12" by (simp add: nib_def)
  have at: "de_at ?X P ?hdr ?T m base st [] ?c"
    unfolding de_at_def using size bound len o(2) out sg(2) hl small lT wf bits pw by (force simp: T)
  have fits: "\<exists>tail. ?T = ?hdr @ ([] @ ?rest) @ tail" by (simp add: T)
  obtain c' where c': "nls_dec_planes m st (2 * P) (Suc n) (2 ^ n) ?c = Some c'" "2 * P \<le> length (deValues c')"
      "\<forall>i<2 * P. deValues c' ! i = xs ! i"
    using dec_planes_ok [OF n rel(1) at rel(2) fits] by blast
  have "take (2 * P) (deValues c') = xs" using c'(2,3) len by (intro nth_equalityI) auto
  moreover have "int (wrap_u16 (2 ^ n)) = 2 ^ n"
  proof -
    have "(2 :: nat) ^ n \<le> 2 ^ 14" using n by (intro power_increasing) simp_all
    then show ?thesis by (simp add: wrap_small)
  qed
  moreover have "2 ^ (unat b1 div 16) = 2 * P" using b(5) k(1) len by simp
  ultimately show ?thesis
    using b o(1) sg(1) mk(1-3) c'(1) Pb out len
    unfolding nls_decode_def Let_def
    by (simp del: nls_dec_planes.simps nls_fill.simps nls_fill_md.simps upt_rec_numeral One_nat_def)
qed

subsection \<open>The block comes back\<close>

lemma bs_pushAll_frame:
  assumes "bs_wf m base s"
  shows "\<exists>m' s'. bs_pushAll m s xs = Some (m', s') \<and> bsData s' = bsData s \<and> length m' = length m \<and>
    (\<forall>i<length m. i < base + headerSize \<or> base + mNumberOfElements (bsData s) \<le> i \<longrightarrow> m' ! i = m ! i)"
proof -
  let ?k = "bs_capacity s - bs_length s"
  have "bs_length s + length (take ?k xs) \<le> bs_capacity s" using bs_length_bound(1) [OF assms] by simp
  from bs_pushAll_appends [OF assms this] obtain m1 s1 where 1: "bs_pushAll m s (take ?k xs) = Some (m1, s1)" "bs_wf m1 base s1"
      "bs_length s1 = bs_length s + length (take ?k xs)" "bsData s1 = bsData s" "length m1 = length m"
      "\<forall>i<length m. i < base + headerSize \<or> base + mNumberOfElements (bsData s) \<le> i \<longrightarrow> m1 ! i = m ! i" by blast
  have "bs_pushAll m1 s1 (drop ?k xs) = Some (m1, s1)"
  proof (cases "length xs \<le> ?k")
    case False
    then have "bs_length s1 = bs_capacity s1" using 1(3,4) bs_length_bound(1) [OF assms] by (simp add: bs_capacity_def)
    then show ?thesis using bs_isFull_iff [OF 1(2)] by (simp add: bs_pushAll_full)
  qed simp
  then have "bs_pushAll m s (take ?k xs @ drop ?k xs) = Some (m1, s1)" unfolding bs_pushAll_append 1(1) by simp
  with 1(4-6) show ?thesis by auto
qed

text \<open>A code that was neither cut by the limit on its size nor by a full buffer is the code of the block.\<close>

lemma encoded_stream:
  assumes "block_ok xs" and "coder_ok e"
    and sl: "mData sl = Some base" "base + mNumberOfElements sl \<le> length m" "headerSize \<le> mNumberOfElements sl"
      "mNumberOfElements sl < 2 ^ 16"
    and code: "nls_encode e xs m (bs_new sl) = Some (e1, xs1, m1, bs1)" "unat (bs_getSize bs1) \<le> 2 * length xs" "\<not> bs_isFull bs1"
  shows "bs_wf m1 base bs1" and "bs_length bs1 \<le> 65536" and "bits_of m1 base (bs_length bs1) = block_bits xs"
    and "bsData bs1 = sl" and "length m1 = length m"
proof -
  note n = bs_new_wf [OF sl]
  from encode_run [OF assms(1,2) n(1)] code(1,2)
  have all: "bs_pushAll m (bs_new sl) (block_bits xs) = Some (m1, bs1)" by auto
  from bs_pushAll_complete [OF n(1) all code(3)]
  have "bs_length (bs_new sl) + length (block_bits xs) \<le> bs_capacity (bs_new sl)" .
  from bs_pushAll_appends [OF n(1) this] all n
  show r: "bs_wf m1 base bs1" "bits_of m1 base (bs_length bs1) = block_bits xs" "bsData bs1 = sl" "length m1 = length m"
    by (auto simp: bits_of_def)
  have "size_ok (length xs div 2)" "even (length xs)" using assms(1) by (simp_all add: block_ok_def)
  from size_okD [OF this(1)] this(2) have "length xs \<le> 4096" by auto
  then show "bs_length bs1 \<le> 65536" using bs_getSize_bytes [OF r(1)] code(2) by simp
qed

text \<open>
  C1. Let a block have 8, 16, ... or 4096 coefficients, none of them \<open>INT16_MIN\<close>, the first one not
  negative or not larger than all the others. When its code is complete (the buffer did not fill up,
  and the code stayed below the 16 bits per coefficient at which \<open>encode\<close> gives up), it is decoded
  exactly: from the stream itself \<open>decode\<close> returns all coefficients with their signs, whatever its
  output buffer, its stack and the tables of the two coders held before.\<close>

theorem nls_roundtrip:
  assumes "block_ok xs" and "coder_ok e" and "coder_ok e'"
    and "mData sl = Some base" and "base + mNumberOfElements sl \<le> length m"
    and "headerSize \<le> mNumberOfElements sl" and "mNumberOfElements sl < 2 ^ 16"
    and "nls_encode e xs m (bs_new sl) = Some (e1, xs1, m1, bs1)"
    and "unat (bs_getSize bs1) \<le> 2 * length xs" and "\<not> bs_isFull bs1"
    and "length xs \<le> length out" and "length signs = MAX_LENGTH"
  shows "\<exists>e2 out2. nls_decode e' m1 bs1 out signs = Some (e2, out2, xs)"
proof -
  note r = encoded_stream [OF assms(1,2,4-10)]
  show ?thesis by (rule decode_ok [OF assms(1,3) r(1-3) assms(11,12)])
qed

text \<open>
  C2. The same blocks over a link, when their code is complete: the stream is serialized behind or in
  front of its buffer, the bytes are deserialized into the buffer of another stream, and the
  receiver's coder returns the block. The receiver's buffer has to be longer than the sender's
  (the test of \<open>deserialize\<close> is strict), and since both copies move more bytes than they need, memory
  for the whole buffer of the sender has to follow the places they write to and read from. The
  serializer must not begin at the sender's buffer, nor the receiver's buffer at the bytes.\<close>

theorem nls_roundtrip_serialized:
  assumes "block_ok xs" and "coder_ok e" and "coder_ok e'"
    and sl: "mData sl = Some base" "base + mNumberOfElements sl \<le> length m" "headerSize \<le> mNumberOfElements sl"
      "mNumberOfElements sl < 2 ^ 16"
    and code: "nls_encode e xs m (bs_new sl) = Some (e1, xs1, m1, bs1)" "unat (bs_getSize bs1) \<le> 2 * length xs" "\<not> bs_isFull bs1"
    and z: "szMemory z = m1" "szBegin z \<noteq> base" "szBuffer z + headerSize + mNumberOfElements sl \<le> length m"
      "szBuffer z + headerSize + mNumberOfElements sl \<le> base \<or> base + mNumberOfElements sl \<le> szBuffer z"
    and t: "mData (bsData t) = Some tb" "tb \<noteq> szBuffer z" "tb + mNumberOfElements (bsData t) \<le> length m"
      "mNumberOfElements sl < mNumberOfElements (bsData t)" "mNumberOfElements (bsData t) < 2 ^ 16"
      "tb + headerSize + mNumberOfElements sl \<le> length m"
    and "length xs \<le> length out" and "length signs = MAX_LENGTH"
  shows "\<exists>z' t' d' e2 out2. bs_serialize bs1 z = Some z' \<and>
    bs_deserialize t (db_new (szMemory z') (szBuffer z)) = Some (True, t', d') \<and>
    nls_decode e' (dzMemory d') t' out signs = Some (e2, out2, xs)"
proof -
  note r = encoded_stream [OF assms(1,2) sl code]
  have p: "unat (bytePointer bs1) \<le> mNumberOfElements sl" using r(1,4) by (auto simp: bs_wf_def)
  have "bs_getSerializedSize bs1 \<le> mNumberOfElements sl + headerSize"
    using bs_size_facts(1) [OF r(1)] r(4) by (simp add: bs_getSerializedSize_def)
  then obtain z' t' d' where l: "bs_serialize bs1 z = Some z'"
      "bs_deserialize t (db_new (szMemory z') (szBuffer z)) = Some (True, t', d')" "bs_wf (dzMemory d') tb t'"
      "bs_length t' = bs_length bs1" "bits_of (dzMemory d') tb (bs_length bs1) = bits_of m1 base (bs_length bs1)"
    using bs_transport [OF r(1) z(1,2) _ _ t(1,2)] z(3,4) t(3-6) p r(4,5) by fastforce
  have "bits_of (dzMemory d') tb (bs_length t') = block_bits xs" "bs_length t' \<le> 65536"
    using l(4,5) r(2,3) by simp_all
  from decode_ok [OF assms(1,3) l(3) this(2,1) assms(21,22)] l(1,2) show ?thesis by blast
qed

text \<open>
  C15. For the blocks of the two theorems above (8 to 4096 coefficients, a power of two, none of them
  \<open>INT16_MIN\<close>, the first one not negative or not larger than all the others) \<open>encode\<close> ends, however
  small the buffer is: no loop of its passes runs forever and no table is left. The stream is again
  well formed, the caller's buffer is the same slice, and nothing outside of its payload is written.
  Blocks of more than 4096 coefficients are not among them: \<open>encode\<close> does not refuse them and writes
  behind its tables.\<close>

theorem nls_encode_ends:
  assumes "block_ok xs" and "coder_ok e"
    and "mData sl = Some base" and "base + mNumberOfElements sl \<le> length m"
    and "headerSize \<le> mNumberOfElements sl" and "mNumberOfElements sl < 2 ^ 16"
  shows "\<exists>e1 xs1 m1 bs1. nls_encode e xs m (bs_new sl) = Some (e1, xs1, m1, bs1) \<and> bs_wf m1 base bs1 \<and>
    bsData bs1 = sl \<and> length m1 = length m \<and>
    (\<forall>i<length m. i < base + headerSize \<or> base + mNumberOfElements sl \<le> i \<longrightarrow> m1 ! i = m ! i)"
proof -
  note n = bs_new_wf [OF assms(3-6)]
  from encode_run [OF assms(1,2) n(1)] obtain e1 xs1 m1 bs1 ks where
    r: "nls_encode e xs m (bs_new sl) = Some (e1, xs1, m1, bs1)" "bs_wf m1 base bs1" "bs_pushAll m (bs_new sl) ks = Some (m1, bs1)"
    by blast
  with bs_pushAll_frame [OF n(1), of ks] n(4) show ?thesis by auto
qed

subsection \<open>Examples\<close>

text \<open>A buffer that cannot hold more than 16 bits per coefficient never trips the limit on the size.\<close>

lemma encode_fits:
  assumes "block_ok xs" and "coder_ok e"
    and sl: "mData sl = Some base" "base + mNumberOfElements sl \<le> length m" "headerSize \<le> mNumberOfElements sl"
      "mNumberOfElements sl < 2 ^ 16"
    and "mNumberOfElements sl \<le> 2 * length xs + headerSize" and "length (block_bits xs) < 8 * (mNumberOfElements sl - headerSize)"
  shows "\<exists>e1 xs1 m1 bs1. nls_encode e xs m (bs_new sl) = Some (e1, xs1, m1, bs1) \<and>
    unat (bs_getSize bs1) \<le> 2 * length xs \<and> \<not> bs_isFull bs1 \<and> length m1 = length m"
proof -
  note n = bs_new_wf [OF sl]
  from encode_run [OF assms(1,2) n(1)] obtain e1 xs1 m1 bs1 ks where
    r: "nls_encode e xs m (bs_new sl) = Some (e1, xs1, m1, bs1)" "bs_wf m1 base bs1" "bs_pushAll m (bs_new sl) ks = Some (m1, bs1)"
      "2 * length xs < unat (bs_getSize bs1) \<or> bs_pushAll m (bs_new sl) (block_bits xs) = Some (m1, bs1)"
    by blast
  have sl1: "bsData bs1 = sl" using bs_pushAll_frame [OF n(1), of ks] r(3) n(4) by auto
  have size: "unat (bs_getSize bs1) \<le> 2 * length xs" using bs_size_facts(1) [OF r(2)] assms(7) sl1 by simp
  with r(4) have all: "bs_pushAll m (bs_new sl) (block_bits xs) = Some (m1, bs1)" by simp
  have "bs_length (bs_new sl) + length (block_bits xs) \<le> bs_capacity (bs_new sl)" using n(2,3) assms(8) by simp
  from bs_pushAll_appends [OF n(1) this] all n(2)
  have "bs_length bs1 = length (block_bits xs)" "length m1 = length m" by auto
  with r(1) size bs_isFull_iff [OF r(2)] assms(8) sl1 show ?thesis by (auto simp: bs_capacity_def)
qed

definition nls_sample :: "int list" where
  "nls_sample = [1, 0, -2, 0, 0, 3, 0, 0]"

definition nls_sample_slice :: slice where
  "nls_sample_slice = \<lparr>mData = Some 0, mNumberOfElements = 19\<rparr>"

lemma nls_sample_bits: "length (block_bits nls_sample) < 100"
  by code_simp

lemma nls_sample_ok: "block_ok nls_sample"
  by (auto simp: block_ok_def nls_sample_def size_ok_def intro!: exI [of _ 2])

lemma nls_sample_encoded:
  "\<exists>e1 xs1 m1 bs1. nls_encode nls_new nls_sample (replicate 80 7) (bs_new nls_sample_slice) = Some (e1, xs1, m1, bs1) \<and>
    unat (bs_getSize bs1) \<le> 2 * length nls_sample \<and> \<not> bs_isFull bs1 \<and> length m1 = 80"
  using encode_fits [OF nls_sample_ok coder_new_ok, of nls_sample_slice 0 "replicate 80 7"] nls_sample_bits
  by (simp add: nls_sample_slice_def nls_sample_def headerSize_def)

lemma nls_roundtrip_witness:
  "\<exists>e1 xs1 m1 bs1 e2 out2.
     nls_encode nls_new nls_sample (replicate 80 7) (bs_new nls_sample_slice) = Some (e1, xs1, m1, bs1) \<and>
     nls_decode nls_new m1 bs1 (replicate 9 5) (replicate MAX_LENGTH True) = Some (e2, out2, nls_sample)"
proof -
  from nls_sample_encoded obtain e1 xs1 m1 bs1 where
    c: "nls_encode nls_new nls_sample (replicate 80 7) (bs_new nls_sample_slice) = Some (e1, xs1, m1, bs1)"
      "unat (bs_getSize bs1) \<le> 2 * length nls_sample" "\<not> bs_isFull bs1" by blast
  have "\<exists>e2 out2. nls_decode nls_new m1 bs1 (replicate 9 5) (replicate MAX_LENGTH True) = Some (e2, out2, nls_sample)"
    by (rule nls_roundtrip [OF nls_sample_ok coder_new_ok coder_new_ok _ _ _ _ c, of 0])
      (simp_all add: nls_sample_slice_def nls_sample_def headerSize_def)
  with c(1) show ?thesis by blast
qed

definition nls_sample_target :: bitstream where
  "nls_sample_target = bs_new \<lparr>mData = Some 50, mNumberOfElements = 25\<rparr>"

lemma nls_roundtrip_serialized_witness:
  "\<exists>e1 xs1 m1 bs1 z' t' d' e2 out2.
     nls_encode nls_new nls_sample (replicate 80 7) (bs_new nls_sample_slice) = Some (e1, xs1, m1, bs1) \<and>
     bs_serialize bs1 (sb_new m1 20) = Some z' \<and>
     bs_deserialize nls_sample_target (db_new (szMemory z') (szBuffer (sb_new m1 20))) = Some (True, t', d') \<and>
     nls_decode nls_new (dzMemory d') t' (replicate 9 5) (replicate MAX_LENGTH True) = Some (e2, out2, nls_sample)"
proof -
  from nls_sample_encoded obtain e1 xs1 m1 bs1 where
    c: "nls_encode nls_new nls_sample (replicate 80 7) (bs_new nls_sample_slice) = Some (e1, xs1, m1, bs1)"
      "unat (bs_getSize bs1) \<le> 2 * length nls_sample" "\<not> bs_isFull bs1" and l: "length m1 = 80" by blast
  have "\<exists>z' t' d' e2 out2. bs_serialize bs1 (sb_new m1 20) = Some z' \<and>
     bs_deserialize nls_sample_target (db_new (szMemory z') (szBuffer (sb_new m1 20))) = Some (True, t', d') \<and>
     nls_decode nls_new (dzMemory d') t' (replicate 9 5) (replicate MAX_LENGTH True) = Some (e2, out2, nls_sample)"
    by (rule nls_roundtrip_serialized [where base = 0 and tb = 50, OF nls_sample_ok coder_new_ok coder_new_ok _ _ _ _ c])
      (simp_all add: nls_sample_slice_def nls_sample_def nls_sample_target_def bs_new_def sb_new_def headerSize_def l)
  with c(1) show ?thesis by blast
qed

lemma nls_encode_ends_witness:
  "\<exists>e1 xs1 m1 bs1. nls_encode nls_new nls_sample (replicate 6 7) (bs_new \<lparr>mData = Some 1, mNumberOfElements = 4\<rparr>) =
      Some (e1, xs1, m1, bs1) \<and> bs_wf m1 1 bs1 \<and> bsData bs1 = \<lparr>mData = Some 1, mNumberOfElements = 4\<rparr> \<and>
    length m1 = length (replicate 6 (7 :: u8)) \<and>
    (\<forall>i<length (replicate 6 (7 :: u8)). i < 1 + headerSize \<or> 1 + mNumberOfElements \<lparr>mData = Some 1, mNumberOfElements = 4\<rparr> \<le> i \<longrightarrow>
      m1 ! i = replicate 6 7 ! i)"
  by (rule nls_encode_ends [OF nls_sample_ok coder_new_ok]) (simp_all add: headerSize_def)

text \<open>
  A negative first coefficient that is the largest is overlooked by the search: here the code gets the
  four planes of 8, while 100 has seven.\<close>

lemma nls_negative_first_overlooked:
  "nls_dc_max [-100, 2, 3, 4, 5, 6, 7, 8] [1..<2] (-100) = Some 2"
  "map_option snd (nls_dmax_loop [-100, 2, 3, 4, 5, 6, 7, 8] 7 (replicate 4 0) 2) = Some 8"
  "Log2 8 = 3" "Log2 100 = 6"
  by (code_simp | simp add: nls_dmax_loop.simps mem_simps Log2.simps)+

end
