(* ===== verification/Spec2Isabelle.thy ===== *)
theory Spec2Isabelle
  imports Ring_Deque Byte_Ring Circular_List Ordered_Map Cobs Serializer Crc Hdlc Bit_Stream Quotas
    Buffer_Pool Shared_Ring Reference_Queue Rmap_System Nls_Lossless
begin

text \<open>
  A verification library for OUTPOST core, the C++ library of the DLR for embedded flight software.
  Paths below are relative to \<open>modules/\<close>; \<open>utils/...\<close> stands for \<open>utils/src/outpost/utils/...\<close>,
  \<open>comm/...\<close> for \<open>comm/src/outpost/comm/...\<close>, and so on.

  \<^bold>\<open>The program.\<close> The base are slices (pointer and length). On them rest the containers, which never
  allocate memory, the coders, which turn bytes into bytes, and the serialization, which turns values
  into bytes. The shared buffers count their references and are taken from a pool; queues and rings
  hand them from one thread to another. The time module has durations, epochs, dates, quotas and
  timeouts. The communication module builds remote memory access packets with the serialization and
  the checksums.

  \<^bold>\<open>How the code is modelled.\<close> An operation is a function on the state of its object, which is a
  record with the members of the class. Reading or writing outside of an array is undefined in C++;
  \<open>aread\<close>, \<open>awrite\<close> and \<open>acopy\<close> (Prelude) give \<open>None\<close> there, and so do signed overflow, a division by
  zero and the use of a null pointer. A theorem that an operation returns \<open>Some\<close> is therefore the
  statement that it runs without undefined behaviour. Fixed width integers are words; \<open>size_t\<close> is a
  natural number with the wrap around at \<open>2 ^ size_bits\<close> (64) written out (\<open>szadd\<close>, \<open>szsub\<close>). Memory
  that several objects share is passed explicitly.

  \<^bold>\<open>The theories.\<close>
  \<^item> Prelude: types, memory accesses, lists. Interfaces: the contracts between components, as locales
    (\<open>bounded_fifo\<close>, \<open>bounded_deque\<close>, \<open>node_sequence\<close>, \<open>simulation\<close>), with the lemmas that clients
    use. Ring_Index: index arithmetic that all rings share.
  \<^item> Slices: base/slice.h. Ring_Deque: utils/container/deque.h. Byte_Ring:
    utils/container/byte_array_ring_buffer.h. Both interpret \<open>bounded_fifo\<close>: every sequence of calls
    behaves like the same calls on a list of bounded length.
  \<^item> Linked_List and Circular_List: utils/container/list.h and circular_singly_linked_list.h, intrusive
    lists over a heap of nodes, with the removing operations that call back; \<open>node_sequence\<close> is
    interpreted for both. Ordered_Map: utils/container/fixed_ordered_map.h.
  \<^item> Cobs, Hdlc: utils/coding/cobs.h and hdlc.h, encoders into buffers of any size, decoders, and the
    generator that encodes byte by byte; decoding gives back what was encoded, and no input makes a
    decoder leave its buffers.
  \<^item> Crc: utils/coding/crc8, crc16, crc32. The tables are the ones of polynomial division, and any
    single byte error is found.
  \<^item> Scalar_Codec, Serialize_Traits, Serialize_LE_Traits, Serializer: utils/storage/serialize*.h. The
    locales \<open>scalar_codec\<close>, \<open>exact_codec\<close> and \<open>message_codec\<close> are interpreted for every integer type
    in both byte orders; messages of any fields can be read back.
  \<^item> Bit_Access, Bitfields, Bit_Stream: utils/storage/bit_access.h, bitfield.h, bitstream.h.
  \<^item> Time_Core, Dates, Epochs, Quotas: the time module. Durations are 64 bit counts of microseconds
    with overflow as \<open>None\<close>; dates agree with the Gregorian calendar; conversions between epochs are
    reversible where they should be; quotas grant what their policy says.
  \<^item> Shared_Buffers, Buffer_Pool: utils/container/shared_buffer.h and shared_object_pool.h. A program is
    a sequence of calls on its pointers (\<open>call_step\<close>); in every reachable state each buffer counts
    exactly the pointers to it. Shared_Ring: utils/container/shared_ring_buffer.h.
  \<^item> Rtos_Queue, Reference_Queue: the POSIX queue (rtos/arch/posix) and utils/container/reference_queue.h.
    Threads are interleaved steps; a call that holds the mutex is one step.
  \<^item> Rmap_Node, Rmap_Packet: comm/rmap/rmap_node and rmap_packet. Commands are laid out byte for byte;
    the answer to received bytes is the one of a specification over the bytes, and a corrupted reply is
    never accepted.
  \<^item> Rmap_Initiator, Rmap_System: comm/rmap/rmap_initiator and rmap_transaction. \<open>in_write\<close> and \<open>in_read\<close>
    are the whole calls. For threads that overlap, the calls are cut where they take or give back
    the lock, and in the middle of \<open>sendPacket\<close>, which uses a buffer that all threads share; \<open>sys_step\<close>
    is one such piece of one thread or one step of the receiver. Whether the driver accepts a packet
    and which messages arrive are parameters. Threads keep apart, success means that a fitting
    message arrived, no call gets stuck, and a read from an answering target returns its memory.
  \<^item> Nls_Coder: compression/nls_encoder. Nls_Tree shows that the table of markers is a tree of pairs
    whose inner nodes stand for whole sets, Nls_Passes describes the three passes of a bit plane as a
    machine on that tree; its locale \<open>nls_plane\<close> is interpreted for the encoder and for the decoder
    (Nls_Roundtrip), and Nls_Lossless adds the header and the search for the largest value: what was
    encoded completely is decoded exactly, also after the bit stream was serialized. \<open>nls_while\<close> and
    \<open>nls_push_loop\<close> are loops without a bound; that they end is part of the theorems.

  \<^bold>\<open>Bounds and fuel.\<close> Loops are structural recursion or have a measure. Where a loop of the code ends
  because an index comes round a ring (\<open>pool_search\<close>, \<open>rf_search\<close>), the number of slots is the fuel:
  the index is back where it started after that many steps, and the theorems show that the fuel never
  runs out. \<open>cobs_drain\<close> bounds the calls of a user by a number that the theorem about it gives.
  Sequences of nodes are walked by \<open>partial_function (option)\<close>; that the walk ends is part of the
  theorems.

  \<^bold>\<open>Not modelled.\<close> The manifest lists the parts that are left out, each with its reason.
\<close>

end
